(* ===== verification/Prelude.thy ===== *)
theory Prelude
  imports Main "HOL-Library.Word" "HOL-Library.List_Lexorder"
begin

text \<open>
  What every component shares: the byte and word types of the Go code, its errors as the values
  of one datatype, the sum type that a Go pair \<open>(value, err)\<close> becomes, windows of byte slices
  (\<^verbatim>\<open>b[i:j]\<close>, \<^verbatim>\<open>copy\<close>), and the fixed-width integers of Go's package
  \<^verbatim>\<open>encoding/binary\<close>.
\<close>

section \<open>Bytes, words and errors\<close>

type_synonym byte = "8 word"
type_synonym bytes = "8 word list"
type_synonym u16 = "16 word"
type_synonym u32 = "32 word"
type_synonym u64 = "64 word"

text \<open>
  The errors of the program, one constructor per sentinel or per place that formats one.
  \<open>Panic\<close> is a Go run-time panic (an index or slice out of range). \<open>NoFuel\<close> is no value of the
  code: it is the result of a loop or recursion of the model that has not returned within the
  fuel it was given, so a theorem whose conclusion is an \<open>Inr\<close> says that the code returns.
\<close>

datatype error =
    Panic
  | NoFuel
  | ErrBadLength
  | ErrBadMagic
  | ErrBadChecksum
  | ErrBadMetaMagic
  | ErrNotMetaPage "8 word"
  | ErrReadAt
  | ErrWriteAt
  | ErrPageRange "64 word"
  | ErrNotBTreeNode "64 word" "8 word"
  | ErrTruncatedLeaf
  | ErrTruncatedLeafKeyLen
  | ErrTruncatedLeafKey
  | ErrTruncatedOverflowRef
  | ErrTruncatedValueLen
  | ErrTruncatedValue
  | ErrTruncatedInternal
  | ErrTruncatedSepLen
  | ErrTruncatedSep
  | ErrNotOverflow "64 word"
  | ErrCorruptOverflow "64 word"
  | ErrNotAscending
  | ErrUnknownOp "8 word"
  | ErrEOF
  | ErrCorrupt
  | ErrVersion "8 word"
  | ErrTooLarge
  | ErrIO
  | ErrClosed
  | ErrBadPattern
  | ErrBadConfig
  | ErrBadFlag
  | ErrService
  | ErrMarshal
  | ErrUnmarshal
  | ErrNotExist
  | ErrExist
  | ErrCorruptCurrent
  | ErrClassExists
  | ErrNoClass
  | ErrClassNotEmpty
  | ErrNotFound
  | ErrInvalidName

type_synonym 'a res = "error + 'a"

text \<open>\<^verbatim>\<open>x, err := m; if err != nil { return err }; ...\<close>\<close>

definition bindE :: "'a res \<Rightarrow> ('a \<Rightarrow> 'b res) \<Rightarrow> 'b res" where
  "bindE m f = (case m of Inl e \<Rightarrow> Inl e | Inr x \<Rightarrow> f x)"

definition guardE :: "bool \<Rightarrow> error \<Rightarrow> unit res" where
  "guardE b e = (if b then Inr () else Inl e)"

named_theorems byte_simps \<open>reading back what was written into a byte buffer\<close>
named_theorems fit_simps \<open>the layout's size constants and the encoders' lengths\<close>

lemma bindE_simps [simp]:
  "bindE (Inl e) f = Inl e"
  "bindE (Inr x) f = f x"
  by (simp_all add: bindE_def)

lemma bindE_Inr_iff: "bindE m f = Inr y \<longleftrightarrow> (\<exists>x. m = Inr x \<and> f x = Inr y)"
  by (cases m) simp_all

lemma bindE_Inl_iff: "bindE m f = Inl e \<longleftrightarrow> m = Inl e \<or> (\<exists>x. m = Inr x \<and> f x = Inl e)"
  by (cases m) simp_all

lemma bindE_cong [fundef_cong]:
  "m = m' \<Longrightarrow> (\<And>x. m' = Inr x \<Longrightarrow> f x = f' x) \<Longrightarrow> bindE m f = bindE m' f'"
  by (cases m') simp_all

lemma guardE_simps [simp]:
  "guardE True e = Inr ()"
  "guardE False e = Inl e"
  "(guardE b e = Inr u) = b"
  by (simp_all add: guardE_def)

section \<open>Windows of byte slices\<close>

text \<open>
  \<open>sub i n bs\<close> is \<^verbatim>\<open>bs[i:i+n]\<close> where the bounds are known to hold; \<open>copy_at off src dst\<close> is
  \<^verbatim>\<open>copy(dst[off:], src)\<close>: as many bytes as fit, the length of \<open>dst\<close> unchanged.
\<close>

definition sub :: "nat \<Rightarrow> nat \<Rightarrow> 'a list \<Rightarrow> 'a list" where
  "sub i n bs = take n (drop i bs)"

definition copy_at :: "nat \<Rightarrow> 'a list \<Rightarrow> 'a list \<Rightarrow> 'a list" where
  "copy_at off src dst =
     take off dst @ take (length dst - off) src @ drop (off + length src) dst"

lemma length_sub [simp]: "i + n \<le> length bs \<Longrightarrow> length (sub i n bs) = n"
  by (simp add: sub_def)

lemma length_copy_at [simp]: "length (copy_at off src dst) = length dst"
  by (auto simp: copy_at_def)

lemma nth_copy_at:
  assumes "off + length src \<le> length dst" "i < length dst"
  shows "copy_at off src dst ! i =
    (if off \<le> i \<and> i < off + length src then src ! (i - off) else dst ! i)"
  using assms by (auto simp: copy_at_def nth_append min_def)

lemma sub_copy_at_same [byte_simps]:
  assumes "off + length src \<le> length dst" "n = length src"
  shows "sub off n (copy_at off src dst) = src"
  using assms by (simp add: sub_def copy_at_def)

lemma sub_copy_at_other [byte_simps]:
  assumes "off + length src \<le> length dst" "i + n \<le> off \<or> off + length src \<le> i"
  shows "sub i n (copy_at off src dst) = sub i n dst"
proof (rule nth_equalityI)
  show "length (sub i n (copy_at off src dst)) = length (sub i n dst)"
    by (simp add: sub_def)
next
  fix k
  assume "k < length (sub i n (copy_at off src dst))"
  then have "k < n" "i + k < length dst" by (auto simp: sub_def)
  then show "sub i n (copy_at off src dst) ! k = sub i n dst ! k"
    using assms by (auto simp: sub_def nth_copy_at)
qed

lemma sub_append_left [byte_simps]: "i + n \<le> length xs \<Longrightarrow> sub i n (xs @ ys) = sub i n xs"
  by (simp add: sub_def)

lemma sub_append_right [byte_simps]:
  "length xs \<le> i \<Longrightarrow> sub i n (xs @ ys) = sub (i - length xs) n ys"
  by (simp add: sub_def)

lemma sub_Cons [byte_simps]:
  "sub (Suc i) n (x # xs) = sub i n xs"
  "sub (numeral w) n (x # xs) = sub (pred_numeral w) n xs"
  by (simp_all add: sub_def numeral_eq_Suc)

lemma sub_0_all [byte_simps]: "n = length bs \<Longrightarrow> sub 0 n bs = bs"
  by (simp add: sub_def)

text \<open>Two copies side by side are one copy of the two pieces.\<close>

lemma copy_at_adjacent:
  assumes "off2 = off + length xs" "off2 + length ys \<le> length dst"
  shows "copy_at off2 ys (copy_at off xs dst) = copy_at off (xs @ ys) dst"
  by (rule nth_equalityI) (use assms in \<open>auto simp: nth_copy_at nth_append\<close>)

lemma sub_list_update:
  "sub i n (xs[k := b]) = (if k < i \<or> i + n \<le> k then sub i n xs else (sub i n xs)[k - i := b])"
  by (auto simp: sub_def drop_update_swap take_update_swap list_update_beyond)

lemma sub_update_neq:
  assumes "i \<le> k" "k < i + n" "k < length xs" "b \<noteq> xs ! k"
  shows "(sub i n xs)[k - i := b] \<noteq> sub i n xs"
proof
  assume "(sub i n xs)[k - i := b] = sub i n xs"
  moreover have "k - i < length (sub i n xs)" using assms by (auto simp: sub_def)
  ultimately have "sub i n xs ! (k - i) = b" by (metis nth_list_update_eq)
  then show False using assms by (simp add: sub_def)
qed

lemma copy_at_0_prefix:
  "length src \<le> length dst \<Longrightarrow> take (length src) (copy_at 0 src dst) = src"
  by (simp add: copy_at_def)

section \<open>Fixed-width integers in bytes\<close>

text \<open>
  \<open>le_bytes k x\<close> is the little-endian encoding of \<open>x\<close> in \<open>k\<close> bytes, \<open>le_nat\<close> the number a
  little-endian byte string stands for; \<^verbatim>\<open>PutUintN\<close> and \<^verbatim>\<open>UintN\<close> of
  \<^verbatim>\<open>encoding/binary\<close> are these at 2, 4 and 8 bytes, big-endian the reverse.
\<close>

fun le_bytes :: "nat \<Rightarrow> nat \<Rightarrow> bytes" where
  "le_bytes 0 x = []"
| "le_bytes (Suc k) x = word_of_nat (x mod 256) # le_bytes k (x div 256)"

fun le_nat :: "bytes \<Rightarrow> nat" where
  "le_nat [] = 0"
| "le_nat (b # bs) = unat b + 256 * le_nat bs"

definition put16 :: "u16 \<Rightarrow> bytes" where
  "put16 w = le_bytes 2 (unat w)"

definition put32 :: "u32 \<Rightarrow> bytes" where
  "put32 w = le_bytes 4 (unat w)"

definition put64 :: "u64 \<Rightarrow> bytes" where
  "put64 w = le_bytes 8 (unat w)"

definition get16 :: "bytes \<Rightarrow> u16" where
  "get16 bs = word_of_nat (le_nat bs)"

definition get32 :: "bytes \<Rightarrow> u32" where
  "get32 bs = word_of_nat (le_nat bs)"

definition get64 :: "bytes \<Rightarrow> u64" where
  "get64 bs = word_of_nat (le_nat bs)"

definition put64be :: "u64 \<Rightarrow> bytes" where
  "put64be w = rev (le_bytes 8 (unat w))"

definition get64be :: "bytes \<Rightarrow> u64" where
  "get64be bs = word_of_nat (le_nat (rev bs))"

lemma length_le_bytes [simp]: "length (le_bytes k x) = k"
  by (induction k arbitrary: x) auto

lemma le_nat_le_bytes: "le_nat (le_bytes k x) = x mod 256 ^ k"
proof (induction k arbitrary: x)
  case 0
  then show ?case by simp
next
  case (Suc k)
  have "unat (word_of_nat (x mod 256) :: byte) = x mod 256"
    by (simp add: unat_of_nat)
  then show ?case
    using mod_mult2_eq [of x 256 "256 ^ k"] by (simp add: Suc.IH)
qed

lemma le_nat_less: "le_nat bs < 256 ^ length bs"
proof (induction bs)
  case Nil
  then show ?case by simp
next
  case (Cons b bs)
  have "unat b < 256" using unsigned_less [where w=b] by simp
  with Cons.IH show ?case by simp
qed

lemma le_bytes_le_nat: "le_bytes (length bs) (le_nat bs) = bs"
proof (induction bs)
  case Nil
  then show ?case by simp
next
  case (Cons b bs)
  have b: "unat b < 256" using unsigned_less [where w=b] by simp
  have "(unat b + 256 * le_nat bs) mod 256 = unat b"
    using b by (simp add: mod_add_eq [symmetric])
  moreover have "(unat b + 256 * le_nat bs) div 256 = le_nat bs"
    using b by simp
  ultimately show ?case using Cons.IH by simp
qed

lemma length_put [simp]:
  "length (put16 v) = 2"
  "length (put32 w) = 4"
  "length (put64 x) = 8"
  "length (put64be x) = 8"
  by (simp_all add: put16_def put32_def put64_def put64be_def)

lemma get_put [simp]:
  "get16 (put16 v) = v"
  "get32 (put32 w) = w"
  "get64 (put64 x) = x"
  "get64be (put64be x) = x"
proof -
  have "unat v < 256 ^ 2" "unat w < 256 ^ 4" "unat x < 256 ^ 8"
    using unsigned_less [where w=v] unsigned_less [where w=w] unsigned_less [where w=x] by simp_all
  then show "get16 (put16 v) = v" "get32 (put32 w) = w" "get64 (put64 x) = x"
    "get64be (put64be x) = x"
    unfolding get16_def put16_def get32_def put32_def get64_def put64_def get64be_def put64be_def
    by (simp_all add: le_nat_le_bytes)
qed

lemma sint_word_of_nat:
  assumes "n < 2 ^ 63"
  shows "sint (word_of_nat n :: u64) = int n"
proof -
  have "sint (word_of_nat n :: u64) = (int n + 2 ^ 63) mod 2 ^ 64 - 2 ^ 63"
    using int_word_sint [where 'a=64, of "int n"] by simp
  then show ?thesis using assms by simp
qed

lemma get32_inject:
  assumes "length bs = 4" "length cs = 4"
  shows "get32 bs = get32 cs \<longleftrightarrow> bs = cs"
proof -
  have "unat (get32 ds) = le_nat ds" if "length ds = 4" for ds
    using that le_nat_less [of ds] by (simp add: get32_def unat_of_nat)
  then show ?thesis using assms le_bytes_le_nat by metis
qed

lemma put_get64be: "length bs = 8 \<Longrightarrow> put64be (get64be bs) = bs"
proof -
  assume len: "length bs = 8"
  then have "le_nat (rev bs) < 256 ^ 8" using le_nat_less [of "rev bs"] by simp
  then have "unat (word_of_nat (le_nat (rev bs)) :: u64) = le_nat (rev bs)"
    by (simp add: unat_of_nat)
  then show ?thesis
    using le_bytes_le_nat [of "rev bs"] len by (simp add: put64be_def get64be_def)
qed

lemma put64_inject [simp]: "put64 x = put64 y \<longleftrightarrow> x = y"
  by (metis get_put(3))

lemma put64be_inject [simp]: "put64be x = put64be y \<longleftrightarrow> x = y"
  by (metis get_put(4))

text \<open>Big-endian encodings of one width order as the numbers do.\<close>

lemma list_less_append_same_length:
  fixes xs ys :: "'a::linorder list"
  assumes "length xs = length ys"
  shows "xs @ us < ys @ vs \<longleftrightarrow> xs < ys \<or> xs = ys \<and> us < vs"
  using assms by (induction xs ys rule: list_induct2) auto

lemma less_by_digits:
  "(x::nat) < y \<longleftrightarrow> x div 256 < y div 256 \<or> x div 256 = y div 256 \<and> x mod 256 < y mod 256"
proof -
  have "x = 256 * (x div 256) + x mod 256" "y = 256 * (y div 256) + y mod 256"
    "x mod 256 < 256" "y mod 256 < 256" by simp_all
  then show ?thesis by linarith
qed

lemma rev_le_bytes_less:
  assumes "x < 256 ^ k" "y < 256 ^ k"
  shows "rev (le_bytes k x) < rev (le_bytes k y) \<longleftrightarrow> x < y"
  using assms
proof (induction k arbitrary: x y)
  case 0
  then show ?case by simp
next
  case (Suc k)
  have div: "x div 256 < 256 ^ k" "y div 256 < 256 ^ k"
    using Suc.prems by (simp_all add: less_mult_imp_div_less mult.commute)
  have eq: "rev (le_bytes k (x div 256)) = rev (le_bytes k (y div 256)) \<longleftrightarrow> x div 256 = y div 256"
  proof
    assume "rev (le_bytes k (x div 256)) = rev (le_bytes k (y div 256))"
    then have "le_nat (le_bytes k (x div 256)) = le_nat (le_bytes k (y div 256))" by simp
    then show "x div 256 = y div 256" using div by (simp add: le_nat_le_bytes)
  qed simp
  have w: "(word_of_nat (x mod 256) :: byte) < word_of_nat (y mod 256) \<longleftrightarrow> x mod 256 < y mod 256"
    by (simp add: word_less_nat_alt unat_of_nat)
  have "rev (le_bytes (Suc k) x) < rev (le_bytes (Suc k) y) \<longleftrightarrow>
      x div 256 < y div 256 \<or> x div 256 = y div 256 \<and> x mod 256 < y mod 256"
    using div by (simp add: list_less_append_same_length Suc.IH eq [simplified] w)
  also have "\<dots> \<longleftrightarrow> x < y"
    by (rule less_by_digits [symmetric])
  finally show ?case .
qed

lemma put64be_less: "put64be x < put64be y \<longleftrightarrow> x < y"
proof -
  have "unat x < 256 ^ 8" "unat y < 256 ^ 8"
    using unsigned_less [where w=x] unsigned_less [where w=y] by simp_all
  then show ?thesis
    by (simp add: put64be_def rev_le_bytes_less word_less_nat_alt del: le_bytes.simps)
qed

section \<open>Invariants of steps\<close>

text \<open>What the components with steps of their own promise: an invariant that every step keeps.\<close>

locale step_invariant =
  fixes step :: "'s \<Rightarrow> 's \<Rightarrow> bool"
    and kept :: "'s \<Rightarrow> bool"
  assumes step_law: "step s s' \<Longrightarrow> kept s \<Longrightarrow> kept s'"
begin

lemma steps_law: "step\<^sup>*\<^sup>* s s' \<Longrightarrow> kept s \<Longrightarrow> kept s'"
  by (induction rule: rtranclp_induct) (blast intro: step_law)+

end

end
