(* ===== verification/Crc.thy ===== *)
theory Crc
  imports Prelude
begin

text \<open>
  The CRC32C of Go's \<^verbatim>\<open>hash/crc32\<close> with the Castagnoli table, which the page format and the
  WAL record format both use. \<open>crc_update crc p\<close> is \<^verbatim>\<open>crc32.Update(crc, table, p)\<close>: the
  reflected algorithm, one bit at a time, between two complements. The lemmas show that updating is
  concatenation and that two inputs of one length that differ in one byte have different sums.
\<close>

unbundle bit_operations_syntax

definition castagnoli :: u32 where
  "castagnoli = 0x82F63B78"

definition crc_bit :: "u32 \<Rightarrow> u32" where
  "crc_bit c = (if bit c 0 then drop_bit 1 c XOR castagnoli else drop_bit 1 c)"

definition crc_byte :: "u32 \<Rightarrow> byte \<Rightarrow> u32" where
  "crc_byte c b = (crc_bit ^^ 8) (c XOR ucast b)"

definition crc_update :: "u32 \<Rightarrow> bytes \<Rightarrow> u32" where
  "crc_update crc p = NOT (foldl crc_byte (NOT crc) p)"

definition crc_checksum :: "bytes \<Rightarrow> u32" where
  "crc_checksum p = crc_update 0 p"

text \<open>The published check value: the CRC32C of the nine bytes \<^verbatim>\<open>123456789\<close>.\<close>

lemma crc_byte_unroll:
  "crc_byte c b =
     crc_bit (crc_bit (crc_bit (crc_bit (crc_bit (crc_bit (crc_bit (crc_bit (c XOR ucast b))))))))"
  by (simp add: crc_byte_def numeral_eq_Suc)

lemma crc_bit_numeral:
  "crc_bit (numeral n) =
     (if bit (numeral n :: u32) 0 then drop_bit 1 (numeral n) XOR castagnoli
      else drop_bit 1 (numeral n))"
  by (simp add: crc_bit_def)

lemma crc_checksum_fold: "crc_checksum p = NOT (foldl crc_byte 0xFFFFFFFF p)"
proof -
  have "(-1 :: u32) = 0xFFFFFFFF"
    by (rule unsigned_word_eqI [where ?'a=nat])
      (simp add: unsigned_minus_1_eq_mask mask_eq_exp_minus_1)
  then show ?thesis
    unfolding crc_checksum_def crc_update_def bit.compl_zero by (simp only:)
qed

lemma crc_check_value:
  "crc_checksum [0x31, 0x32, 0x33, 0x34, 0x35, 0x36, 0x37, 0x38, 0x39] = 0xE3069283"
proof -
  have "foldl crc_byte 0xFFFFFFFF [0x31, 0x32, 0x33, 0x34, 0x35, 0x36, 0x37, 0x38, 0x39]
      = 486108540"
    by (simp add: crc_byte_unroll crc_bit_numeral castagnoli_def)
  moreover have "NOT (486108540 :: u32) = 0xE3069283"
    by (rule unsigned_word_eqI [where ?'a=nat]) (simp add: unsigned_not_eq)
  ultimately show ?thesis by (simp only: crc_checksum_fold)
qed

lemma crc_update_append: "crc_update (crc_update crc xs) ys = crc_update crc (xs @ ys)"
  by (simp add: crc_update_def)

lemma crc_checksum_append: "crc_update (crc_checksum xs) ys = crc_checksum (xs @ ys)"
  by (simp add: crc_checksum_def crc_update_append)

section \<open>Every change of one byte changes the sum\<close>

lemma xor_left_inject: "(a::u32) XOR b = a XOR c \<longleftrightarrow> b = c"
proof
  assume "a XOR b = a XOR c"
  then have "a XOR (a XOR b) = a XOR (a XOR c)" by simp
  then show "b = c" by (simp add: xor.assoc [symmetric])
qed simp

lemma bit_crc_bit_31: "bit (crc_bit c) 31 = bit c 0"
proof -
  have "\<not> bit c 32" using bit_imp_le_length [of c 32] by auto
  then show ?thesis
    by (simp add: crc_bit_def castagnoli_def bit_xor_iff bit_drop_bit_eq bit_simps)
qed

lemma crc_bit_inject [simp]: "crc_bit a = crc_bit b \<longleftrightarrow> a = b"
proof
  assume eq: "crc_bit a = crc_bit b"
  have low: "bit a 0 = bit b 0" using eq by (metis bit_crc_bit_31)
  have "drop_bit 1 a = drop_bit 1 b"
  proof (cases "bit b 0")
    case True
    with eq low have "castagnoli XOR drop_bit 1 a = castagnoli XOR drop_bit 1 b"
      by (simp add: crc_bit_def xor.commute)
    then show ?thesis by (simp only: xor_left_inject)
  next
    case False
    with eq low show ?thesis by (simp add: crc_bit_def)
  qed
  then have "bit a (Suc n) = bit b (Suc n)" for n
    by (metis bit_drop_bit_eq comp_apply plus_1_eq_Suc)
  with low have "bit a n = bit b n" for n by (cases n) simp_all
  then show "a = b" by (simp add: bit_eq_iff)
qed simp

lemma crc_bits_inject: "(crc_bit ^^ n) a = (crc_bit ^^ n) b \<longleftrightarrow> a = b"
  by (induction n) simp_all

lemma unat_byte_u32: "unat (ucast (b::byte) :: u32) = unat b"
  using unsigned_less [of b, where ?'a=nat] by (simp add: unsigned_ucast_eq take_bit_nat_eq_self_iff)

lemma crc_byte_inject [simp]:
  "crc_byte c b = crc_byte d b \<longleftrightarrow> c = d"
  "crc_byte c b = crc_byte c b' \<longleftrightarrow> b = b'"
proof -
  show "crc_byte c b = crc_byte d b \<longleftrightarrow> c = d"
    by (simp add: crc_byte_def crc_bits_inject xor.commute [of _ "ucast b"] xor_left_inject)
  have "(ucast b :: u32) = ucast b' \<longleftrightarrow> b = b'"
    by (metis unat_byte_u32 unsigned_word_eqI)
  then show "crc_byte c b = crc_byte c b' \<longleftrightarrow> b = b'"
    by (simp add: crc_byte_def crc_bits_inject xor_left_inject)
qed

lemma crc_fold_inject: "foldl crc_byte c xs = foldl crc_byte d xs \<longleftrightarrow> c = d"
  by (induction xs arbitrary: c d) simp_all

lemma not_inject: "NOT (a::u32) = NOT b \<longleftrightarrow> a = b"
  by (metis bit.double_compl)

lemma crc_update_one_byte:
  "crc_update crc (xs @ b # ys) = crc_update crc (xs @ b' # ys) \<longleftrightarrow> b = b'"
  by (simp add: crc_update_def crc_fold_inject not_inject)

lemma crc_checksum_list_update:
  assumes "i < length xs" "xs ! i \<noteq> b"
  shows "crc_checksum (xs[i := b]) \<noteq> crc_checksum xs"
proof -
  have "xs = take i xs @ xs ! i # drop (Suc i) xs"
    using assms(1) by (rule id_take_nth_drop)
  moreover have "xs[i := b] = take i xs @ b # drop (Suc i) xs"
    using assms(1) by (rule upd_conv_take_nth_drop)
  ultimately show ?thesis
    using assms(2) crc_update_one_byte unfolding crc_checksum_def by metis
qed

end
