(* ===== verification/Page.thy ===== *)
theory Page
  imports Crc
begin

text \<open>
  \<^verbatim>\<open>internal/storage/page/page.go\<close>: the fixed-size page, its header fields and its checksum.
  A \<open>page\<close> is the 4096-byte buffer of the Go struct; every accessor reads or writes the bytes at
  the header offset the code names. The lemmas give what each accessor reads back after each
  write, and what \<open>page_Verify\<close> accepts and rejects.
\<close>

definition PageSize :: nat where
  "PageSize = 4096"

definition HeaderSize :: nat where
  "HeaderSize = 32"

definition BodySize :: nat where
  "BodySize = PageSize - HeaderSize"

definition page_magic :: u32 where
  "page_magic = 0x5A444231"

definition InvalidPageID :: u64 where
  "InvalidPageID = NOT 0"

definition MetaPageID :: u64 where
  "MetaPageID = 0"

text \<open>\<^verbatim>\<open>type PageType uint8\<close>: a page read from disk may hold any byte, so the type is the byte.\<close>

definition PageTypeFree :: byte where "PageTypeFree = 0"
definition PageTypeMeta :: byte where "PageTypeMeta = 1"
definition PageTypeBTreeLeaf :: byte where "PageTypeBTreeLeaf = 2"
definition PageTypeBTreeInternal :: byte where "PageTypeBTreeInternal = 3"
definition PageTypeOverflow :: byte where "PageTypeOverflow = 4"

definition offChecksum :: nat where "offChecksum = 0"
definition offMagic :: nat where "offMagic = 4"
definition offType :: nat where "offType = 8"
definition offFlags :: nat where "offFlags = 9"
definition offPayloadLen :: nat where "offPayloadLen = 12"
definition offID :: nat where "offID = 16"
definition offLSN :: nat where "offLSN = 24"

lemmas page_layout [fit_simps] =
  PageSize_def HeaderSize_def BodySize_def offChecksum_def offMagic_def offType_def offFlags_def
  offPayloadLen_def offID_def offLSN_def

lemmas page_types =
  PageTypeFree_def PageTypeMeta_def PageTypeBTreeLeaf_def PageTypeBTreeInternal_def
  PageTypeOverflow_def

record page =
  page_data :: bytes

section \<open>Construction and accessors\<close>

definition page_New :: "u64 \<Rightarrow> byte \<Rightarrow> page" where
  "page_New pid t =
     (let d = replicate PageSize 0;
          d = copy_at offMagic (put32 page_magic) d;
          d = copy_at offType [t] d;
          d = copy_at offID (put64 pid) d
      in \<lparr>page_data = d\<rparr>)"

definition page_From :: "bytes \<Rightarrow> page res" where
  "page_From d = (if length d \<noteq> PageSize then Inl ErrBadLength else Inr \<lparr>page_data = d\<rparr>)"

definition page_ID :: "page \<Rightarrow> u64" where
  "page_ID p = get64 (sub offID 8 (page_data p))"

definition page_SetID :: "page \<Rightarrow> u64 \<Rightarrow> page" where
  "page_SetID p pid = p\<lparr>page_data := copy_at offID (put64 pid) (page_data p)\<rparr>"

definition page_Type :: "page \<Rightarrow> byte" where
  "page_Type p = page_data p ! offType"

definition page_SetType :: "page \<Rightarrow> byte \<Rightarrow> page" where
  "page_SetType p t = p\<lparr>page_data := copy_at offType [t] (page_data p)\<rparr>"

definition page_Flags :: "page \<Rightarrow> byte" where
  "page_Flags p = page_data p ! offFlags"

definition page_SetFlags :: "page \<Rightarrow> byte \<Rightarrow> page" where
  "page_SetFlags p f = p\<lparr>page_data := copy_at offFlags [f] (page_data p)\<rparr>"

definition page_PayloadLen :: "page \<Rightarrow> u32" where
  "page_PayloadLen p = get32 (sub offPayloadLen 4 (page_data p))"

definition page_SetPayloadLen :: "page \<Rightarrow> u32 \<Rightarrow> page" where
  "page_SetPayloadLen p n = p\<lparr>page_data := copy_at offPayloadLen (put32 n) (page_data p)\<rparr>"

definition page_LSN :: "page \<Rightarrow> u64" where
  "page_LSN p = get64 (sub offLSN 8 (page_data p))"

definition page_SetLSN :: "page \<Rightarrow> u64 \<Rightarrow> page" where
  "page_SetLSN p lsn = p\<lparr>page_data := copy_at offLSN (put64 lsn) (page_data p)\<rparr>"

text \<open>
  \<^verbatim>\<open>Body\<close> is a window that aliases the buffer: \<open>page_Body\<close> reads it and \<open>page_SetBody\<close> is
  \<^verbatim>\<open>copy(p.Body()[off:], src)\<close>.
\<close>

definition page_Body :: "page \<Rightarrow> bytes" where
  "page_Body p = drop HeaderSize (page_data p)"

definition page_SetBody :: "page \<Rightarrow> nat \<Rightarrow> bytes \<Rightarrow> page" where
  "page_SetBody p off src = p\<lparr>page_data := copy_at (HeaderSize + off) src (page_data p)\<rparr>"

definition page_Payload :: "page \<Rightarrow> bytes" where
  "page_Payload p =
     (let n = unat (page_PayloadLen p);
          n = (if n > BodySize then BodySize else n)
      in sub HeaderSize n (page_data p))"

definition page_Finalize :: "page \<Rightarrow> page" where
  "page_Finalize p =
     p\<lparr>page_data :=
         copy_at offChecksum (put32 (crc_checksum (drop offMagic (page_data p)))) (page_data p)\<rparr>"

definition page_Verify :: "page \<Rightarrow> unit res" where
  "page_Verify p =
     (if length (page_data p) \<noteq> PageSize then Inl ErrBadLength
      else if get32 (sub offMagic 4 (page_data p)) \<noteq> page_magic then Inl ErrBadMagic
      else if get32 (sub offChecksum 4 (page_data p)) \<noteq> crc_checksum (drop offMagic (page_data p))
        then Inl ErrBadChecksum
      else Inr ())"

section \<open>Reading back\<close>

text \<open>
  \<open>page_wf\<close> is what \<open>page_New\<close> establishes and every setter keeps: a buffer of one page with the
  magic in place.
\<close>

definition page_wf :: "page \<Rightarrow> bool" where
  "page_wf p \<longleftrightarrow> length (page_data p) = PageSize \<and> sub offMagic 4 (page_data p) = put32 page_magic"

lemma nth_as_sub: "i < length d \<Longrightarrow> d ! i = hd (sub i 1 d)"
  by (simp add: sub_def hd_drop_conv_nth take_Suc_conv_app_nth Cons_nth_drop_Suc [symmetric])

lemma page_wf_New [simp]: "page_wf (page_New pid t)"
  by (simp add: page_wf_def page_New_def Let_def byte_simps fit_simps)

lemma page_wf_setters [simp]:
  "page_wf p \<Longrightarrow> page_wf (page_SetID p pid)"
  "page_wf p \<Longrightarrow> page_wf (page_SetType p t)"
  "page_wf p \<Longrightarrow> page_wf (page_SetFlags p f)"
  "page_wf p \<Longrightarrow> page_wf (page_SetPayloadLen p n)"
  "page_wf p \<Longrightarrow> page_wf (page_SetLSN p lsn)"
  "page_wf p \<Longrightarrow> off + length src \<le> BodySize \<Longrightarrow> page_wf (page_SetBody p off src)"
  "page_wf p \<Longrightarrow> page_wf (page_Finalize p)"
  by (simp_all add: page_wf_def page_SetID_def page_SetType_def page_SetFlags_def
      page_SetPayloadLen_def page_SetLSN_def page_SetBody_def page_Finalize_def
      byte_simps fit_simps)

lemma page_ID_New [simp]: "page_ID (page_New pid t) = pid"
  by (simp add: page_ID_def page_New_def Let_def byte_simps fit_simps)

lemma page_Type_New [simp]: "page_Type (page_New pid t) = t"
  by (simp add: page_Type_def page_New_def Let_def fit_simps nth_copy_at)

lemma page_ID_set [simp]:
  "page_wf p \<Longrightarrow> page_ID (page_SetID p pid) = pid"
  "page_wf p \<Longrightarrow> page_ID (page_SetPayloadLen p n) = page_ID p"
  "page_wf p \<Longrightarrow> off + length src \<le> BodySize \<Longrightarrow> page_ID (page_SetBody p off src) = page_ID p"
  "page_wf p \<Longrightarrow> page_ID (page_Finalize p) = page_ID p"
  by (simp_all add: page_wf_def page_ID_def page_SetID_def page_SetPayloadLen_def page_SetBody_def
      page_Finalize_def byte_simps fit_simps)

lemma page_Type_set [simp]:
  "page_wf p \<Longrightarrow> page_Type (page_SetType p t) = t"
  "page_wf p \<Longrightarrow> page_Type (page_SetPayloadLen p n) = page_Type p"
  "page_wf p \<Longrightarrow> off + length src \<le> BodySize \<Longrightarrow> page_Type (page_SetBody p off src) = page_Type p"
  "page_wf p \<Longrightarrow> page_Type (page_Finalize p) = page_Type p"
  by (simp_all add: page_wf_def page_Type_def page_SetType_def page_SetPayloadLen_def
      page_SetBody_def page_Finalize_def nth_copy_at fit_simps)

lemma page_PayloadLen_set [simp]:
  "page_wf p \<Longrightarrow> page_PayloadLen (page_SetPayloadLen p n) = n"
  "page_wf p \<Longrightarrow> page_PayloadLen (page_Finalize p) = page_PayloadLen p"
  by (simp_all add: page_wf_def page_PayloadLen_def page_SetPayloadLen_def page_Finalize_def
      byte_simps fit_simps)

lemma page_Payload_Finalize [simp]: "page_wf p \<Longrightarrow> page_Payload (page_Finalize p) = page_Payload p"
  by (simp add: page_Payload_def)
    (simp add: page_wf_def page_Finalize_def byte_simps fit_simps)

lemma page_Body_Finalize [simp]: "page_wf p \<Longrightarrow> page_Body (page_Finalize p) = page_Body p"
  by (simp add: page_wf_def page_Body_def page_Finalize_def copy_at_def fit_simps)

text \<open>A payload written at the start of the body and recorded with its length is read back.\<close>

lemma page_Payload_written:
  assumes "page_wf p" "length src \<le> BodySize"
  shows "page_Payload (page_SetPayloadLen (page_SetBody p 0 src) (word_of_nat (length src))) = src"
proof -
  have "unat (word_of_nat (length src) :: u32) = length src"
    using assms(2) by (simp add: unat_of_nat fit_simps)
  with assms show ?thesis
    by (simp add: page_Payload_def page_SetBody_def)
      (simp add: page_wf_def page_SetPayloadLen_def page_PayloadLen_def byte_simps fit_simps)
qed

lemma length_page_Payload: "length (page_Payload p) \<le> BodySize"
  by (cases "BodySize < unat (page_PayloadLen p)") (auto simp: page_Payload_def sub_def)

section \<open>The checksum\<close>

lemma page_Verify_Finalize: "page_wf p \<Longrightarrow> page_Verify (page_Finalize p) = Inr ()"
  by (simp add: page_Verify_def page_wf_def page_Finalize_def byte_simps fit_simps)
    (simp add: copy_at_def)

lemma page_Verify_Inr_iff:
  "page_Verify p = Inr () \<longleftrightarrow>
     length (page_data p) = PageSize \<and> get32 (sub offMagic 4 (page_data p)) = page_magic \<and>
     get32 (sub offChecksum 4 (page_data p)) = crc_checksum (drop offMagic (page_data p))"
  by (simp add: page_Verify_def)

text \<open>C31: every corruption of one byte of a verified page is detected on read, whichever of the
  4096 bytes it hits: the magic by the magic test, every other byte, the checksum's own four
  included, by the checksum.\<close>

theorem page_Verify_detects_byte:
  assumes "page_Verify p = Inr ()" "i < PageSize" "b \<noteq> page_data p ! i"
  shows "page_Verify (p\<lparr>page_data := (page_data p)[i := b]\<rparr>) =
    Inl (if offMagic \<le> i \<and> i < offMagic + 4 then ErrBadMagic else ErrBadChecksum)"
proof -
  let ?d = "page_data p"
  have len: "length ?d = PageSize" and magic: "get32 (sub 4 4 ?d) = page_magic"
    and crc: "get32 (sub 0 4 ?d) = crc_checksum (drop 4 ?d)"
    using assms(1) by (simp_all add: page_Verify_Inr_iff fit_simps)
  have i: "i < length ?d" using assms(2) len by simp
  consider "i < 4" | "4 \<le> i" "i < 8" | "8 \<le> i" by linarith
  then show ?thesis
  proof cases
    case 1
    then have "get32 (sub 0 4 (?d[i := b])) \<noteq> get32 (sub 0 4 ?d)"
      using assms(3) len sub_update_neq [of 0 i 4 ?d b]
      by (simp add: get32_inject sub_list_update fit_simps)
    with 1 magic crc len show ?thesis
      by (simp add: page_Verify_def sub_list_update fit_simps)
  next
    case 2
    then have "get32 (sub 4 4 (?d[i := b])) \<noteq> get32 (sub 4 4 ?d)"
      using assms(3) len by (simp add: get32_inject sub_list_update sub_update_neq fit_simps)
    with 2 magic len show ?thesis by (simp add: page_Verify_def fit_simps)
  next
    case 3
    then have "crc_checksum (drop 4 (?d[i := b])) \<noteq> crc_checksum (drop 4 ?d)"
      using assms(3) i by (simp add: drop_update_swap crc_checksum_list_update)
    with 3 magic crc len show ?thesis
      by (simp add: page_Verify_def sub_list_update fit_simps)
  qed
qed


theorem page_Verify_detects_byte_witness:
  "page_Verify ((page_Finalize (page_New 7 2))\<lparr>page_data :=
     (page_data (page_Finalize (page_New 7 2)))[40 := 1]\<rparr>) = Inl ErrBadChecksum"
proof -
  let ?q = "page_SetID (page_New 7 2) 7"
  have "page_data (page_Finalize (page_New 7 2)) ! 40 = page_data (page_New 7 2) ! 40"
    by (simp add: page_Finalize_def page_New_def page_SetID_def page_SetType_def Let_def copy_at_def
        nth_append nth_drop fit_simps)
  moreover have "page_data (page_New 7 2) ! 40 = 0"
    by (simp add: page_New_def page_SetID_def page_SetType_def Let_def copy_at_def
        nth_append nth_drop fit_simps)
  ultimately have "(1::byte) \<noteq> page_data (page_Finalize (page_New 7 2)) ! 40" by simp
  then show ?thesis
    using page_Verify_detects_byte [OF page_Verify_Finalize, of "page_New 7 2" 40 1] by (simp add: fit_simps)
qed

end
