(* ===== verification/PageStore.thy ===== *)
theory PageStore
  imports Page
begin

text \<open>
  The interface between the B+tree and the files: \<^verbatim>\<open>PageSource\<close> and \<^verbatim>\<open>PageStore\<close> of
  \<^verbatim>\<open>internal/storage/btree/node.go\<close>. A source is a function from page ids to pages; a store
  is a record of the interface's three methods over the store's state. The locale states what the
  tree code relies on: ids are handed out in sequence, a page written is read back finalized, and
  neither operation disturbs a page that could be read before. \<open>used\<close> is the number of ids handed
  out and \<open>cap\<close> how many the store can hand out before an id or a file offset would overflow.
\<close>

type_synonym page_source = "u64 \<Rightarrow> page res"

record 's page_store =
  st_ReadPage :: "'s \<Rightarrow> page_source"
  st_Allocate :: "'s \<Rightarrow> u64 \<times> 's"
  st_WritePage :: "'s \<Rightarrow> page \<Rightarrow> 's res"

text \<open>\<open>keeps_reads rd rd' D\<close>: every page of \<open>D\<close> that \<open>rd\<close> could read, \<open>rd'\<close> reads the same.\<close>

definition keeps_reads :: "page_source \<Rightarrow> page_source \<Rightarrow> u64 set \<Rightarrow> bool" where
  "keeps_reads rd rd' D \<longleftrightarrow> (\<forall>j\<in>D. \<forall>q. rd j = Inr q \<longrightarrow> rd' j = Inr q)"

lemma keeps_reads_refl [simp]: "keeps_reads rd rd D"
  by (simp add: keeps_reads_def)

lemma keeps_reads_trans:
  "keeps_reads r1 r2 D \<Longrightarrow> keeps_reads r2 r3 D' \<Longrightarrow> D \<subseteq> D' \<Longrightarrow> keeps_reads r1 r3 D"
  by (auto simp: keeps_reads_def)

lemma keeps_reads_mono: "keeps_reads r1 r2 D \<Longrightarrow> D' \<subseteq> D \<Longrightarrow> keeps_reads r1 r2 D'"
  by (auto simp: keeps_reads_def)

lemma keeps_readsD: "keeps_reads r1 r2 D \<Longrightarrow> j \<in> D \<Longrightarrow> r1 j = Inr q \<Longrightarrow> r2 j = Inr q"
  by (simp add: keeps_reads_def)

text \<open>The ids a store has handed out.\<close>

definition ids_below :: "nat \<Rightarrow> u64 set" where
  "ids_below n = {j. unat j < n}"

lemma ids_below_mono: "m \<le> n \<Longrightarrow> ids_below m \<subseteq> ids_below n"
  by (auto simp: ids_below_def)

lemma in_ids_below [simp]: "j \<in> ids_below n \<longleftrightarrow> unat j < n"
  by (simp add: ids_below_def)

locale page_store_laws =
  fixes S :: "'s page_store"
    and inv :: "'s \<Rightarrow> bool"
    and used :: "'s \<Rightarrow> nat"
    and cap :: nat
  assumes cap_bound: "cap < 2 ^ 64"
    and used_bound: "inv s \<Longrightarrow> used s \<le> cap"
    and allocate_law: "inv s \<Longrightarrow> used s < cap \<Longrightarrow> st_Allocate S s = (i, s') \<Longrightarrow>
      unat i = used s \<and> used s' = Suc (used s) \<and> inv s' \<and>
      keeps_reads (st_ReadPage S s) (st_ReadPage S s') (ids_below (used s))"
    and write_law: "inv s \<Longrightarrow> page_wf p \<Longrightarrow> unat (page_ID p) < used s \<Longrightarrow>
      \<exists>s'. st_WritePage S s p = Inr s' \<and> inv s' \<and> used s' = used s \<and>
        st_ReadPage S s' (page_ID p) = Inr (page_Finalize p) \<and>
        keeps_reads (st_ReadPage S s) (st_ReadPage S s') (ids_below (used s) - {page_ID p})"
begin

text \<open>
  One \<^verbatim>\<open>Allocate\<close> followed by a \<^verbatim>\<open>WritePage\<close> of a page with that id, which is how every
  page of a tree is made: the fresh page is read back and every older page is kept.
\<close>

lemma allocate_write:
  assumes "inv s" "used s < cap" "st_Allocate S s = (i, s1)" "page_wf p" "page_ID p = i"
  shows "\<exists>s2. st_WritePage S s1 p = Inr s2 \<and> inv s2 \<and> used s2 = Suc (used s) \<and>
    unat i = used s \<and> st_ReadPage S s2 i = Inr (page_Finalize p) \<and>
    keeps_reads (st_ReadPage S s) (st_ReadPage S s2) (ids_below (used s))"
proof -
  from allocate_law [OF assms(1-3)] have i: "unat i = used s" and u1: "used s1 = Suc (used s)"
    and inv1: "inv s1"
    and k1: "keeps_reads (st_ReadPage S s) (st_ReadPage S s1) (ids_below (used s))" by auto
  from write_law [OF inv1 assms(4)] assms(5) i u1 obtain s2 where
    w: "st_WritePage S s1 p = Inr s2" "inv s2" "used s2 = used s1"
      "st_ReadPage S s2 i = Inr (page_Finalize p)"
    and k2: "keeps_reads (st_ReadPage S s1) (st_ReadPage S s2) (ids_below (used s1) - {i})"
    by auto
  have "ids_below (used s) \<subseteq> ids_below (used s1) - {i}" using i u1 by auto
  with k1 k2 have "keeps_reads (st_ReadPage S s) (st_ReadPage S s2) (ids_below (used s))"
    by (rule keeps_reads_trans)
  with w i u1 show ?thesis by auto
qed

lemma allocated_valid: "inv s \<Longrightarrow> used s < cap \<Longrightarrow> st_Allocate S s = (i, s') \<Longrightarrow> i \<noteq> InvalidPageID"
proof -
  assume a: "inv s" "used s < cap" "st_Allocate S s = (i, s')"
  have "unat InvalidPageID = 2 ^ 64 - 1"
    by (simp add: InvalidPageID_def unsigned_minus_1_eq_mask mask_eq_exp_minus_1)
  moreover have "unat i < 2 ^ 64 - 1" using allocate_law [OF a] a(2) cap_bound by simp
  ultimately show ?thesis by auto
qed

end

end
