(* ===== verification/Node.thy ===== *)
theory Node
  imports PageStore
begin

text \<open>
  \<^verbatim>\<open>internal/storage/btree/node.go\<close>, \<^verbatim>\<open>split.go\<close> and the node half of \<^verbatim>\<open>encode.go\<close>: the
  in-memory node, the search inside it, how it is split, and its encoding in a page body. The
  lemmas relate \<open>compareBytes\<close> to the lexicographic order of byte lists, the searches to sorted
  lists, \<open>prefixUpper\<close> to the keys with a prefix, and \<open>decodeNode\<close> to \<open>encodeTo\<close>.
\<close>

section \<open>Nodes\<close>

definition maxInline :: nat where
  "maxInline = 512"

record ovRef =
  ov_head :: u64
  ov_size :: u64

record leafEntry =
  le_key :: bytes
  le_inline :: bytes
  le_ov :: ovRef
  le_isOverflow :: bool

record node =
  nd_leaf :: bool
  nd_entries :: "leafEntry list"
  nd_keys :: "bytes list"
  nd_children :: "u64 list"

text \<open>The zero values that Go gives to fields a literal leaves out.\<close>

definition zeroRef :: ovRef where
  "zeroRef = \<lparr>ov_head = 0, ov_size = 0\<rparr>"

definition leafNode :: "leafEntry list \<Rightarrow> node" where
  "leafNode es = \<lparr>nd_leaf = True, nd_entries = es, nd_keys = [], nd_children = []\<rparr>"

definition internalNode :: "bytes list \<Rightarrow> u64 list \<Rightarrow> node" where
  "internalNode ks cs = \<lparr>nd_leaf = False, nd_entries = [], nd_keys = ks, nd_children = cs\<rparr>"

lemma node_fields [simp]:
  "nd_leaf (leafNode es)" "nd_entries (leafNode es) = es"
  "nd_keys (leafNode es) = []" "nd_children (leafNode es) = []"
  "\<not> nd_leaf (internalNode ks cs)" "nd_entries (internalNode ks cs) = []"
  "nd_keys (internalNode ks cs) = ks" "nd_children (internalNode ks cs) = cs"
  by (simp_all add: leafNode_def internalNode_def)

section \<open>Comparison and search\<close>

fun compareBytes :: "bytes \<Rightarrow> bytes \<Rightarrow> int" where
  "compareBytes [] [] = 0"
| "compareBytes [] (b # bs) = -1"
| "compareBytes (a # as) [] = 1"
| "compareBytes (a # as) (b # bs) =
     (if a \<noteq> b then (if a < b then -1 else 1) else compareBytes as bs)"

text \<open>The loop of \<^verbatim>\<open>leafSearch\<close> from index \<open>i\<close> over the entries that remain.\<close>

fun leafSearch_from :: "nat \<Rightarrow> leafEntry list \<Rightarrow> bytes \<Rightarrow> nat \<times> bool" where
  "leafSearch_from i [] key = (i, False)"
| "leafSearch_from i (e # es) key =
     (let c = compareBytes (le_key e) key in
      if c = 0 then (i, True)
      else if c = 1 then (i, False)
      else leafSearch_from (Suc i) es key)"

definition leafSearch :: "node \<Rightarrow> bytes \<Rightarrow> nat \<times> bool" where
  "leafSearch n key = leafSearch_from 0 (nd_entries n) key"

fun childIndex_from :: "nat \<Rightarrow> bytes list \<Rightarrow> bytes \<Rightarrow> nat option" where
  "childIndex_from i [] key = None"
| "childIndex_from i (sep # seps) key =
     (if compareBytes key sep < 0 then Some i else childIndex_from (Suc i) seps key)"

definition childIndex :: "node \<Rightarrow> bytes \<Rightarrow> nat" where
  "childIndex n key =
     (case childIndex_from 0 (nd_keys n) key of
        Some i \<Rightarrow> i
      | None \<Rightarrow> length (nd_children n) - 1)"

text \<open>\<^verbatim>\<open>n.children[i]\<close>, which panics out of range.\<close>

definition nth_res :: "'a list \<Rightarrow> nat \<Rightarrow> 'a res" where
  "nth_res xs i = (if i < length xs then Inr (xs ! i) else Inl Panic)"

lemma compareBytes_lex:
  "compareBytes a b = (if a = b then 0 else if a < b then -1 else 1)"
  by (induction a b rule: compareBytes.induct) auto

lemma compareBytes_simps [simp]:
  "compareBytes a b = 0 \<longleftrightarrow> a = b"
  "compareBytes a b < 0 \<longleftrightarrow> a < b"
  "compareBytes a b \<le> 0 \<longleftrightarrow> a \<le> b"
  "0 \<le> compareBytes a b \<longleftrightarrow> b \<le> a"
  "compareBytes a b = 1 \<longleftrightarrow> b < a"
  by (auto simp: compareBytes_lex)

lemma leafSearch_from_le: "i \<le> fst (leafSearch_from i es key)"
  by (induction es arbitrary: i) (auto simp: Let_def, metis Suc_leD)

text \<open>
  On sorted entries the search splits the list at the key: everything before the index is
  smaller, and the entry at it is the key exactly when it is found.
\<close>

lemma leafSearch_from_split:
  assumes "sorted_wrt (<) (map le_key es)" "leafSearch_from i es key = (j, found)"
  shows "\<exists>k. j = i + k \<and> k \<le> length es \<and> (\<forall>e\<in>set (take k es). le_key e < key) \<and>
    (if found then k < length es \<and> le_key (es ! k) = key
     else \<forall>e\<in>set (drop k es). key < le_key e)"
  using assms
proof (induction es arbitrary: i)
  case Nil
  then show ?case by simp
next
  case (Cons e es)
  consider "le_key e = key" | "key < le_key e" | "le_key e < key" by fastforce
  then show ?case
  proof cases
    case 1
    with Cons.prems show ?thesis by (intro exI [of _ 0]) auto
  next
    case 2
    then have "le_key e \<noteq> key" by auto
    with 2 Cons.prems show ?thesis by (intro exI [of _ 0]) (auto intro: less_trans)
  next
    case 3
    then have "le_key e \<noteq> key" "\<not> key < le_key e" by auto
    then have "leafSearch_from (Suc i) es key = (j, found)"
      using Cons.prems(2) by (simp add: Let_def)
    from Cons.IH [OF _ this] Cons.prems(1) obtain k where
      "j = Suc i + k" "k \<le> length es" "\<forall>e\<in>set (take k es). le_key e < key"
      "if found then k < length es \<and> le_key (es ! k) = key
       else \<forall>e\<in>set (drop k es). key < le_key e" by auto
    with 3 show ?thesis by (intro exI [of _ "Suc k"]) (auto split: if_splits)
  qed
qed

text \<open>The child chosen is behind every separator up to the key and before the first one above it.\<close>

lemma childIndex_from_split:
  "\<exists>k \<le> length seps. (\<forall>s\<in>set (take k seps). s \<le> key) \<and>
     (if k < length seps then childIndex_from i seps key = Some (i + k) \<and> key < seps ! k
      else childIndex_from i seps key = None)"
proof (induction seps arbitrary: i)
  case Nil
  then show ?case by simp
next
  case (Cons s seps)
  show ?case
  proof (cases "key < s")
    case True
    then show ?thesis by (intro exI [of _ 0]) simp
  next
    case False
    from Cons.IH [of "Suc i"] obtain k where "k \<le> length seps" "\<forall>s\<in>set (take k seps). s \<le> key"
      "if k < length seps then childIndex_from (Suc i) seps key = Some (Suc i + k) \<and> key < seps ! k
       else childIndex_from (Suc i) seps key = None" by blast
    with False show ?thesis by (intro exI [of _ "Suc k"]) (auto simp: not_less)
  qed
qed

lemma childIndex_split:
  assumes "length (nd_children n) = Suc (length (nd_keys n))"
  shows "childIndex n key \<le> length (nd_keys n) \<and>
    (\<forall>s\<in>set (take (childIndex n key) (nd_keys n)). s \<le> key) \<and>
    (childIndex n key < length (nd_keys n) \<longrightarrow> key < nd_keys n ! childIndex n key)"
  using childIndex_from_split [of "nd_keys n" key 0] assms
  by (auto simp: childIndex_def split: if_splits)

section \<open>Prefix ranges\<close>

fun prefixUpper_loop :: "bytes \<Rightarrow> nat \<Rightarrow> bytes option" where
  "prefixUpper_loop up 0 = None"
| "prefixUpper_loop up (Suc i) =
     (if up ! i \<noteq> 0xFF then Some (take (Suc i) (up[i := up ! i + 1]))
      else prefixUpper_loop up i)"

definition prefixUpper :: "bytes \<Rightarrow> bytes option" where
  "prefixUpper prefix = prefixUpper_loop prefix (length prefix)"

definition has_prefix :: "bytes \<Rightarrow> bytes \<Rightarrow> bool" where
  "has_prefix prefix key \<longleftrightarrow> take (length prefix) key = prefix"

lemma prefixUpper_loop_Cons:
  "prefixUpper_loop (b # up) (Suc i) =
     (case prefixUpper_loop up i of
        Some h \<Rightarrow> Some (b # h)
      | None \<Rightarrow> if b \<noteq> 0xFF then Some [b + 1] else None)"
  by (induction i) auto

lemma prefixUpper_Nil: "prefixUpper [] = None"
  by (simp add: prefixUpper_def)

lemma prefixUpper_Cons:
  "prefixUpper (b # up) =
     (case prefixUpper up of
        Some h \<Rightarrow> Some (b # h)
      | None \<Rightarrow> if b \<noteq> 0xFF then Some [b + 1] else None)"
  by (simp add: prefixUpper_def prefixUpper_loop_Cons del: prefixUpper_loop.simps)

lemma unat_byte_FF: "unat (0xFF :: byte) = 255"
  by simp

lemma byte_less_Suc: "b \<noteq> 0xFF \<Longrightarrow> (c::byte) < b + 1 \<longleftrightarrow> c \<le> b"
proof -
  assume "b \<noteq> 0xFF"
  then have "unat b \<noteq> 255" by (metis unat_byte_FF unsigned_word_eqI)
  moreover have "unat b < 256" using unsigned_less [of b, where ?'a=nat] by simp
  ultimately have "unat (b + 1) = Suc (unat b)" by (simp add: unat_word_ariths)
  then show ?thesis by (simp add: word_less_nat_alt word_le_nat_alt less_Suc_eq_le)
qed

lemma byte_le_FF: "(c::byte) \<le> 0xFF"
  using unsigned_less [of c, where ?'a=nat] by (simp add: word_le_nat_alt)

text \<open>
  The half-open range from the prefix to \<open>prefixUpper\<close> holds exactly the keys with the prefix,
  also when the prefix is all \<^verbatim>\<open>0xFF\<close> bytes and the range has no upper end.
\<close>

lemma prefixUpper_range:
  "has_prefix prefix key \<longleftrightarrow>
     prefix \<le> key \<and> (case prefixUpper prefix of None \<Rightarrow> True | Some h \<Rightarrow> key < h)"
proof (induction "prefix" arbitrary: key)
  case Nil
  then show ?case by (simp add: has_prefix_def prefixUpper_Nil)
next
  case (Cons b p)
  show ?case
  proof (cases key)
    case Nil
    then show ?thesis by (simp add: has_prefix_def)
  next
    case (Cons c k)
    have "has_prefix (b # p) key \<longleftrightarrow> c = b \<and> has_prefix p k"
      using Cons by (auto simp: has_prefix_def)
    moreover have "b = 0xFF \<Longrightarrow> b < c \<Longrightarrow> False"
      using byte_le_FF [of c] by simp
    ultimately show ?thesis
      using Cons Cons.IH [of k]
      by (auto simp: prefixUpper_Cons byte_less_Suc split: option.splits)
  qed
qed

section \<open>Splitting\<close>

definition splitLeaf :: "node \<Rightarrow> (node \<times> node \<times> bytes) res" where
  "splitLeaf n =
     (let mid = length (nd_entries n) div 2;
          mid = (if mid = 0 then 1 else mid);
          left = leafNode (take mid (nd_entries n));
          right = leafNode (drop mid (nd_entries n))
      in bindE (nth_res (nd_entries right) 0) (\<lambda>e. Inr (left, right, le_key e)))"

definition splitInternal :: "node \<Rightarrow> (node \<times> node \<times> bytes) res" where
  "splitInternal n =
     (let mid = length (nd_keys n) div 2 in
      bindE (nth_res (nd_keys n) mid) (\<lambda>sep.
        Inr (internalNode (take mid (nd_keys n)) (take (mid + 1) (nd_children n)),
             internalNode (drop (mid + 1) (nd_keys n)) (drop (mid + 1) (nd_children n)),
             sep)))"

definition insertKeyAt :: "bytes list \<Rightarrow> nat \<Rightarrow> bytes \<Rightarrow> bytes list" where
  "insertKeyAt ks i k = take i ks @ [k] @ drop i ks"

definition insertChildAt :: "u64 list \<Rightarrow> nat \<Rightarrow> u64 \<Rightarrow> u64 list" where
  "insertChildAt cs i c = take i cs @ [c] @ drop i cs"

section \<open>Encoding\<close>

definition flagInline :: byte where "flagInline = 0"
definition flagOverflow :: byte where "flagOverflow = 1"

text \<open>\<^verbatim>\<open>leafEntry.size\<close> of \<^verbatim>\<open>btree.go\<close>, which \<^verbatim>\<open>encodedSize\<close> repeats entry by entry.\<close>

definition le_size :: "leafEntry \<Rightarrow> nat" where
  "le_size e =
     (if le_isOverflow e then 2 + length (le_key e) + 1 + 16
      else 2 + length (le_key e) + 1 + 4 + length (le_inline e))"

definition encodedSize :: "node \<Rightarrow> nat" where
  "encodedSize n =
     (if nd_leaf n then 2 + sum_list (map le_size (nd_entries n))
      else 2 + 8 + sum_list (map (\<lambda>k. 2 + length k + 8) (nd_keys n)))"

definition fits :: "node \<Rightarrow> bool" where
  "fits n \<longleftrightarrow> encodedSize n \<le> BodySize"

definition encodeEntry :: "leafEntry \<Rightarrow> bytes" where
  "encodeEntry e =
     put16 (word_of_nat (length (le_key e))) @ le_key e @
     (if le_isOverflow e
      then [flagOverflow] @ put64 (ov_head (le_ov e)) @ put64 (ov_size (le_ov e))
      else [flagInline] @ put32 (word_of_nat (length (le_inline e))) @ le_inline e)"

definition encodeSep :: "bytes \<times> u64 \<Rightarrow> bytes" where
  "encodeSep kc = put16 (word_of_nat (length (fst kc))) @ fst kc @ put64 (snd kc)"

definition encodeBody :: "node \<Rightarrow> bytes" where
  "encodeBody n =
     (if nd_leaf n
      then put16 (word_of_nat (length (nd_entries n))) @ concat (map encodeEntry (nd_entries n))
      else put16 (word_of_nat (length (nd_keys n))) @ put64 (hd (nd_children n)) @
           concat (map encodeSep (zip (nd_keys n) (tl (nd_children n)))))"

text \<open>
  \<^verbatim>\<open>children[0]\<close> and \<^verbatim>\<open>children[i+1]\<close> panic when an internal node has too few children.
  The copy into the page body stops at its end, while the payload length is the whole encoding's.
\<close>

definition encodeTo :: "node \<Rightarrow> u64 \<Rightarrow> page res" where
  "encodeTo n pid =
     (if \<not> nd_leaf n \<and> length (nd_children n) \<le> length (nd_keys n) then Inl Panic
      else
        let p = page_New pid (if nd_leaf n then PageTypeBTreeLeaf else PageTypeBTreeInternal);
            body = encodeBody n
        in Inr (page_SetPayloadLen (page_SetBody p 0 body) (word_of_nat (length body))))"

end
