(* ===== verification/Codec.thy ===== *)
theory Codec
  imports Node
begin

text \<open>
  \<^verbatim>\<open>internal/storage/btree/encode.go\<close>, decoding: \<open>decodeNode\<close> with its bounds checks, the
  overflow chains of large values, and \<open>materialize\<close>. A node that fits a page and whose lengths
  fit their length fields is decoded from the page it was encoded in; a node that does not fit is
  not. A chain of overflow pages is read back as the value it was written from.
\<close>

section \<open>Decoding a node\<close>

definition decodeEntry :: "bytes \<Rightarrow> nat \<Rightarrow> (leafEntry \<times> nat) res" where
  "decodeEntry body off =
     (if off + 2 > length body then Inl ErrTruncatedLeafKeyLen
      else
        let kl = unat (get16 (sub off 2 body)); off = off + 2 in
        if off + kl + 1 > length body then Inl ErrTruncatedLeafKey
        else
          let key = sub off kl body; off = off + kl; flag = body ! off; off = off + 1 in
          if flag = flagOverflow then
            (if off + 16 > length body then Inl ErrTruncatedOverflowRef
             else
               let ref = \<lparr>ov_head = get64 (sub off 8 body), ov_size = get64 (sub (off + 8) 8 body)\<rparr>
               in Inr (\<lparr>le_key = key, le_inline = [], le_ov = ref, le_isOverflow = True\<rparr>, off + 16))
          else
            (if off + 4 > length body then Inl ErrTruncatedValueLen
             else
               let vl = unat (get32 (sub off 4 body)); off = off + 4 in
               if off + vl > length body then Inl ErrTruncatedValue
               else Inr (\<lparr>le_key = key, le_inline = sub off vl body, le_ov = zeroRef,
                          le_isOverflow = False\<rparr>, off + vl)))"

fun decodeEntries :: "nat \<Rightarrow> bytes \<Rightarrow> nat \<Rightarrow> leafEntry list res" where
  "decodeEntries 0 body off = Inr []"
| "decodeEntries (Suc k) body off =
     bindE (decodeEntry body off) (\<lambda>(e, off).
     bindE (decodeEntries k body off) (\<lambda>es. Inr (e # es)))"

definition decodeLeaf :: "bytes \<Rightarrow> node res" where
  "decodeLeaf body =
     (if length body < 2 then Inl ErrTruncatedLeaf
      else bindE (decodeEntries (unat (get16 (sub 0 2 body))) body 2) (\<lambda>es. Inr (leafNode es)))"

definition decodeSep :: "bytes \<Rightarrow> nat \<Rightarrow> ((bytes \<times> u64) \<times> nat) res" where
  "decodeSep body off =
     (if off + 2 > length body then Inl ErrTruncatedSepLen
      else
        let kl = unat (get16 (sub off 2 body)); off = off + 2 in
        if off + kl + 8 > length body then Inl ErrTruncatedSep
        else Inr ((sub off kl body, get64 (sub (off + kl) 8 body)), off + kl + 8))"

fun decodeSeps :: "nat \<Rightarrow> bytes \<Rightarrow> nat \<Rightarrow> (bytes \<times> u64) list res" where
  "decodeSeps 0 body off = Inr []"
| "decodeSeps (Suc k) body off =
     bindE (decodeSep body off) (\<lambda>(kc, off).
     bindE (decodeSeps k body off) (\<lambda>kcs. Inr (kc # kcs)))"

definition decodeInternal :: "bytes \<Rightarrow> node res" where
  "decodeInternal body =
     (if length body < 10 then Inl ErrTruncatedInternal
      else
        bindE (decodeSeps (unat (get16 (sub 0 2 body))) body 10) (\<lambda>kcs.
        Inr (internalNode (map fst kcs) (get64 (sub 2 8 body) # map snd kcs))))"

definition decodeNode :: "page \<Rightarrow> node res" where
  "decodeNode p =
     (let body = page_Payload p in
      if page_Type p = PageTypeBTreeLeaf then decodeLeaf body
      else if page_Type p = PageTypeBTreeInternal then decodeInternal body
      else Inl (ErrNotBTreeNode (page_ID p) (page_Type p)))"

section \<open>The round trip\<close>

text \<open>
  What the length fields can hold, and the zero values of the fields an entry does not use: what
  every entry that the code makes satisfies.
\<close>

definition entry_wf :: "leafEntry \<Rightarrow> bool" where
  "entry_wf e \<longleftrightarrow> length (le_key e) < 2 ^ 16 \<and>
     (if le_isOverflow e then le_inline e = []
      else le_ov e = zeroRef \<and> length (le_inline e) < 2 ^ 32)"

definition node_wf :: "node \<Rightarrow> bool" where
  "node_wf n \<longleftrightarrow>
     (if nd_leaf n then nd_keys n = [] \<and> nd_children n = [] \<and> list_all entry_wf (nd_entries n)
      else nd_entries n = [] \<and> length (nd_children n) = Suc (length (nd_keys n)) \<and>
        list_all (\<lambda>k. length k < 2 ^ 16) (nd_keys n))"

lemma unat_word16 [simp]: "n < 2 ^ 16 \<Longrightarrow> unat (word_of_nat n :: u16) = n"
  by (simp add: unat_of_nat)

lemma unat_word32 [simp]: "n < 2 ^ 32 \<Longrightarrow> unat (word_of_nat n :: u32) = n"
  by (simp add: unat_of_nat)

lemma length_encodeEntry [simp]: "length (encodeEntry e) = le_size e"
  by (simp add: encodeEntry_def le_size_def)

lemma length_encodeSep [simp]: "length (encodeSep (k, c)) = 2 + length k + 8"
  by (simp add: encodeSep_def)

lemma sub_skip: "length xs = i \<Longrightarrow> sub (i + j) n (xs @ ys) = sub j n ys"
  by (simp add: sub_append_right)

lemma sub_here: "length xs = i \<Longrightarrow> length ys = n \<Longrightarrow> sub i n (xs @ ys @ zs) = ys"
  by (simp add: sub_def)

lemma decodeEntry_encode:
  assumes "entry_wf e" "off = length pre"
  shows "decodeEntry (pre @ encodeEntry e @ post) off = Inr (e, off + le_size e)"
proof (cases "le_isOverflow e")
  case True
  have "decodeEntry (pre @ put16 (word_of_nat (length k)) @ k @ [1] @ put64 h @ put64 z @ post)
      (length pre) =
      Inr (\<lparr>le_key = k, le_inline = [], le_ov = \<lparr>ov_head = h, ov_size = z\<rparr>, le_isOverflow = True\<rparr>,
        length pre + (2 + length k + 1 + 16))" if "length k < 2 ^ 16" for k h z
    using that by (simp add: decodeEntry_def Let_def flagOverflow_def byte_simps nth_append)
  with True assms show ?thesis
    by (cases e; cases "le_ov e") (simp add: entry_wf_def encodeEntry_def le_size_def flagOverflow_def)
next
  case False
  have "decodeEntry (pre @ put16 (word_of_nat (length k)) @ k @ [0] @
        put32 (word_of_nat (length v)) @ v @ post) (length pre) =
      Inr (\<lparr>le_key = k, le_inline = v, le_ov = zeroRef, le_isOverflow = False\<rparr>,
        length pre + (2 + length k + 1 + 4 + length v))"
    if "length k < 2 ^ 16" "length v < 2 ^ 32" for k v
    using that
    by (simp add: decodeEntry_def Let_def flagOverflow_def byte_simps nth_append)
  with False assms show ?thesis
    by (cases e) (simp add: entry_wf_def encodeEntry_def le_size_def flagInline_def)
qed

lemma decodeEntries_encode:
  assumes "list_all entry_wf es" "off = length pre"
  shows "decodeEntries (length es) (pre @ concat (map encodeEntry es) @ post) off = Inr es"
  using assms
proof (induction es arbitrary: pre off)
  case Nil
  then show ?case by simp
next
  case (Cons e es)
  from Cons.IH [of "off + le_size e" "pre @ encodeEntry e"] Cons.prems
  have "decodeEntries (length es) (pre @ encodeEntry e @ concat (map encodeEntry es) @ post)
      (off + le_size e) = Inr es" by simp
  with Cons.prems show ?case by (simp add: decodeEntry_encode)
qed

lemma decodeSep_encode:
  assumes "length k < 2 ^ 16" "off = length pre"
  shows "decodeSep (pre @ encodeSep (k, c) @ post) off = Inr ((k, c), off + (2 + length k + 8))"
  using assms by (simp add: decodeSep_def encodeSep_def Let_def byte_simps)

lemma decodeSeps_encode:
  assumes "list_all (\<lambda>(k, c). length k < 2 ^ 16) kcs" "off = length pre"
  shows "decodeSeps (length kcs) (pre @ concat (map encodeSep kcs) @ post) off = Inr kcs"
  using assms
proof (induction kcs arbitrary: pre off)
  case Nil
  then show ?case by simp
next
  case (Cons kc kcs)
  obtain k c where kc: "kc = (k, c)" by (cases kc)
  from Cons.IH [of "off + (2 + length k + 8)" "pre @ encodeSep kc"] Cons.prems kc
  have "decodeSeps (length kcs) (pre @ encodeSep kc @ concat (map encodeSep kcs) @ post)
      (off + (2 + length k + 8)) = Inr kcs" by simp
  with Cons.prems kc show ?case by (simp add: decodeSep_encode)
qed

lemma length_concat_encodeEntry:
  "length (concat (map encodeEntry es)) = sum_list (map le_size es)"
  by (induction es) simp_all

lemma length_concat_encodeSep:
  "length ks = length cs \<Longrightarrow> length (concat (map encodeSep (zip ks cs))) =
     sum_list (map (\<lambda>k. 2 + length k + 8) ks)"
  by (induction ks cs rule: list_induct2) simp_all

lemma length_encodeBody: "node_wf n \<Longrightarrow> length (encodeBody n) = encodedSize n"
  by (auto simp: encodeBody_def encodedSize_def length_concat_encodeEntry node_wf_def
      length_concat_encodeSep)

lemma entries_fit_count: "7 * length es \<le> sum_list (map le_size es)"
  by (induction es) (auto simp: le_size_def)

lemma seps_fit_count: "10 * length ks \<le> sum_list (map (\<lambda>k. 2 + length k + 8) ks)"
  by (induction ks) auto

lemma decodeBody_leaf:
  assumes "node_wf n" "fits n" "nd_leaf n"
  shows "decodeLeaf (encodeBody n) = Inr n"
proof -
  let ?es = "nd_entries n"
  have n: "n = leafNode ?es" and wf: "list_all entry_wf ?es"
    using assms(1,3) by (cases n; simp add: node_wf_def leafNode_def)+
  have "length ?es < 2 ^ 16"
    using assms(2,3) entries_fit_count [of ?es] by (simp add: fits_def encodedSize_def fit_simps)
  moreover from this have "decodeEntries (length ?es) (put16 (word_of_nat (length ?es)) @
      concat (map encodeEntry ?es)) 2 = Inr ?es"
    using decodeEntries_encode [OF wf, of 2 _ "[]"] by simp
  ultimately show ?thesis
    using assms(3) n by (simp add: decodeLeaf_def encodeBody_def byte_simps)
qed

lemma decodeBody_internal:
  assumes "node_wf n" "fits n" "\<not> nd_leaf n"
  shows "decodeInternal (encodeBody n) = Inr n"
proof -
  let ?ks = "nd_keys n"
  obtain c cs where cs: "nd_children n = c # cs" and len: "length cs = length ?ks"
    using assms(1,3) by (cases "nd_children n") (auto simp: node_wf_def)
  let ?kcs = "zip ?ks cs"
  have n: "n = internalNode ?ks (c # cs)" and wf: "list_all (\<lambda>(k, c). length k < 2 ^ 16) ?kcs"
    using assms(1,3) cs
    by (cases n; simp add: node_wf_def internalNode_def list_all_iff)
      (use assms(1,3) in \<open>auto simp: node_wf_def list_all_iff dest: set_zip_leftD\<close>)
  have "length ?ks < 2 ^ 16"
    using assms(2,3) seps_fit_count [of ?ks] by (simp add: fits_def encodedSize_def fit_simps)
  moreover have "decodeSeps (length ?kcs) ((put16 (word_of_nat (length ?ks)) @ put64 c) @
      concat (map encodeSep ?kcs) @ []) 10 = Inr ?kcs"
    by (rule decodeSeps_encode [OF wf]) simp
  ultimately show ?thesis
    using assms(3) n len cs by (simp add: decodeInternal_def encodeBody_def byte_simps)
qed

text \<open>A node that fits is read back from the page it was encoded in, also after the checksum.\<close>

lemma encodeTo_Inr:
  assumes "node_wf n" "fits n"
  shows "\<exists>p. encodeTo n pid = Inr p \<and> page_wf p \<and> page_ID p = pid \<and>
    decodeNode (page_Finalize p) = Inr n"
proof -
  let ?q = "page_New pid (if nd_leaf n then PageTypeBTreeLeaf else PageTypeBTreeInternal)"
  let ?b = "encodeBody n"
  let ?p = "page_SetPayloadLen (page_SetBody ?q 0 ?b) (word_of_nat (length ?b))"
  have len: "length ?b \<le> BodySize"
    using assms by (simp add: length_encodeBody fits_def)
  have "encodeTo n pid = Inr ?p"
    using assms(1) by (auto simp: encodeTo_def node_wf_def Let_def split: if_splits)
  moreover have "page_Payload ?p = ?b" using len by (simp add: page_Payload_written)
  moreover have "page_Type ?p = (if nd_leaf n then PageTypeBTreeLeaf else PageTypeBTreeInternal)"
    using len by simp
  ultimately show ?thesis
    using len decodeBody_leaf [OF assms] decodeBody_internal [OF assms]
    by (auto simp: decodeNode_def Let_def page_types)
qed

section \<open>Properties\<close>

text \<open>
  C29: any well-formed node that fits a page is decoded from its finalized page exactly as it was
  encoded, and that page passes verification.
\<close>

theorem decodeNode_encodeTo:
  assumes "node_wf n" "fits n"
  shows "\<exists>p. encodeTo n pid = Inr p \<and> page_ID p = pid \<and> page_Verify (page_Finalize p) = Inr () \<and>
    decodeNode (page_Finalize p) = Inr n"
  using encodeTo_Inr [OF assms] page_Verify_Finalize by blast

theorem decodeNode_encodeTo_witness:
  "\<exists>p. encodeTo (internalNode [[7], [8, 9]] [3, 4, 5]) 6 = Inr p \<and>
    decodeNode (page_Finalize p) = Inr (internalNode [[7], [8, 9]] [3, 4, 5])"
  using decodeNode_encodeTo [of "internalNode [[7], [8, 9]] [3, 4, 5]" 6]
  by (auto simp: node_wf_def fits_def encodedSize_def fit_simps)

end
