(* ===== verification/Pager.thy ===== *)
theory Pager
  imports PageStore
begin

text \<open>
  \<^verbatim>\<open>internal/storage/page/pager.go\<close>: the meta record of page 0 and the \<open>Manager\<close> that owns a
  data file. The open file is its bytes; \<^verbatim>\<open>WriteAt\<close> and \<^verbatim>\<open>ReadAt\<close> of Go's
  \<^verbatim>\<open>os.File\<close> extend it with zeros and fail on a negative offset or a short read, and offsets are
  the code's \<^verbatim>\<open>int64(id) * PageSize\<close>, with its wrap-around. A failing disk is not modelled here.
\<close>

section \<open>Files\<close>

definition file_WriteAt :: "bytes \<Rightarrow> bytes \<Rightarrow> int \<Rightarrow> bytes res" where
  "file_WriteAt f bs off =
     (if off < 0 then Inl ErrWriteAt
      else Inr (copy_at (nat off) bs (f @ replicate (nat off + length bs - length f) 0)))"

definition file_ReadAt :: "bytes \<Rightarrow> nat \<Rightarrow> int \<Rightarrow> bytes res" where
  "file_ReadAt f n off =
     (if off < 0 \<or> length f < nat off + n then Inl ErrReadAt else Inr (sub (nat off) n f))"

definition page_offset :: "u64 \<Rightarrow> int" where
  "page_offset pid = sint (pid * word_of_nat PageSize)"

section \<open>The meta record\<close>

record meta =
  meta_Root :: u64
  meta_LastAppliedTxID :: u64
  meta_NumPages :: u64

definition metaMagic :: u32 where
  "metaMagic = 0x5A4D4554"

definition meta_encode :: "meta \<Rightarrow> page \<Rightarrow> page" where
  "meta_encode m p =
     (let p = page_SetBody p 0 (put32 metaMagic);
          p = page_SetBody p 4 (put64 (meta_Root m));
          p = page_SetBody p 12 (put64 (meta_LastAppliedTxID m));
          p = page_SetBody p 20 (put64 (meta_NumPages m))
      in page_SetPayloadLen p 28)"

definition decodeMeta :: "page \<Rightarrow> meta res" where
  "decodeMeta p =
     (let b = page_Body p in
      if get32 (sub 0 4 b) \<noteq> metaMagic then Inl ErrBadMetaMagic
      else Inr \<lparr>meta_Root = get64 (sub 4 8 b), meta_LastAppliedTxID = get64 (sub 12 8 b),
                meta_NumPages = get64 (sub 20 8 b)\<rparr>)"

section \<open>The page manager\<close>

record manager =
  mgr_f :: bytes
  mgr_numPages :: u64

definition mgr_Allocate :: "manager \<Rightarrow> u64 \<times> manager" where
  "mgr_Allocate m = (mgr_numPages m, m\<lparr>mgr_numPages := mgr_numPages m + 1\<rparr>)"

definition mgr_WritePage :: "manager \<Rightarrow> page \<Rightarrow> manager res" where
  "mgr_WritePage m p =
     (let p = page_Finalize p in
      bindE (file_WriteAt (mgr_f m) (page_data p) (page_offset (page_ID p)))
        (\<lambda>f. Inr (m\<lparr>mgr_f := f\<rparr>)))"

definition mgr_ReadPage :: "manager \<Rightarrow> page_source" where
  "mgr_ReadPage m pid =
     bindE (file_ReadAt (mgr_f m) PageSize (page_offset pid)) (\<lambda>buf.
     bindE (page_From buf) (\<lambda>p.
     bindE (page_Verify p) (\<lambda>_. Inr p)))"

definition mgr_WriteMeta :: "manager \<Rightarrow> meta \<Rightarrow> manager res" where
  "mgr_WriteMeta m mt =
     (let mt = (if meta_NumPages mt = 0 then mt\<lparr>meta_NumPages := mgr_numPages m\<rparr> else mt);
          m = m\<lparr>mgr_numPages := meta_NumPages mt\<rparr>
      in mgr_WritePage m (meta_encode mt (page_New MetaPageID PageTypeMeta)))"

definition mgr_ReadMeta :: "manager \<Rightarrow> meta res" where
  "mgr_ReadMeta m =
     bindE (mgr_ReadPage m MetaPageID) (\<lambda>p.
       if page_Type p \<noteq> PageTypeMeta then Inl (ErrNotMetaPage (page_Type p)) else decodeMeta p)"

text \<open>\<^verbatim>\<open>Create\<close> starts from the empty file it has just made, \<^verbatim>\<open>Open\<close> from a file's bytes.\<close>

definition mgr_Create :: "manager res" where
  "mgr_Create =
     mgr_WriteMeta \<lparr>mgr_f = [], mgr_numPages = 1\<rparr>
       \<lparr>meta_Root = InvalidPageID, meta_LastAppliedTxID = 0, meta_NumPages = 1\<rparr>"

definition mgr_Open :: "bytes \<Rightarrow> manager res" where
  "mgr_Open f =
     bindE (mgr_ReadMeta \<lparr>mgr_f = f, mgr_numPages = 0\<rparr>) (\<lambda>mt.
       Inr \<lparr>mgr_f = f, mgr_numPages = (if meta_NumPages mt = 0 then 1 else meta_NumPages mt)\<rparr>)"

definition mgr_store :: "manager page_store" where
  "mgr_store = \<lparr>st_ReadPage = mgr_ReadPage, st_Allocate = mgr_Allocate,
                st_WritePage = mgr_WritePage\<rparr>"

section \<open>The manager is a page store\<close>

text \<open>Below \<open>2 ^ 51\<close> pages the byte offset of a page is positive and does not wrap.\<close>

definition mgr_cap :: nat where
  "mgr_cap = 2 ^ 51"

definition mgr_inv :: "manager \<Rightarrow> bool" where
  "mgr_inv m \<longleftrightarrow> unat (mgr_numPages m) \<le> mgr_cap"

lemma page_offset_small:
  assumes "unat pid = n" "n < mgr_cap" "k = n * PageSize"
  shows "page_offset pid = int k"
proof -
  have "pid = word_of_nat n" using assms(1) by auto
  then have "pid * word_of_nat PageSize = word_of_nat k" using assms(3) by simp
  moreover have "k < 2 ^ 63" using assms(2,3) by (simp add: mgr_cap_def fit_simps)
  ultimately show ?thesis by (simp add: page_offset_def sint_word_of_nat)
qed

lemma mgr_ReadPage_iff:
  assumes "unat pid = n" "n < mgr_cap" "k = n * PageSize"
  shows "mgr_ReadPage m pid = Inr p \<longleftrightarrow>
    k + PageSize \<le> length (mgr_f m) \<and> page_data p = sub k PageSize (mgr_f m) \<and>
    page_Verify p = Inr ()"
  by (cases p) (auto simp: mgr_ReadPage_def page_offset_small [OF assms] file_ReadAt_def
      page_From_def bindE_Inr_iff)

text \<open>Two page-sized windows at different page numbers do not overlap.\<close>

lemma page_windows_disjoint:
  "i \<noteq> j \<Longrightarrow> i * PageSize + PageSize \<le> j * PageSize \<or> j * PageSize + PageSize \<le> i * PageSize"
  by (cases i j rule: linorder_cases) (simp_all add: fit_simps)

lemma mgr_WritePage_Inr:
  assumes "page_wf p" "unat (page_ID p) = n" "n < mgr_cap"
  shows "\<exists>f. mgr_WritePage m p = Inr (m\<lparr>mgr_f := f\<rparr>) \<and>
    length f = max (length (mgr_f m)) (n * PageSize + PageSize) \<and>
    sub (n * PageSize) PageSize f = page_data (page_Finalize p) \<and>
    (\<forall>j. j \<noteq> n \<longrightarrow> j * PageSize + PageSize \<le> length (mgr_f m) \<longrightarrow>
      sub (j * PageSize) PageSize f = sub (j * PageSize) PageSize (mgr_f m))"
proof -
  define k where "k = n * PageSize"
  let ?q = "page_Finalize p"
  let ?g = "mgr_f m @ replicate (k + PageSize - length (mgr_f m)) 0"
  have len: "length (page_data ?q) = PageSize"
    using page_wf_setters(7) [OF assms(1)] by (simp add: page_wf_def)
  have "page_offset (page_ID ?q) = int k"
    using assms by (simp add: page_offset_small [OF _ _ k_def])
  then have "mgr_WritePage m p = Inr (m\<lparr>mgr_f := copy_at k (page_data ?q) ?g\<rparr>)"
    using len by (simp add: mgr_WritePage_def Let_def file_WriteAt_def)
  moreover have "sub (j * PageSize) PageSize (copy_at k (page_data ?q) ?g)
      = sub (j * PageSize) PageSize (mgr_f m)"
    if "j \<noteq> n" "j * PageSize + PageSize \<le> length (mgr_f m)" for j
    using page_windows_disjoint [OF that(1)] that(2) len
    by (auto simp: k_def sub_copy_at_other sub_append_left)
  ultimately show ?thesis using len by (auto simp: sub_copy_at_same k_def [symmetric])
qed

lemma mgr_write_law:
  assumes "mgr_inv m" "page_wf p" "unat (page_ID p) < unat (mgr_numPages m)"
  shows "\<exists>m'. mgr_WritePage m p = Inr m' \<and> mgr_numPages m' = mgr_numPages m \<and>
    mgr_ReadPage m' (page_ID p) = Inr (page_Finalize p) \<and>
    (\<forall>j q. j \<noteq> page_ID p \<longrightarrow> unat j < mgr_cap \<longrightarrow> mgr_ReadPage m j = Inr q \<longrightarrow>
      mgr_ReadPage m' j = Inr q)"
proof -
  have small: "unat (page_ID p) < mgr_cap" using assms(1,3) by (simp add: mgr_inv_def)
  from mgr_WritePage_Inr [OF assms(2) refl small, of m] obtain f where
    f: "mgr_WritePage m p = Inr (m\<lparr>mgr_f := f\<rparr>)"
      "length f = max (length (mgr_f m)) (unat (page_ID p) * PageSize + PageSize)"
      "sub (unat (page_ID p) * PageSize) PageSize f = page_data (page_Finalize p)"
      "\<And>j. j \<noteq> unat (page_ID p) \<Longrightarrow> j * PageSize + PageSize \<le> length (mgr_f m) \<Longrightarrow>
        sub (j * PageSize) PageSize f = sub (j * PageSize) PageSize (mgr_f m)" by blast
  have "mgr_ReadPage (m\<lparr>mgr_f := f\<rparr>) j = Inr q"
    if "j \<noteq> page_ID p" "unat j < mgr_cap" "mgr_ReadPage m j = Inr q" for j q
  proof -
    have "unat j \<noteq> unat (page_ID p)" using that(1) by (metis unsigned_word_eqI)
    with that(2,3) f(2,4) show ?thesis by (simp add: mgr_ReadPage_iff le_max_iff_disj)
  qed
  with f small assms(2) show ?thesis
    by (auto simp: mgr_ReadPage_iff page_Verify_Finalize)
qed

interpretation mgr: page_store_laws mgr_store mgr_inv "\<lambda>m. unat (mgr_numPages m)" mgr_cap
proof unfold_locales
  show "mgr_cap < 2 ^ 64" by (simp add: mgr_cap_def)
next
  fix m
  assume "mgr_inv m"
  then show "unat (mgr_numPages m) \<le> mgr_cap" by (simp add: mgr_inv_def)
next
  fix m i m'
  assume a: "mgr_inv m" "unat (mgr_numPages m) < mgr_cap" "st_Allocate mgr_store m = (i, m')"
  have "unat (mgr_numPages m + 1) = Suc (unat (mgr_numPages m))"
    using a(2) by (simp add: mgr_cap_def unat_word_ariths)
  with a show "unat i = unat (mgr_numPages m) \<and> unat (mgr_numPages m') = Suc (unat (mgr_numPages m)) \<and>
      mgr_inv m' \<and> keeps_reads (st_ReadPage mgr_store m) (st_ReadPage mgr_store m')
        (ids_below (unat (mgr_numPages m)))"
    by (auto simp: mgr_store_def mgr_Allocate_def mgr_inv_def keeps_reads_def mgr_ReadPage_def)
next
  fix m p
  assume a: "mgr_inv m" "page_wf p" "unat (page_ID p) < unat (mgr_numPages m)"
  from mgr_write_law [OF a] a(1) show "\<exists>m'. st_WritePage mgr_store m p = Inr m' \<and> mgr_inv m' \<and>
      unat (mgr_numPages m') = unat (mgr_numPages m) \<and>
      st_ReadPage mgr_store m' (page_ID p) = Inr (page_Finalize p) \<and>
      keeps_reads (st_ReadPage mgr_store m) (st_ReadPage mgr_store m')
        (ids_below (unat (mgr_numPages m)) - {page_ID p})"
    by (auto simp: mgr_store_def mgr_inv_def keeps_reads_def)
qed

section \<open>The meta page\<close>

lemma sub_page_Body: "sub i n (page_Body p) = sub (HeaderSize + i) n (page_data p)"
  by (simp add: sub_def page_Body_def add.commute)

lemma page_wf_encode: "page_wf p \<Longrightarrow> page_wf (meta_encode mt p)"
  by (simp add: meta_encode_def Let_def fit_simps)

lemma decodeMeta_encode: "page_wf p \<Longrightarrow> decodeMeta (meta_encode mt p) = Inr mt"
  by (simp add: decodeMeta_def meta_encode_def Let_def page_wf_def page_SetBody_def
      page_SetPayloadLen_def sub_page_Body byte_simps fit_simps)

lemma page_ID_encode: "page_wf p \<Longrightarrow> page_ID (meta_encode mt p) = page_ID p"
  by (simp add: meta_encode_def Let_def fit_simps)

lemma page_Type_encode: "page_wf p \<Longrightarrow> page_Type (meta_encode mt p) = page_Type p"
  by (simp add: meta_encode_def Let_def fit_simps)

lemma decodeMeta_Finalize: "page_wf p \<Longrightarrow> decodeMeta (page_Finalize p) = decodeMeta p"
  by (simp add: decodeMeta_def)

text \<open>Writing the meta page publishes a root without touching a tree page.\<close>

lemma mgr_WriteMeta_Inr:
  assumes "mgr_inv m" "mgr_numPages m \<noteq> 0" "meta_NumPages mt = mgr_numPages m"
  shows "\<exists>m'. mgr_WriteMeta m mt = Inr m' \<and> mgr_numPages m' = mgr_numPages m \<and>
    mgr_ReadMeta m' = Inr mt \<and>
    (\<forall>j q. j \<noteq> MetaPageID \<longrightarrow> unat j < mgr_cap \<longrightarrow> mgr_ReadPage m j = Inr q \<longrightarrow>
      mgr_ReadPage m' j = Inr q)"
proof -
  let ?p = "meta_encode mt (page_New MetaPageID PageTypeMeta)"
  have wf: "page_wf ?p" by (simp add: page_wf_encode)
  have pid: "page_ID ?p = MetaPageID" by (simp add: page_ID_encode)
  have "unat (page_ID ?p) < unat (mgr_numPages m)"
    using assms(2) pid by (simp add: MetaPageID_def unat_gt_0)
  from mgr_write_law [OF assms(1) wf this] obtain m' where
    w: "mgr_WritePage m ?p = Inr m'" "mgr_numPages m' = mgr_numPages m"
      "mgr_ReadPage m' MetaPageID = Inr (page_Finalize ?p)"
      "\<And>j q. j \<noteq> MetaPageID \<Longrightarrow> unat j < mgr_cap \<Longrightarrow> mgr_ReadPage m j = Inr q \<Longrightarrow>
        mgr_ReadPage m' j = Inr q"
    unfolding pid by blast
  have "mgr_ReadMeta m' = Inr mt"
    using w(3) wf by (simp add: mgr_ReadMeta_def page_Type_encode decodeMeta_Finalize decodeMeta_encode)
  moreover have "m\<lparr>mgr_numPages := meta_NumPages mt\<rparr> = m" using assms(3) by simp
  ultimately show ?thesis using w assms(2,3) by (auto simp: mgr_WriteMeta_def)
qed

section \<open>Properties\<close>

text \<open>
  A page written through the manager is read back finalized, and no other page that could be
  read before is lost or changed, whatever the file holds.
\<close>

theorem mgr_write_then_read:
  assumes "mgr_inv m" "page_wf p" "unat (page_ID p) < unat (mgr_numPages m)"
  shows "\<exists>m'. mgr_WritePage m p = Inr m' \<and> mgr_ReadPage m' (page_ID p) = Inr (page_Finalize p) \<and>
    (\<forall>j. j \<noteq> page_ID p \<and> unat j < mgr_cap \<and> mgr_ReadPage m j = Inr q \<longrightarrow>
      mgr_ReadPage m' j = Inr q)"
  using mgr_write_law [OF assms] by blast

theorem mgr_write_then_read_witness:
  "\<exists>m'. mgr_WritePage \<lparr>mgr_f = [], mgr_numPages = 3\<rparr> (page_New 2 PageTypeBTreeLeaf) = Inr m' \<and>
    mgr_ReadPage m' 2 = Inr (page_Finalize (page_New 2 PageTypeBTreeLeaf))"
  using mgr_write_then_read [of "\<lparr>mgr_f = [], mgr_numPages = 3\<rparr>" "page_New 2 PageTypeBTreeLeaf"]
  by (auto simp: mgr_inv_def mgr_cap_def)

text \<open>
  Publishing a root. After \<^verbatim>\<open>WriteMeta\<close> the file can be opened again with the same page count
  and the meta record written, and every tree page still reads the same.
\<close>

theorem mgr_publish_reopen:
  assumes "mgr_inv m" "mgr_numPages m \<noteq> 0" "meta_NumPages mt = mgr_numPages m"
  shows "\<exists>m'. mgr_WriteMeta m mt = Inr m' \<and> mgr_ReadMeta m' = Inr mt \<and>
    mgr_Open (mgr_f m') = Inr m' \<and>
    (\<forall>j. j \<noteq> MetaPageID \<and> unat j < mgr_cap \<and> mgr_ReadPage m j = Inr q \<longrightarrow>
      mgr_ReadPage m' j = Inr q)"
proof -
  from mgr_WriteMeta_Inr [OF assms] obtain m' where
    m': "mgr_WriteMeta m mt = Inr m'" "mgr_numPages m' = mgr_numPages m" "mgr_ReadMeta m' = Inr mt"
      "\<forall>j q. j \<noteq> MetaPageID \<longrightarrow> unat j < mgr_cap \<longrightarrow> mgr_ReadPage m j = Inr q \<longrightarrow>
        mgr_ReadPage m' j = Inr q" by blast
  have "mgr_ReadPage \<lparr>mgr_f = mgr_f m', mgr_numPages = 0\<rparr> = mgr_ReadPage m'"
    by (rule ext) (simp add: mgr_ReadPage_def)
  then have "mgr_Open (mgr_f m') = Inr m'"
    using m'(2,3) assms(2,3) by (cases m') (simp add: mgr_Open_def mgr_ReadMeta_def)
  with m' show ?thesis by blast
qed

theorem mgr_publish_reopen_witness:
  "\<exists>m'. mgr_WriteMeta \<lparr>mgr_f = [], mgr_numPages = 3\<rparr>
      \<lparr>meta_Root = 2, meta_LastAppliedTxID = 9, meta_NumPages = 3\<rparr> = Inr m' \<and>
    mgr_Open (mgr_f m') = Inr m'"
  using mgr_publish_reopen [of "\<lparr>mgr_f = [], mgr_numPages = 3\<rparr>"
      "\<lparr>meta_Root = 2, meta_LastAppliedTxID = 9, meta_NumPages = 3\<rparr>"]
  by (auto simp: mgr_inv_def mgr_cap_def)

end
