(* ===== verification/Overflow.thy ===== *)
theory Overflow
  imports Codec Pager
begin

text \<open>
  The overflow chains of \<^verbatim>\<open>encode.go\<close> and \<^verbatim>\<open>makeLeafEntry\<close> of \<^verbatim>\<open>btree.go\<close>: a value longer
  than 512 bytes is cut into chunks, one page each, every page naming the next. \<open>ov_chain\<close> says
  that a page source holds such a chain; writing a value makes one and reading a chain returns
  its chunks. Reading loops over the chain, so it is given fuel; one more than the number of
  chunks is enough.
\<close>

definition overflowHeader :: nat where
  "overflowHeader = 12"

definition ovChunk :: nat where
  "ovChunk = BodySize - overflowHeader"

lemma ovChunk_eq: "ovChunk = 4052"
  by (simp add: ovChunk_def overflowHeader_def fit_simps)

section \<open>Writing\<close>

text \<open>The first loop of \<^verbatim>\<open>writeOverflow\<close>: allocate one page per chunk of the value.\<close>

function ov_alloc :: "'s page_store \<Rightarrow> 's \<Rightarrow> bytes \<Rightarrow> (u64 \<times> bytes) list \<times> 's" where
  "ov_alloc S s val =
     (if val = [] then ([], s)
      else
        let (pid, s) = st_Allocate S s;
            (rest, s) = ov_alloc S s (drop ovChunk val)
        in ((pid, take ovChunk val) # rest, s))"
  by pat_completeness auto
termination
  by (relation "measure (\<lambda>(S, s, val). length val)") (auto simp: ovChunk_eq)

declare ov_alloc.simps [simp del]

text \<open>The second loop: every page points at its successor.\<close>

fun ov_link :: "(u64 \<times> bytes) list \<Rightarrow> (u64 \<times> bytes \<times> u64) list" where
  "ov_link [] = []"
| "ov_link [(i, d)] = [(i, d, InvalidPageID)]"
| "ov_link ((i, d) # (j, e) # r) = (i, d, j) # ov_link ((j, e) # r)"

definition ov_page :: "u64 \<times> bytes \<times> u64 \<Rightarrow> page" where
  "ov_page t =
     (case t of (pid, d, next_id) \<Rightarrow>
       let p = page_New pid PageTypeOverflow;
           p = page_SetBody p 0 (put64 next_id);
           p = page_SetBody p 8 (put32 (word_of_nat (length d)));
           p = page_SetBody p overflowHeader d
       in page_SetPayloadLen p (word_of_nat (overflowHeader + length d)))"

fun ov_writes :: "'s page_store \<Rightarrow> 's \<Rightarrow> (u64 \<times> bytes \<times> u64) list \<Rightarrow> 's res" where
  "ov_writes S s [] = Inr s"
| "ov_writes S s (t # ts) = bindE (st_WritePage S s (ov_page t)) (\<lambda>s. ov_writes S s ts)"

text \<open>An empty value still needs one page.\<close>

definition ov_pages :: "'s page_store \<Rightarrow> 's \<Rightarrow> bytes \<Rightarrow> (u64 \<times> bytes) list \<times> 's" where
  "ov_pages S s val =
     (let (pages, s) = ov_alloc S s val in
      if pages = [] then let (pid, s) = st_Allocate S s in ([(pid, [])], s) else (pages, s))"

definition writeOverflow :: "'s page_store \<Rightarrow> 's \<Rightarrow> bytes \<Rightarrow> (ovRef \<times> 's) res" where
  "writeOverflow S s val =
     (let (pages, s) = ov_pages S s val
      in bindE (ov_writes S s (ov_link pages)) (\<lambda>s.
           Inr (\<lparr>ov_head = fst (hd pages), ov_size = word_of_nat (length val)\<rparr>, s)))"

definition makeLeafEntry :: "'s page_store \<Rightarrow> 's \<Rightarrow> bytes \<Rightarrow> bytes \<Rightarrow> (leafEntry \<times> 's) res" where
  "makeLeafEntry S s key value =
     (if length value \<le> maxInline
      then Inr (\<lparr>le_key = key, le_inline = value, le_ov = zeroRef, le_isOverflow = False\<rparr>, s)
      else bindE (writeOverflow S s value) (\<lambda>(ref, s).
        Inr (\<lparr>le_key = key, le_inline = [], le_ov = ref, le_isOverflow = True\<rparr>, s)))"

section \<open>Reading\<close>

text \<open>
  \<^verbatim>\<open>binary.LittleEndian.Uint64(body[0:])\<close> and \<^verbatim>\<open>Uint32(body[8:])\<close> panic on a body shorter
  than the header. The capacity hint \<^verbatim>\<open>make([]byte, 0, ref.size)\<close> has no part in the result.
\<close>

fun readOverflow_loop :: "nat \<Rightarrow> page_source \<Rightarrow> u64 \<Rightarrow> bytes \<Rightarrow> bytes res" where
  "readOverflow_loop 0 src pid out = Inl NoFuel"
| "readOverflow_loop (Suc fuel) src pid out =
     (if pid = InvalidPageID then Inr out
      else bindE (src pid) (\<lambda>p.
        if page_Type p \<noteq> PageTypeOverflow then Inl (ErrNotOverflow pid)
        else
          let body = page_Payload p in
          if length body < overflowHeader then Inl Panic
          else
            let next_id = get64 (sub 0 8 body); clen = unat (get32 (sub 8 4 body)) in
            if overflowHeader + clen > length body then Inl (ErrCorruptOverflow pid)
            else readOverflow_loop fuel src next_id (out @ sub overflowHeader clen body)))"

definition readOverflow :: "nat \<Rightarrow> page_source \<Rightarrow> ovRef \<Rightarrow> bytes res" where
  "readOverflow fuel src ref = readOverflow_loop fuel src (ov_head ref) []"

definition materialize :: "nat \<Rightarrow> page_source \<Rightarrow> leafEntry \<Rightarrow> bytes res" where
  "materialize fuel src e = (if le_isOverflow e then readOverflow fuel src (le_ov e) else Inr (le_inline e))"

section \<open>Chains\<close>

text \<open>\<open>ov_chain rd D i cs\<close>: from page \<open>i\<close>, \<open>rd\<close> holds a chain of pages in \<open>D\<close> with chunks \<open>cs\<close>.\<close>

fun ov_chain :: "page_source \<Rightarrow> u64 set \<Rightarrow> u64 \<Rightarrow> bytes list \<Rightarrow> bool" where
  "ov_chain rd D pid [] \<longleftrightarrow> pid = InvalidPageID"
| "ov_chain rd D pid (c # cs) \<longleftrightarrow>
     pid \<noteq> InvalidPageID \<and> pid \<in> D \<and>
     (\<exists>p next_id. rd pid = Inr p \<and> page_Type p = PageTypeOverflow \<and> length c < 2 ^ 32 \<and>
       page_Payload p = put64 next_id @ put32 (word_of_nat (length c)) @ c \<and>
       ov_chain rd D next_id cs)"

definition entry_value :: "page_source \<Rightarrow> u64 set \<Rightarrow> leafEntry \<Rightarrow> bytes \<Rightarrow> bool" where
  "entry_value rd D e v \<longleftrightarrow>
     (if le_isOverflow e
      then \<exists>cs. ov_chain rd D (ov_head (le_ov e)) cs \<and> concat cs = v \<and> length cs \<le> Suc (length v)
      else le_inline e = v)"

lemma ov_chain_keep:
  "ov_chain rd D pid cs \<Longrightarrow> keeps_reads rd rd' D \<Longrightarrow> D \<subseteq> D' \<Longrightarrow> ov_chain rd' D' pid cs"
proof (induction cs arbitrary: pid)
  case Nil
  then show ?case by simp
next
  case (Cons c cs)
  then show ?case by (fastforce dest: keeps_readsD)
qed

lemma entry_value_keep:
  "entry_value rd D e v \<Longrightarrow> keeps_reads rd rd' D \<Longrightarrow> D \<subseteq> D' \<Longrightarrow> entry_value rd' D' e v"
  by (auto simp: entry_value_def dest: ov_chain_keep split: if_splits)

lemma readOverflow_chain:
  "ov_chain src D pid cs \<Longrightarrow> length cs < fuel \<Longrightarrow>
   readOverflow_loop fuel src pid out = Inr (out @ concat cs)"
proof (induction cs arbitrary: pid fuel out)
  case Nil
  then show ?case by (cases fuel) simp_all
next
  case (Cons c cs)
  from Cons.prems obtain f p next_id where fuel: "fuel = Suc f" "length cs < f"
    and p: "pid \<noteq> InvalidPageID" "src pid = Inr p" "page_Type p = PageTypeOverflow"
      "length c < 2 ^ 32" "page_Payload p = put64 next_id @ put32 (word_of_nat (length c)) @ c"
      "ov_chain src D next_id cs" by (cases fuel) auto
  have "sub 0 8 (page_Payload p) = put64 next_id"
    "sub 8 4 (page_Payload p) = put32 (word_of_nat (length c))"
    "sub overflowHeader (length c) (page_Payload p) = c"
    "length (page_Payload p) = overflowHeader + length c"
    using p(5) by (simp_all add: byte_simps overflowHeader_def)
  with p fuel Cons.IH [of next_id f "out @ c"] show ?case by (simp add: Let_def)
qed

lemma materialize_value:
  "entry_value src D e v \<Longrightarrow> Suc (length v) < fuel \<Longrightarrow> materialize fuel src e = Inr v"
  by (auto simp: entry_value_def materialize_def readOverflow_def readOverflow_chain)

section \<open>Writing a value makes its chain\<close>

lemma ov_page_read:
  assumes "length d \<le> ovChunk"
  shows "page_wf (ov_page (i, d, j)) \<and> page_ID (ov_page (i, d, j)) = i \<and>
    page_Type (page_Finalize (ov_page (i, d, j))) = PageTypeOverflow \<and>
    page_Payload (page_Finalize (ov_page (i, d, j))) = put64 j @ put32 (word_of_nat (length d)) @ d"
proof -
  let ?q = "page_New i PageTypeOverflow"
  let ?w = "put64 j @ put32 (word_of_nat (length d)) @ d"
  have len: "overflowHeader + length d \<le> BodySize"
    using assms by (simp add: ovChunk_eq overflowHeader_def fit_simps)
  have body: "page_SetBody (page_SetBody (page_SetBody ?q 0 (put64 j)) 8
      (put32 (word_of_nat (length d)))) overflowHeader d = page_SetBody ?q 0 ?w"
    using len by (simp add: page_SetBody_def copy_at_adjacent overflowHeader_def fit_simps
        page_New_def Let_def)
  have "ov_page (i, d, j) = page_SetPayloadLen (page_SetBody ?q 0 ?w) (word_of_nat (length ?w))"
    unfolding ov_page_def prod.case Let_def body by (simp add: overflowHeader_def)
  moreover have "length ?w \<le> BodySize" using len by (simp add: overflowHeader_def)
  ultimately show ?thesis
    using page_Payload_written [of ?q ?w] by simp
qed

text \<open>Once every page of a linked list of chunks is readable, the list is a chain.\<close>

lemma ov_chain_link:
  assumes "pages \<noteq> []"
    and "\<forall>t\<in>set (ov_link pages). rd (fst t) = Inr (page_Finalize (ov_page t)) \<and> fst t \<in> D"
    and "\<forall>(i, d)\<in>set pages. i \<noteq> InvalidPageID \<and> length d \<le> ovChunk"
  shows "ov_chain rd D (fst (hd pages)) (map snd pages)"
  using assms
proof (induction pages rule: ov_link.induct)
  case 1
  then show ?case by simp
next
  case (2 i d)
  then show ?case
    using ov_page_read [of d i InvalidPageID] by (auto simp: ovChunk_eq)
next
  case (3 i d j e r)
  then have "ov_chain rd D j (map snd ((j, e) # r))" by simp
  with 3 show ?case
    using ov_page_read [of d i j] by (auto simp: ovChunk_eq)
qed

lemma ov_link_ids: "map fst (ov_link pages) = map fst pages"
  by (induction pages rule: ov_link.induct) auto

lemma ov_link_chunks: "map (\<lambda>t. fst (snd t)) (ov_link pages) = map snd pages"
  by (induction pages rule: ov_link.induct) auto

context page_store_laws
begin

lemma ov_alloc_law:
  assumes "inv s" "used s + length val \<le> cap" "ov_alloc S s val = (pages, s')"
  shows "inv s' \<and> used s' = used s + length pages \<and> length pages \<le> length val \<and>
    map (unat \<circ> fst) pages = [used s..<used s + length pages] \<and>
    concat (map snd pages) = val \<and> (\<forall>(i, d)\<in>set pages. i \<noteq> InvalidPageID \<and> length d \<le> ovChunk) \<and>
    keeps_reads (st_ReadPage S s) (st_ReadPage S s') (ids_below (used s))"
  using assms
proof (induction "length val" arbitrary: val s pages s' rule: less_induct)
  case less
  show ?case
  proof (cases "val = []")
    case True
    with less.prems show ?thesis by (simp add: ov_alloc.simps)
  next
    case False
    obtain i s1 where al: "st_Allocate S s = (i, s1)" by (cases "st_Allocate S s")
    obtain rest s2 where rest: "ov_alloc S s1 (drop ovChunk val) = (rest, s2)"
      by (cases "ov_alloc S s1 (drop ovChunk val)")
    have eqs: "pages = (i, take ovChunk val) # rest" "s' = s2"
      using less.prems(3) False al rest by (auto simp: ov_alloc.simps [of S s val])
    have room: "used s < cap" using less.prems(2) False by (cases val) auto
    from allocate_law [OF less.prems(1) room al]
    have a: "unat i = used s" "used s1 = Suc (used s)" "inv s1"
      "keeps_reads (st_ReadPage S s) (st_ReadPage S s1) (ids_below (used s))" by auto
    have shorter: "length (drop ovChunk val) < length val" using False by (simp add: ovChunk_eq)
    have "used s1 + length (drop ovChunk val) \<le> cap" using less.prems(2) a(2) shorter by linarith
    from less.hyps [OF shorter a(3) this rest] a(2)
    have r: "inv s2" "used s2 = Suc (used s) + length rest"
      "length rest \<le> length (drop ovChunk val)"
      "map (unat \<circ> fst) rest = [Suc (used s)..<Suc (used s) + length rest]"
      "concat (map snd rest) = drop ovChunk val"
      "\<forall>(i, d)\<in>set rest. i \<noteq> InvalidPageID \<and> length d \<le> ovChunk"
      "keeps_reads (st_ReadPage S s1) (st_ReadPage S s2) (ids_below (Suc (used s)))" by auto
    have "keeps_reads (st_ReadPage S s) (st_ReadPage S s2) (ids_below (used s))"
      using a(4) r(7) by (rule keeps_reads_trans) (simp add: ids_below_mono)
    moreover have "[used s..<used s + length pages]
        = used s # [Suc (used s)..<Suc (used s) + length rest]"
      using eqs(1) by (simp add: upt_conv_Cons del: upt_Suc)
    ultimately show ?thesis
      using r a eqs allocated_valid [OF less.prems(1) room al] shorter by auto
  qed
qed

lemma ov_alloc_fresh:
  assumes "inv s" "used s + length val < cap"
    "ov_pages S s val = (pages, s1)"
  shows "inv s1 \<and> used s1 = used s + length pages \<and> length pages \<le> Suc (length val) \<and>
    map (unat \<circ> fst) pages = [used s..<used s1] \<and> pages \<noteq> [] \<and> concat (map snd pages) = val \<and>
    (\<forall>(i, d)\<in>set pages. i \<noteq> InvalidPageID \<and> length d \<le> ovChunk) \<and>
    keeps_reads (st_ReadPage S s) (st_ReadPage S s1) (ids_below (used s))"
proof -
  obtain ps sa where al: "ov_alloc S s val = (ps, sa)" by (cases "ov_alloc S s val")
  have le: "used s + length val \<le> cap" using assms(2) by simp
  note law = ov_alloc_law [OF assms(1) le al]
  show ?thesis
  proof (cases "ps = []")
    case False
    with law al assms(3) show ?thesis by (auto simp: ov_pages_def)
  next
    case True
    obtain i sb where ab: "st_Allocate S sa = (i, sb)" by (cases "st_Allocate S sa")
    have inva: "inv sa" "used sa = used s" "val = []" using law True by auto
    have room: "used sa < cap" using inva(2) assms(2) by simp
    have "pages = [(i, [])]" "s1 = sb" using assms(3) al True ab by (simp_all add: ov_pages_def)
    then show ?thesis
      using allocate_law [OF inva(1) room ab] allocated_valid [OF inva(1) room ab] law inva
      by (auto intro: keeps_reads_trans)
  qed
qed

lemma ov_writes_law:
  assumes "inv s" "distinct (map fst ts)"
    "\<forall>t\<in>set ts. unat (fst t) < used s \<and> length (fst (snd t)) \<le> ovChunk"
  shows "\<exists>s'. ov_writes S s ts = Inr s' \<and> inv s' \<and> used s' = used s \<and>
    (\<forall>t\<in>set ts. st_ReadPage S s' (fst t) = Inr (page_Finalize (ov_page t))) \<and>
    keeps_reads (st_ReadPage S s) (st_ReadPage S s') (ids_below (used s) - set (map fst ts))"
  using assms
proof (induction ts arbitrary: s)
  case Nil
  then show ?case by simp
next
  case (Cons t ts)
  obtain i d j where t: "t = (i, d, j)" by (cases t)
  have p: "page_wf (ov_page t)" "page_ID (ov_page t) = i"
    using ov_page_read [of d i j] Cons.prems(3) t by auto
  from write_law [OF Cons.prems(1) p(1)] p(2) Cons.prems(3) t obtain s1 where
    w: "st_WritePage S s (ov_page t) = Inr s1" "inv s1" "used s1 = used s"
      "st_ReadPage S s1 i = Inr (page_Finalize (ov_page t))"
      "keeps_reads (st_ReadPage S s) (st_ReadPage S s1) (ids_below (used s) - {i})" by auto
  from Cons.IH [OF w(2)] Cons.prems(2,3) w(3) obtain s2 where
    r: "ov_writes S s1 ts = Inr s2" "inv s2" "used s2 = used s"
      "\<forall>t\<in>set ts. st_ReadPage S s2 (fst t) = Inr (page_Finalize (ov_page t))"
      "keeps_reads (st_ReadPage S s1) (st_ReadPage S s2) (ids_below (used s) - set (map fst ts))"
    by auto
  have "i \<in> ids_below (used s) - set (map fst ts)" using Cons.prems(2,3) t by auto
  then have "st_ReadPage S s2 i = Inr (page_Finalize (ov_page t))"
    using r(5) w(4) by (blast dest: keeps_readsD)
  moreover have "keeps_reads (st_ReadPage S s) (st_ReadPage S s2)
      (ids_below (used s) - set (map fst (t # ts)))"
    using w(5) r(5) t by (auto simp: keeps_reads_def)
  ultimately show ?case using w r t by auto
qed

text \<open>\<^verbatim>\<open>writeOverflow\<close> returns the head of a chain of fresh pages that holds the value.\<close>

lemma writeOverflow_law:
  assumes "inv s" "used s + length val < cap"
  shows "\<exists>ref s'. writeOverflow S s val = Inr (ref, s') \<and> inv s' \<and> used s \<le> used s' \<and>
    used s' \<le> used s + length val + 1 \<and>
    (\<exists>cs. ov_chain (st_ReadPage S s') (ids_below (used s')) (ov_head ref) cs \<and>
      concat cs = val \<and> length cs \<le> Suc (length val)) \<and>
    keeps_reads (st_ReadPage S s) (st_ReadPage S s') (ids_below (used s))"
proof -
  obtain pages s1 where al: "ov_pages S s val = (pages, s1)" by (cases "ov_pages S s val")
  have a: "inv s1" "used s1 = used s + length pages" "length pages \<le> Suc (length val)"
      "map (unat \<circ> fst) pages = [used s..<used s1]" "pages \<noteq> []"
      "concat (map snd pages) = val" "\<forall>(i, d)\<in>set pages. i \<noteq> InvalidPageID \<and> length d \<le> ovChunk"
      "keeps_reads (st_ReadPage S s) (st_ReadPage S s1) (ids_below (used s))"
    using ov_alloc_fresh [OF assms al] by auto
  let ?ts = "ov_link pages"
  have ids: "map fst ?ts = map fst pages" by (rule ov_link_ids)
  have nats: "map unat (map fst pages) = [used s..<used s1]" using a(4) by simp
  have "distinct (map unat (map fst pages))" unfolding nats by simp
  then have dist: "distinct (map fst ?ts)"
    unfolding ids distinct_map [of unat] by blast
  have range: "used s \<le> unat (fst t) \<and> unat (fst t) < used s1" if "t \<in> set ?ts" for t
  proof -
    have "fst t \<in> set (map fst pages)" using that ids by (metis image_eqI list.set_map)
    then have "unat (fst t) \<in> set (map unat (map fst pages))"
      unfolding set_map [of unat] by (rule imageI)
    then show ?thesis unfolding nats by simp
  qed
  have small: "length (fst (snd t)) \<le> ovChunk" if "t \<in> set ?ts" for t
  proof -
    have "fst (snd t) \<in> set (map snd pages)"
      using that ov_link_chunks [of pages] by (metis (mono_tags, lifting) image_eqI list.set_map)
    then show ?thesis using a(7) by auto
  qed
  from ov_writes_law [OF a(1) dist] range small obtain s2 where
    w: "ov_writes S s1 ?ts = Inr s2" "inv s2" "used s2 = used s1"
      "\<forall>t\<in>set ?ts. st_ReadPage S s2 (fst t) = Inr (page_Finalize (ov_page t))"
      "keeps_reads (st_ReadPage S s1) (st_ReadPage S s2) (ids_below (used s1) - set (map fst ?ts))"
    by blast
  have "ov_chain (st_ReadPage S s2) (ids_below (used s2)) (fst (hd pages)) (map snd pages)"
    using w(3,4) range a(7) by (intro ov_chain_link [OF a(5)]) auto
  moreover have "keeps_reads (st_ReadPage S s) (st_ReadPage S s2) (ids_below (used s))"
    using a(8) w(5) by (rule keeps_reads_trans) (use range a(2) in \<open>fastforce simp: image_iff\<close>)
  moreover have "writeOverflow S s val =
      Inr (\<lparr>ov_head = fst (hd pages), ov_size = word_of_nat (length val)\<rparr>, s2)"
    using al w(1) by (simp add: writeOverflow_def)
  ultimately show ?thesis using a w by auto
qed

lemma makeLeafEntry_law:
  assumes "inv s" "used s + length val < cap" "length key < 2 ^ 16"
  shows "\<exists>e s'. makeLeafEntry S s key val = Inr (e, s') \<and> inv s' \<and> used s \<le> used s' \<and>
    used s' \<le> used s + length val + 1 \<and> le_key e = key \<and> entry_wf e \<and>
    le_size e \<le> length key + 519 \<and>
    entry_value (st_ReadPage S s') (ids_below (used s')) e val \<and>
    keeps_reads (st_ReadPage S s) (st_ReadPage S s') (ids_below (used s))"
proof (cases "length val \<le> maxInline")
  case True
  with assms show ?thesis
    by (simp add: makeLeafEntry_def entry_wf_def le_size_def entry_value_def maxInline_def)
next
  case False
  with writeOverflow_law [OF assms(1,2)] assms(3) show ?thesis
    by (fastforce simp: makeLeafEntry_def entry_wf_def le_size_def entry_value_def)
qed

end

section \<open>Properties\<close>

text \<open>
  A value of any size is read back from the leaf entry made for it, inline or through its chain
  of overflow pages, as long as the data file has room; no page written before is touched. The fuel
  bounds the number of pages of the chain.
\<close>

theorem materialize_makeLeafEntry:
  assumes "mgr_inv m" "unat (mgr_numPages m) + length val < mgr_cap" "length key < 2 ^ 16"
    "Suc (length val) < fuel"
  shows "\<exists>e m'. makeLeafEntry mgr_store m key val = Inr (e, m') \<and> le_key e = key \<and>
    materialize fuel (mgr_ReadPage m') e = Inr val \<and>
    keeps_reads (mgr_ReadPage m) (mgr_ReadPage m') (ids_below (unat (mgr_numPages m)))"
  using mgr.makeLeafEntry_law [OF assms(1-3)] assms(4)
  by (fastforce simp: mgr_store_def dest: materialize_value)

theorem materialize_makeLeafEntry_witness:
  "\<exists>e m'. makeLeafEntry mgr_store \<lparr>mgr_f = [], mgr_numPages = 1\<rparr> [1] (replicate 9000 7) = Inr (e, m') \<and>
    materialize 9002 (mgr_ReadPage m') e = Inr (replicate 9000 7)"
  using materialize_makeLeafEntry [of "\<lparr>mgr_f = [], mgr_numPages = 1\<rparr>" "replicate 9000 7" "[1]" 9002]
  by (auto simp: mgr_inv_def mgr_cap_def)

end
