(* ===== verification/TreeRead.thy ===== *)
theory TreeRead
  imports Overflow
begin

text \<open>
  The read path of \<^verbatim>\<open>internal/storage/btree/btree.go\<close>: \<open>btree_Get\<close> and \<open>btree_Scan\<close> over any
  page source. \<open>tree_of rd D h root kvs\<close> is the abstraction: from \<open>root\<close>, the pages of \<open>D\<close> that
  \<open>rd\<close> reads form a tree of height \<open>h\<close> whose leaves hold the key/value list \<open>kvs\<close> in ascending
  order. A lookup is then a lookup in \<open>kvs\<close> and a scan visits the entries of \<open>kvs\<close> with the prefix.
  The loop of \<^verbatim>\<open>Get\<close> and the recursion of \<^verbatim>\<open>Scan\<close> are given fuel; more than the height of the
  tree, and more than the chunks of any value, is enough.
\<close>

section \<open>Get\<close>

fun get_loop :: "nat \<Rightarrow> nat \<Rightarrow> page_source \<Rightarrow> u64 \<Rightarrow> bytes \<Rightarrow> bytes option res" where
  "get_loop 0 vf src pid key = Inl NoFuel"
| "get_loop (Suc fuel) vf src pid key =
     bindE (src pid) (\<lambda>p.
     bindE (decodeNode p) (\<lambda>n.
       if nd_leaf n then
         (let (idx, found) = leafSearch n key in
          if \<not> found then Inr None
          else bindE (nth_res (nd_entries n) idx) (\<lambda>e.
               bindE (materialize vf src e) (\<lambda>v. Inr (Some v))))
       else bindE (nth_res (nd_children n) (childIndex n key)) (\<lambda>c. get_loop fuel vf src c key)))"

text \<open>The result \<^verbatim>\<open>(value, found, err)\<close> is an error, or \<open>Some\<close> value, or \<open>None\<close> for not found.\<close>

definition btree_Get :: "nat \<Rightarrow> page_source \<Rightarrow> u64 \<Rightarrow> bytes \<Rightarrow> bytes option res" where
  "btree_Get fuel src root key =
     (if root = InvalidPageID then Inr None else get_loop fuel fuel src root key)"

section \<open>Scan\<close>

text \<open>
  The callback is a function from the caller's state to its new state and the boolean it returns;
  an accumulator pairs that state with the flag \<^verbatim>\<open>stopped\<close>.
\<close>

type_synonym 'a visitor = "'a \<Rightarrow> bytes \<Rightarrow> bytes \<Rightarrow> 'a \<times> bool"

fun scan_leaf ::
  "nat \<Rightarrow> page_source \<Rightarrow> bytes \<Rightarrow> bytes option \<Rightarrow> 'a visitor \<Rightarrow> leafEntry list \<Rightarrow> 'a \<times> bool \<Rightarrow>
   ('a \<times> bool) res" where
  "scan_leaf vf src lo hi fn [] acc = Inr acc"
| "scan_leaf vf src lo hi fn (e # es) acc =
     (if snd acc then Inr acc
      else if length lo > 0 \<and> compareBytes (le_key e) lo < 0 then scan_leaf vf src lo hi fn es acc
      else if (case hi of None \<Rightarrow> False | Some h \<Rightarrow> compareBytes (le_key e) h \<ge> 0)
        then scan_leaf vf src lo hi fn es acc
      else bindE (materialize vf src e) (\<lambda>v.
        let (st, go) = fn (fst acc) (le_key e) v in
        if \<not> go then Inr (st, True) else scan_leaf vf src lo hi fn es (st, snd acc)))"

text \<open>
  The loop over the children \<open>cs\<close> of \<open>n\<close> that remain from index \<open>i\<close>; \<open>rec\<close> is the call of
  \<^verbatim>\<open>walk\<close> on a child.
\<close>

fun scan_children ::
  "(u64 \<Rightarrow> 'a \<times> bool \<Rightarrow> ('a \<times> bool) res) \<Rightarrow> bytes \<Rightarrow> bytes option \<Rightarrow> bytes list \<Rightarrow> nat \<Rightarrow> u64 list \<Rightarrow>
   'a \<times> bool \<Rightarrow> ('a \<times> bool) res" where
  "scan_children rec lo hi ks i [] acc = Inr acc"
| "scan_children rec lo hi ks i (c # cs) acc =
     (if snd acc then Inr acc
      else if i < length ks \<and> length lo > 0 \<and> compareBytes (ks ! i) lo \<le> 0
        then scan_children rec lo hi ks (Suc i) cs acc
      else if i > 0 \<and> hi \<noteq> None \<and> length ks \<le> i - 1 then Inl Panic
      else if i > 0 \<and> (case hi of None \<Rightarrow> False | Some h \<Rightarrow> compareBytes (ks ! (i - 1)) h \<ge> 0)
        then scan_children rec lo hi ks (Suc i) cs acc
      else bindE (rec c acc) (scan_children rec lo hi ks (Suc i) cs))"

fun scan_walk ::
  "nat \<Rightarrow> nat \<Rightarrow> page_source \<Rightarrow> bytes \<Rightarrow> bytes option \<Rightarrow> 'a visitor \<Rightarrow> u64 \<Rightarrow> 'a \<times> bool \<Rightarrow>
   ('a \<times> bool) res" where
  "scan_walk 0 vf src lo hi fn pid acc = Inl NoFuel"
| "scan_walk (Suc fuel) vf src lo hi fn pid acc =
     (if snd acc then Inr acc
      else
        bindE (src pid) (\<lambda>p.
        bindE (decodeNode p) (\<lambda>n.
          if nd_leaf n then scan_leaf vf src lo hi fn (nd_entries n) acc
          else scan_children (\<lambda>c a. scan_walk fuel vf src lo hi fn c a) lo hi (nd_keys n) 0
            (nd_children n) acc)))"

definition btree_Scan ::
  "nat \<Rightarrow> page_source \<Rightarrow> u64 \<Rightarrow> bytes \<Rightarrow> 'a visitor \<Rightarrow> 'a \<Rightarrow> 'a res" where
  "btree_Scan fuel src root prefix fn st =
     (if root = InvalidPageID then Inr st
      else bindE (scan_walk fuel fuel src prefix (prefixUpper prefix) fn root (st, False))
        (\<lambda>acc. Inr (fst acc)))"

section \<open>The tree a page source holds\<close>

text \<open>
  \<open>seps ks kvss\<close>: separator \<open>i\<close> is above every key of the children up to \<open>i\<close> and not above any key
  of the children after.
\<close>

definition seps :: "bytes list \<Rightarrow> (bytes \<times> bytes) list list \<Rightarrow> bool" where
  "seps ks kvss \<longleftrightarrow>
     (\<forall>i<length ks. \<forall>j<length kvss. \<forall>x\<in>set (kvss ! j). if j \<le> i then fst x < ks ! i else ks ! i \<le> fst x)"

fun bt :: "page_source \<Rightarrow> u64 set \<Rightarrow> nat \<Rightarrow> u64 \<Rightarrow> (bytes \<times> bytes) list \<Rightarrow> bool" where
  "bt rd D 0 pid kvs \<longleftrightarrow> pid \<noteq> InvalidPageID \<and> pid \<in> D \<and>
     (\<exists>p es. rd pid = Inr p \<and> decodeNode p = Inr (leafNode es) \<and>
       list_all2 (\<lambda>e kv. le_key e = fst kv \<and> entry_value rd D e (snd kv)) es kvs)"
| "bt rd D (Suc h) pid kvs \<longleftrightarrow> pid \<noteq> InvalidPageID \<and> pid \<in> D \<and>
     (\<exists>p ks cs kvss. rd pid = Inr p \<and> decodeNode p = Inr (internalNode ks cs) \<and>
       length cs = Suc (length ks) \<and> list_all2 (bt rd D h) cs kvss \<and> kvs = concat kvss \<and>
       seps ks kvss)"

definition tree_of :: "page_source \<Rightarrow> u64 set \<Rightarrow> nat \<Rightarrow> u64 \<Rightarrow> (bytes \<times> bytes) list \<Rightarrow> bool" where
  "tree_of rd D h root kvs \<longleftrightarrow>
     (if root = InvalidPageID then kvs = [] else bt rd D h root kvs) \<and> sorted_wrt (<) (map fst kvs)"

text \<open>Fuel that is enough for a tree: more than its height and its values' chunks.\<close>

definition enough_fuel :: "nat \<Rightarrow> nat \<Rightarrow> (bytes \<times> bytes) list \<Rightarrow> bool" where
  "enough_fuel fuel h kvs \<longleftrightarrow> h < fuel \<and> (\<forall>kv\<in>set kvs. Suc (length (snd kv)) < fuel)"

text \<open>A tree is kept by everything that keeps its pages: a captured root stays valid.\<close>

lemma bt_keep:
  "bt rd D h pid kvs \<Longrightarrow> keeps_reads rd rd' D \<Longrightarrow> D \<subseteq> D' \<Longrightarrow> bt rd' D' h pid kvs"
proof (induction h arbitrary: pid kvs)
  case 0
  then obtain p es where pid: "pid \<noteq> InvalidPageID" "pid \<in> D" and p: "rd pid = Inr p"
    "decodeNode p = Inr (leafNode es)"
    "list_all2 (\<lambda>e kv. le_key e = fst kv \<and> entry_value rd D e (snd kv)) es kvs" by auto
  have "list_all2 (\<lambda>e kv. le_key e = fst kv \<and> entry_value rd' D' e (snd kv)) es kvs"
    using p(3) by (rule list_all2_mono) (use 0 in \<open>auto intro: entry_value_keep\<close>)
  moreover have "rd' pid = Inr p" using p(1) pid 0 by (auto dest: keeps_readsD)
  ultimately show ?case using pid p 0(3) by auto
next
  case (Suc h)
  then obtain p ks cs kvss where pid: "pid \<noteq> InvalidPageID" "pid \<in> D" and p: "rd pid = Inr p"
    "decodeNode p = Inr (internalNode ks cs)" "length cs = Suc (length ks)"
    "list_all2 (bt rd D h) cs kvss" "kvs = concat kvss" "seps ks kvss" by auto
  have "list_all2 (bt rd' D' h) cs kvss"
    using p(4) by (rule list_all2_mono) (use Suc in auto)
  moreover have "rd' pid = Inr p" using p(1) pid Suc by (auto dest: keeps_readsD)
  ultimately show ?case using pid p Suc(4) by auto
qed

lemma tree_of_keep:
  "tree_of rd D h root kvs \<Longrightarrow> keeps_reads rd rd' D \<Longrightarrow> D \<subseteq> D' \<Longrightarrow> tree_of rd' D' h root kvs"
  by (auto simp: tree_of_def intro: bt_keep split: if_splits)

section \<open>Lookups\<close>

lemma map_of_concat_single:
  assumes "c < length kvss" "\<forall>j<length kvss. j \<noteq> c \<longrightarrow> key \<notin> fst ` set (kvss ! j)"
  shows "map_of (concat kvss) key = map_of (kvss ! c) key"
  using assms
proof (induction kvss arbitrary: c)
  case Nil
  then show ?case by simp
next
  case (Cons kvs kvss)
  show ?case
  proof (cases c)
    case 0
    have "\<forall>x\<in>set kvss. key \<notin> fst ` set x"
      using Cons.prems(2) 0 by (metis Suc_less_eq in_set_conv_nth length_Cons nat.distinct(1) nth_Cons_Suc)
    then have "map_of (concat kvss) key = None" by (auto simp: map_of_eq_None_iff)
    then show ?thesis using 0 by (simp add: map_add_def split: option.split)
  next
    case (Suc c')
    have "key \<notin> fst ` set kvs"
      using Cons.prems(2) Suc by (metis length_Cons nat.distinct(1) nth_Cons_0 zero_less_Suc)
    then have "map_of kvs key = None" by (simp add: map_of_eq_None_iff)
    moreover have "\<forall>j<length kvss. j \<noteq> c' \<longrightarrow> key \<notin> fst ` set (kvss ! j)"
      using Cons.prems(2) Suc by (metis Suc_less_eq length_Cons nat.inject nth_Cons_Suc)
    then have "map_of (concat kvss) key = map_of (kvss ! c') key"
      using Cons.prems(1) Suc by (intro Cons.IH) simp_all
    ultimately show ?thesis
      using Suc by (simp add: map_add_def split: option.split)
  qed
qed

lemma sorted_wrt_concat_nth:
  "sorted_wrt P (concat xss) \<Longrightarrow> i < length xss \<Longrightarrow> sorted_wrt P (xss ! i)"
proof (induction xss arbitrary: i)
  case Nil
  then show ?case by simp
next
  case (Cons xs xss)
  then show ?case by (cases i) (auto simp: sorted_wrt_append)
qed

text \<open>In a leaf, the search finds the entry that the sorted list has for the key, or none.\<close>

lemma leafSearch_map_of:
  assumes "list_all2 (\<lambda>e kv. le_key e = fst kv \<and> R e (snd kv)) es kvs" "sorted_wrt (<) (map fst kvs)"
    "leafSearch (leafNode es) key = (i, found)"
  shows "if found then \<exists>v. map_of kvs key = Some v \<and> i < length es \<and> R (es ! i) v
    else map_of kvs key = None"
proof -
  have keys: "map le_key es = map fst kvs"
    using assms(1) by (induction rule: list_all2_induct) auto
  then have sorted: "sorted_wrt (<) (map le_key es)" using assms(2) by simp
  from leafSearch_from_split [OF sorted] assms(3) obtain k where
    k: "i = k" "\<forall>e\<in>set (take k es). le_key e < key"
      "if found then k < length es \<and> le_key (es ! k) = key
       else \<forall>e\<in>set (drop k es). key < le_key e"
    by (fastforce simp: leafSearch_def)
  show ?thesis
  proof (cases found)
    case True
    then have i: "i < length es" "le_key (es ! i) = key" using k by auto
    then have kv: "kvs ! i \<in> set kvs" "fst (kvs ! i) = key" "R (es ! i) (snd (kvs ! i))"
      using assms(1) by (auto simp: list_all2_conv_all_nth)
    have "distinct (map fst kvs)" using assms(2) by (simp add: strict_sorted_iff)
    with kv have "map_of kvs key = Some (snd (kvs ! i))" by (metis map_of_eq_Some_iff prod.collapse)
    with True i kv show ?thesis by auto
  next
    case False
    have "key \<noteq> le_key e" if "e \<in> set es" for e
      using that k False by (metis Un_iff append_take_drop_id less_irrefl set_append)
    then have "key \<notin> set (map le_key es)" by auto
    then have "key \<notin> fst ` set kvs" unfolding keys by simp
    with False show ?thesis by (simp add: map_of_eq_None_iff)
  qed
qed

text \<open>Descending into the chosen child loses no entry with the key.\<close>

lemma childIndex_map_of:
  fixes key :: bytes
  assumes "length cs = Suc (length ks)" "length kvss = length cs" "seps ks kvss"
  defines "c \<equiv> childIndex (internalNode ks cs) key"
  shows "c < length cs \<and> map_of (concat kvss) key = map_of (kvss ! c) key"
proof -
  have c: "c \<le> length ks" "\<forall>s\<in>set (take c ks). s \<le> key" "c < length ks \<longrightarrow> key < ks ! c"
    using childIndex_split [of "internalNode ks cs" key] assms(1) by (simp_all add: c_def)
  have "key \<notin> fst ` set (kvss ! j)" if j: "j < length kvss" "j \<noteq> c" for j
  proof (cases "j < c")
    case True
    then have "ks ! j \<in> set (take c ks)" using c(1) by (auto simp: in_set_conv_nth)
    then have "ks ! j \<le> key" using c(2) by blast
    moreover have "\<forall>x\<in>set (kvss ! j). fst x < ks ! j"
      using assms(3) True c(1) j(1) by (auto simp: seps_def)
    ultimately show ?thesis by force
  next
    case False
    with j have "c < j" by simp
    then have lt: "c < length ks" using j(1) assms(1,2) by simp
    then have "\<forall>x\<in>set (kvss ! j). ks ! c \<le> fst x"
      using assms(3) \<open>c < j\<close> j(1) by (auto simp: seps_def)
    with c(3) lt show ?thesis by force
  qed
  then show ?thesis using c(1) assms(1,2) by (intro conjI map_of_concat_single) auto
qed

lemma get_loop_correct:
  assumes "bt src D h pid kvs" "sorted_wrt (<) (map fst kvs)" "h < fuel"
    "\<forall>kv\<in>set kvs. Suc (length (snd kv)) < vf"
  shows "get_loop fuel vf src pid key = Inr (map_of kvs key)"
  using assms
proof (induction h arbitrary: pid kvs fuel)
  case 0
  then obtain f p es where f: "fuel = Suc f" and p: "src pid = Inr p"
    "decodeNode p = Inr (leafNode es)"
    "list_all2 (\<lambda>e kv. le_key e = fst kv \<and> entry_value src D e (snd kv)) es kvs"
    by (cases fuel) auto
  obtain i found where s: "leafSearch (leafNode es) key = (i, found)"
    by (cases "leafSearch (leafNode es) key")
  from leafSearch_map_of [OF p(3) 0(2) s] show ?case
  proof (cases found)
    case True
    with leafSearch_map_of [OF p(3) 0(2) s] obtain v where
      v: "map_of kvs key = Some v" "i < length es" "entry_value src D (es ! i) v" by auto
    have "Suc (length v) < vf" using 0(4) map_of_SomeD [OF v(1)] by force
    with v(3) have "materialize vf src (es ! i) = Inr v" by (rule materialize_value)
    with True f p s v show ?thesis by (simp add: nth_res_def)
  next
    case False
    with f p s leafSearch_map_of [OF p(3) 0(2) s] show ?thesis by simp
  qed
next
  case (Suc h)
  then obtain f p ks cs kvss where f: "fuel = Suc f" "h < f" and p: "src pid = Inr p"
    "decodeNode p = Inr (internalNode ks cs)" "length cs = Suc (length ks)"
    "list_all2 (bt src D h) cs kvss" "kvs = concat kvss" "seps ks kvss"
    by (cases fuel) auto
  let ?c = "childIndex (internalNode ks cs) key"
  have len: "length kvss = length cs" using p(4) by (simp add: list_all2_lengthD)
  note c = childIndex_map_of [OF p(3) len p(6), of key]
  have "sorted_wrt (<) (map fst (kvss ! ?c))"
    using sorted_wrt_concat_nth [of "(<)" "map (map fst) kvss" ?c] Suc.prems(2) p(5) c len
    by (simp add: map_concat)
  moreover have "\<forall>kv\<in>set (kvss ! ?c). Suc (length (snd kv)) < vf"
    using Suc.prems(4) p(5) c len by auto
  moreover have "bt src D h (cs ! ?c) (kvss ! ?c)"
    using p(4) c by (simp add: list_all2_conv_all_nth)
  ultimately have "get_loop f vf src (cs ! ?c) key = Inr (map_of (kvss ! ?c) key)"
    using f(2) by (intro Suc.IH)
  with f p c show ?case by (simp add: nth_res_def)
qed

text \<open>The lookup returns, and returns what the tree's list has for the key.\<close>

lemma btree_Get_correct:
  assumes "tree_of src D h root kvs" "enough_fuel fuel h kvs"
  shows "btree_Get fuel src root key = Inr (map_of kvs key)"
  using assms get_loop_correct [of src D h root kvs fuel fuel key]
  by (auto simp: btree_Get_def tree_of_def enough_fuel_def split: if_splits)

section \<open>Scans\<close>

text \<open>What a scan does with a key/value list: call the visitor in order until it returns false.\<close>

fun visit :: "'a visitor \<Rightarrow> (bytes \<times> bytes) list \<Rightarrow> 'a \<times> bool \<Rightarrow> 'a \<times> bool" where
  "visit fn [] acc = acc"
| "visit fn (kv # kvs) acc =
     (if snd acc then acc
      else let (st, go) = fn (fst acc) (fst kv) (snd kv) in visit fn kvs (st, \<not> go))"

abbreviation with_prefix :: "bytes \<Rightarrow> (bytes \<times> bytes) list \<Rightarrow> (bytes \<times> bytes) list" where
  "with_prefix prefix kvs \<equiv> filter (\<lambda>kv. has_prefix prefix (fst kv)) kvs"

lemma visit_stopped: "snd acc \<Longrightarrow> visit fn kvs acc = acc"
  by (cases kvs) simp_all

lemma visit_append: "visit fn (xs @ ys) acc = visit fn ys (visit fn xs acc)"
  by (induction xs arbitrary: acc) (auto simp: visit_stopped split: prod.split)

text \<open>The two tests of the leaf loop pass exactly the keys with the prefix.\<close>

lemma leaf_tests:
  "has_prefix lo key \<longleftrightarrow>
     \<not> (length lo > 0 \<and> compareBytes key lo < 0) \<and>
     \<not> (case prefixUpper lo of None \<Rightarrow> False | Some h \<Rightarrow> compareBytes key h \<ge> 0)"
  by (auto simp: prefixUpper_range not_less split: option.split)

lemma scan_leaf_correct:
  assumes "list_all2 (\<lambda>e kv. le_key e = fst kv \<and> entry_value src D e (snd kv)) es kvs"
    "\<forall>kv\<in>set kvs. Suc (length (snd kv)) < vf"
  shows "scan_leaf vf src lo (prefixUpper lo) fn es acc = Inr (visit fn (with_prefix lo kvs) acc)"
  using assms
proof (induction arbitrary: acc rule: list_all2_induct)
  case Nil
  then show ?case by simp
next
  case (Cons e es kv kvs)
  then have mat: "materialize vf src e = Inr (snd kv)"
    by (auto intro: materialize_value)
  show ?case
  proof (cases "snd acc")
    case True
    then show ?thesis by (simp add: visit_stopped)
  next
    case False
    then show ?thesis
      using Cons mat leaf_tests [of lo "le_key e"]
      by (cases acc) (auto simp: visit_stopped split: prod.split)
  qed
qed

text \<open>A child that the loop prunes has no key with the prefix.\<close>

lemma pruned_child:
  assumes "\<forall>x\<in>set kvs. fst x < s" "s \<le> lo"
  shows "with_prefix lo kvs = []"
  using assms by (auto simp: filter_empty_conv prefixUpper_range)

lemma pruned_child_above:
  assumes "\<forall>x\<in>set kvs. s \<le> fst x" "prefixUpper lo = Some h" "h \<le> s"
  shows "with_prefix lo kvs = []"
  using assms by (force simp: filter_empty_conv prefixUpper_range)

lemma scan_children_correct:
  assumes "list_all2 (\<lambda>c kvs. \<forall>a. rec c a = Inr (visit fn (with_prefix lo kvs) a)) cs kvss"
    "\<forall>j<length cs. (i + j < length ks \<longrightarrow> (\<forall>x\<in>set (kvss ! j). fst x < ks ! (i + j))) \<and>
      (0 < i + j \<longrightarrow> i + j - 1 < length ks \<and> (\<forall>x\<in>set (kvss ! j). ks ! (i + j - 1) \<le> fst x))"
  shows "scan_children rec lo (prefixUpper lo) ks i cs acc =
    Inr (visit fn (with_prefix lo (concat kvss)) acc)"
  using assms
proof (induction arbitrary: i acc rule: list_all2_induct)
  case Nil
  then show ?case by simp
next
  case (Cons c cs kvs kvss)
  have rest: "scan_children rec lo (prefixUpper lo) ks (Suc i) cs a =
      Inr (visit fn (with_prefix lo (concat kvss)) a)" for a
  proof (rule Cons.IH, intro allI impI)
    fix j assume "j < length cs"
    then show "(Suc i + j < length ks \<longrightarrow> (\<forall>x\<in>set (kvss ! j). fst x < ks ! (Suc i + j))) \<and>
      (0 < Suc i + j \<longrightarrow> Suc i + j - 1 < length ks \<and>
        (\<forall>x\<in>set (kvss ! j). ks ! (Suc i + j - 1) \<le> fst x))"
      using spec [OF Cons.prems, of "Suc j"] by simp
  qed
  have below: "i < length ks \<Longrightarrow> \<forall>x\<in>set kvs. fst x < ks ! i"
    and above: "0 < i \<Longrightarrow> i - 1 < length ks \<and> (\<forall>x\<in>set kvs. ks ! (i - 1) \<le> fst x)"
    using spec [OF Cons.prems, of 0] by simp_all
  consider "snd acc" | "\<not> snd acc" "i < length ks" "length lo > 0" "ks ! i \<le> lo"
    | h where "\<not> snd acc" "i > 0" "prefixUpper lo = Some h" "h \<le> ks ! (i - 1)"
        "\<not> (i < length ks \<and> length lo > 0 \<and> ks ! i \<le> lo)"
    | "\<not> snd acc" "\<not> (i < length ks \<and> length lo > 0 \<and> ks ! i \<le> lo)"
        "\<not> (i > 0 \<and> (case prefixUpper lo of None \<Rightarrow> False | Some h \<Rightarrow> h \<le> ks ! (i - 1)))"
    by (cases "prefixUpper lo") auto
  then show ?case
  proof cases
    case 1
    then show ?thesis by (simp add: visit_stopped)
  next
    case 2
    with pruned_child [OF below] have "with_prefix lo kvs = []" by blast
    with 2 rest show ?thesis by simp
  next
    case 3
    with pruned_child_above above have "with_prefix lo kvs = []" by blast
    with 3 rest above show ?thesis by auto
  next
    case 4
    have "rec c acc = Inr (visit fn (with_prefix lo kvs) acc)" using Cons.hyps by blast
    with 4 rest [of "visit fn (with_prefix lo kvs) acc"] above show ?thesis
      by (cases "prefixUpper lo") (auto simp: visit_append)
  qed
qed

lemma scan_walk_correct:
  assumes "bt src D h pid kvs" "h < fuel" "\<forall>kv\<in>set kvs. Suc (length (snd kv)) < vf"
  shows "scan_walk fuel vf src lo (prefixUpper lo) fn pid acc = Inr (visit fn (with_prefix lo kvs) acc)"
  using assms
proof (induction h arbitrary: pid kvs fuel acc)
  case 0
  then obtain f p es where f: "fuel = Suc f" and p: "src pid = Inr p"
    "decodeNode p = Inr (leafNode es)"
    "list_all2 (\<lambda>e kv. le_key e = fst kv \<and> entry_value src D e (snd kv)) es kvs"
    by (cases fuel) auto
  with 0 show ?case by (simp add: scan_leaf_correct [OF p(3)] visit_stopped)
next
  case (Suc h)
  then obtain f p ks cs kvss where f: "fuel = Suc f" "h < f" and p: "src pid = Inr p"
    "decodeNode p = Inr (internalNode ks cs)" "length cs = Suc (length ks)"
    "list_all2 (bt src D h) cs kvss" "kvs = concat kvss" "seps ks kvss"
    by (cases fuel) auto
  have len: "length kvss = length cs" using p(4) by (simp add: list_all2_lengthD)
  have rec: "list_all2 (\<lambda>c kvs. \<forall>a. scan_walk f vf src lo (prefixUpper lo) fn c a =
      Inr (visit fn (with_prefix lo kvs) a)) cs kvss"
    unfolding list_all2_conv_all_nth
  proof (intro conjI allI impI)
    fix j a assume j: "j < length cs"
    then have "bt src D h (cs ! j) (kvss ! j)" using p(4) by (simp add: list_all2_conv_all_nth)
    moreover have "\<forall>kv\<in>set (kvss ! j). Suc (length (snd kv)) < vf"
      using Suc.prems(3) p(5) j len by auto
    ultimately show "scan_walk f vf src lo (prefixUpper lo) fn (cs ! j) a =
        Inr (visit fn (with_prefix lo (kvss ! j)) a)" using f(2) by (intro Suc.IH)
  qed (simp add: len)
  have "\<forall>j<length cs. (0 + j < length ks \<longrightarrow> (\<forall>x\<in>set (kvss ! j). fst x < ks ! (0 + j))) \<and>
      (0 < 0 + j \<longrightarrow> 0 + j - 1 < length ks \<and> (\<forall>x\<in>set (kvss ! j). ks ! (0 + j - 1) \<le> fst x))"
    using p(3,6) len by (auto simp: seps_def)
  from scan_children_correct [OF rec this] f p show ?case by (simp add: visit_stopped)
qed

text \<open>The scan returns, having visited the entries with the prefix in ascending order.\<close>

lemma btree_Scan_correct:
  assumes "tree_of src D h root kvs" "enough_fuel fuel h kvs"
  shows "btree_Scan fuel src root prefix fn st = Inr (fst (visit fn (with_prefix prefix kvs) (st, False)))"
  using assms scan_walk_correct [of src D h root kvs fuel fuel "prefix" fn "(st, False)"]
  by (auto simp: btree_Scan_def tree_of_def enough_fuel_def split: if_splits)

section \<open>Properties\<close>

text \<open>A page source that serves one leaf, for the instances below.\<close>

definition leaf_source :: "leafEntry list \<Rightarrow> page_source" where
  "leaf_source es pid = bindE (encodeTo (leafNode es) pid) (\<lambda>p. Inr (page_Finalize p))"

lemma leaf_source_bt:
  assumes "list_all entry_wf es" "fits (leafNode es)" "pid \<noteq> InvalidPageID"
    "list_all2 (\<lambda>e kv. le_key e = fst kv \<and> \<not> le_isOverflow e \<and> le_inline e = snd kv) es kvs"
  shows "bt (leaf_source es) UNIV 0 pid kvs"
proof -
  have "node_wf (leafNode es)" using assms(1) by (simp add: node_wf_def)
  with encodeTo_Inr [of "leafNode es" pid] assms(2) obtain p where
    "encodeTo (leafNode es) pid = Inr p" "decodeNode (page_Finalize p) = Inr (leafNode es)" by blast
  then show ?thesis using assms(3,4)
    by (auto simp: leaf_source_def entry_value_def elim!: list_all2_mono)
qed

text \<open>
  A lookup in a tree returns what the key is bound to in the tree's contents, and not-found for
  every other key: no error, no wrong branch at a separator.
\<close>

theorem btree_Get_lookup:
  assumes "tree_of src D h root kvs" "enough_fuel fuel h kvs"
  shows "btree_Get fuel src root key = Inr (map_of kvs key)"
  by (rule btree_Get_correct [OF assms])

abbreviation sample_entries :: "leafEntry list" where
  "sample_entries \<equiv> [\<lparr>le_key = [1], le_inline = [9], le_ov = zeroRef, le_isOverflow = False\<rparr>,
    \<lparr>le_key = [1, 0], le_inline = [], le_ov = zeroRef, le_isOverflow = False\<rparr>]"

lemma sample_tree: "tree_of (leaf_source sample_entries) UNIV 0 5 [([1], [9]), ([1, 0], [])]"
  using leaf_source_bt [of sample_entries 5 "[([1], [9]), ([1, 0], [])]"]
  by (simp add: tree_of_def entry_wf_def fits_def encodedSize_def le_size_def fit_simps
      InvalidPageID_def del: bt.simps)

theorem btree_Get_lookup_witness:
  "btree_Get 9 (leaf_source sample_entries) 5 [1] = Inr (Some [9])"
  using btree_Get_lookup [OF sample_tree, of 9 "[1]"] by (simp add: enough_fuel_def)

text \<open>
  C17: a scan calls its visitor on exactly the entries whose key has the prefix, in ascending key
  order, and stops when the visitor says so; the pruning of children never skips one of them.
\<close>

theorem btree_Scan_prefix:
  assumes "tree_of src D h root kvs" "enough_fuel fuel h kvs"
  shows "btree_Scan fuel src root prefix fn st =
    Inr (fst (visit fn (filter (\<lambda>kv. has_prefix prefix (fst kv)) kvs) (st, False)))"
  by (rule btree_Scan_correct [OF assms])

theorem btree_Scan_prefix_witness:
  "btree_Scan 9 (leaf_source sample_entries) 5 [1, 0] (\<lambda>ks k v. (ks @ [k], True)) [] = Inr [[1, 0]]"
  using btree_Scan_prefix [OF sample_tree, of 9 "[1, 0]" "\<lambda>ks k v. (ks @ [k], True)" "[]"]
  by (simp add: enough_fuel_def has_prefix_def)

end
