(* ===== verification/Builder.thy ===== *)
theory Builder
  imports TreeRead
begin

text \<open>
  \<^verbatim>\<open>internal/storage/btree/build.go\<close>: the bulk loader of a checkpoint. Entries arrive in ascending
  order, leaves are packed and written as they fill, and the internal levels are built bottom-up
  when the last leaf is out. The store is the builder's state. The lemmas, stated once over the
  page-store interface, show that the pages written form a tree of exactly the entries added.
\<close>

section \<open>The builder\<close>

record levelEntry =
  lv_firstKey :: bytes
  lv_page :: u64

record 's builder =
  bd_store :: 's
  bd_leaf :: "leafEntry list"
  bd_leafBytes :: nat
  bd_leaves :: "levelEntry list"
  bd_lastKey :: "bytes option"
  bd_count :: nat

definition builder_New :: "'s \<Rightarrow> 's builder" where
  "builder_New s = \<lparr>bd_store = s, bd_leaf = [], bd_leafBytes = 2, bd_leaves = [],
     bd_lastKey = None, bd_count = 0\<rparr>"

text \<open>Encode a node under a fresh id and write it: the three lines every page of a tree starts with.\<close>

definition write_node :: "'s page_store \<Rightarrow> 's \<Rightarrow> node \<Rightarrow> (u64 \<times> 's) res" where
  "write_node S s n =
     (let (pid, s) = st_Allocate S s in
      bindE (encodeTo n pid) (\<lambda>p.
      bindE (st_WritePage S s p) (\<lambda>s. Inr (pid, s))))"

definition builder_flushLeaf :: "'s page_store \<Rightarrow> 's builder \<Rightarrow> 's builder res" where
  "builder_flushLeaf S b =
     (case bd_leaf b of
        [] \<Rightarrow> Inr b
      | e # es \<Rightarrow>
          bindE (write_node S (bd_store b) (leafNode (bd_leaf b))) (\<lambda>(pid, s).
            Inr (b\<lparr>bd_store := s,
                   bd_leaves := bd_leaves b @ [\<lparr>lv_firstKey = le_key e, lv_page = pid\<rparr>],
                   bd_leaf := [], bd_leafBytes := 2\<rparr>)))"

text \<open>
  \<^verbatim>\<open>append([]byte(nil), key...)\<close> of an empty key is nil, so the last key of an empty key is absent.
\<close>

definition builder_Add :: "'s page_store \<Rightarrow> 's builder \<Rightarrow> bytes \<Rightarrow> bytes \<Rightarrow> 's builder res" where
  "builder_Add S b key val =
     (if (case bd_lastKey b of None \<Rightarrow> False | Some l \<Rightarrow> compareBytes key l \<le> 0)
      then Inl ErrNotAscending
      else
        bindE (makeLeafEntry S (bd_store b) key val) (\<lambda>(e, s).
        let b = b\<lparr>bd_store := s\<rparr>; es = le_size e in
        bindE (if bd_leaf b \<noteq> [] \<and> bd_leafBytes b + es > BodySize then builder_flushLeaf S b
               else Inr b) (\<lambda>b.
          Inr (b\<lparr>bd_leaf := bd_leaf b @ [e], bd_leafBytes := bd_leafBytes b + es,
                 bd_lastKey := (if key = [] then None else Some key),
                 bd_count := bd_count b + 1\<rparr>))))"

text \<open>
  The inner loop of \<^verbatim>\<open>buildInternalLevel\<close>: the children after the first that go into the same
  node, given its size and child count so far, and the children that are left.
\<close>

fun pack_children :: "nat \<Rightarrow> nat \<Rightarrow> levelEntry list \<Rightarrow> levelEntry list \<times> levelEntry list" where
  "pack_children sz nch [] = ([], [])"
| "pack_children sz nch (c # cs) =
     (let add = 2 + length (lv_firstKey c) + 8 in
      if nch \<ge> 2 \<and> sz + add > BodySize then ([], c # cs)
      else let (t, r) = pack_children (sz + add) (nch + 1) cs in (c # t, r))"

lemma pack_children_append: "pack_children sz nch cs = (t, r) \<Longrightarrow> cs = t @ r"
  by (induction cs arbitrary: sz nch t r) (auto simp: Let_def split: if_splits prod.splits)

function buildInternalLevel ::
  "'s page_store \<Rightarrow> 's \<Rightarrow> levelEntry list \<Rightarrow> (levelEntry list \<times> 's) res" where
  "buildInternalLevel S s [] = Inr ([], s)"
| "buildInternalLevel S s (c # cs) =
     (let (t, r) = pack_children (2 + 8) 1 cs in
      bindE (write_node S s (internalNode (map lv_firstKey t) (lv_page c # map lv_page t)))
        (\<lambda>(pid, s).
      bindE (buildInternalLevel S s r) (\<lambda>(out, s).
        Inr (\<lparr>lv_firstKey = lv_firstKey c, lv_page = pid\<rparr> # out, s))))"
  by pat_completeness auto
termination
  by (relation "measure (\<lambda>(S, s, cs). length cs)")
    (auto dest!: pack_children_append [OF sym] simp: bindE_def split: sum.splits)

text \<open>The loop \<^verbatim>\<open>for len(level) > 1\<close> of \<^verbatim>\<open>Finish\<close>; every round shortens the level.\<close>

fun finish_levels :: "nat \<Rightarrow> 's page_store \<Rightarrow> 's \<Rightarrow> levelEntry list \<Rightarrow> (levelEntry list \<times> 's) res" where
  "finish_levels fuel S s level =
     (if length level \<le> 1 then Inr (level, s)
      else case fuel of
        0 \<Rightarrow> Inl NoFuel
      | Suc f \<Rightarrow> bindE (buildInternalLevel S s level) (\<lambda>(next_level, s). finish_levels f S s next_level))"

declare finish_levels.simps [simp del]

definition builder_Finish :: "'s page_store \<Rightarrow> 's builder \<Rightarrow> (u64 \<times> 's) res" where
  "builder_Finish S b =
     bindE (builder_flushLeaf S b) (\<lambda>b.
       if bd_leaves b = [] then Inr (InvalidPageID, bd_store b)
       else bindE (finish_levels (length (bd_leaves b)) S (bd_store b) (bd_leaves b)) (\<lambda>(level, s).
         bindE (nth_res level 0) (\<lambda>e. Inr (lv_page e, s))))"

section \<open>Packing\<close>

text \<open>The longest key for which one leaf entry always fits a page.\<close>

definition maxKeyLen :: nat where
  "maxKeyLen = 3543"

lemma pack_children_fits:
  assumes "pack_children sz nch cs = (t, r)" "\<forall>c\<in>set cs. length (lv_firstKey c) \<le> maxKeyLen"
    "nch = 1 \<and> sz = 10 \<or> 2 \<le> nch \<and> sz \<le> BodySize"
  shows "sz + sum_list (map (\<lambda>c. 2 + length (lv_firstKey c) + 8) t) \<le> BodySize"
  using assms
proof (induction cs arbitrary: sz nch t r)
  case Nil
  then show ?case by (auto simp: fit_simps)
next
  case (Cons c cs)
  let ?add = "2 + length (lv_firstKey c) + 8"
  show ?case
  proof (cases "nch \<ge> 2 \<and> sz + ?add > BodySize")
    case True
    with Cons.prems show ?thesis by (auto simp: Let_def fit_simps)
  next
    case False
    obtain t' where t: "t = c # t'" "pack_children (sz + ?add) (nch + 1) cs = (t', r)"
      using Cons.prems(1) False by (auto simp: Let_def split: prod.splits if_splits)
    have "sz + ?add \<le> BodySize"
      using Cons.prems(2,3) False by (auto simp: fit_simps maxKeyLen_def)
    with Cons.IH [OF t(2)] Cons.prems(2,3) have
      "sz + ?add + sum_list (map (\<lambda>c. 2 + length (lv_firstKey c) + 8) t') \<le> BodySize" by auto
    then show ?thesis using t(1) by simp
  qed
qed

lemma pack_children_takes: "pack_children sz 1 cs = (t, r) \<Longrightarrow> cs \<noteq> [] \<Longrightarrow> t \<noteq> []"
  by (cases cs) (auto simp: Let_def split: prod.splits)

section \<open>Levels\<close>

text \<open>
  \<open>level_of rd D h level kvss\<close>: the entries of \<open>level\<close> are the roots of trees of height \<open>h\<close> with
  the non-empty contents \<open>kvss\<close>, and carry their first keys.
\<close>

definition level_of ::
  "page_source \<Rightarrow> u64 set \<Rightarrow> nat \<Rightarrow> levelEntry list \<Rightarrow> (bytes \<times> bytes) list list \<Rightarrow> bool" where
  "level_of rd D h level kvss \<longleftrightarrow>
     list_all2 (\<lambda>e kvs. bt rd D h (lv_page e) kvs \<and> kvs \<noteq> [] \<and> lv_firstKey e = fst (hd kvs)) level kvss"

lemma level_of_keep:
  "level_of rd D h level kvss \<Longrightarrow> keeps_reads rd rd' D \<Longrightarrow> D \<subseteq> D' \<Longrightarrow> level_of rd' D' h level kvss"
  unfolding level_of_def by (erule list_all2_mono) (auto intro: bt_keep)

lemma level_of_snoc:
  "level_of rd D h level kvss \<Longrightarrow> bt rd D h (lv_page e) kvs \<Longrightarrow> kvs \<noteq> [] \<Longrightarrow>
   lv_firstKey e = fst (hd kvs) \<Longrightarrow> level_of rd D h (level @ [e]) (kvss @ [kvs])"
  unfolding level_of_def by (rule list_all2_appendI) (simp_all del: bt.simps)

lemma level_of_Cons:
  "level_of rd D h (e # es) kvss \<longleftrightarrow>
     (\<exists>kvs kvss'. kvss = kvs # kvss' \<and> bt rd D h (lv_page e) kvs \<and> kvs \<noteq> [] \<and>
       lv_firstKey e = fst (hd kvs) \<and> level_of rd D h es kvss')"
  by (auto simp: level_of_def list_all2_Cons1)

lemma level_of_firstKeys: "level_of rd D h level kvss \<Longrightarrow> map lv_firstKey level = map (fst \<circ> hd) kvss"
  unfolding level_of_def by (induction rule: list_all2_induct) auto

lemma level_of_nonempty: "level_of rd D h level kvss \<Longrightarrow> \<forall>kvs\<in>set kvss. kvs \<noteq> []"
  unfolding level_of_def by (induction rule: list_all2_induct) auto

lemma sorted_wrt_concat_cross:
  "sorted_wrt P (concat xss) \<Longrightarrow> i < j \<Longrightarrow> j < length xss \<Longrightarrow> x \<in> set (xss ! i) \<Longrightarrow>
   y \<in> set (xss ! j) \<Longrightarrow> P x y"
proof (induction xss arbitrary: i j)
  case Nil
  then show ?case by simp
next
  case (Cons xs xss)
  show ?case
  proof (cases i)
    case 0
    with Cons.prems obtain j' where "j = Suc j'" "j' < length xss" by (cases j) auto
    then have "y \<in> set (concat xss)" using Cons.prems(5) by auto
    with 0 Cons.prems show ?thesis by (auto simp: sorted_wrt_append)
  next
    case (Suc i')
    with Cons.prems obtain j' where "j = Suc j'" "i' < j'" "j' < length xss" by (cases j) auto
    with Suc Cons show ?thesis by (auto simp: sorted_wrt_append)
  qed
qed

text \<open>The first keys of all children but the first separate the children.\<close>

lemma seps_first_keys:
  assumes "sorted_wrt (<) (map fst (concat (kvs # kvss)))" "\<forall>x\<in>set kvss. x \<noteq> []"
  shows "seps (map (fst \<circ> hd) kvss) (kvs # kvss)"
  unfolding seps_def
proof (intro allI impI ballI)
  fix i j x
  assume i: "i < length (map (fst \<circ> hd) kvss)" and j: "j < length (kvs # kvss)"
    and x: "x \<in> set ((kvs # kvss) ! j)"
  let ?kss = "map (map fst) (kvs # kvss)"
  have sorted: "sorted_wrt (<) (concat ?kss)" using assms(1) by (simp add: map_concat)
  have ne: "kvss ! i \<noteq> []" using i assms(2) by simp
  then have hd: "fst (hd (kvss ! i)) \<in> set (?kss ! Suc i)" using i by simp
  have xs: "fst x \<in> set (?kss ! j)" using x j by (simp del: list.map add: nth_map)
  show "if j \<le> i then fst x < map (fst \<circ> hd) kvss ! i else map (fst \<circ> hd) kvss ! i \<le> fst x"
  proof (cases "j \<le> i")
    case True
    have "fst x < fst (hd (kvss ! i))"
      by (rule sorted_wrt_concat_cross [OF sorted _ _ xs hd]) (use True i in auto)
    with True i show ?thesis by simp
  next
    case False
    show ?thesis
    proof (cases "j = Suc i")
      case True
      have "sorted_wrt (<) (?kss ! Suc i)"
        using sorted by (rule sorted_wrt_concat_nth) (use i in simp)
      then have "sorted_wrt (<) (map fst (kvss ! i))" using i by simp
      moreover have "x \<in> set (kvss ! i)" using x True by simp
      ultimately have "fst (hd (kvss ! i)) \<le> fst x"
        using ne by (cases "kvss ! i") (auto intro: less_imp_le)
      with False i show ?thesis by simp
    next
      case gt: False
      have "fst (hd (kvss ! i)) < fst x"
        by (rule sorted_wrt_concat_cross [OF sorted _ _ hd xs]) (use gt False j in auto)
      with False i show ?thesis by simp
    qed
  qed
qed

section \<open>The builder over any page store\<close>

text \<open>
  \<open>building S used b kvs\<close>: the builder has written complete leaves for a first part of \<open>kvs\<close> and
  holds the entries of the rest, which still fit one page. This is the invariant of the calls of
  \<open>builder_Add\<close>.
\<close>

definition building :: "'s page_store \<Rightarrow> ('s \<Rightarrow> nat) \<Rightarrow> 's builder \<Rightarrow> (bytes \<times> bytes) list \<Rightarrow> bool" where
  "building S used b kvs \<longleftrightarrow>
     (let rd = st_ReadPage S (bd_store b); D = ids_below (used (bd_store b)) in
      \<exists>kvss pend. kvs = concat kvss @ pend \<and> level_of rd D 0 (bd_leaves b) kvss \<and>
        list_all2 (\<lambda>e kv. le_key e = fst kv \<and> entry_value rd D e (snd kv)) (bd_leaf b) pend \<and>
        list_all entry_wf (bd_leaf b)) \<and>
     bd_leafBytes b = 2 + sum_list (map le_size (bd_leaf b)) \<and> bd_leafBytes b \<le> BodySize \<and>
     sorted_wrt (<) (map fst kvs) \<and> (\<forall>kv\<in>set kvs. length (fst kv) \<le> maxKeyLen) \<and>
     bd_lastKey b = (if kvs = [] \<or> fst (last kvs) = [] then None else Some (fst (last kvs))) \<and>
     bd_count b = length kvs"

lemma building_keep:
  assumes "building S used b kvs"
    "keeps_reads (st_ReadPage S (bd_store b)) (st_ReadPage S s') (ids_below (used (bd_store b)))"
    "used (bd_store b) \<le> used s'"
  shows "building S used (b\<lparr>bd_store := s'\<rparr>) kvs"
proof -
  have D: "ids_below (used (bd_store b)) \<subseteq> ids_below (used s')" by (simp add: assms(3) ids_below_mono)
  let ?R = "\<lambda>rd D e kv. le_key e = fst kv \<and> entry_value rd D e (snd kv)"
  from assms(1) obtain kvss pend where kvs: "kvs = concat kvss @ pend"
    "list_all2 (?R (st_ReadPage S (bd_store b)) (ids_below (used (bd_store b)))) (bd_leaf b) pend"
    "level_of (st_ReadPage S (bd_store b)) (ids_below (used (bd_store b))) 0 (bd_leaves b) kvss"
    "list_all entry_wf (bd_leaf b)"
    by (auto simp: building_def Let_def)
  from kvs(2) have "list_all2 (?R (st_ReadPage S s') (ids_below (used s'))) (bd_leaf b) pend"
    by (rule list_all2_mono) (use assms(2) D in \<open>auto intro: entry_value_keep\<close>)
  then have "\<exists>kvss pend. kvs = concat kvss @ pend \<and>
      level_of (st_ReadPage S s') (ids_below (used s')) 0 (bd_leaves b) kvss \<and>
      list_all2 (?R (st_ReadPage S s') (ids_below (used s'))) (bd_leaf b) pend \<and>
      list_all entry_wf (bd_leaf b)"
    using kvs(1,4) level_of_keep [OF kvs(3) assms(2) D] by blast
  with assms(1) show ?thesis by (simp add: building_def Let_def)
qed

lemma building_snoc:
  assumes "building S used b kvs"
    "entry_value (st_ReadPage S (bd_store b)) (ids_below (used (bd_store b))) e val"
    "le_key e = key" "entry_wf e" "bd_leafBytes b + le_size e \<le> BodySize"
    "length key \<le> maxKeyLen" "\<forall>kv\<in>set kvs. fst kv < key"
  shows "building S used (b\<lparr>bd_leaf := bd_leaf b @ [e], bd_leafBytes := bd_leafBytes b + le_size e,
    bd_lastKey := (if key = [] then None else Some key), bd_count := bd_count b + 1\<rparr>)
    (kvs @ [(key, val)])"
proof -
  let ?R = "\<lambda>e kv. le_key e = fst kv \<and>
    entry_value (st_ReadPage S (bd_store b)) (ids_below (used (bd_store b))) e (snd kv)"
  from assms(1) obtain kvss pend where "kvs = concat kvss @ pend" "list_all2 ?R (bd_leaf b) pend"
    "level_of (st_ReadPage S (bd_store b)) (ids_below (used (bd_store b))) 0 (bd_leaves b) kvss"
    by (auto simp: building_def Let_def)
  moreover from this have "list_all2 ?R (bd_leaf b @ [e]) (pend @ [(key, val)])"
    using assms(2,3) by (intro list_all2_appendI) simp_all
  ultimately show ?thesis
    using assms
    by (auto simp: building_def Let_def sorted_wrt_append
        intro!: exI [of _ kvss] exI [of _ "pend @ [(key, val)]"])
qed

context page_store_laws
begin

lemma write_node_law:
  assumes "inv s" "used s < cap" "node_wf n" "fits n"
  shows "\<exists>pid s' p. write_node S s n = Inr (pid, s') \<and> inv s' \<and> used s' = Suc (used s) \<and>
    pid \<noteq> InvalidPageID \<and> unat pid < used s' \<and> st_ReadPage S s' pid = Inr p \<and>
    decodeNode p = Inr n \<and> keeps_reads (st_ReadPage S s) (st_ReadPage S s') (ids_below (used s))"
proof -
  obtain i s1 where al: "st_Allocate S s = (i, s1)" by (cases "st_Allocate S s")
  from encodeTo_Inr [OF assms(3,4)] obtain p where
    p: "encodeTo n i = Inr p" "page_wf p" "page_ID p = i" "decodeNode (page_Finalize p) = Inr n"
    by blast
  from allocate_write [OF assms(1,2) al p(2,3)] allocated_valid [OF assms(1,2) al] al p
  show ?thesis by (auto simp: write_node_def)
qed

lemma building_New: "building S used (builder_New s) []"
  by (simp add: building_def builder_New_def level_of_def fit_simps)

text \<open>A leaf that is written out becomes one more child of the lowest level.\<close>

lemma flushLeaf_law:
  assumes "building S used b kvs" "inv (bd_store b)" "used (bd_store b) < cap"
  shows "\<exists>b' kvss. builder_flushLeaf S b = Inr b' \<and> building S used b' kvs \<and> inv (bd_store b') \<and>
    used (bd_store b) \<le> used (bd_store b') \<and> used (bd_store b') \<le> Suc (used (bd_store b)) \<and>
    keeps_reads (st_ReadPage S (bd_store b)) (st_ReadPage S (bd_store b')) (ids_below (used (bd_store b))) \<and>
    bd_leaf b' = [] \<and> bd_leafBytes b' = 2 \<and> kvs = concat kvss \<and>
    level_of (st_ReadPage S (bd_store b')) (ids_below (used (bd_store b'))) 0 (bd_leaves b') kvss"
proof -
  let ?rd = "st_ReadPage S (bd_store b)" and ?D = "ids_below (used (bd_store b))"
  from assms(1) obtain kvss pend where
    kvs: "kvs = concat kvss @ pend" and lev: "level_of ?rd ?D 0 (bd_leaves b) kvss"
    and leaf: "list_all2 (\<lambda>e kv. le_key e = fst kv \<and> entry_value ?rd ?D e (snd kv)) (bd_leaf b) pend"
    and wf: "list_all entry_wf (bd_leaf b)"
    and bytes: "bd_leafBytes b = 2 + sum_list (map le_size (bd_leaf b))" "bd_leafBytes b \<le> BodySize"
    by (auto simp: building_def Let_def)
  show ?thesis
  proof (cases "bd_leaf b")
    case Nil
    with assms kvs lev leaf bytes show ?thesis by (auto simp: builder_flushLeaf_def)
  next
    case (Cons e es)
    let ?n = "leafNode (bd_leaf b)"
    have "node_wf ?n" "fits ?n"
      using wf bytes by (simp_all add: node_wf_def fits_def encodedSize_def)
    from write_node_law [OF assms(2,3) this] obtain pid s' p where
      w: "write_node S (bd_store b) ?n = Inr (pid, s')" "inv s'" "used s' = Suc (used (bd_store b))"
        "pid \<noteq> InvalidPageID" "unat pid < used s'" "st_ReadPage S s' pid = Inr p"
        "decodeNode p = Inr ?n" "keeps_reads ?rd (st_ReadPage S s') ?D" by blast
    let ?rd' = "st_ReadPage S s'" and ?D' = "ids_below (used s')"
    have D: "?D \<subseteq> ?D'" using w(3) by (simp add: ids_below_mono)
    have leaf': "list_all2 (\<lambda>e kv. le_key e = fst kv \<and> entry_value ?rd' ?D' e (snd kv)) (bd_leaf b) pend"
      using leaf by (rule list_all2_mono) (use w(8) D in \<open>auto intro: entry_value_keep\<close>)
    then have root: "bt ?rd' ?D' 0 pid pend" using w by auto
    have first: "pend \<noteq> []" "le_key e = fst (hd pend)"
      using leaf Cons by (cases pend; auto)+
    have "level_of ?rd' ?D' 0 (bd_leaves b) kvss" using lev w(8) D by (rule level_of_keep)
    then have lev': "level_of ?rd' ?D' 0
        (bd_leaves b @ [\<lparr>lv_firstKey = le_key e, lv_page = pid\<rparr>]) (kvss @ [pend])"
      by (rule level_of_snoc) (simp_all add: root first del: bt.simps)
    let ?b' = "b\<lparr>bd_store := s', bd_leaves := bd_leaves b @ [\<lparr>lv_firstKey = le_key e, lv_page = pid\<rparr>],
      bd_leaf := [], bd_leafBytes := 2\<rparr>"
    have "builder_flushLeaf S b = Inr ?b'" using Cons w(1) by (simp add: builder_flushLeaf_def)
    moreover have "building S used ?b' kvs"
      using assms(1) lev' kvs
      by (auto simp: building_def Let_def fit_simps intro!: exI [of _ "kvss @ [pend]"])
    ultimately show ?thesis using w lev' kvs
      by (intro exI [of _ ?b'] exI [of _ "kvss @ [pend]"]) auto
  qed
qed

text \<open>Adding the next entry in order keeps the invariant, whichever leaf it goes to.\<close>

lemma builder_Add_law:
  assumes "building S used b kvs" "inv (bd_store b)" "used (bd_store b) + length val + 2 \<le> cap"
    "length key \<le> maxKeyLen" "\<forall>kv\<in>set kvs. fst kv < key"
  shows "\<exists>b'. builder_Add S b key val = Inr b' \<and> building S used b' (kvs @ [(key, val)]) \<and>
    inv (bd_store b') \<and> used (bd_store b) \<le> used (bd_store b') \<and>
    used (bd_store b') \<le> used (bd_store b) + length val + 2 \<and>
    keeps_reads (st_ReadPage S (bd_store b)) (st_ReadPage S (bd_store b')) (ids_below (used (bd_store b)))"
proof -
  let ?rd = "st_ReadPage S (bd_store b)" and ?D = "ids_below (used (bd_store b))"
  have asc: "\<not> (case bd_lastKey b of None \<Rightarrow> False | Some l \<Rightarrow> compareBytes key l \<le> 0)"
    using assms(1,5) by (auto simp: building_def not_le)
  have len: "length key < 2 ^ 16" using assms(4) by (simp add: maxKeyLen_def)
  have room: "used (bd_store b) + length val < cap" using assms(3) by simp
  from makeLeafEntry_law [OF assms(2) room len] obtain e s1 where
    e: "makeLeafEntry S (bd_store b) key val = Inr (e, s1)" "inv s1" "used (bd_store b) \<le> used s1"
      "used s1 \<le> used (bd_store b) + length val + 1" "le_key e = key" "entry_wf e"
      "le_size e \<le> length key + 519"
    and ev: "entry_value (st_ReadPage S s1) (ids_below (used s1)) e val"
    and keep: "keeps_reads ?rd (st_ReadPage S s1) ?D" by blast
  let ?b1 = "b\<lparr>bd_store := s1\<rparr>"
  have b1: "building S used ?b1 kvs"
    using building_keep [OF assms(1) keep] e(3) by simp
  let ?full = "bd_leaf b \<noteq> [] \<and> bd_leafBytes b + le_size e > BodySize"
  have "\<exists>b2. (if ?full then builder_flushLeaf S ?b1 else Inr ?b1) = Inr b2 \<and>
      building S used b2 kvs \<and> inv (bd_store b2) \<and> used s1 \<le> used (bd_store b2) \<and>
      used (bd_store b2) \<le> Suc (used s1) \<and> bd_leafBytes b2 + le_size e \<le> BodySize \<and>
      keeps_reads (st_ReadPage S s1) (st_ReadPage S (bd_store b2)) (ids_below (used s1))"
  proof (cases ?full)
    case True
    have "used (bd_store ?b1) < cap" using e(4) assms(3) by simp
    from flushLeaf_law [OF b1 _ this] e(2) obtain b2 where
      "builder_flushLeaf S ?b1 = Inr b2" "building S used b2 kvs" "inv (bd_store b2)"
      "used s1 \<le> used (bd_store b2)" "used (bd_store b2) \<le> Suc (used s1)" "bd_leafBytes b2 = 2"
      "keeps_reads (st_ReadPage S s1) (st_ReadPage S (bd_store b2)) (ids_below (used s1))" by auto
    with True e(7) assms(4) show ?thesis by (simp add: maxKeyLen_def fit_simps)
  next
    case False
    have "bd_leafBytes b + le_size e \<le> BodySize"
      using False e(7) assms(1,4) by (auto simp: building_def maxKeyLen_def fit_simps)
    with False b1 e(2) show ?thesis by auto
  qed
  then obtain b2 where b2: "(if ?full then builder_flushLeaf S ?b1 else Inr ?b1) = Inr b2"
      "building S used b2 kvs" "inv (bd_store b2)" "used s1 \<le> used (bd_store b2)"
      "used (bd_store b2) \<le> Suc (used s1)" "bd_leafBytes b2 + le_size e \<le> BodySize"
      "keeps_reads (st_ReadPage S s1) (st_ReadPage S (bd_store b2)) (ids_below (used s1))" by blast
  let ?b3 = "b2\<lparr>bd_leaf := bd_leaf b2 @ [e], bd_leafBytes := bd_leafBytes b2 + le_size e,
    bd_lastKey := (if key = [] then None else Some key), bd_count := bd_count b2 + 1\<rparr>"
  have "builder_Add S b key val = Inr ?b3"
    using asc e(1) b2(1) by (simp add: builder_Add_def Let_def)
  moreover have "entry_value (st_ReadPage S (bd_store b2)) (ids_below (used (bd_store b2))) e val"
    using ev b2(7) by (rule entry_value_keep) (simp add: b2(4) ids_below_mono)
  then have "building S used ?b3 (kvs @ [(key, val)])"
    using building_snoc [OF b2(2) _ e(5,6) b2(6)] assms(4,5) by blast
  moreover have "keeps_reads ?rd (st_ReadPage S (bd_store ?b3)) ?D"
    using keeps_reads_trans [OF keep b2(7) ids_below_mono [OF e(3)]] by simp
  ultimately show ?thesis using b2 e(3,4) by (intro exI [of _ ?b3]) simp
qed

text \<open>One level of internal nodes: the same contents, at most half as many roots (rounded up).\<close>

lemma level_of_append:
  "level_of rd D h (xs @ ys) kvss \<Longrightarrow>
     \<exists>us vs. kvss = us @ vs \<and> level_of rd D h xs us \<and> level_of rd D h ys vs"
  unfolding level_of_def list_all2_append1 by blast

lemma buildInternalLevel_law:
  assumes "inv s" "level_of (st_ReadPage S s) (ids_below (used s)) h level kvss"
    "sorted_wrt (<) (map fst (concat kvss))" "\<forall>e\<in>set level. length (lv_firstKey e) \<le> maxKeyLen"
    "used s + length level \<le> cap"
  shows "\<exists>out s' kvss'. buildInternalLevel S s level = Inr (out, s') \<and> inv s' \<and> used s \<le> used s' \<and>
    used s' \<le> used s + length out \<and> 2 * length out \<le> Suc (length level) \<and>
    keeps_reads (st_ReadPage S s) (st_ReadPage S s') (ids_below (used s)) \<and>
    level_of (st_ReadPage S s') (ids_below (used s')) (Suc h) out kvss' \<and> concat kvss' = concat kvss \<and>
    (\<forall>e\<in>set out. length (lv_firstKey e) \<le> maxKeyLen) \<and> (out = [] \<longleftrightarrow> level = [])"
  using assms
proof (induction level arbitrary: s kvss rule: length_induct)
  case (1 level)
  let ?rd = "st_ReadPage S s" and ?D = "ids_below (used s)"
  show ?case
  proof (cases level)
    case Nil
    with "1.prems" show ?thesis by (auto simp: level_of_def)
  next
    case (Cons c cs)
    obtain t r where tr: "pack_children (2 + 8) 1 cs = (t, r)" by (cases "pack_children (2 + 8) 1 cs")
    have cs: "cs = t @ r" using tr by (rule pack_children_append)
    from "1.prems"(2) Cons cs obtain kvs us vs where kvss: "kvss = kvs # us @ vs"
      and c: "bt ?rd ?D h (lv_page c) kvs" "kvs \<noteq> []" "lv_firstKey c = fst (hd kvs)"
      and t: "level_of ?rd ?D h t us" and r: "level_of ?rd ?D h r vs"
      by (auto simp: level_of_Cons dest!: level_of_append)
    let ?ks = "map lv_firstKey t" and ?ps = "lv_page c # map lv_page t"
    let ?n = "internalNode ?ks ?ps"
    have "10 + sum_list (map (\<lambda>c. 2 + length (lv_firstKey c) + 8) t) \<le> BodySize"
      using pack_children_fits [OF tr] "1.prems"(4) Cons by simp
    then have "fits ?n" by (simp add: fits_def encodedSize_def internalNode_def comp_def)
    moreover have "node_wf ?n"
      using "1.prems"(4) Cons cs
      by (auto simp: node_wf_def internalNode_def list_all_iff maxKeyLen_def intro: le_less_trans)
    moreover have "used s < cap" using "1.prems"(5) Cons by simp
    ultimately obtain pid s1 p where
      w: "write_node S s ?n = Inr (pid, s1)" "inv s1" "used s1 = Suc (used s)"
        "pid \<noteq> InvalidPageID" "unat pid < used s1" "st_ReadPage S s1 pid = Inr p"
        "decodeNode p = Inr ?n" "keeps_reads ?rd (st_ReadPage S s1) ?D"
      using write_node_law "1.prems"(1) by blast
    let ?rd1 = "st_ReadPage S s1" and ?D1 = "ids_below (used s1)"
    have D1: "?D \<subseteq> ?D1" using w(3) by (simp add: ids_below_mono)
    have "level_of ?rd1 ?D1 h (c # t) (kvs # us)"
      using c t by (intro level_of_keep [OF _ w(8) D1]) (simp add: level_of_Cons)
    then have ch: "list_all2 (bt ?rd1 ?D1 h) ?ps (kvs # us)" and firsts: "?ks = map (fst \<circ> hd) us"
      by (auto simp: level_of_def list_all2_map1 level_of_Cons elim: list_all2_mono
          dest!: level_of_firstKeys)
        (metis (mono_tags, lifting) level_of_def level_of_firstKeys t)
    have "sorted_wrt (<) (map fst (concat (kvs # us)) @ map fst (concat vs))"
      using "1.prems"(3) by (simp add: kvss)
    then have sorted: "sorted_wrt (<) (map fst (concat (kvs # us)))" "sorted_wrt (<) (map fst (concat vs))"
      unfolding sorted_wrt_append by blast+
    have "seps ?ks (kvs # us)"
      unfolding firsts using sorted(1) level_of_nonempty [OF t] by (rule seps_first_keys)
    then have root: "bt ?rd1 ?D1 (Suc h) pid (concat (kvs # us))"
      unfolding bt.simps using w ch by (metis in_ids_below length_Cons length_map)
    have "level_of ?rd1 ?D1 h r vs" using r w(8) D1 by (rule level_of_keep)
    moreover have "length r < length level" "used s1 + length r \<le> cap"
      using Cons cs w(3) "1.prems"(5) by simp_all
    moreover have "\<forall>e\<in>set r. length (lv_firstKey e) \<le> maxKeyLen" using "1.prems"(4) Cons cs by auto
    ultimately obtain out s2 vs' where
      IH: "buildInternalLevel S s1 r = Inr (out, s2)" "inv s2" "used s1 \<le> used s2"
        "used s2 \<le> used s1 + length out" "2 * length out \<le> Suc (length r)"
        "keeps_reads ?rd1 (st_ReadPage S s2) ?D1"
        "level_of (st_ReadPage S s2) (ids_below (used s2)) (Suc h) out vs'" "concat vs' = concat vs"
        "\<forall>e\<in>set out. length (lv_firstKey e) \<le> maxKeyLen" "out = [] \<longleftrightarrow> r = []"
      using "1.IH" w(2) sorted(2) by (metis (no_types, lifting))
    let ?e = "\<lparr>lv_firstKey = lv_firstKey c, lv_page = pid\<rparr>"
    have "bt (st_ReadPage S s2) (ids_below (used s2)) (Suc h) pid (concat (kvs # us))"
      by (rule bt_keep [OF root IH(6)]) (simp add: IH(3) ids_below_mono)
    then have lev: "level_of (st_ReadPage S s2) (ids_below (used s2)) (Suc h) (?e # out)
        (concat (kvs # us) # vs')"
      using c IH(7) by (simp add: level_of_Cons del: bt.simps)
    have "buildInternalLevel S s level = Inr (?e # out, s2)"
      using Cons tr w(1) IH(1) by simp
    moreover have "2 * length (?e # out) \<le> Suc (length level)"
      using IH(5,10) Cons cs pack_children_takes [OF tr] by (cases t) auto
    moreover have "keeps_reads ?rd (st_ReadPage S s2) ?D" using w(8) IH(6) D1 by (rule keeps_reads_trans)
    ultimately show ?thesis
      using IH w(3) lev kvss Cons "1.prems"(4)
      by (intro exI [of _ "?e # out"] exI [of _ s2] exI [of _ "concat (kvs # us) # vs'"]) auto
  qed
qed


text \<open>Level by level up to a single root: the builder's levels use at most two pages per leaf.\<close>

lemma finish_levels_law:
  assumes "inv s" "level_of (st_ReadPage S s) (ids_below (used s)) h level kvss"
    "sorted_wrt (<) (map fst (concat kvss))" "\<forall>e\<in>set level. length (lv_firstKey e) \<le> maxKeyLen"
    "used s + 2 * length level \<le> cap" "level \<noteq> []" "length level \<le> fuel"
  shows "\<exists>e s' h'. finish_levels fuel S s level = Inr ([e], s') \<and> inv s' \<and> used s \<le> used s' \<and>
    used s' \<le> used s + 2 * length level \<and> h' < h + length level \<and>
    keeps_reads (st_ReadPage S s) (st_ReadPage S s') (ids_below (used s)) \<and>
    bt (st_ReadPage S s') (ids_below (used s')) h' (lv_page e) (concat kvss)"
  using assms
proof (induction fuel arbitrary: s h level kvss)
  case 0
  then show ?case by simp
next
  case (Suc fuel)
  let ?rd = "st_ReadPage S s" and ?D = "ids_below (used s)"
  show ?case
  proof (cases "length level \<le> 1")
    case True
    with Suc.prems(6) obtain e where e: "level = [e]" by (cases level) auto
    with Suc.prems(2) have "bt ?rd ?D h (lv_page e) (concat kvss)"
      by (auto simp: level_of_def list_all2_Cons1 simp del: bt.simps)
    with e Suc.prems(1) show ?thesis
      by (intro exI [of _ e] exI [of _ s] exI [of _ h]) (simp add: finish_levels.simps del: bt.simps)
  next
    case False
    have "used s + length level \<le> cap" using Suc.prems(5) by simp
    from buildInternalLevel_law [OF Suc.prems(1-4) this] obtain out s1 kvss' where
      b: "buildInternalLevel S s level = Inr (out, s1)" "inv s1" "used s \<le> used s1"
        "used s1 \<le> used s + length out" "2 * length out \<le> Suc (length level)"
        "keeps_reads ?rd (st_ReadPage S s1) ?D"
        "level_of (st_ReadPage S s1) (ids_below (used s1)) (Suc h) out kvss'"
        "concat kvss' = concat kvss" "\<forall>e\<in>set out. length (lv_firstKey e) \<le> maxKeyLen"
        "out = [] \<longleftrightarrow> level = []" by blast
    have "used s1 + 2 * length out \<le> cap" "length out \<le> fuel" "out \<noteq> []"
      "sorted_wrt (<) (map fst (concat kvss'))"
      using b(4,5,8,10) False Suc.prems(3,5-7) by simp_all
    with Suc.IH [OF b(2,7) _ b(9)] b(8) obtain e s2 h' where
      f: "finish_levels fuel S s1 out = Inr ([e], s2)" "inv s2" "used s1 \<le> used s2"
        "used s2 \<le> used s1 + 2 * length out" "h' < Suc h + length out"
        "keeps_reads (st_ReadPage S s1) (st_ReadPage S s2) (ids_below (used s1))"
        "bt (st_ReadPage S s2) (ids_below (used s2)) h' (lv_page e) (concat kvss)"
      by (metis (no_types, lifting))
    have "finish_levels (Suc fuel) S s level = Inr ([e], s2)"
      using False b(1) f(1) by (simp add: finish_levels.simps [of "Suc fuel"])
    moreover have "keeps_reads ?rd (st_ReadPage S s2) ?D"
      using b(6) f(6) by (rule keeps_reads_trans) (simp add: b(3) ids_below_mono)
    moreover have "used s2 \<le> used s + 2 * length level" "h' < h + length level"
      using b(4,5) f(4,5) False by linarith+
    ultimately show ?thesis
      using f b(3) by (intro exI [of _ e] exI [of _ s2] exI [of _ h']) (simp del: bt.simps)
  qed
qed

lemma builder_Finish_law:
  assumes "building S used b kvs" "inv (bd_store b)"
    "used (bd_store b) + 2 * length kvs < cap"
  shows "\<exists>root s' h. builder_Finish S b = Inr (root, s') \<and> inv s' \<and> used (bd_store b) \<le> used s' \<and>
    used s' \<le> Suc (used (bd_store b) + 2 * length kvs) \<and> h \<le> length kvs \<and>
    keeps_reads (st_ReadPage S (bd_store b)) (st_ReadPage S s') (ids_below (used (bd_store b))) \<and>
    tree_of (st_ReadPage S s') (ids_below (used s')) h root kvs"
proof -
  have "used (bd_store b) < cap" using assms(3) by simp
  from flushLeaf_law [OF assms(1,2) this] obtain b1 kvss where
    f: "builder_flushLeaf S b = Inr b1" "building S used b1 kvs" "inv (bd_store b1)"
      "used (bd_store b) \<le> used (bd_store b1)" "used (bd_store b1) \<le> Suc (used (bd_store b))"
      "keeps_reads (st_ReadPage S (bd_store b)) (st_ReadPage S (bd_store b1)) (ids_below (used (bd_store b)))"
      "kvs = concat kvss" and lev:
      "level_of (st_ReadPage S (bd_store b1)) (ids_below (used (bd_store b1))) 0 (bd_leaves b1) kvss"
    by blast
  have sorted: "sorted_wrt (<) (map fst kvs)" and lens: "\<forall>kv\<in>set kvs. length (fst kv) \<le> maxKeyLen"
    using f(2) by (simp_all add: building_def Let_def)
  have eqlen: "length (bd_leaves b1) = length kvss"
    using lev by (auto simp: level_of_def dest: list_all2_lengthD)
  have "length kvss \<le> length (concat kvss)"
    using level_of_nonempty [OF lev] by (induction kvss) (auto simp: Suc_le_eq neq_Nil_conv)
  then have few: "length (bd_leaves b1) \<le> length kvs" using eqlen f(7) by simp
  show ?thesis
  proof (cases "bd_leaves b1 = []")
    case True
    with eqlen f(7) have "kvs = []" by simp
    with True f show ?thesis
      by (intro exI [of _ InvalidPageID] exI [of _ "bd_store b1"] exI [of _ 0])
        (simp add: builder_Finish_def tree_of_def)
  next
    case False
    have "\<forall>e\<in>set (bd_leaves b1). length (lv_firstKey e) \<le> maxKeyLen"
    proof
      fix e
      assume "e \<in> set (bd_leaves b1)"
      then have "lv_firstKey e \<in> set (map lv_firstKey (bd_leaves b1))" by simp
      then obtain x where x: "x \<in> set kvss" "lv_firstKey e = fst (hd x)"
        by (auto simp: level_of_firstKeys [OF lev])
      then have "hd x \<in> set kvs" using level_of_nonempty [OF lev] f(7) hd_in_set by fastforce
      then show "length (lv_firstKey e) \<le> maxKeyLen" using lens x(2) by simp
    qed
    moreover have "used (bd_store b1) + 2 * length (bd_leaves b1) \<le> cap" using few f(5) assms(3) by simp
    moreover have "sorted_wrt (<) (map fst (concat kvss))" using sorted f(7) by simp
    ultimately obtain e s2 h where
      g: "finish_levels (length (bd_leaves b1)) S (bd_store b1) (bd_leaves b1) = Inr ([e], s2)" "inv s2"
        "used (bd_store b1) \<le> used s2" "used s2 \<le> used (bd_store b1) + 2 * length (bd_leaves b1)"
        "h < 0 + length (bd_leaves b1)"
        "keeps_reads (st_ReadPage S (bd_store b1)) (st_ReadPage S s2) (ids_below (used (bd_store b1)))"
        "bt (st_ReadPage S s2) (ids_below (used s2)) h (lv_page e) (concat kvss)"
      using finish_levels_law [OF f(3) lev _ _ _ False order_refl] by blast
    have "lv_page e \<noteq> InvalidPageID" using g(7) by (cases h) auto
    then have "tree_of (st_ReadPage S s2) (ids_below (used s2)) h (lv_page e) kvs"
      using g(7) f(7) sorted by (simp add: tree_of_def del: bt.simps)
    moreover have "builder_Finish S b = Inr (lv_page e, s2)"
      using f(1) False g(1) by (simp add: builder_Finish_def nth_res_def)
    moreover have "keeps_reads (st_ReadPage S (bd_store b)) (st_ReadPage S s2) (ids_below (used (bd_store b)))"
      using f(6) g(6) by (rule keeps_reads_trans) (simp add: f(4) ids_below_mono)
    ultimately show ?thesis using g(2-5) f(4,5) few
      by (intro exI [of _ "lv_page e"] exI [of _ s2] exI [of _ h]) simp
  qed
qed

end

section \<open>Loading a whole list\<close>

text \<open>The calls of \<^verbatim>\<open>Add\<close> a client makes, one per entry.\<close>

fun builder_AddAll :: "'s page_store \<Rightarrow> 's builder \<Rightarrow> (bytes \<times> bytes) list \<Rightarrow> 's builder res" where
  "builder_AddAll S b [] = Inr b"
| "builder_AddAll S b ((k, v) # kvs) = bindE (builder_Add S b k v) (\<lambda>b. builder_AddAll S b kvs)"

definition load_pages :: "(bytes \<times> bytes) list \<Rightarrow> nat" where
  "load_pages kvs = (\<Sum>(k, v)\<leftarrow>kvs. length v + 2)"

lemma load_pages_simps [simp]:
  "load_pages [] = 0" "load_pages ((k, v) # kvs) = length v + 2 + load_pages kvs"
  "load_pages (xs @ ys) = load_pages xs + load_pages ys"
  by (simp_all add: load_pages_def)

context page_store_laws
begin

lemma builder_AddAll_law:
  assumes "building S used b done_kvs" "inv (bd_store b)" "used (bd_store b) + load_pages kvs \<le> cap"
    "sorted_wrt (<) (map fst (done_kvs @ kvs))" "\<forall>kv\<in>set kvs. length (fst kv) \<le> maxKeyLen"
  shows "\<exists>b'. builder_AddAll S b kvs = Inr b' \<and> building S used b' (done_kvs @ kvs) \<and>
    inv (bd_store b') \<and> used (bd_store b) \<le> used (bd_store b') \<and>
    used (bd_store b') \<le> used (bd_store b) + load_pages kvs \<and>
    keeps_reads (st_ReadPage S (bd_store b)) (st_ReadPage S (bd_store b')) (ids_below (used (bd_store b)))"
  using assms
proof (induction kvs arbitrary: b done_kvs)
  case Nil
  then show ?case by simp
next
  case (Cons kv kvs)
  obtain k v where kv: "kv = (k, v)" by (cases kv)
  have "used (bd_store b) + length v + 2 \<le> cap" "length k \<le> maxKeyLen"
    "\<forall>kv\<in>set done_kvs. fst kv < k"
    using Cons.prems(3-5) kv by (auto simp: sorted_wrt_append)
  from builder_Add_law [OF Cons.prems(1,2) this] obtain b1 where
    b1: "builder_Add S b k v = Inr b1" "building S used b1 (done_kvs @ [(k, v)])" "inv (bd_store b1)"
      "used (bd_store b) \<le> used (bd_store b1)" "used (bd_store b1) \<le> used (bd_store b) + length v + 2"
      "keeps_reads (st_ReadPage S (bd_store b)) (st_ReadPage S (bd_store b1)) (ids_below (used (bd_store b)))"
    by blast
  have "used (bd_store b1) + load_pages kvs \<le> cap" using b1(5) Cons.prems(3) kv by simp
  moreover have "sorted_wrt (<) (map fst ((done_kvs @ [(k, v)]) @ kvs))"
    "\<forall>kv\<in>set kvs. length (fst kv) \<le> maxKeyLen"
    using Cons.prems(4,5) kv by simp_all
  ultimately obtain b2 where
    b2: "builder_AddAll S b1 kvs = Inr b2" "building S used b2 ((done_kvs @ [(k, v)]) @ kvs)"
      "inv (bd_store b2)" "used (bd_store b1) \<le> used (bd_store b2)"
      "used (bd_store b2) \<le> used (bd_store b1) + load_pages kvs"
      "keeps_reads (st_ReadPage S (bd_store b1)) (st_ReadPage S (bd_store b2)) (ids_below (used (bd_store b1)))"
    using Cons.IH [OF b1(2,3)] by blast
  have "keeps_reads (st_ReadPage S (bd_store b)) (st_ReadPage S (bd_store b2)) (ids_below (used (bd_store b)))"
    using b1(6) b2(6) by (rule keeps_reads_trans) (simp add: b1(4) ids_below_mono)
  with b1 b2 kv show ?case by simp
qed

lemma build_law:
  assumes "inv s" "used s + load_pages kvs + 2 * length kvs < cap"
    "sorted_wrt (<) (map fst kvs)" "\<forall>kv\<in>set kvs. length (fst kv) \<le> maxKeyLen"
  shows "\<exists>b root s' h. builder_AddAll S (builder_New s) kvs = Inr b \<and>
    builder_Finish S b = Inr (root, s') \<and> inv s' \<and> used s \<le> used s' \<and>
    used s' \<le> Suc (used s + load_pages kvs + 2 * length kvs) \<and> h \<le> length kvs \<and>
    keeps_reads (st_ReadPage S s) (st_ReadPage S s') (ids_below (used s)) \<and>
    tree_of (st_ReadPage S s') (ids_below (used s')) h root kvs"
proof -
  have st: "bd_store (builder_New s) = s" by (simp add: builder_New_def)
  have "building S used (builder_New s) []" by (rule building_New)
  from builder_AddAll_law [OF this, of kvs] assms st obtain b where
    b: "builder_AddAll S (builder_New s) kvs = Inr b" "building S used b kvs" "inv (bd_store b)"
      "used s \<le> used (bd_store b)" "used (bd_store b) \<le> used s + load_pages kvs"
      "keeps_reads (st_ReadPage S s) (st_ReadPage S (bd_store b)) (ids_below (used s))" by auto
  have "used (bd_store b) + 2 * length kvs < cap" using b(5) assms(2) by simp
  from builder_Finish_law [OF b(2,3) this] obtain root s' h where
    f: "builder_Finish S b = Inr (root, s')" "inv s'" "used (bd_store b) \<le> used s'"
      "used s' \<le> Suc (used (bd_store b) + 2 * length kvs)" "h \<le> length kvs"
      "keeps_reads (st_ReadPage S (bd_store b)) (st_ReadPage S s') (ids_below (used (bd_store b)))"
      "tree_of (st_ReadPage S s') (ids_below (used s')) h root kvs" by blast
  have "keeps_reads (st_ReadPage S s) (st_ReadPage S s') (ids_below (used s))"
    using b(6) f(6) by (rule keeps_reads_trans) (simp add: b(4) ids_below_mono)
  with b f show ?thesis by (intro exI [of _ b] exI [of _ root] exI [of _ s'] exI [of _ h]) simp
qed

end

section \<open>Termination\<close>

definition store_returns :: "'s page_store \<Rightarrow> bool" where
  "store_returns S \<longleftrightarrow> (\<forall>s p. st_WritePage S s p \<noteq> Inl NoFuel)"

lemma write_node_returns: "store_returns S \<Longrightarrow> write_node S s n \<noteq> Inl NoFuel"
  by (auto simp: write_node_def store_returns_def encodeTo_def bindE_Inl_iff Let_def split: prod.splits if_splits)

lemma buildInternalLevel_shortens:
  assumes "store_returns S"
  shows "buildInternalLevel S s level \<noteq> Inl NoFuel \<and>
    (\<forall>out s'. buildInternalLevel S s level = Inr (out, s') \<longrightarrow> 2 * length out \<le> Suc (length level))"
  using assms
proof (induction S s level rule: buildInternalLevel.induct)
  case (1 S s)
  then show ?case by simp
next
  case (2 S s c cs)
  obtain t r where tr: "pack_children (2 + 8) 1 cs = (t, r)" by (cases "pack_children (2 + 8) 1 cs")
  let ?n = "internalNode (map lv_firstKey t) (lv_page c # map lv_page t)"
  show ?case
  proof (cases "write_node S s ?n")
    case (Inl err)
    with write_node_returns [OF 2(2), of s ?n] tr show ?thesis by auto
  next
    case (Inr x)
    obtain pid s1 where x: "x = (pid, s1)" by (cases x)
    from 2(1) [OF refl tr [symmetric] Inr x [symmetric] 2(2)] have
      r: "buildInternalLevel S s1 r \<noteq> Inl NoFuel"
      "\<And>out s'. buildInternalLevel S s1 r = Inr (out, s') \<Longrightarrow> 2 * length out \<le> Suc (length r)" by auto
    have "length cs = length t + length r" using pack_children_append [OF tr] by simp
    moreover have "cs \<noteq> [] \<Longrightarrow> t \<noteq> []" using pack_children_takes tr by simp
    ultimately have "2 * Suc k \<le> Suc (Suc (length cs))" if "2 * k \<le> Suc (length r)" for k
      using that by (cases t; cases "cs = []") auto
    with r show ?thesis using Inr x tr
      by (auto simp: bindE_Inl_iff bindE_Inr_iff split: prod.splits)
  qed
qed

lemma finish_levels_returns:
  assumes "store_returns S" "length level \<le> fuel"
  shows "finish_levels fuel S s level \<noteq> Inl NoFuel"
  using assms(2)
proof (induction fuel arbitrary: s level)
  case 0
  then show ?case by (simp add: finish_levels.simps)
next
  case (Suc fuel)
  note b = buildInternalLevel_shortens [OF assms(1), of s level]
  have "finish_levels fuel S s' out \<noteq> Inl NoFuel"
    if "buildInternalLevel S s level = Inr (out, s')" "1 < length level" for out s'
    using b that Suc.prems by (intro Suc.IH) fastforce
  with b show ?case
    by (auto simp: finish_levels.simps [of "Suc fuel"] bindE_Inl_iff)
qed

section \<open>Properties\<close>

text \<open>
  C15: bulk loading. Entries added in strictly ascending order to a builder over the data file give a
  root from which every key is found with its value and no other key is found, in a tree no higher
  than the number of entries; no page written before is changed.
\<close>

theorem builder_builds_tree:
  assumes "mgr_inv m" "unat (mgr_numPages m) + load_pages kvs + 2 * length kvs < mgr_cap"
    "sorted_wrt (<) (map fst kvs)" "\<forall>kv\<in>set kvs. length (fst kv) \<le> maxKeyLen"
    "enough_fuel fuel (length kvs) kvs"
  shows "\<exists>b root m'. builder_AddAll mgr_store (builder_New m) kvs = Inr b \<and>
    builder_Finish mgr_store b = Inr (root, m') \<and>
    (\<forall>key. btree_Get fuel (mgr_ReadPage m') root key = Inr (map_of kvs key)) \<and>
    keeps_reads (mgr_ReadPage m) (mgr_ReadPage m') (ids_below (unat (mgr_numPages m)))"
proof -
  from mgr.build_law [OF assms(1-4)] obtain b root m' h where
    b: "builder_AddAll mgr_store (builder_New m) kvs = Inr b"
      "builder_Finish mgr_store b = Inr (root, m')" "h \<le> length kvs"
      "keeps_reads (mgr_ReadPage m) (mgr_ReadPage m') (ids_below (unat (mgr_numPages m)))"
      "tree_of (mgr_ReadPage m') (ids_below (unat (mgr_numPages m'))) h root kvs"
    by (auto simp: mgr_store_def)
  have "enough_fuel fuel h kvs" using assms(5) b(3) by (simp add: enough_fuel_def)
  with b btree_Get_correct show ?thesis by blast
qed

theorem builder_builds_tree_witness:
  "\<exists>b root m'. builder_AddAll mgr_store (builder_New \<lparr>mgr_f = [], mgr_numPages = 1\<rparr>)
      [([1], [5]), ([2], [])] = Inr b \<and> builder_Finish mgr_store b = Inr (root, m') \<and>
    btree_Get 9 (mgr_ReadPage m') root [2] = Inr (Some []) \<and>
    btree_Get 9 (mgr_ReadPage m') root [3] = Inr None"
  using builder_builds_tree [of "\<lparr>mgr_f = [], mgr_numPages = 1\<rparr>" "[([1], [5]), ([2], [])]" 9]
  by (fastforce simp: mgr_inv_def mgr_cap_def maxKeyLen_def enough_fuel_def)

text \<open>
  C33: building the index levels ends, whatever the store does and whatever entries were added: every
  round of \<^verbatim>\<open>Finish\<close> gives a level of at most half the length, because a node takes at least two
  children even when their keys do not fit a page, so that no more rounds are needed than there are
  leaves.
\<close>

theorem builder_Finish_terminates:
  assumes "\<forall>s p. st_WritePage S s p \<noteq> Inl NoFuel"
  shows "builder_Finish S b \<noteq> Inl NoFuel"
proof -
  have ret: "store_returns S" using assms by (simp add: store_returns_def)
  have "builder_flushLeaf S b \<noteq> Inl NoFuel"
    using write_node_returns [OF ret] by (auto simp: builder_flushLeaf_def bindE_Inl_iff split: list.splits)
  then show ?thesis
    using finish_levels_returns [OF ret]
    by (auto simp: builder_Finish_def bindE_Inl_iff nth_res_def split: if_splits)
qed

theorem builder_Finish_terminates_witness:
  "builder_Finish mgr_store
     ((builder_New \<lparr>mgr_f = [], mgr_numPages = 9\<rparr>)\<lparr>bd_leaves :=
       map (\<lambda>i. \<lparr>lv_firstKey = replicate 4000 i, lv_page = ucast i\<rparr>) [1, 2, 3, 4, 5]\<rparr>) \<noteq> Inl NoFuel"
  by (rule builder_Finish_terminates)
    (auto simp: mgr_store_def mgr_WritePage_def file_WriteAt_def bindE_Inl_iff Let_def split: if_splits)

end
