(* ===== verification/Entry.thy ===== *)
theory Entry
  imports Prelude
begin

text \<open>
  \<^verbatim>\<open>internal/storage/wal/record.go\<close>: the logical mutation that a WAL record carries, and the
  keyspace of the B+Tree: class definitions and object rows of all projects in one ordered space.
  Go strings are byte strings and an \<^verbatim>\<open>int64\<close> is a 64-bit word read with \<open>sint\<close>. The msgpack
  encoding of an entry is third-party code: a record of two functions that the definitions using it
  take as an argument. The lemmas show that keys are decoded as they were encoded, that different
  objects have different keys, and that key order is id order inside a class.
\<close>

section \<open>Entries\<close>

definition OpPut :: byte where "OpPut = 1"
definition OpDelete :: byte where "OpDelete = 2"
definition OpCreateClass :: byte where "OpCreateClass = 3"
definition OpDropClass :: byte where "OpDropClass = 4"
definition OpBatch :: byte where "OpBatch = 5"

lemmas op_defs = OpPut_def OpDelete_def OpCreateClass_def OpDropClass_def OpBatch_def

datatype WALEntry = WALEntry
  (e_Op: byte)
  (e_Project: bytes)
  (e_Class: bytes)
  (e_ObjectID: u64)
  (e_Data: bytes)
  (e_Timestamp: u64)
  (e_Sub: "WALEntry list")

definition e_Flatten :: "WALEntry \<Rightarrow> WALEntry list" where
  "e_Flatten e = (if e_Op e = OpBatch then e_Sub e else [e])"

record codec =
  cd_marshal :: "WALEntry \<Rightarrow> bytes res"
  cd_unmarshal :: "bytes \<Rightarrow> WALEntry res"

text \<open>
  What the code relies on of the msgpack package: an entry that was marshalled is read back as it was.
\<close>

definition codec_law :: "codec \<Rightarrow> WALEntry \<Rightarrow> bool" where
  "codec_law cd e \<longleftrightarrow> (case cd_marshal cd e of Inl _ \<Rightarrow> True | Inr p \<Rightarrow> cd_unmarshal cd p = Inr e)"

section \<open>Keys\<close>

definition nsClass :: byte where "nsClass = 1"
definition nsObject :: byte where "nsObject = 2"
definition keySep :: byte where "keySep = 0"

lemmas key_bytes = nsClass_def nsObject_def keySep_def

definition scope :: "bytes \<Rightarrow> bytes" where
  "scope project = (if project = [] then [] else project @ [keySep])"

definition ClassKey :: "bytes \<Rightarrow> bytes \<Rightarrow> bytes" where
  "ClassKey project cls = [nsClass] @ scope project @ cls"

definition ObjectKey :: "bytes \<Rightarrow> bytes \<Rightarrow> u64 \<Rightarrow> bytes" where
  "ObjectKey project cls oid = [nsObject] @ scope project @ cls @ [keySep] @ put64be oid"

definition ObjectPrefix :: "bytes \<Rightarrow> bytes \<Rightarrow> bytes" where
  "ObjectPrefix project cls = [nsObject] @ scope project @ cls @ [keySep]"

text \<open>The loop of \<^verbatim>\<open>indexZero\<close> from index \<open>i\<close> over the bytes that remain.\<close>

fun indexZero_from :: "nat \<Rightarrow> bytes \<Rightarrow> int" where
  "indexZero_from i [] = -1"
| "indexZero_from i (b # bs) = (if b = keySep then int i else indexZero_from (Suc i) bs)"

definition indexZero :: "bytes \<Rightarrow> int" where
  "indexZero b = indexZero_from 0 b"

definition splitScope :: "bytes \<Rightarrow> bytes \<times> bytes" where
  "splitScope body =
     (let i = indexZero body in
      if i \<ge> 0 then (take (nat i) body, drop (nat i + 1) body) else ([], body))"

definition DecodeObjectKey :: "bytes \<Rightarrow> (bytes \<times> bytes \<times> u64) option" where
  "DecodeObjectKey key =
     (if length key < 1 + 1 + 8 \<or> key ! 0 \<noteq> nsObject then None
      else
        let sepPos = length key - 9 in
        if key ! sepPos \<noteq> keySep then None
        else
          let (project, cls) = splitScope (sub 1 (sepPos - 1) key);
              oid = get64be (drop (sepPos + 1) key)
          in Some (project, cls, oid))"

definition DecodeClassKey :: "bytes \<Rightarrow> (bytes \<times> bytes) option" where
  "DecodeClassKey key =
     (if length key < 1 \<or> key ! 0 \<noteq> nsClass then None
      else Some (splitScope (drop 1 key)))"

definition ScopeKey :: "bytes \<Rightarrow> bytes \<Rightarrow> bytes" where
  "ScopeKey project cls = project @ [keySep] @ cls"

definition e_Key :: "WALEntry \<Rightarrow> bytes" where
  "e_Key e =
     (if e_Op e = OpCreateClass \<or> e_Op e = OpDropClass then ClassKey (e_Project e) (e_Class e)
      else ObjectKey (e_Project e) (e_Class e) (e_ObjectID e))"

section \<open>Decoding keys\<close>

text \<open>The API only lets names without the separator byte through.\<close>

abbreviation no_sep :: "bytes \<Rightarrow> bool" where
  "no_sep name \<equiv> keySep \<notin> set name"

lemma indexZero_none: "no_sep bs \<Longrightarrow> indexZero_from i bs = -1"
  by (induction bs arbitrary: i) auto

lemma indexZero_append: "no_sep bs \<Longrightarrow> indexZero_from i (bs @ keySep # cs) = int (i + length bs)"
  by (induction bs arbitrary: i) auto

lemma splitScope_scope [simp]:
  "no_sep project \<Longrightarrow> no_sep cls \<Longrightarrow> splitScope (scope project @ cls) = (project, cls)"
  by (simp add: splitScope_def scope_def indexZero_def indexZero_none indexZero_append)

lemma DecodeObjectKey_body:
  "length idb = 8 \<Longrightarrow> DecodeObjectKey (nsObject # body @ keySep # idb) =
     Some (fst (splitScope body), snd (splitScope body), get64be idb)"
  by (simp add: DecodeObjectKey_def sub_def nth_append Let_def split: prod.split)

lemma DecodeObjectKey_ObjectKey [simp]:
  "no_sep project \<Longrightarrow> no_sep cls \<Longrightarrow>
   DecodeObjectKey (ObjectKey project cls oid) = Some (project, cls, oid)"
  using DecodeObjectKey_body [of "put64be oid" "scope project @ cls"]
  by (simp add: ObjectKey_def)

lemma DecodeObjectKey_ClassKey [simp]: "DecodeObjectKey (ClassKey project cls) = None"
  by (simp add: DecodeObjectKey_def ClassKey_def key_bytes)

lemma DecodeClassKey_ClassKey [simp]:
  "no_sep project \<Longrightarrow> no_sep cls \<Longrightarrow> DecodeClassKey (ClassKey project cls) = Some (project, cls)"
  by (simp add: DecodeClassKey_def ClassKey_def)

lemma DecodeClassKey_ObjectKey [simp]: "DecodeClassKey (ObjectKey project cls oid) = None"
  by (simp add: DecodeClassKey_def ObjectKey_def key_bytes)

lemma ObjectKey_inject:
  assumes "no_sep p" "no_sep c" "no_sep p'" "no_sep c'"
  shows "ObjectKey p c i = ObjectKey p' c' i' \<longleftrightarrow> p = p' \<and> c = c' \<and> i = i'"
  by (metis DecodeObjectKey_ObjectKey assms option.inject prod.inject)

lemma ClassKey_inject:
  assumes "no_sep p" "no_sep c" "no_sep p'" "no_sep c'"
  shows "ClassKey p c = ClassKey p' c' \<longleftrightarrow> p = p' \<and> c = c'"
  by (metis DecodeClassKey_ClassKey assms option.inject prod.inject)

lemma ScopeKey_inject:
  assumes "no_sep p" "no_sep p'"
  shows "ScopeKey p c = ScopeKey p' c' \<longleftrightarrow> p = p' \<and> c = c'"
proof
  assume "ScopeKey p c = ScopeKey p' c'"
  then have eq: "p @ keySep # c = p' @ keySep # c'" by (simp add: ScopeKey_def)
  have "takeWhile (\<lambda>b. b \<noteq> keySep) (p @ keySep # c) = p" if "no_sep p" for p c
    using that by (auto simp: takeWhile_append)
  with eq assms have "p = p'" by metis
  with eq show "p = p' \<and> c = c'" by simp
qed simp

lemma ClassKey_neq_ObjectKey: "ClassKey p c \<noteq> ObjectKey p' c' i"
  by (simp add: ClassKey_def ObjectKey_def key_bytes)

text \<open>
  Inside a class, keys are ordered as the ids are, and every class definition comes before every
  object.
\<close>

lemma ObjectKey_less: "ObjectKey p c i < ObjectKey p c j \<longleftrightarrow> i < j"
  by (simp add: ObjectKey_def list_less_append_same_length put64be_less)

lemma ClassKey_less_ObjectKey: "ClassKey p c < ObjectKey p' c' i"
  by (simp add: ClassKey_def ObjectKey_def key_bytes)

section \<open>Properties\<close>

text \<open>
  Every object key is decoded to the project, class and id it was made of, whatever bytes the
  id has, and the class and object keyspaces do not meet.
\<close>

theorem keys_decode:
  assumes "no_sep project" "no_sep cls"
  shows "DecodeObjectKey (ObjectKey project cls oid) = Some (project, cls, oid) \<and>
    DecodeClassKey (ClassKey project cls) = Some (project, cls) \<and>
    DecodeObjectKey (ClassKey project cls) = None \<and> DecodeClassKey (ObjectKey project cls oid) = None"
  using assms by simp

theorem keys_decode_witness:
  "DecodeObjectKey (ObjectKey [] [0x61] 256) = Some ([], [0x61], 256) \<and>
   DecodeObjectKey (ObjectKey [0x70] [0x61] 0x6100000000000000) = Some ([0x70], [0x61], 0x6100000000000000)"
  using keys_decode [of "[]" "[0x61]" 256] keys_decode [of "[0x70]" "[0x61]" "0x6100000000000000"]
  by (simp add: keySep_def)

text \<open>
  The prefix of a class selects all its objects. It may also select objects of a project named
  like the class, or, for ids beyond 56 bits, of the default project; decoding the key tells them
  apart, which is what every scan of a class does.
\<close>

theorem ObjectPrefix_scan:
  assumes "no_sep project" "no_sep cls" "no_sep p" "no_sep c"
  shows "(take (length (ObjectPrefix project cls)) (ObjectKey p c i) = ObjectPrefix project cls \<and>
     (\<exists>j. DecodeObjectKey (ObjectKey p c i) = Some (project, cls, j))) \<longleftrightarrow> p = project \<and> c = cls"
proof -
  have "take (length (ObjectPrefix p c)) (ObjectKey p c i) = ObjectPrefix p c"
    by (simp add: ObjectPrefix_def ObjectKey_def)
  with assms show ?thesis by auto
qed

theorem ObjectPrefix_scan_witness:
  "take (length (ObjectPrefix [] [0x61])) (ObjectKey [0x61] [0x62] 7) = ObjectPrefix [] [0x61] \<and>
   \<not> (\<exists>j. DecodeObjectKey (ObjectKey [0x61] [0x62] 7) = Some ([], [0x61], j))"
  using ObjectPrefix_scan [of "[]" "[0x61]" "[0x61]" "[0x62]" 7]
  by (simp add: ObjectPrefix_def ObjectKey_def scope_def key_bytes)

text \<open>
  Different objects have different keys, and inside a class the keys are ordered as the ids
  are, so a scan lists a class in ascending id order.
\<close>

theorem ObjectKey_order:
  assumes "no_sep p" "no_sep c" "no_sep p'" "no_sep c'"
  shows "(ObjectKey p c i = ObjectKey p' c' j \<longleftrightarrow> (p, c, i) = (p', c', j)) \<and>
    (ObjectKey p c i < ObjectKey p c j \<longleftrightarrow> i < j) \<and> ClassKey p c < ObjectKey p' c' j"
  by (simp add: ObjectKey_inject assms ObjectKey_less ClassKey_less_ObjectKey)

theorem ObjectKey_order_witness:
  "ObjectKey [] [0x61] 255 < ObjectKey [] [0x61] 256 \<and>
   ObjectKey [0x61] [0x62] 1 \<noteq> ObjectKey [] [0x61] 1"
  using ObjectKey_order [of "[]" "[0x61]" "[]" "[0x61]" 255 256]
    ObjectKey_order [of "[0x61]" "[0x62]" "[]" "[0x61]" 1 1] by (simp add: keySep_def)

end
