(* ===== verification/Wal.thy ===== *)
theory Wal
  imports Crc Entry
begin

text \<open>
  \<^verbatim>\<open>internal/storage/wal/writer.go\<close> and \<^verbatim>\<open>reader.go\<close>: the framing of records in the log file.
  The log is its bytes. A write may fail after any number of bytes has reached the file, which is
  an input of \<open>wal_Append\<close>. The lemmas show what a reader finds in a log: all records of a whole
  log, the longest run of whole records of a log cut anywhere, and nothing of a record with a
  corrupt byte that the checksum or the magic covers.
\<close>

section \<open>Writing\<close>

definition recMagic :: u32 where "recMagic = 0x5A57414C"
definition recVersion :: byte where "recVersion = 1"
definition recHeaderLen :: nat where "recHeaderLen = 24"
definition MaxRecordLen :: nat where "MaxRecordLen = push_bit 20 64"

text \<open>
  The header with a zero checksum, byte by byte as \<^verbatim>\<open>Append\<close> fills its array; the length is
  converted to 32 bits.
\<close>

definition wal_header :: "u64 \<Rightarrow> bytes \<Rightarrow> bytes" where
  "wal_header txID payload =
     (let hdr = replicate recHeaderLen 0;
          hdr = copy_at 0 (put32 recMagic) hdr;
          hdr = hdr[4 := recVersion];
          hdr = copy_at 8 (put64 txID) hdr;
          hdr = copy_at 16 (put32 (word_of_nat (length payload))) hdr;
          crc = crc_checksum (sub 8 12 hdr);
          crc = crc_update crc payload
      in copy_at 20 (put32 crc) hdr)"

definition wal_record :: "u64 \<Rightarrow> bytes \<Rightarrow> bytes" where
  "wal_record txID payload = wal_header txID payload @ payload"

text \<open>
  \<open>wal_Append io f txID payload\<close>: the file after the call and its error. \<open>io\<close> is what the
  operating system does with the one write: \<open>None\<close> when it succeeds, \<open>Some n\<close> when it fails with
  \<open>n\<close> bytes written.
\<close>

definition wal_Append :: "nat option \<Rightarrow> bytes \<Rightarrow> u64 \<Rightarrow> bytes \<Rightarrow> bytes \<times> unit res" where
  "wal_Append io f txID payload =
     (if length payload > MaxRecordLen then (f, Inl ErrTooLarge)
      else
        let rec_bytes = wal_record txID payload in
        case io of
          None \<Rightarrow> (f @ rec_bytes, Inr ())
        | Some n \<Rightarrow> (f @ take n rec_bytes, Inl ErrIO))"

section \<open>Reading\<close>

text \<open>
  \<open>wal_Next f off\<close> reads at offset \<open>off\<close> of the file: the record and the offset after it.
  \<^verbatim>\<open>io.ReadFull\<close> gives \<^verbatim>\<open>io.EOF\<close> only when there is nothing left, and otherwise
  an error when it cannot fill its buffer.
\<close>

definition wal_Next :: "bytes \<Rightarrow> nat \<Rightarrow> (u64 \<times> bytes \<times> nat) res" where
  "wal_Next f off =
     (let r = drop off f in
      if r = [] then Inl ErrEOF
      else if length r < recHeaderLen then Inl ErrCorrupt
      else
        let hdr = take recHeaderLen r in
        if get32 (sub 0 4 hdr) \<noteq> recMagic then Inl ErrCorrupt
        else if hdr ! 4 \<noteq> recVersion then Inl (ErrVersion (hdr ! 4))
        else
          let txID = get64 (sub 8 8 hdr);
              plen = unat (get32 (sub 16 4 hdr))
          in
          if plen > MaxRecordLen then Inl ErrCorrupt
          else
            let wantCRC = get32 (sub 20 4 hdr) in
            if length (drop recHeaderLen r) < plen then Inl ErrCorrupt
            else
              let payload = take plen (drop recHeaderLen r);
                  crc = crc_checksum (sub 8 12 hdr);
                  crc = crc_update crc payload
              in if crc \<noteq> wantCRC then Inl ErrCorrupt
                 else Inr (txID, payload, off + recHeaderLen + plen))"

lemma wal_Next_advance: "wal_Next f off = Inr (tx, p, off') \<Longrightarrow> off < off' \<and> off' \<le> length f"
  by (auto simp: wal_Next_def Let_def recHeaderLen_def split: if_splits)

text \<open>
  Reading from an offset until the reader reports an error: the records, the offset after the last
  one (\<^verbatim>\<open>Reader.Offset\<close>) and that error.
\<close>

function wal_read_from :: "bytes \<Rightarrow> nat \<Rightarrow> (u64 \<times> bytes) list \<times> nat \<times> error" where
  "wal_read_from f off =
     (case wal_Next f off of
        Inl e \<Rightarrow> ([], off, e)
      | Inr (tx, p, off') \<Rightarrow>
          let (rs, fin, e) = wal_read_from f off' in ((tx, p) # rs, fin, e))"
  by pat_completeness auto
termination
  by (relation "measure (\<lambda>(f, off). length f - off)") (auto dest: wal_Next_advance)

declare wal_read_from.simps [simp del]

definition wal_read :: "bytes \<Rightarrow> (u64 \<times> bytes) list \<times> nat \<times> error" where
  "wal_read f = wal_read_from f 0"

section \<open>What the reader finds\<close>

lemma length_wal_header [simp]: "length (wal_header tx p) = recHeaderLen"
  by (simp add: wal_header_def Let_def)

lemma wal_header_nonempty [simp]: "wal_header tx p \<noteq> []"
  by (rule notI) (use length_wal_header [of tx p] in \<open>simp add: recHeaderLen_def\<close>)

lemma length_wal_record [simp]: "length (wal_record tx p) = recHeaderLen + length p"
  by (simp add: wal_record_def)

lemma wal_header_fields:
  "sub 0 4 (wal_header tx p) = put32 recMagic"
  "wal_header tx p ! 4 = recVersion"
  "sub 8 8 (wal_header tx p) = put64 tx"
  "sub 16 4 (wal_header tx p) = put32 (word_of_nat (length p))"
  "sub 8 12 (wal_header tx p) = put64 tx @ put32 (word_of_nat (length p))"
  "sub 20 4 (wal_header tx p) =
     put32 (crc_checksum (put64 tx @ put32 (word_of_nat (length p)) @ p))"
proof -
  let ?h0 = "(copy_at 0 (put32 recMagic) (replicate recHeaderLen 0))[4 := recVersion]"
  have two: "copy_at 16 (put32 n) (copy_at 8 (put64 tx) ?h0) = copy_at 8 (put64 tx @ put32 n) ?h0"
    for n by (rule copy_at_adjacent) (simp_all add: recHeaderLen_def)
  show "sub 0 4 (wal_header tx p) = put32 recMagic"
    by (simp add: wal_header_def Let_def recHeaderLen_def byte_simps sub_list_update)
  show "wal_header tx p ! 4 = recVersion"
    by (simp add: wal_header_def Let_def recHeaderLen_def nth_copy_at)
  show "sub 8 8 (wal_header tx p) = put64 tx"
    by (simp add: wal_header_def Let_def recHeaderLen_def byte_simps)
  show "sub 16 4 (wal_header tx p) = put32 (word_of_nat (length p))"
    by (simp add: wal_header_def Let_def recHeaderLen_def byte_simps)
  have body: "sub 8 12 (copy_at 8 (put64 tx @ put32 n) ?h0) = put64 tx @ put32 n" for n
    by (simp add: recHeaderLen_def byte_simps)
  show "sub 8 12 (wal_header tx p) = put64 tx @ put32 (word_of_nat (length p))"
    by (simp add: wal_header_def Let_def sub_copy_at_other recHeaderLen_def
        two [unfolded recHeaderLen_def] body [unfolded recHeaderLen_def])
  show "sub 20 4 (wal_header tx p) =
      put32 (crc_checksum (put64 tx @ put32 (word_of_nat (length p)) @ p))"
    by (simp add: wal_header_def Let_def sub_copy_at_same recHeaderLen_def crc_checksum_append
        two [unfolded recHeaderLen_def] body [unfolded recHeaderLen_def])
qed

abbreviation record_ok :: "u64 \<times> bytes \<Rightarrow> bool" where
  "record_ok r \<equiv> length (snd r) \<le> MaxRecordLen"

lemma unat_record_len: "length p \<le> MaxRecordLen \<Longrightarrow> unat (word_of_nat (length p) :: u32) = length p"
  by (simp add: MaxRecordLen_def push_bit_eq_mult unat_of_nat)

lemma wal_Next_record:
  assumes "length p \<le> MaxRecordLen"
  shows "wal_Next (pre @ wal_record tx p @ post) (length pre) =
    Inr (tx, p, length pre + recHeaderLen + length p)"
  using assms
  by (simp add: wal_Next_def Let_def wal_record_def wal_header_fields unat_record_len
      crc_checksum_append flip: append_assoc)

text \<open>A proper prefix of a record at the end of the file ends the reading without an alarm.\<close>

lemma wal_Next_torn:
  assumes "length p \<le> MaxRecordLen" "n < length (wal_record tx p)"
  shows "wal_Next (pre @ take n (wal_record tx p)) (length pre) =
    Inl (if n = 0 then ErrEOF else ErrCorrupt)"
proof (cases "n < recHeaderLen")
  case True
  with assms(2) show ?thesis by (auto simp: wal_Next_def Let_def wal_record_def recHeaderLen_def)
next
  case False
  then obtain k where k: "n = recHeaderLen + k" using le_Suc_ex not_less by blast
  then have "take n (wal_record tx p) = wal_header tx p @ take k p" by (simp add: wal_record_def)
  moreover have "k < length p" using assms(2) k by simp
  ultimately show ?thesis
    using assms(1) k
    by (simp add: wal_Next_def Let_def wal_header_fields unat_record_len recHeaderLen_def)
qed

definition wal_log :: "(u64 \<times> bytes) list \<Rightarrow> bytes" where
  "wal_log rs = concat (map (\<lambda>(tx, p). wal_record tx p) rs)"

lemma wal_log_simps [simp]:
  "wal_log [] = []"
  "wal_log ((tx, p) # rs) = wal_record tx p @ wal_log rs"
  "wal_log (xs @ ys) = wal_log xs @ wal_log ys"
  by (simp_all add: wal_log_def)

lemma wal_read_from_records:
  assumes "\<forall>r\<in>set rs. record_ok r"
  shows "wal_read_from (pre @ wal_log rs @ post) (length pre) =
    (let (rs', fin, e) = wal_read_from (pre @ wal_log rs @ post) (length pre + length (wal_log rs))
     in (rs @ rs', fin, e))"
  using assms
proof (induction rs arbitrary: pre)
  case Nil
  then show ?case by (simp split: prod.split)
next
  case (Cons r rs)
  obtain tx p where r: "r = (tx, p)" by (cases r)
  have "wal_Next (pre @ wal_log (r # rs) @ post) (length pre) =
      Inr (tx, p, length (pre @ wal_record tx p))"
    using wal_Next_record [of p pre tx "wal_log rs @ post"] Cons.prems r by (simp add: add.assoc)
  then show ?case
    using Cons.IH [of "pre @ wal_record tx p"] Cons.prems r
    by (simp add: wal_read_from.simps [of _ "length pre"] add.assoc split: prod.splits)
qed

lemma wal_read_log:
  assumes "\<forall>r\<in>set rs. record_ok r"
  shows "wal_read (wal_log rs) = (rs, length (wal_log rs), ErrEOF)"
  using wal_read_from_records [OF assms, of "[]" "[]"]
  by (simp add: wal_read_def wal_read_from.simps [of _ "length (wal_log rs)"] wal_Next_def)

text \<open>
  Whatever follows the whole records, if the reader cannot read a record there, is the end of the log.
\<close>

lemma wal_read_then:
  assumes "\<forall>r\<in>set rs. record_ok r" "wal_Next (wal_log rs @ rest) (length (wal_log rs)) = Inl e"
  shows "wal_read (wal_log rs @ rest) = (rs, length (wal_log rs), e)"
  using wal_read_from_records [OF assms(1), of "[]" rest] assms(2)
  by (simp add: wal_read_def wal_read_from.simps [of _ "length (wal_log rs)"])

lemma wal_read_torn:
  assumes "\<forall>r\<in>set rs. record_ok r" "record_ok (tx, p)" "n < length (wal_record tx p)"
  shows "wal_read (wal_log rs @ take n (wal_record tx p)) =
    (rs, length (wal_log rs), if n = 0 then ErrEOF else ErrCorrupt)"
  using assms wal_Next_torn [of p n tx "wal_log rs"] by (intro wal_read_then) auto

text \<open>Reading looks at nothing behind the record, so it does not depend on what follows.\<close>

lemma wal_Next_local:
  assumes "wal_Next f off = Inr (tx, p, off')" "take off' g = take off' f"
  shows "wal_Next g off = Inr (tx, p, off')"
proof -
  have le: "off < off'" "off' \<le> length f" using wal_Next_advance [OF assms(1)] by simp_all
  let ?r = "drop off f" and ?s = "drop off g"
  have lg: "off' \<le> length g" using assms(2) le(2) by (metis length_take min.absorb2 min.cobounded1)
  have eq: "take (off' - off) ?s = take (off' - off) ?r"
    using assms(2) by (metis drop_take)
  have off': "off' = off + recHeaderLen + length p" "recHeaderLen + length p = off' - off"
    using assms(1) by (auto simp: wal_Next_def Let_def split: if_splits)
  have hdr: "take recHeaderLen ?s = take recHeaderLen ?r"
    using arg_cong [OF eq, of "take recHeaderLen"] off'(2) by (simp add: min_def split: if_splits)
  have "take (length p) (drop recHeaderLen (take (off' - off) ?s)) =
      take (length p) (drop recHeaderLen (take (off' - off) ?r))" by (simp only: eq)
  then have pay: "take (length p) (drop recHeaderLen ?s) = take (length p) (drop recHeaderLen ?r)"
    by (simp only: off'(2) [symmetric] drop_take add_diff_cancel_left' take_take min.idem)
  have len: "recHeaderLen + length p \<le> length ?s" using lg off' by simp
  show ?thesis
    using assms(1) hdr pay len unfolding wal_Next_def Let_def
    by (auto simp: recHeaderLen_def split: if_splits)
qed

lemma wal_read_from_end: "wal_read_from f off = (rs, fin, e) \<Longrightarrow> off \<le> length f \<Longrightarrow> off \<le> fin \<and> fin \<le> length f"
proof (induction f off arbitrary: rs rule: wal_read_from.induct)
  case (1 f off)
  show ?case
  proof (cases "wal_Next f off")
    case (Inl e')
    with "1.prems" show ?thesis by (simp add: wal_read_from.simps [of f off])
  next
    case (Inr r)
    obtain tx p off' where r: "r = (tx, p, off')" by (cases r)
    with "1.prems" Inr obtain rs' where "wal_read_from f off' = (rs', fin, e)"
      by (auto simp: wal_read_from.simps [of f off] split: prod.splits)
    with "1.IH" [OF Inr r [symmetric] refl] Inr r wal_Next_advance show ?thesis by fastforce
  qed
qed

lemma wal_read_from_local:
  assumes "wal_read_from f off = (rs, fin, e)" "off \<le> length f" "take fin g = take fin f"
  shows "wal_read_from g off = (let (rs', fin', e') = wal_read_from g fin in (rs @ rs', fin', e'))"
  using assms
proof (induction f off arbitrary: rs rule: wal_read_from.induct)
  case (1 f off)
  show ?case
  proof (cases "wal_Next f off")
    case (Inl e')
    with "1.prems"(1) show ?thesis by (simp add: wal_read_from.simps [of f off] split: prod.split)
  next
    case (Inr r)
    obtain tx p off' where r: "r = (tx, p, off')" by (cases r)
    with "1.prems" Inr obtain rs' where rs': "wal_read_from f off' = (rs', fin, e)" "rs = (tx, p) # rs'"
      by (auto simp: wal_read_from.simps [of f off] split: prod.splits)
    have adv: "off < off'" "off' \<le> length f" using wal_Next_advance Inr r by auto
    have "off' \<le> fin" using wal_read_from_end [OF rs'(1) adv(2)] by simp
    then have "take off' g = take off' f"
      using arg_cong [OF "1.prems"(3), of "take off'"] by (simp add: min_def)
    then have "wal_Next g off = Inr (tx, p, off')" using Inr r wal_Next_local by blast
    then have "wal_read_from g off = (let (rs, fin, e) = wal_read_from g off' in ((tx, p) # rs, fin, e))"
      by (simp add: wal_read_from.simps [of g off])
    moreover have "wal_read_from g off' = (let (rs'', fin', e') = wal_read_from g fin in (rs' @ rs'', fin', e'))"
      by (rule "1.IH" [OF Inr r [symmetric] refl rs'(1) adv(2) "1.prems"(3)])
    ultimately show ?thesis using rs'(2) by (simp split: prod.split)
  qed
qed

text \<open>Cutting a log at the reader's offset leaves its records and a clean end.\<close>

lemma wal_read_then_local:
  assumes "wal_read f = (rs, off, e)" "wal_Next (take off f @ ys) off = Inl e'"
  shows "wal_read (take off f @ ys) = (rs, off, e')"
proof -
  have "off \<le> length f" using wal_read_from_end [of f 0] assms(1) by (simp add: wal_read_def)
  then have "take off (take off f @ ys) = take off f" by simp
  from wal_read_from_local [OF assms(1) [unfolded wal_read_def] _ this] assms(2) show ?thesis
    by (simp add: wal_read_def wal_read_from.simps [of _ off])
qed

lemma wal_read_truncate:
  assumes "wal_read f = (rs, off, e)"
  shows "wal_read (take off f) = (rs, off, ErrEOF)"
proof -
  have "wal_Next (take off f @ []) off = Inl ErrEOF" by (simp add: wal_Next_def)
  from wal_read_then_local [OF assms this] show ?thesis by simp
qed

lemma wal_read_from_stop: "wal_read_from f off = (rs, fin, e) \<Longrightarrow> wal_Next f fin = Inl e"
proof (induction f off arbitrary: rs rule: wal_read_from.induct)
  case (1 f off)
  show ?case
  proof (cases "wal_Next f off")
    case (Inl e')
    with "1.prems" show ?thesis by (simp add: wal_read_from.simps [of f off])
  next
    case (Inr r)
    obtain tx p off' where r: "r = (tx, p, off')" by (cases r)
    with "1.prems" Inr obtain rs' where "wal_read_from f off' = (rs', fin, e)"
      by (auto simp: wal_read_from.simps [of f off] split: prod.splits)
    then show ?thesis by (rule "1.IH" [OF Inr r [symmetric] refl])
  qed
qed

lemma wal_read_EOF:
  assumes "wal_read f = (rs, off, ErrEOF)"
  shows "off = length f"
proof -
  have "off \<le> length f" using wal_read_from_end [of f 0] assms by (simp add: wal_read_def)
  moreover have "wal_Next f off = Inl ErrEOF"
    using assms unfolding wal_read_def by (rule wal_read_from_stop)
  ultimately show ?thesis by (auto simp: wal_Next_def Let_def split: if_splits)
qed

text \<open>Appending to a log with a clean end.\<close>

lemma wal_read_append:
  assumes "wal_read f = (rs, off, ErrEOF)" "length p \<le> MaxRecordLen"
  shows "\<exists>off'. wal_read (f @ wal_record tx p) = (rs @ [(tx, p)], off', ErrEOF)"
proof -
  have off: "off = length f" using assms(1) by (rule wal_read_EOF)
  define g L where g: "g = f @ wal_record tx p" "L = length g"
  have "wal_Next g off = Inr (tx, p, L)"
    using wal_Next_record [OF assms(2), of f tx "[]"] off by (simp add: g add.assoc)
  moreover have "wal_Next g L = Inl ErrEOF" by (simp add: g(2) wal_Next_def)
  ultimately have "wal_read_from g off = ([(tx, p)], L, ErrEOF)"
    by (simp add: wal_read_from.simps [of g off] wal_read_from.simps [of g L])
  moreover have "take off g = take off f" using off g(1) by simp
  ultimately show ?thesis
    using wal_read_from_local [OF assms(1) [unfolded wal_read_def], of g] g(1)
    by (simp add: wal_read_def)
qed

lemma wal_read_append_torn:
  assumes "wal_read f = (rs, off, ErrEOF)" "length p \<le> MaxRecordLen" "n < length (wal_record tx p)"
  shows "wal_read (f @ take n (wal_record tx p)) = (rs, off, if n = 0 then ErrEOF else ErrCorrupt)"
proof -
  have off: "off = length f" using assms(1) by (rule wal_read_EOF)
  then have f: "take off f = f" by simp
  have "wal_Next (take off f @ take n (wal_record tx p)) off = Inl (if n = 0 then ErrEOF else ErrCorrupt)"
    using wal_Next_torn [OF assms(2,3), of f] by (simp add: off)
  from wal_read_then_local [OF assms(1) this] show ?thesis by (simp add: f)
qed

text \<open>The whole records of a log that was cut after \<open>n\<close> bytes.\<close>

fun whole_records :: "nat \<Rightarrow> (u64 \<times> bytes) list \<Rightarrow> (u64 \<times> bytes) list" where
  "whole_records n [] = []"
| "whole_records n ((tx, p) # rs) =
     (if n < length (wal_record tx p) then []
      else (tx, p) # whole_records (n - length (wal_record tx p)) rs)"

lemma whole_records_split:
  "\<exists>rest. rs = whole_records n rs @ rest \<and>
     length (wal_log (whole_records n rs)) \<le> n \<and>
     take n (wal_log rs) = wal_log (whole_records n rs) @
       (case rest of [] \<Rightarrow> []
        | (tx, p) # _ \<Rightarrow> take (n - length (wal_log (whole_records n rs))) (wal_record tx p)) \<and>
     (case rest of [] \<Rightarrow> True
      | (tx, p) # _ \<Rightarrow> n - length (wal_log (whole_records n rs)) < length (wal_record tx p))"
proof (induction n rs rule: whole_records.induct)
  case (1 n)
  then show ?case by simp
next
  case (2 n tx p rs)
  show ?case
  proof (cases "n < length (wal_record tx p)")
    case True
    then show ?thesis by (intro exI [of _ "(tx, p) # rs"]) simp
  next
    case False
    from "2.IH" [OF this] obtain rest where
      "rs = whole_records (n - length (wal_record tx p)) rs @ rest"
      "length (wal_log (whole_records (n - length (wal_record tx p)) rs)) \<le> n - length (wal_record tx p)"
      "take (n - length (wal_record tx p)) (wal_log rs) =
        wal_log (whole_records (n - length (wal_record tx p)) rs) @
        (case rest of [] \<Rightarrow> []
         | (tx', p') # _ \<Rightarrow> take (n - length (wal_record tx p) -
             length (wal_log (whole_records (n - length (wal_record tx p)) rs))) (wal_record tx' p'))"
      "case rest of [] \<Rightarrow> True | (tx', p') # _ \<Rightarrow> n - length (wal_record tx p) -
         length (wal_log (whole_records (n - length (wal_record tx p)) rs)) < length (wal_record tx' p')"
      by blast
    with False show ?thesis by (intro exI [of _ rest]) (auto split: list.splits)
  qed
qed

lemma wal_read_cut:
  assumes "\<forall>r\<in>set rs. record_ok r"
  shows "\<exists>e. wal_read (take n (wal_log rs)) =
    (whole_records n rs, length (wal_log (whole_records n rs)), e) \<and> (e = ErrEOF \<or> e = ErrCorrupt)"
proof -
  from whole_records_split [of rs n] obtain rest where
    rs: "rs = whole_records n rs @ rest" and cut:
      "take n (wal_log rs) = wal_log (whole_records n rs) @
       (case rest of [] \<Rightarrow> []
        | (tx, p) # _ \<Rightarrow> take (n - length (wal_log (whole_records n rs))) (wal_record tx p))" and
    len: "case rest of [] \<Rightarrow> True
      | (tx, p) # _ \<Rightarrow> n - length (wal_log (whole_records n rs)) < length (wal_record tx p)"
    by blast
  have ok: "\<forall>r\<in>set (whole_records n rs). record_ok r" "\<forall>r\<in>set rest. record_ok r"
    using assms rs by (metis Un_iff set_append)+
  show ?thesis
  proof (cases rest)
    case Nil
    with cut wal_read_log [OF ok(1)] show ?thesis by simp
  next
    case (Cons r rest')
    obtain tx p where "r = (tx, p)" by (cases r)
    with Cons cut len ok wal_read_torn [OF ok(1), of tx p] show ?thesis by simp
  qed
qed


text \<open>A record with one wrong byte: only its checksum, magic and version stand between it and the reader.\<close>

lemma wal_Next_corrupt:
  assumes "length p \<le> MaxRecordLen" "i < length (wal_record tx p)" "b \<noteq> wal_record tx p ! i"
    "i < 5 \<or> 8 \<le> i \<and> i < 16 \<or> 20 \<le> i"
  shows "wal_Next (pre @ (wal_record tx p)[i := b] @ post) (length pre) =
    Inl (if i = 4 then ErrVersion b else ErrCorrupt)"
proof -
  let ?h = "wal_header tx p" and ?n = "put32 (word_of_nat (length p) :: u32)"
  consider "i < 4" | "i = 4" | "8 \<le> i" "i < 16" | "20 \<le> i" "i < 24" | "24 \<le> i"
    using assms(4) by linarith
  then show ?thesis
  proof cases
    case 1
    then have r: "(wal_record tx p)[i := b] = ?h[i := b] @ p"
      by (simp add: wal_record_def list_update_append recHeaderLen_def)
    have "b \<noteq> ?h ! i" using 1 assms(3) by (simp add: wal_record_def nth_append recHeaderLen_def)
    then have "(sub 0 4 ?h)[i := b] \<noteq> sub 0 4 ?h"
      using sub_update_neq [of 0 i 4 ?h b] 1 by (simp add: recHeaderLen_def)
    then have "get32 (sub 0 4 (?h[i := b])) \<noteq> recMagic"
      using 1 get32_inject [of "(sub 0 4 ?h)[i := b]" "put32 recMagic"]
      by (simp add: sub_list_update wal_header_fields)
    with r 1 show ?thesis by (simp add: wal_Next_def Let_def)
  next
    case 2
    then have r: "(wal_record tx p)[i := b] = ?h[4 := b] @ p"
      by (simp add: wal_record_def list_update_append recHeaderLen_def)
    have "b \<noteq> recVersion"
      using 2 assms(3) wal_header_fields(2) [of tx p]
      by (simp add: wal_record_def nth_append recHeaderLen_def)
    with r 2 show ?thesis
      by (simp add: wal_Next_def Let_def sub_list_update wal_header_fields recHeaderLen_def)
  next
    case 3
    then have r: "(wal_record tx p)[i := b] = ?h[i := b] @ p"
      by (simp add: wal_record_def list_update_append recHeaderLen_def)
    have nb: "b \<noteq> put64 tx ! (i - 8)"
    proof -
      have "put64 tx ! (i - 8) = sub 8 8 ?h ! (i - 8)" by (simp add: wal_header_fields)
      also have "\<dots> = ?h ! i" using 3 by (simp add: sub_def recHeaderLen_def)
      finally show ?thesis using 3 assms(3) by (simp add: wal_record_def nth_append recHeaderLen_def)
    qed
    have eq: "(put64 tx @ ?n)[i - 8 := b] @ p = (put64 tx @ ?n @ p)[i - 8 := b]"
    proof -
      have "i - 8 < 8" using 3 by simp
      then show ?thesis by (simp add: list_update_append)
    qed
    have "crc_checksum ((put64 tx @ ?n)[i - 8 := b] @ p) \<noteq> crc_checksum (put64 tx @ ?n @ p)"
      unfolding eq by (rule crc_checksum_list_update) (use 3 nb in \<open>auto simp: nth_append\<close>)
    with r 3 assms(1) show ?thesis
      by (simp add: wal_Next_def Let_def sub_list_update wal_header_fields unat_record_len
          crc_checksum_append recHeaderLen_def)
  next
    case 4
    then have r: "(wal_record tx p)[i := b] = ?h[i := b] @ p"
      by (simp add: wal_record_def list_update_append recHeaderLen_def)
    have "b \<noteq> ?h ! i" using 4 assms(3) by (simp add: wal_record_def nth_append recHeaderLen_def)
    then have "(sub 20 4 ?h)[i - 20 := b] \<noteq> sub 20 4 ?h"
      using sub_update_neq [of 20 i 4 ?h b] 4 by (simp add: recHeaderLen_def)
    then have "get32 (sub 20 4 (?h[i := b])) \<noteq> crc_checksum (put64 tx @ ?n @ p)"
      using 4 get32_inject [of "(sub 20 4 ?h)[i - 20 := b]" "sub 20 4 ?h"]
      by (simp add: sub_list_update wal_header_fields recHeaderLen_def)
    with r 4 assms(1) show ?thesis
      by (simp add: wal_Next_def Let_def sub_list_update wal_header_fields unat_record_len
          crc_checksum_append recHeaderLen_def)
  next
    case 5
    then have r: "(wal_record tx p)[i := b] = ?h @ p[i - 24 := b]"
      by (simp add: wal_record_def list_update_append recHeaderLen_def)
    have "i - 24 < length p" "p ! (i - 24) \<noteq> b"
      using 5 assms(2,3) by (auto simp: wal_record_def nth_append recHeaderLen_def)
    then have "crc_checksum ((put64 tx @ ?n @ p)[12 + (i - 24) := b]) \<noteq> crc_checksum (put64 tx @ ?n @ p)"
      by (intro crc_checksum_list_update) (auto simp: nth_append)
    then have "crc_checksum (put64 tx @ ?n @ p[i - 24 := b]) \<noteq> crc_checksum (put64 tx @ ?n @ p)"
      by (simp add: list_update_append)
    with r 5 assms(1) show ?thesis
      by (simp add: wal_Next_def Let_def wal_header_fields unat_record_len crc_checksum_append
          recHeaderLen_def)
  qed
qed

text \<open>The appends of a log's life without failures of the disk.\<close>

fun wal_AppendAll :: "bytes \<Rightarrow> (u64 \<times> bytes) list \<Rightarrow> bytes \<times> unit res" where
  "wal_AppendAll f [] = (f, Inr ())"
| "wal_AppendAll f ((tx, p) # rs) =
     (case wal_Append None f tx p of
        (f, Inl e) \<Rightarrow> (f, Inl e)
      | (f, Inr _) \<Rightarrow> wal_AppendAll f rs)"

lemma wal_AppendAll_log:
  "wal_AppendAll f rs =
     (if \<forall>r\<in>set rs. record_ok r then (f @ wal_log rs, Inr ())
      else (f @ wal_log (takeWhile record_ok rs), Inl ErrTooLarge))"
proof (induction f rs rule: wal_AppendAll.induct)
  case (1 f)
  then show ?case by simp
next
  case (2 f tx p rs)
  then show ?case by (cases "record_ok (tx, p)") (auto simp: wal_Append_def Let_def)
qed

text \<open>The first bytes of every record.\<close>

lemma wal_record_magic: "take 4 (wal_record tx p) = [0x4C, 0x41, 0x57, 0x5A]"
proof -
  have four: "(4::nat) = Suc (Suc (Suc (Suc 0)))" by simp
  have "take 4 (wal_record tx p) = sub 0 4 (wal_header tx p)"
    by (simp add: sub_def wal_record_def recHeaderLen_def)
  also have "\<dots> = le_bytes 4 0x5A57414C"
    by (simp add: wal_header_fields put32_def recMagic_def)
  also have "\<dots> = [0x4C, 0x41, 0x57, 0x5A]"
    unfolding four le_bytes.simps by simp
  finally show ?thesis .
qed

section \<open>Properties\<close>

text \<open>
  A log is read back record by record exactly as it was appended, up to its clean end.
\<close>

theorem wal_append_then_read:
  assumes "wal_AppendAll [] rs = (f, Inr ())"
  shows "wal_read f = (rs, length f, ErrEOF)"
  using assms wal_read_log [of rs] by (auto simp: wal_AppendAll_log split: if_splits)

theorem wal_append_then_read_witness:
  "wal_read (fst (wal_AppendAll [] [(1, [7, 7]), (2, [])])) =
     ([(1, [7, 7]), (2, [])], 50, ErrEOF)"
proof -
  have "wal_AppendAll [] [(1, [7, 7]), (2, [])] = (wal_log [(1, [7, 7]), (2, [])], Inr ())"
    by (simp add: wal_AppendAll_log MaxRecordLen_def push_bit_eq_mult)
  from wal_append_then_read [OF this] show ?thesis
    by (simp add: wal_AppendAll_log MaxRecordLen_def push_bit_eq_mult recHeaderLen_def)
qed

text \<open>
  C18: the torn tail. A log cut after any number of bytes, in a header or in a payload, is read as the
  longest run of whole records before the cut; the reader's offset is the length of exactly those
  records, and it reports the end of the log or a torn record, never a fatal error.
\<close>

theorem wal_torn_tail:
  assumes "\<forall>r\<in>set rs. length (snd r) \<le> MaxRecordLen"
  shows "\<exists>e. wal_read (take n (wal_log rs)) =
    (whole_records n rs, length (wal_log (whole_records n rs)), e) \<and> (e = ErrEOF \<or> e = ErrCorrupt)"
  by (rule wal_read_cut [OF assms])

theorem wal_torn_tail_witness:
  "\<exists>e. wal_read (take 40 (wal_log [(1, [7, 7]), (2, [5])])) = ([(1, [7, 7])], 26, e)"
  using wal_torn_tail [of "[(1, [7, 7]), (2, [5])]" 40]
  by (auto simp: MaxRecordLen_def push_bit_eq_mult recHeaderLen_def)

text \<open>
  One wrong byte in a record's magic, version, transaction id, checksum or payload ends the
  reading before that record: the records before it are returned, and it is not. For the version
  byte the reader's error is not the torn-record error but a fatal one.
\<close>

theorem wal_detects_byte:
  assumes "\<forall>r\<in>set rs. length (snd r) \<le> MaxRecordLen" "length p \<le> MaxRecordLen"
    "i < length (wal_record tx p)" "b \<noteq> wal_record tx p ! i" "i < 5 \<or> 8 \<le> i \<and> i < 16 \<or> 20 \<le> i"
  shows "wal_read (wal_log rs @ (wal_record tx p)[i := b] @ post) =
    (rs, length (wal_log rs), if i = 4 then ErrVersion b else ErrCorrupt)"
  using assms(1) wal_Next_corrupt [OF assms(2-5), of "wal_log rs" post] by (rule wal_read_then)

theorem wal_detects_byte_witness:
  "wal_read (wal_log [(1, [7])] @ (wal_record 2 [9])[24 := 8] @ wal_log [(3, [])]) =
     ([(1, [7])], 25, ErrCorrupt)"
proof -
  have "wal_record 2 [9] ! 24 = 9"
    by (simp add: wal_record_def nth_append recHeaderLen_def)
  then show ?thesis
    using wal_detects_byte [of "[(1, [7])]" "[9]" 24 2 8 "wal_log [(3, [])]"]
    by (simp add: MaxRecordLen_def push_bit_eq_mult recHeaderLen_def)
qed

text \<open>
  The checksum field of what lies at the start of \<open>r\<close>, taken as a record, against the bytes it would
  cover: the reader's last test.
\<close>

definition sum_matches :: "bytes \<Rightarrow> bool" where
  "sum_matches r \<longleftrightarrow>
     get32 (sub 20 4 r) = crc_checksum (sub 8 12 r @ take (unat (get32 (sub 16 4 r))) (drop recHeaderLen r))"

lemma wal_Next_fails:
  assumes "\<not> sum_matches (drop off f) \<or> get32 (sub 0 4 (drop off f)) \<noteq> recMagic \<or> drop off f ! 4 \<noteq> recVersion"
  shows "\<exists>e. wal_Next f off = Inl e"
proof -
  have field: "sub i n (take 24 r) = sub i n r" if "i + n \<le> 24" for i n and r :: bytes
    using that by (simp add: sub_def drop_take min_def)
  show ?thesis
    using assms by (auto simp: wal_Next_def Let_def sum_matches_def crc_checksum_append field recHeaderLen_def)
qed

text \<open>A record torn in its magic or right behind it, and whole records after it.\<close>

lemma wal_Next_torn_start:
  assumes "0 < n" "n \<le> 4"
  shows "\<exists>e. wal_Next (pre @ take n (wal_record tx p) @ wal_log later) (length pre) = Inl e"
proof -
  let ?m = "[0x4C, 0x41, 0x57, 0x5A] :: bytes"
  have "take n (wal_record tx p) = take n (take 4 (wal_record tx p))" using assms(2) by (simp add: min_def)
  then have torn: "take n (wal_record tx p) = take n ?m" unfolding wal_record_magic .
  show ?thesis
  proof (cases later)
    case Nil
    with assms(1,2) show ?thesis by (auto simp: wal_Next_def Let_def torn recHeaderLen_def)
  next
    case (Cons r later')
    obtain t q where "r = (t, q)" by (cases r)
    then have "wal_log later = wal_record t q @ wal_log later'" using Cons by simp
    then have "take 4 (wal_log later) = ?m" using wal_record_magic [of t q] by (simp add: recHeaderLen_def)
    then obtain xs where xs: "wal_log later = ?m @ xs" by (metis append_take_drop_id)
    define z where "z = take n ?m @ ?m"
    from assms(1,2) consider "n = 1" | "n = 2" | "n = 3" | "n = 4" by linarith
    then have "get32 (sub 0 4 z) \<noteq> recMagic \<or> z ! 4 \<noteq> recVersion" unfolding z_def
      by cases (simp_all add: sub_def get32_def recMagic_def recVersion_def)
    moreover have "5 \<le> length z" using assms by (simp add: z_def)
    ultimately have "get32 (sub 0 4 (z @ xs)) \<noteq> recMagic \<or> (z @ xs) ! 4 \<noteq> recVersion"
      by (simp add: sub_append_left nth_append)
    then have "\<exists>e. wal_Next (pre @ z @ xs) (length pre) = Inl e" by (intro wal_Next_fails) simp
    then show ?thesis unfolding torn xs z_def append_assoc .
  qed
qed

text \<open>
  C36: appending after a write that failed part-way. When a write of a record fails with some but not
  all of its bytes in the file and the sequencer goes on, every record appended and acknowledged
  afterwards is behind the torn one: the next reading of the log stops at the torn record, whichever
  records follow, and returns none of them. For a record torn behind its fifth byte or later, what
  follows could happen to complete it to a record with a matching checksum; the property is for the
  cases in which it does not.
\<close>

theorem wal_lost_after_short_write:
  assumes "\<forall>r\<in>set rs. length (snd r) \<le> MaxRecordLen" "0 < n" "n < length (wal_record tx p)"
    "wal_Append (Some n) (wal_log rs) tx p = (f, Inl ErrIO)" "wal_AppendAll f later = (g, Inr ())"
    "n \<le> 4 \<or> \<not> sum_matches (drop (length (wal_log rs)) g)"
  shows "\<exists>e. wal_read g = (rs, length (wal_log rs), e)"
proof -
  have g: "g = wal_log rs @ take n (wal_record tx p) @ wal_log later"
    using assms(4,5) by (auto simp: wal_Append_def Let_def wal_AppendAll_log split: if_splits)
  have "\<exists>e. wal_Next (wal_log rs @ take n (wal_record tx p) @ wal_log later) (length (wal_log rs)) = Inl e"
    using assms(6) wal_Next_torn_start [OF assms(2)] wal_Next_fails [of "length (wal_log rs)" g]
    unfolding g by blast
  with wal_read_then [OF assms(1)] g show ?thesis by blast
qed

text \<open>A record torn between its header and its payload, and one that is appended after it.\<close>

theorem wal_lost_after_short_write_witness:
  "\<exists>e. wal_read (fst (wal_AppendAll (fst (wal_Append (Some 24) (wal_log [(1, [7])]) 2 [8])) [(3, [9])]))
     = ([(1, [7])], 25, e)"
proof -
  have ok: "length [x] \<le> MaxRecordLen" for x :: byte by (simp add: MaxRecordLen_def push_bit_eq_mult)
  have f: "wal_Append (Some 24) (wal_log [(1, [7])]) 2 [8] = (wal_log [(1, [7])] @ wal_header 2 [8], Inl ErrIO)"
    using ok by (simp add: wal_Append_def Let_def wal_record_def recHeaderLen_def)
  let ?f = "wal_log [(1, [7])] @ wal_header 2 [8]"
  have g: "wal_AppendAll ?f [(3, [9])] = (?f @ wal_record 3 [9], Inr ())"
    using ok by (simp add: wal_AppendAll_log)
  have "take 4 (wal_record 3 [9]) = [0x4C, 0x41, 0x57, 0x5A]" by (rule wal_record_magic)
  then obtain xs where xs: "wal_record 3 [9] = 0x4C # xs" by (cases "wal_record 3 [9]") auto
  have one: "unat (word_of_nat 1 :: u32) = 1" by simp
  have "\<not> sum_matches (wal_header 2 [8] @ wal_record 3 [9])"
    using crc_update_one_byte [of "crc_checksum (put64 2 @ put32 1)" "[]" 8 "[]" "0x4C"]
    by (simp add: sum_matches_def sub_append_left recHeaderLen_def wal_header_fields xs crc_checksum_append)
  with wal_lost_after_short_write [OF _ _ _ f g] ok show ?thesis
    unfolding f fst_conv g by (simp add: recHeaderLen_def)
qed

end
