(* ===== verification/Merge.thy ===== *)
theory Merge
  imports Builder Wal "HOL-Library.AList"
begin

text \<open>
  The data half of \<^verbatim>\<open>internal/storage/checkpoint/checkpoint.go\<close>: the net deltas of a retired WAL and
  their merge with the base tree into a fresh one. The abstraction is the database as a map from keys
  to values, on which a WAL entry is an update; the lemmas show that parsing a log is applying its
  entries and that the merged tree holds the base with the deltas applied.
\<close>

section \<open>Deltas\<close>

record delta =
  dl_data :: bytes
  dl_deleted :: bool

text \<open>The Go map of deltas is an association list without duplicate keys.\<close>

type_synonym deltas = "(bytes \<times> delta) list"

definition get_delta :: "deltas \<Rightarrow> bytes \<Rightarrow> delta" where
  "get_delta ds k =
     (case map_of ds k of None \<Rightarrow> \<lparr>dl_data = [], dl_deleted = False\<rparr> | Some d \<Rightarrow> d)"

definition sub_delta :: "WALEntry \<Rightarrow> delta" where
  "sub_delta e =
     (if e_Op e = OpDelete \<or> e_Op e = OpDropClass then \<lparr>dl_data = [], dl_deleted = True\<rparr>
      else \<lparr>dl_data = e_Data e, dl_deleted = False\<rparr>)"

fun parse_records :: "codec \<Rightarrow> u64 \<Rightarrow> (u64 \<times> bytes) list \<Rightarrow> deltas \<times> u64 \<Rightarrow> (deltas \<times> u64) res" where
  "parse_records cd base [] acc = Inr acc"
| "parse_records cd base ((tx, p) # rs) (ds, lastApplied) =
     (let lastApplied = (if tx > lastApplied then tx else lastApplied) in
      if tx \<le> base then parse_records cd base rs (ds, lastApplied)
      else
        bindE (cd_unmarshal cd p) (\<lambda>e.
          parse_records cd base rs
            (fold (\<lambda>s m. AList.update (e_Key s) (sub_delta s) m) (e_Flatten e) ds, lastApplied)))"

text \<open>
  The loop over \<^verbatim>\<open>r.Next()\<close>: the records of the log and then its end, which must be clean or torn.
\<close>

definition parseWALDeltas :: "codec \<Rightarrow> bytes \<Rightarrow> u64 \<Rightarrow> (deltas \<times> bytes list \<times> u64) res" where
  "parseWALDeltas cd retired baseApplied =
     (let (rs, off, e) = wal_read retired in
      bindE (parse_records cd baseApplied rs ([], baseApplied)) (\<lambda>(ds, lastApplied).
        if e = ErrEOF \<or> e = ErrCorrupt then Inr (ds, sort (map fst ds), lastApplied) else Inl e))"

section \<open>Merging\<close>

text \<open>
  The loop of \<^verbatim>\<open>flushDeltasBefore\<close>, over the sorted keys from \<open>di\<close> on; it returns those that remain.
\<close>

fun flushDeltasBefore ::
  "'s page_store \<Rightarrow> deltas \<Rightarrow> bytes \<Rightarrow> 's builder \<Rightarrow> bytes list \<Rightarrow> ('s builder \<times> bytes list) res" where
  "flushDeltasBefore S ds key b [] = Inr (b, [])"
| "flushDeltasBefore S ds key b (dk # ks) =
     (if compareBytes dk key < 0 then
        let d = get_delta ds dk in
        if dl_deleted d then flushDeltasBefore S ds key b ks
        else bindE (builder_Add S b dk (dl_data d)) (\<lambda>b. flushDeltasBefore S ds key b ks)
      else Inr (b, dk # ks))"

text \<open>The visitor of the scan; its state is the builder, the keys from \<open>di\<close> on and \<^verbatim>\<open>scanErr\<close>.\<close>

type_synonym 's merge_state = "'s builder \<times> bytes list \<times> error option"

definition merge_visit :: "'s page_store \<Rightarrow> deltas \<Rightarrow> 's merge_state visitor" where
  "merge_visit S ds st key val =
     (let (b, ks, err) = st in
      case flushDeltasBefore S ds key b ks of
        Inl e \<Rightarrow> ((b, ks, Some e), False)
      | Inr (b, ks) \<Rightarrow>
          if ks \<noteq> [] \<and> hd ks = key then
            (let d = get_delta ds (hd ks) in
             if \<not> dl_deleted d then
               (case builder_Add S b key (dl_data d) of
                  Inl e \<Rightarrow> ((b, tl ks, Some e), False)
                | Inr b \<Rightarrow> ((b, tl ks, None), True))
             else ((b, tl ks, None), True))
          else
            (case builder_Add S b key val of
               Inl e \<Rightarrow> ((b, ks, Some e), False)
             | Inr b \<Rightarrow> ((b, ks, None), True)))"

fun merge_rest :: "'s page_store \<Rightarrow> deltas \<Rightarrow> 's builder \<Rightarrow> bytes list \<Rightarrow> 's builder res" where
  "merge_rest S ds b [] = Inr b"
| "merge_rest S ds b (dk # ks) =
     (let d = get_delta ds dk in
      if dl_deleted d then merge_rest S ds b ks
      else bindE (builder_Add S b dk (dl_data d)) (\<lambda>b. merge_rest S ds b ks))"

definition mergeBuild ::
  "nat \<Rightarrow> 's page_store \<Rightarrow> 's \<Rightarrow> page_source \<Rightarrow> u64 \<Rightarrow> deltas \<Rightarrow> bytes list \<Rightarrow> (u64 \<times> 's) res" where
  "mergeBuild fuel S s base baseRoot ds sortedKeys =
     bindE (btree_Scan fuel base baseRoot [] (merge_visit S ds) (builder_New s, sortedKeys, None))
       (\<lambda>(b, ks, err).
         case err of
           Some e \<Rightarrow> Inl e
         | None \<Rightarrow> bindE (merge_rest S ds b ks) (\<lambda>b. builder_Finish S b))"

section \<open>The database as a map\<close>

type_synonym db = "bytes \<rightharpoonup> bytes"

definition sub_apply :: "WALEntry \<Rightarrow> db \<Rightarrow> db" where
  "sub_apply e d =
     (if e_Op e = OpDelete \<or> e_Op e = OpDropClass then d(e_Key e := None)
      else d(e_Key e \<mapsto> e_Data e))"

definition entry_apply :: "WALEntry \<Rightarrow> db \<Rightarrow> db" where
  "entry_apply e d = fold sub_apply (e_Flatten e) d"

text \<open>The entries of the records above \<open>base\<close>.\<close>

fun entries_above :: "codec \<Rightarrow> u64 \<Rightarrow> (u64 \<times> bytes) list \<Rightarrow> WALEntry list res" where
  "entries_above cd base [] = Inr []"
| "entries_above cd base ((tx, p) # rs) =
     (if tx \<le> base then entries_above cd base rs
      else bindE (cd_unmarshal cd p) (\<lambda>e. bindE (entries_above cd base rs) (\<lambda>es. Inr (e # es))))"

text \<open>The database with the deltas on top.\<close>

definition with_deltas :: "deltas \<Rightarrow> db \<Rightarrow> db" where
  "with_deltas ds d =
     (\<lambda>k. case map_of ds k of
        None \<Rightarrow> d k
      | Some x \<Rightarrow> if dl_deleted x then None else Some (dl_data x))"

lemma with_deltas_update:
  "with_deltas (AList.update (e_Key e) (sub_delta e) ds) d = sub_apply e (with_deltas ds d)"
  by (rule ext) (simp add: with_deltas_def update_conv' sub_apply_def sub_delta_def)

lemma with_deltas_fold:
  "with_deltas (fold (\<lambda>s m. AList.update (e_Key s) (sub_delta s) m) es ds) d =
     fold sub_apply es (with_deltas ds d)"
  by (induction es arbitrary: ds) (simp_all add: with_deltas_update)

definition max_tx :: "u64 \<Rightarrow> (u64 \<times> bytes) list \<Rightarrow> u64" where
  "max_tx base rs = fold max (map fst rs) base"

lemma distinct_fold_update:
  "distinct (map fst ds) \<Longrightarrow>
   distinct (map fst (fold (\<lambda>s m. AList.update (e_Key s) (sub_delta s) m) es ds))"
  by (induction es arbitrary: ds) (simp_all add: distinct_update)

lemma parse_records_entries:
  assumes "entries_above cd base rs = Inr es" "distinct (map fst ds)"
  shows "\<exists>ds'. parse_records cd base rs (ds, lastApplied) = Inr (ds', max_tx lastApplied rs) \<and>
    distinct (map fst ds') \<and> (\<forall>d. with_deltas ds' d = fold entry_apply es (with_deltas ds d))"
  using assms
proof (induction rs arbitrary: ds lastApplied es)
  case Nil
  then show ?case by (simp add: max_tx_def)
next
  case (Cons r rs)
  obtain tx p where r: "r = (tx, p)" by (cases r)
  have mx: "max_tx (if tx > lastApplied then tx else lastApplied) rs = max_tx lastApplied (r # rs)"
    using r by (auto simp: max_tx_def max_def)
  show ?case
  proof (cases "tx \<le> base")
    case True
    with Cons.IH [of es ds "if tx > lastApplied then tx else lastApplied"] Cons.prems r mx
    show ?thesis by (simp add: Let_def)
  next
    case False
    with Cons.prems r obtain e es' where e: "cd_unmarshal cd p = Inr e"
      "entries_above cd base rs = Inr es'" "es = e # es'"
      by (auto simp: bindE_Inr_iff)
    let ?ds = "fold (\<lambda>s m. AList.update (e_Key s) (sub_delta s) m) (e_Flatten e) ds"
    from Cons.IH [OF e(2) distinct_fold_update [OF Cons.prems(2)], of "e_Flatten e"
        "if tx > lastApplied then tx else lastApplied"] e False r mx
    show ?thesis by (simp add: Let_def with_deltas_fold entry_apply_def)
  qed
qed

text \<open>A log whose end is clean or torn and whose entries decode is parsed to the entries' net effect.\<close>

lemma parseWALDeltas_entries:
  assumes "wal_read f = (rs, off, e)" "e = ErrEOF \<or> e = ErrCorrupt" "entries_above cd base rs = Inr es"
  shows "\<exists>ds. parseWALDeltas cd f base = Inr (ds, sort (map fst ds), max_tx base rs) \<and>
    distinct (map fst ds) \<and> (\<forall>d. with_deltas ds d = fold entry_apply es d)"
proof -
  from parse_records_entries [OF assms(3), of "[]" base] obtain ds where
    "parse_records cd base rs ([], base) = Inr (ds, max_tx base rs)" "distinct (map fst ds)"
    "\<forall>d. with_deltas ds d = fold entry_apply es d" by (auto simp: with_deltas_def)
  with assms(1,2) show ?thesis by (auto simp: parseWALDeltas_def)
qed

section \<open>The merged list\<close>

fun emit :: "deltas \<Rightarrow> bytes list \<Rightarrow> (bytes \<times> bytes) list" where
  "emit ds [] = []"
| "emit ds (k # ks) =
     (let d = get_delta ds k in if dl_deleted d then emit ds ks else (k, dl_data d) # emit ds ks)"

fun merge_list :: "deltas \<Rightarrow> bytes list \<Rightarrow> (bytes \<times> bytes) list \<Rightarrow> (bytes \<times> bytes) list" where
  "merge_list ds ks [] = emit ds ks"
| "merge_list ds ks ((k, v) # kvs) =
     (let before = takeWhile (\<lambda>x. x < k) ks; ks = dropWhile (\<lambda>x. x < k) ks in
      emit ds before @
      (if ks \<noteq> [] \<and> hd ks = k then emit ds [k] @ merge_list ds (tl ks) kvs
       else (k, v) # merge_list ds ks kvs))"

lemma builder_AddAll_append:
  "builder_AddAll S b (xs @ ys) = bindE (builder_AddAll S b xs) (\<lambda>b. builder_AddAll S b ys)"
  by (induction S b xs rule: builder_AddAll.induct) (simp_all add: bindE_def split: sum.splits)

lemma flushDeltasBefore_emit:
  "builder_AddAll S b (emit ds (takeWhile (\<lambda>x. x < key) ks)) = Inr b' \<Longrightarrow>
   flushDeltasBefore S ds key b ks = Inr (b', dropWhile (\<lambda>x. x < key) ks)"
  by (induction ks arbitrary: b) (auto simp: Let_def bindE_Inr_iff split: if_splits)

lemma merge_rest_emit: "merge_rest S ds b ks = builder_AddAll S b (emit ds ks)"
  by (induction ks arbitrary: b) (simp_all add: Let_def)

lemma merge_visit_list:
  assumes "builder_AddAll S b (merge_list ds ks kvs) = Inr b'"
  shows "\<exists>b1 ks1. visit (merge_visit S ds) kvs ((b, ks, None), False) = ((b1, ks1, None), False) \<and>
    merge_rest S ds b1 ks1 = Inr b'"
  using assms
proof (induction kvs arbitrary: b ks)
  case Nil
  then show ?case by (simp add: merge_rest_emit)
next
  case (Cons kv kvs)
  obtain k v where kv: "kv = (k, v)" by (cases kv)
  let ?ks = "dropWhile (\<lambda>x. x < k) ks"
  from Cons.prems kv obtain b1 where
    b1: "builder_AddAll S b (emit ds (takeWhile (\<lambda>x. x < k) ks)) = Inr b1" and
    rest: "builder_AddAll S b1 (if ?ks \<noteq> [] \<and> hd ?ks = k then emit ds [k] @ merge_list ds (tl ?ks) kvs
       else (k, v) # merge_list ds ?ks kvs) = Inr b'"
    by (auto simp: Let_def builder_AddAll_append bindE_Inr_iff)
  note flush = flushDeltasBefore_emit [OF b1]
  show ?case
  proof (cases "?ks \<noteq> [] \<and> hd ?ks = k")
    case True
    show ?thesis
    proof (cases "dl_deleted (get_delta ds k)")
      case del: True
      with rest True have "builder_AddAll S b1 (merge_list ds (tl ?ks) kvs) = Inr b'" by simp
      from Cons.IH [OF this] kv flush True del show ?thesis by (simp add: merge_visit_def Let_def)
    next
      case False
      with rest True obtain b2 where "builder_Add S b1 k (dl_data (get_delta ds k)) = Inr b2"
        "builder_AddAll S b2 (merge_list ds (tl ?ks) kvs) = Inr b'"
        by (auto simp: Let_def bindE_Inr_iff)
      with Cons.IH [OF this(2)] kv flush True False show ?thesis by (simp add: merge_visit_def Let_def)
    qed
  next
    case False
    with rest obtain b2 where "builder_Add S b1 k v = Inr b2"
      "builder_AddAll S b2 (merge_list ds ?ks kvs) = Inr b'"
      by (auto simp: bindE_Inr_iff split: if_splits)
    with Cons.IH [OF this(2)] kv flush False show ?thesis by (auto simp: merge_visit_def Let_def)
  qed
qed


lemma map_fst_emit: "map fst (emit ds ks) = filter (\<lambda>k. \<not> dl_deleted (get_delta ds k)) ks"
  by (induction ks) (simp_all add: Let_def)

lemma map_of_emit:
  "map_of (emit ds ks) k =
     (if k \<in> set ks \<and> \<not> dl_deleted (get_delta ds k) then Some (dl_data (get_delta ds k)) else None)"
  by (induction ks) (auto simp: Let_def)

lemma keys_emit: "fst ` set (emit ds ks) \<subseteq> set ks"
  using arg_cong [OF map_fst_emit [of ds ks], of set] by auto

lemma set_tl: "set (tl xs) \<subseteq> set xs"
  by (cases xs) auto

lemma keys_merge_list: "fst ` set (merge_list ds ks kvs) \<subseteq> set ks \<union> fst ` set kvs"
proof (induction kvs arbitrary: ks)
  case Nil
  then show ?case by (simp add: keys_emit)
next
  case (Cons kv kvs)
  obtain k v where kv: "kv = (k, v)" by (cases kv)
  define t d where td: "t = takeWhile (\<lambda>x. x < k) ks" "d = dropWhile (\<lambda>x. x < k) ks"
  have "ks = t @ d" by (simp add: td)
  then have sets: "set t \<subseteq> set ks" "set d \<subseteq> set ks" "set (tl d) \<subseteq> set ks" using set_tl [of d] by auto
  have hd: "d \<noteq> [] \<Longrightarrow> hd d \<in> set ks" using sets(2) by auto
  have eq: "merge_list ds ks (kv # kvs) = emit ds t @
      (if d \<noteq> [] \<and> hd d = k then emit ds [k] @ merge_list ds (tl d) kvs else kv # merge_list ds d kvs)"
    by (simp add: kv td Let_def)
  show ?case
    using keys_emit [of ds t] keys_emit [of ds "[k]"] Cons.IH [of "tl d"] Cons.IH [of d] sets hd
    unfolding eq by (auto simp del: emit.simps)
qed

lemma sorted_head_split:
  fixes k :: "'a::linorder"
  assumes "sorted_wrt (<) ks" "t = takeWhile (\<lambda>x. x < k) ks" "d = dropWhile (\<lambda>x. x < k) ks"
  shows "ks = t @ d" "\<forall>x\<in>set t. x < k" "\<forall>x\<in>set d. k \<le> x" "\<forall>x\<in>set (tl d). k < x"
    "d \<noteq> [] \<and> hd d = k \<longleftrightarrow> k \<in> set ks"
    "sorted_wrt (<) t" "sorted_wrt (<) d" "sorted_wrt (<) (tl d)"
proof -
  show eq: "ks = t @ d" by (simp add: assms(2,3))
  show t: "\<forall>x\<in>set t. x < k" using assms(2) by (auto dest: set_takeWhileD)
  show "sorted_wrt (<) t" and sd: "sorted_wrt (<) d"
    using assms(1) unfolding eq sorted_wrt_append by blast+
  have hd: "d \<noteq> [] \<Longrightarrow> k \<le> hd d" using hd_dropWhile [of "\<lambda>x. x < k" ks] assms(3) by simp
  show ge: "\<forall>x\<in>set d. k \<le> x" using sd hd by (cases d) (auto intro: order_trans less_imp_le)
  show "sorted_wrt (<) (tl d)" using sd by (cases d) simp_all
  show gt: "\<forall>x\<in>set (tl d). k < x" using sd hd by (cases d) (auto intro: le_less_trans)
  show "d \<noteq> [] \<and> hd d = k \<longleftrightarrow> k \<in> set ks"
    unfolding eq using t gt by (cases d) auto
qed

lemma merge_list_correct:
  assumes "sorted_wrt (<) ks" "sorted_wrt (<) (map fst kvs)"
  shows "sorted_wrt (<) (map fst (merge_list ds ks kvs)) \<and>
    map_of (merge_list ds ks kvs) x =
      (if x \<in> set ks
       then if dl_deleted (get_delta ds x) then None else Some (dl_data (get_delta ds x))
       else map_of kvs x)"
  using assms
proof (induction kvs arbitrary: ks)
  case Nil
  then show ?case by (simp add: map_fst_emit map_of_emit sorted_wrt_filter)
next
  case (Cons kv kvs)
  obtain k v where kv: "kv = (k, v)" by (cases kv)
  define t d where td: "t = takeWhile (\<lambda>x. x < k) ks" "d = dropWhile (\<lambda>x. x < k) ks"
  note h = sorted_head_split [OF Cons.prems(1) td]
  have above: "\<forall>y\<in>fst ` set kvs. k < y" and skvs: "sorted_wrt (<) (map fst kvs)"
    using Cons.prems(2) kv by auto
  have st: "sorted_wrt (<) (map fst (emit ds t))" by (simp add: map_fst_emit sorted_wrt_filter h(6))
  have kt: "\<forall>y\<in>fst ` set (emit ds t). y < k" using keys_emit [of ds t] h(2) by blast
  have x_t: "x \<in> set t \<Longrightarrow> x < k" using h(2) by simp
  have x_kvs: "map_of kvs k = None" using above by (auto simp: map_of_eq_None_iff)
  show ?case
  proof (cases "k \<in> set ks")
    case True
    then have hdk: "d \<noteq> []" "hd d = k" using h(5) by blast+
    then have d: "set d = insert k (set (tl d))" by (cases d) auto
    note IH = Cons.IH [OF h(8) skvs]
    have km: "\<forall>y\<in>fst ` set (merge_list ds (tl d) kvs). k < y"
      using keys_merge_list [of ds "tl d" kvs] h(4) above by blast
    have eq: "merge_list ds ks (kv # kvs) = emit ds t @ emit ds [k] @ merge_list ds (tl d) kvs"
      using kv hdk by (simp add: Let_def td)
    have "\<forall>a\<in>fst ` set (emit ds t). \<forall>b\<in>fst ` set (merge_list ds (tl d) kvs). a < b"
      using kt km by (meson less_trans)
    then have "sorted_wrt (<) (map fst (merge_list ds ks (kv # kvs)))"
      unfolding eq using st IH km kt by (auto simp: sorted_wrt_append Let_def)
    moreover have "x \<in> set ks \<longleftrightarrow> x \<in> set t \<or> x = k \<or> x \<in> set (tl d)" unfolding h(1) using d by auto
    moreover have "x \<in> set (tl d) \<Longrightarrow> k < x" using h(4) by simp
    moreover have "x \<in> set t \<Longrightarrow> map_of (merge_list ds (tl d) kvs) x = None"
      using x_t km by (auto simp: map_of_eq_None_iff dest: less_asym)
    moreover have "map_of (merge_list ds ks (kv # kvs)) x =
        (case map_of (emit ds t) x of Some y \<Rightarrow> Some y
         | None \<Rightarrow> (case map_of (emit ds [k]) x of Some y \<Rightarrow> Some y
           | None \<Rightarrow> map_of (merge_list ds (tl d) kvs) x))"
      unfolding eq by (simp add: map_add_def del: emit.simps)
    moreover have "map_of (merge_list ds (tl d) kvs) k = None"
      using km by (auto simp: map_of_eq_None_iff)
    ultimately show ?thesis
      using IH x_t kv by (auto simp: map_of_emit simp del: emit.simps merge_list.simps split: option.splits)
  next
    case False
    then have nhd: "\<not> (d \<noteq> [] \<and> hd d = k)" using h(5) by blast
    note IH = Cons.IH [OF h(7) skvs]
    have dk: "\<forall>y\<in>set d. k < y" using h(1,3) False by (auto simp: le_less)
    have km: "\<forall>y\<in>fst ` set (merge_list ds d kvs). k < y"
      using keys_merge_list [of ds d kvs] dk above by blast
    have eq: "merge_list ds ks (kv # kvs) = emit ds t @ (k, v) # merge_list ds d kvs"
      using kv nhd by (auto simp: Let_def td)
    have "\<forall>a\<in>fst ` set (emit ds t). \<forall>b\<in>fst ` set (merge_list ds d kvs). a < b"
      using kt km by (meson less_trans)
    then have "sorted_wrt (<) (map fst (merge_list ds ks (kv # kvs)))"
      unfolding eq using st IH km kt by (auto simp: sorted_wrt_append)
    moreover have "x \<in> set ks \<longleftrightarrow> x \<in> set t \<or> x \<in> set d" unfolding h(1) by auto
    moreover have "x \<in> set d \<Longrightarrow> k < x" using dk by simp
    moreover have "x \<in> set t \<Longrightarrow> map_of (merge_list ds d kvs) x = None"
      using x_t km by (auto simp: map_of_eq_None_iff dest: less_asym)
    moreover have "map_of (merge_list ds ks (kv # kvs)) x =
        (case map_of (emit ds t) x of Some y \<Rightarrow> Some y
         | None \<Rightarrow> if x = k then Some v else map_of (merge_list ds d kvs) x)"
      unfolding eq by (auto simp: map_add_def split: option.splits)
    ultimately show ?thesis
      using IH x_t kv False by (auto simp: map_of_emit simp del: merge_list.simps split: option.splits)
  qed
qed

text \<open>Merging the sorted keys of the deltas into sorted base contents is applying the deltas.\<close>

lemma merge_list_deltas:
  assumes "distinct (map fst ds)" "sorted_wrt (<) (map fst kvs)"
  shows "sorted_wrt (<) (map fst (merge_list ds (sort (map fst ds)) kvs))"
    "map_of (merge_list ds (sort (map fst ds)) kvs) = with_deltas ds (map_of kvs)"
proof -
  have ks: "sorted_wrt (<) (sort (map fst ds))"
    using assms(1) by (simp add: strict_sorted_iff)
  show "sorted_wrt (<) (map fst (merge_list ds (sort (map fst ds)) kvs))"
    using merge_list_correct [OF ks assms(2)] by blast
  show "map_of (merge_list ds (sort (map fst ds)) kvs) = with_deltas ds (map_of kvs)"
  proof
    fix x
    show "map_of (merge_list ds (sort (map fst ds)) kvs) x = with_deltas ds (map_of kvs) x"
    proof (cases "map_of ds x")
      case None
      then have "x \<notin> set (sort (map fst ds))" by (simp add: map_of_eq_None_iff)
      with None show ?thesis using merge_list_correct [OF ks assms(2)] by (simp add: with_deltas_def)
    next
      case (Some d)
      then have "x \<in> set (sort (map fst ds))" by (metis fst_conv image_eqI list.set_map map_of_SomeD set_sort)
      with Some show ?thesis
        using merge_list_correct [OF ks assms(2)] by (simp add: with_deltas_def get_delta_def)
    qed
  qed
qed

text \<open>Two sorted lists with one map are the same list.\<close>

lemma sorted_map_of_unique:
  fixes xs ys :: "('a::linorder \<times> 'b) list"
  assumes "sorted_wrt (<) (map fst xs)" "sorted_wrt (<) (map fst ys)" "map_of xs = map_of ys"
  shows "xs = ys"
proof -
  have dist: "distinct (map fst xs)" "distinct (map fst ys)"
    using assms(1,2) by (simp_all add: strict_sorted_iff)
  then have sets: "set xs = set ys"
    using assms(3) by (metis map_of_inject_set)
  then have "map fst xs = map fst ys"
    using strict_sorted_equal [OF assms(2,1)] by simp
  moreover have "inj_on fst (set xs \<union> set ys)" using dist sets by (simp add: distinct_map)
  ultimately show ?thesis by (rule map_inj_on)
qed


context page_store_laws
begin

text \<open>The merge of a base tree with deltas is a tree of the merged contents in the new store.\<close>

lemma mergeBuild_law:
  assumes "inv s" "tree_of base D h baseRoot kvs" "enough_fuel fuel h kvs" "distinct (map fst ds)"
    "ms = merge_list ds (sort (map fst ds)) kvs"
    "used s + load_pages ms + 2 * length ms < cap" "\<forall>kv\<in>set ms. length (fst kv) \<le> maxKeyLen"
  shows "\<exists>root s' h'. mergeBuild fuel S s base baseRoot ds (sort (map fst ds)) = Inr (root, s') \<and>
    inv s' \<and> used s \<le> used s' \<and> used s' \<le> Suc (used s + load_pages ms + 2 * length ms) \<and>
    h' \<le> length ms \<and> keeps_reads (st_ReadPage S s) (st_ReadPage S s') (ids_below (used s)) \<and>
    tree_of (st_ReadPage S s') (ids_below (used s')) h' root ms"
proof -
  have "sorted_wrt (<) (map fst kvs)" using assms(2) by (simp add: tree_of_def)
  then have sorted: "sorted_wrt (<) (map fst ms)" using merge_list_deltas(1) assms(4,5) by simp
  from build_law [OF assms(1,6) sorted assms(7)] obtain b root s' h' where
    b: "builder_AddAll S (builder_New s) ms = Inr b" "builder_Finish S b = Inr (root, s')" and
    r: "inv s'" "used s \<le> used s'" "used s' \<le> Suc (used s + load_pages ms + 2 * length ms)"
      "h' \<le> length ms" "keeps_reads (st_ReadPage S s) (st_ReadPage S s') (ids_below (used s))"
      "tree_of (st_ReadPage S s') (ids_below (used s')) h' root ms" by blast
  from merge_visit_list [OF b(1) [unfolded assms(5)]] obtain b1 ks1 where
    v: "visit (merge_visit S ds) kvs ((builder_New s, sort (map fst ds), None), False) = ((b1, ks1, None), False)"
      "merge_rest S ds b1 ks1 = Inr b" by blast
  have "with_prefix [] kvs = kvs" by (simp add: has_prefix_def)
  with v(1) have "btree_Scan fuel base baseRoot [] (merge_visit S ds) (builder_New s, sort (map fst ds), None) =
      Inr (b1, ks1, None)"
    by (simp add: btree_Scan_correct [OF assms(2,3)])
  then have "mergeBuild fuel S s base baseRoot ds (sort (map fst ds)) = Inr (root, s')"
    by (simp add: mergeBuild_def v(2) b(2))
  with r show ?thesis by blast
qed

end

section \<open>Properties\<close>

text \<open>
  C14: what a checkpoint puts in the new generation. Merging the deltas of a log into the tree of the
  base generation gives a tree in which every key has the value that the base, updated by the log's
  entries in order, gives it: later entries win over earlier ones, deletions remove keys, and keys
  that the log does not name keep their value. The scan never meets an error.
\<close>

theorem mergeBuild_applies_log:
  assumes "parseWALDeltas cd f base = Inr (ds, ks, lastApplied)"
    "wal_read f = (rs, off, e)" "entries_above cd base rs = Inr es"
    "tree_of src D h root kvs" "enough_fuel fuel h kvs" "mgr_inv m" "ms = merge_list ds ks kvs"
    "unat (mgr_numPages m) + load_pages ms + 2 * length ms < mgr_cap"
    "\<forall>kv\<in>set ms. length (fst kv) \<le> maxKeyLen" "enough_fuel fuel (length ms) ms"
  shows "\<exists>root' m'. mergeBuild fuel mgr_store m src root ds ks = Inr (root', m') \<and>
    (\<forall>key. btree_Get fuel (mgr_ReadPage m') root' key = Inr (fold entry_apply es (map_of kvs) key))"
proof -
  have "e = ErrEOF \<or> e = ErrCorrupt"
    using assms(1,2) by (auto simp: parseWALDeltas_def bindE_Inr_iff split: if_splits)
  from parseWALDeltas_entries [OF assms(2) this assms(3)] assms(1) have
    ds: "distinct (map fst ds)" "\<And>d. with_deltas ds d = fold entry_apply es d" "ks = sort (map fst ds)"
    by auto
  have sorted: "sorted_wrt (<) (map fst kvs)" using assms(4) by (simp add: tree_of_def)
  from mgr.mergeBuild_law [OF assms(6,4,5) ds(1) _ assms(8,9)] ds(3) assms(7) obtain root' m' h' where
    r: "mergeBuild fuel mgr_store m src root ds ks = Inr (root', m')" "h' \<le> length ms"
      "tree_of (mgr_ReadPage m') (ids_below (unat (mgr_numPages m'))) h' root' ms"
    by (auto simp: mgr_store_def)
  have "map_of ms = fold entry_apply es (map_of kvs)"
    using merge_list_deltas(2) [OF ds(1) sorted] ds(2,3) assms(7) by simp
  moreover have "enough_fuel fuel h' ms" using r(2) assms(10) by (simp add: enough_fuel_def)
  ultimately show ?thesis using r(1) btree_Get_correct [OF r(3)] by auto
qed

text \<open>A codec for the instance below: one entry and its encoding.\<close>

definition one_codec :: "WALEntry \<Rightarrow> codec" where
  "one_codec e = \<lparr>cd_marshal = (\<lambda>x. if x = e then Inr [1] else Inl ErrMarshal),
     cd_unmarshal = (\<lambda>p. if p = [1] then Inr e else Inl ErrUnmarshal)\<rparr>"

theorem mergeBuild_applies_log_witness:
  "\<exists>root' m'. mergeBuild 9 mgr_store \<lparr>mgr_f = [], mgr_numPages = 1\<rparr> (leaf_source sample_entries) 5
     [(ObjectKey [] [0x61] 1, \<lparr>dl_data = [3], dl_deleted = False\<rparr>)] [ObjectKey [] [0x61] 1] = Inr (root', m') \<and>
   btree_Get 9 (mgr_ReadPage m') root' (ObjectKey [] [0x61] 1) = Inr (Some [3]) \<and>
   btree_Get 9 (mgr_ReadPage m') root' [1] = Inr (Some [9])"
proof -
  let ?e = "WALEntry OpPut [] [0x61] 1 [3] 0 []" and ?k = "ObjectKey [] [0x61] 1"
  let ?cd = "one_codec ?e" and ?f = "wal_log [(7, [1])]"
  let ?ds = "[(?k, \<lparr>dl_data = [3], dl_deleted = False\<rparr>)]" and ?kvs = "[([1], [9]), ([1, 0], [])]"
  have read: "wal_read ?f = ([(7, [1])], length ?f, ErrEOF)"
    by (rule wal_read_log) (simp add: MaxRecordLen_def push_bit_eq_mult)
  have parse: "parseWALDeltas ?cd ?f 0 = Inr (?ds, [?k], 7)"
    unfolding parseWALDeltas_def read
    by (simp add: one_codec_def e_Key_def e_Flatten_def sub_delta_def op_defs)
  have es: "entries_above ?cd 0 [(7, [1])] = Inr [?e]" by (simp add: one_codec_def)
  have ms: "merge_list ?ds [?k] ?kvs = [([1], [9]), ([1, 0], []), (?k, [3])]"
    by (simp add: Let_def ObjectKey_def key_bytes get_delta_def)
  have app: "fold entry_apply [?e] (map_of ?kvs) = (map_of ?kvs)(?k \<mapsto> [3])"
    by (simp add: entry_apply_def e_Flatten_def e_Key_def sub_apply_def op_defs)
  have "length ?k = 11" "?k \<noteq> [1]" by (simp_all add: ObjectKey_def scope_def)
  then show ?thesis
    using mergeBuild_applies_log [OF parse read es sample_tree, of 9 "\<lparr>mgr_f = [], mgr_numPages = 1\<rparr>",
        OF _ _ refl] unfolding ms app
    by (auto simp: enough_fuel_def mgr_inv_def mgr_cap_def maxKeyLen_def)
qed

end
