(* ===== verification/Mvcc.thy ===== *)
theory Mvcc
  imports TreeRead Pager
begin

text \<open>
  \<^verbatim>\<open>internal/storage/mvcc/snapshot.go\<close>. The first part is the read path: a snapshot is the bytes
  of a mapped data file and the root its meta page names; the lemmas show that it reads what the page
  manager reads. The second part is the concurrent life of snapshots, one atomic operation of
  \<^verbatim>\<open>Acquire\<close>, \<^verbatim>\<open>Release\<close> and \<^verbatim>\<open>SwapTo\<close> per step of a step relation over any number of
  readers and the one goroutine that checkpoints: what it guarantees and what it does not.
\<close>

section \<open>Reading a snapshot\<close>

record snapshot =
  sn_data :: bytes
  sn_root :: u64

text \<open>
  The bounds check adds in \<^verbatim>\<open>int64\<close>, where \<^verbatim>\<open>off+page.PageSize\<close> may wrap; slicing with an upper
  bound below the lower one panics.
\<close>

definition snap_ReadPage :: "bytes \<Rightarrow> page_source" where
  "snap_ReadPage data pid =
     (let off = pid * word_of_nat PageSize; hi = off + word_of_nat PageSize in
      if sint off < 0 \<or> sint hi > int (length data) then Inl (ErrPageRange pid)
      else if sint hi < sint off then Inl Panic
      else
        bindE (page_From (sub (nat (sint off)) PageSize data)) (\<lambda>p.
        bindE (page_Verify p) (\<lambda>_. Inr p)))"

definition openSnapshot :: "bytes \<Rightarrow> snapshot res" where
  "openSnapshot data =
     bindE (snap_ReadPage data MetaPageID) (\<lambda>p.
     bindE (decodeMeta p) (\<lambda>m. Inr \<lparr>sn_data = data, sn_root = meta_Root m\<rparr>))"

definition snap_Get :: "nat \<Rightarrow> snapshot \<Rightarrow> bytes \<Rightarrow> bytes option res" where
  "snap_Get fuel s key = btree_Get fuel (snap_ReadPage (sn_data s)) (sn_root s) key"

definition snap_Scan :: "nat \<Rightarrow> snapshot \<Rightarrow> bytes \<Rightarrow> 'a visitor \<Rightarrow> 'a \<Rightarrow> 'a res" where
  "snap_Scan fuel s prefix fn st = btree_Scan fuel (snap_ReadPage (sn_data s)) (sn_root s) prefix fn st"

lemma sint_page_end:
  assumes "unat (pid :: u64) + 1 < mgr_cap" "k = unat pid * PageSize + PageSize"
  shows "sint (pid * word_of_nat PageSize + word_of_nat PageSize) = int k"
proof -
  have eq: "pid * word_of_nat PageSize + word_of_nat PageSize = word_of_nat k"
    by (simp add: assms(2))
  have "k < 2 ^ 63"
    using assms by (simp add: mgr_cap_def fit_simps)
  then show ?thesis unfolding eq by (rule sint_word_of_nat)
qed

lemma snap_ReadPage_mgr:
  assumes "unat pid + 1 < mgr_cap"
  shows "snap_ReadPage (mgr_f m) pid = Inr p \<longleftrightarrow> mgr_ReadPage m pid = Inr p"
proof -
  define k where "k = unat pid * PageSize"
  have off: "sint (pid * word_of_nat PageSize) = int k"
    using page_offset_small [of pid "unat pid" k] assms by (simp add: page_offset_def k_def)
  have hi: "sint (pid * word_of_nat PageSize + word_of_nat PageSize) = int (k + PageSize)"
    by (rule sint_page_end [OF assms]) (simp add: k_def)
  have cap: "unat pid < mgr_cap" using assms by simp
  show ?thesis
    unfolding snap_ReadPage_def Let_def off hi mgr_ReadPage_iff [OF refl cap k_def]
    by (cases p) (auto simp: page_From_def bindE_Inr_iff)
qed

lemma openSnapshot_mgr:
  assumes "mgr_ReadMeta m = Inr mt"
  shows "openSnapshot (mgr_f m) = Inr \<lparr>sn_data = mgr_f m, sn_root = meta_Root mt\<rparr>"
proof -
  obtain p where p: "mgr_ReadPage m MetaPageID = Inr p" "decodeMeta p = Inr mt"
    using assms by (auto simp: mgr_ReadMeta_def bindE_Inr_iff split: if_splits)
  have "unat MetaPageID + 1 < mgr_cap" by (simp add: MetaPageID_def mgr_cap_def)
  with p have "snap_ReadPage (mgr_f m) MetaPageID = Inr p" by (simp only: snap_ReadPage_mgr)
  with p show ?thesis by (simp add: openSnapshot_def)
qed

lemma snap_keeps_reads: "n < mgr_cap \<Longrightarrow> keeps_reads (mgr_ReadPage m) (snap_ReadPage (mgr_f m)) (ids_below n)"
  unfolding keeps_reads_def using snap_ReadPage_mgr by auto

lemma tree_of_snap:
  assumes "tree_of (mgr_ReadPage m) (ids_below n) h root kvs" "n < mgr_cap"
  shows "tree_of (snap_ReadPage (mgr_f m)) (ids_below n) h root kvs"
  by (rule tree_of_keep [OF assms(1) snap_keeps_reads [OF assms(2)]]) simp

section \<open>The life of snapshots\<close>

text \<open>
  A snapshot is a number. Of the shared memory there is the current snapshot, and for each its
  reference count, its retired flag and whether it has been unmapped. A reader is between two of its
  atomic operations: it has loaded \<^verbatim>\<open>current\<close>, has added its reference, holds the snapshot
  (where it reads the mapping), is about to drop its reference, or has seen its own decrement reach
  zero and is about to look at the retired flag. The swapper has swapped \<^verbatim>\<open>current\<close> or has also
  set the retired flag of the old snapshot.
\<close>

datatype reader = RIdle | RLoaded nat | RAdded nat | RHolds nat | RDropping nat | RZero nat

datatype swapper = SIdle | SSwapped nat | SRetired nat

record mapped =
  mf_current :: nat
  mf_fresh :: nat
  mf_refs :: "nat \<Rightarrow> int"
  mf_retired :: "nat \<Rightarrow> bool"
  mf_unmapped :: "nat \<Rightarrow> bool"
  mf_reader :: "nat \<Rightarrow> reader"
  mf_swapper :: swapper

definition mf_Open :: mapped where
  "mf_Open = \<lparr>mf_current = 0, mf_fresh = 1, mf_refs = (\<lambda>_. 0), mf_retired = (\<lambda>_. False),
     mf_unmapped = (\<lambda>_. False), mf_reader = (\<lambda>_. RIdle), mf_swapper = SIdle\<rparr>"

definition goto :: "nat \<Rightarrow> reader \<Rightarrow> mapped \<Rightarrow> mapped" where
  "goto r pc m = m\<lparr>mf_reader := (mf_reader m)(r := pc)\<rparr>"

definition mf_unmap :: "nat \<Rightarrow> mapped \<Rightarrow> mapped" where
  "mf_unmap s m = m\<lparr>mf_unmapped := (mf_unmapped m)(s := True)\<rparr>"

definition add_ref :: "nat \<Rightarrow> mapped \<Rightarrow> mapped" where
  "add_ref s m = m\<lparr>mf_refs := (mf_refs m)(s := mf_refs m s + 1)\<rparr>"

definition del_ref :: "nat \<Rightarrow> mapped \<Rightarrow> mapped" where
  "del_ref s m = m\<lparr>mf_refs := (mf_refs m)(s := mf_refs m s - 1)\<rparr>"

lemmas mf_defs = goto_def mf_unmap_def add_ref_def del_ref_def

inductive mf_step :: "mapped \<Rightarrow> mapped \<Rightarrow> bool" where
  acquire_load: "mf_reader m r = RIdle \<Longrightarrow> mf_step m (goto r (RLoaded (mf_current m)) m)"
| acquire_add: "mf_reader m r = RLoaded s \<Longrightarrow> mf_step m (goto r (RAdded s) (add_ref s m))"
| acquire_check: "mf_reader m r = RAdded s \<Longrightarrow>
    mf_step m (goto r (if mf_current m = s then RHolds s else RDropping s) m)"
| release_call: "mf_reader m r = RHolds s \<Longrightarrow> mf_step m (goto r (RDropping s) m)"
| release_add: "mf_reader m r = RDropping s \<Longrightarrow>
    mf_step m (goto r (if mf_refs m s - 1 = 0 then RZero s else RIdle) (del_ref s m))"
| release_check: "mf_reader m r = RZero s \<Longrightarrow>
    mf_step m (goto r RIdle (if mf_retired m s then mf_unmap s m else m))"
| swap_current: "mf_swapper m = SIdle \<Longrightarrow>
    mf_step m (m\<lparr>mf_current := mf_fresh m, mf_fresh := mf_fresh m + 1, mf_swapper := SSwapped (mf_current m)\<rparr>)"
| swap_retire: "mf_swapper m = SSwapped s \<Longrightarrow>
    mf_step m (m\<lparr>mf_retired := (mf_retired m)(s := True), mf_swapper := SRetired s\<rparr>)"
| swap_check: "mf_swapper m = SRetired s \<Longrightarrow>
    mf_step m ((if mf_refs m s = 0 then mf_unmap s m else m)\<lparr>mf_swapper := SIdle\<rparr>)"

inductive mf_reachable :: "mapped \<Rightarrow> bool" where
  start: "mf_reachable mf_Open"
| step: "mf_reachable m \<Longrightarrow> mf_step m m' \<Longrightarrow> mf_reachable m'"

inductive_cases mf_stepE: "mf_step m m'"

text \<open>\<^verbatim>\<open>Close\<close> unmaps the current snapshot at once.\<close>

definition mf_Close :: "mapped \<Rightarrow> mapped" where
  "mf_Close m = mf_unmap (mf_current m) (m\<lparr>mf_retired := (mf_retired m)(mf_current m := True)\<rparr>)"

subsection \<open>Invariants\<close>

definition counted :: "nat \<Rightarrow> reader \<Rightarrow> bool" where
  "counted s pc \<longleftrightarrow> pc = RAdded s \<or> pc = RHolds s \<or> pc = RDropping s"

definition holders :: "mapped \<Rightarrow> nat \<Rightarrow> nat set" where
  "holders m s = {r. counted s (mf_reader m r)}"

text \<open>The reference count is the number of readers between their two additions.\<close>

definition refs_inv :: "mapped \<Rightarrow> bool" where
  "refs_inv m \<longleftrightarrow> (\<forall>s. finite (holders m s) \<and> mf_refs m s = int (card (holders m s)))"

lemma holders_goto:
  "holders (goto r pc m) s = (if counted s pc then insert r (holders m s) else holders m s - {r})"
  by (auto simp: holders_def goto_def)

lemma holders_simps [simp]:
  "holders (add_ref t m) s = holders m s"
  "holders (del_ref t m) s = holders m s"
  "holders (mf_unmap t m) s = holders m s"
  "mf_refs (goto r pc m) = mf_refs m"
  "mf_refs (mf_unmap t m) = mf_refs m"
  "mf_refs (add_ref t m) s = (if s = t then mf_refs m s + 1 else mf_refs m s)"
  "mf_refs (del_ref t m) s = (if s = t then mf_refs m s - 1 else mf_refs m s)"
  by (auto simp: holders_def mf_defs)

lemma in_holders: "r \<in> holders m s \<longleftrightarrow> counted s (mf_reader m r)"
  by (simp add: holders_def)

lemma refs_inv_step:
  assumes "refs_inv m" "mf_step m m'"
  shows "refs_inv m'"
proof -
  have fin: "finite (holders m s)" "mf_refs m s = int (card (holders m s))" for s
    using assms(1) by (simp_all add: refs_inv_def)
  have same: "holders (m\<lparr>mf_swapper := w\<rparr>) s = holders m s" for w s and m :: mapped
    by (simp add: holders_def)
  from assms(2) show ?thesis
  proof cases
    case (acquire_load r)
    then show ?thesis using fin
      by (auto simp: refs_inv_def holders_goto counted_def in_holders)
  next
    case (acquire_add r s)
    then have "r \<notin> holders m t" for t by (simp add: in_holders counted_def)
    with acquire_add fin show ?thesis
      by (auto simp: refs_inv_def holders_goto counted_def)
  next
    case (acquire_check r s)
    then have "r \<in> holders m t \<longleftrightarrow> t = s" for t by (auto simp: in_holders counted_def)
    with acquire_check fin show ?thesis
      by (auto simp: refs_inv_def holders_goto counted_def insert_absorb)
  next
    case (release_call r s)
    then have "r \<in> holders m t \<longleftrightarrow> t = s" for t by (auto simp: in_holders counted_def)
    with release_call fin show ?thesis
      by (auto simp: refs_inv_def holders_goto counted_def insert_absorb)
  next
    case (release_add r s)
    then have r: "r \<in> holders m t \<longleftrightarrow> t = s" for t by (auto simp: in_holders counted_def)
    then have "0 < card (holders m s)" using fin(1) [of s] by (metis card_gt_0_iff empty_iff)
    with r release_add fin show ?thesis
      by (auto simp: refs_inv_def holders_goto counted_def of_nat_diff)
  next
    case (release_check r s)
    then have "r \<notin> holders m t" for t by (simp add: in_holders counted_def)
    with release_check fin show ?thesis
      by (auto simp: refs_inv_def holders_goto counted_def)
  next
    case swap_current
    then show ?thesis using fin by (simp add: refs_inv_def holders_def)
  next
    case (swap_retire s)
    then show ?thesis using fin by (simp add: refs_inv_def holders_def)
  next
    case (swap_check s)
    then show ?thesis using fin by (simp add: refs_inv_def holders_def mf_unmap_def)
  qed
qed

text \<open>The current snapshot is not retired, and only retired snapshots are unmapped.\<close>

definition current_inv :: "mapped \<Rightarrow> bool" where
  "current_inv m \<longleftrightarrow>
     mf_current m < mf_fresh m \<and> \<not> mf_retired m (mf_current m) \<and>
     (\<forall>s. mf_retired m s \<longrightarrow> s < mf_fresh m) \<and> (\<forall>s. mf_unmapped m s \<longrightarrow> mf_retired m s) \<and>
     (case mf_swapper m of
        SIdle \<Rightarrow> True
      | SSwapped s \<Rightarrow> s < mf_fresh m \<and> s \<noteq> mf_current m
      | SRetired s \<Rightarrow> mf_retired m s)"

lemma current_inv_step: "current_inv m \<Longrightarrow> mf_step m m' \<Longrightarrow> current_inv m'"
  by (erule mf_stepE)
    (auto simp: current_inv_def mf_defs less_Suc_eq split: swapper.splits)

text \<open>A retired snapshot that nobody is about to unmap is in use or unmapped.\<close>

definition leak_inv :: "mapped \<Rightarrow> bool" where
  "leak_inv m \<longleftrightarrow>
     (\<forall>s. mf_retired m s \<longrightarrow> mf_unmapped m s \<or> mf_swapper m = SRetired s \<or> 0 < mf_refs m s \<or>
       (\<exists>r. mf_reader m r = RZero s))"

lemma leak_inv_step:
  assumes "leak_inv m" "mf_step m m'" "refs_inv m"
  shows "leak_inv m'"
  unfolding leak_inv_def
proof (intro allI impI)
  fix s
  assume ret: "mf_retired m' s"
  show "mf_unmapped m' s \<or> mf_swapper m' = SRetired s \<or> 0 < mf_refs m' s \<or> (\<exists>r. mf_reader m' r = RZero s)"
  proof (cases "mf_retired m s")
    case False
    with assms(2) ret show ?thesis by cases (auto simp: mf_defs split: if_splits)
  next
    case True
    with assms(1) consider "mf_unmapped m s" | "mf_swapper m = SRetired s" | "0 < mf_refs m s"
      | r where "mf_reader m r = RZero s"
      by (auto simp: leak_inv_def)
    then show ?thesis
    proof cases
      case 1
      with assms(2) show ?thesis by cases (auto simp: mf_defs)
    next
      case 2
      have ge: "0 \<le> mf_refs m s" using assms(3) by (simp add: refs_inv_def)
      from assms(2) 2 ge show ?thesis by cases (auto simp: mf_defs)
    next
      case 3
      with assms(2) show ?thesis by cases (auto simp: mf_defs)
    next
      case (4 r)
      from assms(2) 4 True have "mf_unmapped m' s \<or> mf_reader m' r = RZero s"
        by cases (auto simp: mf_defs split: if_splits)
      then show ?thesis by blast
    qed
  qed
qed

lemma reachable_inv: "mf_reachable m \<Longrightarrow> refs_inv m \<and> current_inv m \<and> leak_inv m"
proof (induction rule: mf_reachable.induct)
  case start
  show ?case
    by (simp add: mf_Open_def refs_inv_def current_inv_def leak_inv_def holders_def counted_def)
next
  case (step m m')
  then show ?case using refs_inv_step current_inv_step leak_inv_step by meson
qed


text \<open>Every agent has one next step, so a schedule (a reader's number, or none for the swapper) is a run.\<close>

definition reader_next :: "nat \<Rightarrow> mapped \<Rightarrow> mapped" where
  "reader_next r m =
     (case mf_reader m r of
        RIdle \<Rightarrow> goto r (RLoaded (mf_current m)) m
      | RLoaded s \<Rightarrow> goto r (RAdded s) (add_ref s m)
      | RAdded s \<Rightarrow> goto r (if mf_current m = s then RHolds s else RDropping s) m
      | RHolds s \<Rightarrow> goto r (RDropping s) m
      | RDropping s \<Rightarrow> goto r (if mf_refs m s - 1 = 0 then RZero s else RIdle) (del_ref s m)
      | RZero s \<Rightarrow> goto r RIdle (if mf_retired m s then mf_unmap s m else m))"

definition swapper_next :: "mapped \<Rightarrow> mapped" where
  "swapper_next m =
     (case mf_swapper m of
        SIdle \<Rightarrow> m\<lparr>mf_current := mf_fresh m, mf_fresh := mf_fresh m + 1,
                   mf_swapper := SSwapped (mf_current m)\<rparr>
      | SSwapped s \<Rightarrow> m\<lparr>mf_retired := (mf_retired m)(s := True), mf_swapper := SRetired s\<rparr>
      | SRetired s \<Rightarrow> (if mf_refs m s = 0 then mf_unmap s m else m)\<lparr>mf_swapper := SIdle\<rparr>)"

fun mf_run :: "nat option list \<Rightarrow> mapped \<Rightarrow> mapped" where
  "mf_run [] m = m"
| "mf_run (Some r # xs) m = mf_run xs (reader_next r m)"
| "mf_run (None # xs) m = mf_run xs (swapper_next m)"

lemma mf_step_reader_next: "mf_step m (reader_next r m)"
proof (cases "mf_reader m r")
  case (RAdded s)
  from acquire_check [OF this] RAdded show ?thesis by (simp only: reader_next_def reader.case)
next
  case (RDropping s)
  from release_add [OF this] RDropping show ?thesis by (simp only: reader_next_def reader.case)
next
  case (RZero s)
  from release_check [OF this] RZero show ?thesis by (simp only: reader_next_def reader.case)
qed (simp_all add: reader_next_def mf_step.intros)

lemma mf_step_swapper_next: "mf_step m (swapper_next m)"
proof (cases "mf_swapper m")
  case SIdle
  from swap_current [OF this] SIdle show ?thesis by (simp only: swapper_next_def swapper.case)
qed (simp_all add: swapper_next_def mf_step.intros)

lemma mf_reachable_run: "mf_reachable m \<Longrightarrow> mf_reachable (mf_run xs m)"
  by (induction xs m rule: mf_run.induct)
    (auto intro: mf_reachable.step mf_step_reader_next mf_step_swapper_next)

lemmas mf_eval = reader_next_def swapper_next_def mf_defs mf_Open_def

section \<open>Properties\<close>

text \<open>
  A snapshot of a data file answers every lookup as the tree in the file does: what was published
  with \<^verbatim>\<open>WriteMeta\<close> is what readers see through the mapping.
\<close>

theorem snapshot_reads_tree:
  assumes "mgr_ReadMeta m = Inr mt" "n < mgr_cap"
    "tree_of (mgr_ReadPage m) (ids_below n) h (meta_Root mt) kvs" "enough_fuel fuel h kvs"
  shows "\<exists>s. openSnapshot (mgr_f m) = Inr s \<and> (\<forall>key. snap_Get fuel s key = Inr (map_of kvs key)) \<and>
    (\<forall>prefix fn st. snap_Scan fuel s prefix fn (st :: 'a) =
      Inr (fst (visit fn (with_prefix prefix kvs) (st, False))))"
  using openSnapshot_mgr [OF assms(1)] tree_of_snap [OF assms(3,2)] assms(4)
  by (auto simp: snap_Get_def snap_Scan_def btree_Get_correct btree_Scan_correct)

theorem snapshot_reads_tree_witness:
  "\<exists>m s. mgr_ReadMeta m = Inr \<lparr>meta_Root = InvalidPageID, meta_LastAppliedTxID = 4, meta_NumPages = 1\<rparr> \<and>
    openSnapshot (mgr_f m) = Inr s \<and> snap_Get 1 s [7] = Inr None"
proof -
  let ?mt = "\<lparr>meta_Root = InvalidPageID, meta_LastAppliedTxID = 4, meta_NumPages = 1\<rparr>"
  obtain m where m: "mgr_ReadMeta m = Inr ?mt"
    using mgr_WriteMeta_Inr [of "\<lparr>mgr_f = [], mgr_numPages = 1\<rparr>" ?mt]
    by (auto simp: mgr_inv_def mgr_cap_def)
  from snapshot_reads_tree [OF m, of 1 0 "[]" 1] m show ?thesis
    by (auto simp: mgr_cap_def tree_of_def enough_fuel_def)
qed

text \<open>
  In every interleaving of readers with checkpoints, the snapshot that \<^verbatim>\<open>current\<close> names is
  mapped, so a reader that holds the newest snapshot reads mapped memory.
\<close>

theorem mvcc_current_mapped:
  assumes "mf_reachable m"
  shows "\<not> mf_unmapped m (mf_current m) \<and> \<not> mf_retired m (mf_current m)"
  using reachable_inv [OF assms] by (auto simp: current_inv_def)

theorem mvcc_current_mapped_witness:
  "\<not> mf_unmapped (mf_run [Some 1, Some 1, Some 1, None, None, None] mf_Open) 1"
  using mvcc_current_mapped [OF mf_reachable_run [OF mf_reachable.start],
      of "[Some 1, Some 1, Some 1, None, None, None]"]
  by (simp add: mf_eval)

text \<open>
  C32: no mapping is leaked. Once the readers and the swapper are all idle, every retired snapshot has
  been unmapped, whichever of them was the last to look.
\<close>

theorem mvcc_no_leak:
  assumes "mf_reachable m" "mf_swapper m = SIdle" "\<forall>r. mf_reader m r = RIdle" "mf_retired m s"
  shows "mf_unmapped m s"
proof -
  from reachable_inv [OF assms(1)] have inv: "refs_inv m" "leak_inv m" by simp_all
  have "mf_refs m s = 0" using inv(1) assms(3) by (simp add: refs_inv_def holders_def counted_def)
  with inv(2) assms(2-4) show ?thesis by (auto simp: leak_inv_def)
qed

theorem mvcc_no_leak_witness:
  "mf_unmapped (mf_run [Some 1, Some 1, Some 1, None, None, None, Some 1, Some 1, Some 1] mf_Open) 0"
  using mvcc_no_leak [OF mf_reachable_run [OF mf_reachable.start],
      of "[Some 1, Some 1, Some 1, None, None, None, Some 1, Some 1, Some 1]" 0]
  by (simp add: mf_eval)

text \<open>
  The one way to read an unmapped snapshot. If a step unmaps a snapshot that a reader holds, some
  other reader was between the two operations of its \<^verbatim>\<open>Release\<close>: its decrement had reached zero
  and it had not yet looked at the retired flag. \<^verbatim>\<open>SwapTo\<close> itself never does it, and no reader
  comes to hold a snapshot that is unmapped.
\<close>

theorem mvcc_unmap_window:
  assumes "mf_reachable m" "mf_step m m'" "mf_reader m' r = RHolds s" "mf_unmapped m' s"
    "\<not> (mf_reader m r = RHolds s \<and> mf_unmapped m s)"
  shows "mf_reader m r = RHolds s \<and> (\<exists>r'. mf_reader m r' = RZero s \<and> mf_retired m s)"
proof -
  from reachable_inv [OF assms(1)] have inv: "refs_inv m" "current_inv m" by simp_all
  have held: "0 < mf_refs m t" if "mf_reader m r = RHolds t" for t
  proof -
    have "r \<in> holders m t" using that by (simp add: holders_def counted_def)
    then show ?thesis using inv(1) card_gt_0_iff by (fastforce simp: refs_inv_def)
  qed
  from assms(2) show ?thesis
  proof cases
    case (acquire_check r0 t)
    then show ?thesis using assms(3-5) inv(2)
      by (auto simp: mf_defs current_inv_def split: if_splits)
  next
    case (release_check r0 t)
    then show ?thesis using assms(3-5) by (auto simp: mf_defs split: if_splits)
  next
    case (swap_check t)
    then show ?thesis using assms(3-5) held [of t] by (auto simp: mf_defs split: if_splits)
  qed (use assms(3-5) in \<open>auto simp: mf_defs split: if_splits\<close>)
qed

theorem mvcc_unmap_window_witness:
  "\<exists>r. mf_reader (mf_run [Some 0, Some 0, Some 0, Some 0, Some 0, Some 1, Some 1, Some 1, None, None, None]
      mf_Open) r = RZero 0"
proof -
  let ?m = "mf_run [Some 0, Some 0, Some 0, Some 0, Some 0, Some 1, Some 1, Some 1, None, None, None] mf_Open"
  have "mf_reader (reader_next 0 ?m) 1 = RHolds 0" "mf_unmapped (reader_next 0 ?m) 0" "\<not> mf_unmapped ?m 0"
    by (simp_all add: mf_eval)
  then show ?thesis
    using mvcc_unmap_window [OF mf_reachable_run [OF mf_reachable.start] mf_step_reader_next] by blast
qed

text \<open>
  C39: that window is real. A reader releases the last reference and stops before it looks at the
  retired flag; a second reader acquires the same snapshot, which is still current; a checkpoint
  swaps and retires it and sees the second reader's reference; the first reader goes on, sees the
  retired flag and unmaps what the second one is reading.
\<close>

theorem mvcc_use_after_unmap:
  "\<exists>m. mf_reachable m \<and> mf_reader m 1 = RHolds 0 \<and> mf_unmapped m 0"
proof -
  let ?xs = "[Some 0, Some 0, Some 0, Some 0, Some 0, Some 1, Some 1, Some 1, None, None, None, Some 0]"
  have "mf_reachable (mf_run ?xs mf_Open)" by (rule mf_reachable_run [OF mf_reachable.start])
  moreover have "mf_reader (mf_run ?xs mf_Open) 1 = RHolds 0" "mf_unmapped (mf_run ?xs mf_Open) 0"
    by (simp_all add: mf_eval)
  ultimately show ?thesis by blast
qed

text \<open>
  \<^verbatim>\<open>Close\<close> does not wait for readers: whoever holds the current snapshot when it is called is left
  with an unmapped one.
\<close>

theorem mvcc_Close_under_reader:
  assumes "mf_reachable m" "mf_reader m r = RHolds (mf_current m)"
  shows "\<not> mf_unmapped m (mf_current m) \<and> mf_reader (mf_Close m) r = RHolds (mf_current m) \<and>
    mf_unmapped (mf_Close m) (mf_current m)"
  using reachable_inv [OF assms(1)] assms(2)
  by (auto simp: current_inv_def mf_Close_def mf_unmap_def)

theorem mvcc_Close_under_reader_witness:
  "mf_unmapped (mf_Close (mf_run [Some 3, Some 3, Some 3] mf_Open)) 0"
  using mvcc_Close_under_reader [OF mf_reachable_run [OF mf_reachable.start], of "[Some 3, Some 3, Some 3]" 3]
  by (simp add: mf_eval)

end
