(* ===== verification/Layout.thy ===== *)
theory Layout
  imports Prelude "HOL-Library.AList" "HOL-Library.Char_ord"
begin

text \<open>
  \<^verbatim>\<open>internal/storage/layout/layout.go\<close> and the directory it works on. The database directory is a
  list of file names and contents; what a handler does to it is a list of steps, each of which is
  durable before the next one starts (the code fsyncs every file and, after a rename, the
  directory). A crash runs a prefix of the steps and may leave any bytes in the file that was being
  written. The lemmas show that \<^verbatim>\<open>CURRENT\<close> reads back as the generation written and that file
  names and generations correspond.
\<close>

section \<open>The directory\<close>

type_synonym path = bytes
type_synonym fs = "(path \<times> bytes) list"

definition str :: "string \<Rightarrow> bytes" where
  "str s = map (\<lambda>c. word_of_nat (of_char c)) s"

abbreviation fs_get :: "fs \<Rightarrow> path \<Rightarrow> bytes option" where
  "fs_get fs p \<equiv> map_of fs p"

definition fs_put :: "path \<Rightarrow> bytes \<Rightarrow> fs \<Rightarrow> fs" where
  "fs_put p c fs = AList.update p c fs"

definition fs_del :: "path \<Rightarrow> fs \<Rightarrow> fs" where
  "fs_del p fs = AList.delete p fs"

lemma fs_get_put [simp]: "fs_get (fs_put p c fs) q = (if q = p then Some c else fs_get fs q)"
  by (simp add: fs_put_def update_conv')

lemma fs_get_del [simp]: "fs_get (fs_del p fs) q = (if q = p then None else fs_get fs q)"
  by (simp add: fs_del_def delete_conv')

text \<open>The names \<^verbatim>\<open>os.ReadDir\<close> lists, in its order.\<close>

definition fs_names :: "fs \<Rightarrow> path list" where
  "fs_names fs = sort (map fst fs)"

lemma set_fs_names: "p \<in> set (fs_names fs) \<longleftrightarrow> fs_get fs p \<noteq> None"
  by (simp add: fs_names_def map_of_eq_None_iff image_iff)

text \<open>
  Steps: write a file as a whole, create an empty file if there is none, append, cut to a length,
  rename over whatever is there, remove if there. Renaming a file that is not there changes nothing.
\<close>

datatype fs_step =
    FWrite path bytes
  | FCreate path
  | FAppend path bytes
  | FTruncate path nat
  | FRename path path
  | FRemove path

definition fs_contents :: "fs \<Rightarrow> path \<Rightarrow> bytes" where
  "fs_contents fs p = (case fs_get fs p of None \<Rightarrow> [] | Some c \<Rightarrow> c)"

lemma fs_contents_put: "fs_contents (fs_put p c fs) q = (if q = p then c else fs_contents fs q)"
  by (simp add: fs_contents_def)

fun fs_do :: "fs_step \<Rightarrow> fs \<Rightarrow> fs" where
  "fs_do (FWrite p c) fs = fs_put p c fs"
| "fs_do (FCreate p) fs = fs_put p (fs_contents fs p) fs"
| "fs_do (FAppend p bs) fs = fs_put p (fs_contents fs p @ bs) fs"
| "fs_do (FTruncate p n) fs = fs_put p (take n (fs_contents fs p)) fs"
| "fs_do (FRename p q) fs = (case fs_get fs p of None \<Rightarrow> fs | Some c \<Rightarrow> fs_put q c (fs_del p fs))"
| "fs_do (FRemove p) fs = fs_del p fs"

fun fs_run :: "fs_step list \<Rightarrow> fs \<Rightarrow> fs" where
  "fs_run [] fs = fs"
| "fs_run (s # ss) fs = fs_run ss (fs_do s fs)"

lemma fs_run_append: "fs_run (xs @ ys) fs = fs_run ys (fs_run xs fs)"
  by (induction xs arbitrary: fs) simp_all

text \<open>
  The directories a crash during the steps may leave. A file that is being written may hold anything,
  an append may have reached the file in part.
\<close>

fun torn :: "fs_step \<Rightarrow> fs \<Rightarrow> fs \<Rightarrow> bool" where
  "torn (FWrite p c) fs fs' \<longleftrightarrow> (\<exists>c'. fs' = fs_put p c' fs)"
| "torn (FAppend p bs) fs fs' \<longleftrightarrow> (\<exists>n. fs' = fs_put p (fs_contents fs p @ take n bs) fs)"
| "torn _ fs fs' \<longleftrightarrow> False"

fun crashed :: "fs_step list \<Rightarrow> fs \<Rightarrow> fs \<Rightarrow> bool" where
  "crashed [] fs fs' \<longleftrightarrow> fs' = fs"
| "crashed (s # ss) fs fs' \<longleftrightarrow> fs' = fs \<or> torn s fs fs' \<or> crashed ss (fs_do s fs) fs'"

lemma crashed_append:
  "crashed (xs @ ys) fs fs' \<longleftrightarrow> crashed xs fs fs' \<or> crashed ys (fs_run xs fs) fs'"
proof (induction xs arbitrary: fs)
  case Nil
  show ?case by (cases ys) auto
next
  case (Cons x xs)
  show ?case by (simp add: Cons.IH disj_assoc)
qed

section \<open>Names and numbers\<close>

text \<open>\<^verbatim>\<open>%d\<close> of an unsigned number, and \<^verbatim>\<open>strconv.ParseUint(s, 10, 64)\<close>.\<close>

fun dec :: "nat \<Rightarrow> bytes" where
  "dec n = (if n < 10 then [word_of_nat (48 + n)] else dec (n div 10) @ [word_of_nat (48 + n mod 10)])"

declare dec.simps [simp del]

fun parse_digits :: "nat \<Rightarrow> bytes \<Rightarrow> nat option" where
  "parse_digits acc [] = Some acc"
| "parse_digits acc (b # bs) =
     (if 48 \<le> b \<and> b \<le> 57 then parse_digits (acc * 10 + (unat b - 48)) bs else None)"

definition ParseUint :: "bytes \<Rightarrow> u64 option" where
  "ParseUint s =
     (if s = [] then None
      else case parse_digits 0 s of
        None \<Rightarrow> None
      | Some n \<Rightarrow> if n < 2 ^ 64 then Some (word_of_nat n) else None)"

definition dataPrefix :: bytes where "dataPrefix = str ''data.''"
definition dataSuffix :: bytes where "dataSuffix = str ''.zdb''"
definition currentTmp :: path where "currentTmp = str ''CURRENT.tmp''"
definition currentName :: path where "currentName = str ''CURRENT''"
definition walName :: path where "walName = str ''wal.log''"

definition DataFile :: "u64 \<Rightarrow> path" where
  "DataFile gen =
     (let d = dec (unat gen) in dataPrefix @ replicate (6 - length d) 48 @ d @ dataSuffix)"

text \<open>\<^verbatim>\<open>strings.TrimSpace\<close> on ASCII text.\<close>

definition is_space :: "byte \<Rightarrow> bool" where
  "is_space b \<longleftrightarrow> b = 32 \<or> (9 \<le> b \<and> b \<le> 13)"

definition TrimSpace :: "bytes \<Rightarrow> bytes" where
  "TrimSpace s = rev (dropWhile is_space (rev (dropWhile is_space s)))"

definition ReadCurrent :: "fs \<Rightarrow> u64 res" where
  "ReadCurrent fs =
     (case fs_get fs currentName of
        None \<Rightarrow> Inl ErrNotExist
      | Some b \<Rightarrow>
          (case ParseUint (TrimSpace b) of
             None \<Rightarrow> Inl ErrCorruptCurrent
           | Some gen \<Rightarrow> Inr gen))"

definition WriteCurrent :: "u64 \<Rightarrow> fs_step list" where
  "WriteCurrent gen =
     [FWrite currentTmp (dec (unat gen) @ [10]), FRename currentTmp currentName]"

text \<open>
  \<^verbatim>\<open>name[len(dataPrefix) : len(name)-len(dataSuffix)]\<close> panics on a name that is shorter than its
  prefix and suffix together, such as \<^verbatim>\<open>data.zdb\<close>, where they overlap.
\<close>

definition HasPrefix :: "'a list \<Rightarrow> 'a list \<Rightarrow> bool" where
  "HasPrefix s pre \<longleftrightarrow> take (length pre) s = pre"

definition HasSuffix :: "bytes \<Rightarrow> bytes \<Rightarrow> bool" where
  "HasSuffix s suf \<longleftrightarrow> length suf \<le> length s \<and> drop (length s - length suf) s = suf"

fun list_gens :: "path list \<Rightarrow> u64 list res" where
  "list_gens [] = Inr []"
| "list_gens (name # names) =
     (if \<not> HasPrefix name dataPrefix \<or> \<not> HasSuffix name dataSuffix then list_gens names
      else if length name < length dataPrefix + length dataSuffix then Inl Panic
      else
        let mid = sub (length dataPrefix) (length name - length dataSuffix - length dataPrefix) name in
        bindE (list_gens names) (\<lambda>gens.
          Inr (case ParseUint mid of None \<Rightarrow> gens | Some gen \<Rightarrow> gen # gens)))"

definition ListGenerations :: "fs \<Rightarrow> u64 list res" where
  "ListGenerations fs = bindE (list_gens (fs_names fs)) (\<lambda>gens. Inr (sort gens))"

section \<open>Reading numbers back\<close>

lemma digit: "m < 10 \<Longrightarrow> 48 \<le> (word_of_nat (48 + m) :: byte) \<and> (word_of_nat (48 + m) :: byte) \<le> 57 \<and>
    unat (word_of_nat (48 + m) :: byte) - 48 = m"
  by (simp add: word_le_nat_alt unat_of_nat del: of_nat_add)

lemma parse_digits_append:
  "parse_digits acc (xs @ ys) =
     (case parse_digits acc xs of None \<Rightarrow> None | Some a \<Rightarrow> parse_digits a ys)"
  by (induction xs arbitrary: acc) auto

lemma parse_dec: "\<exists>k. \<forall>acc. parse_digits acc (dec n) = Some (acc * 10 ^ k + n)"
proof (induction n rule: dec.induct)
  case (1 n)
  show ?case
  proof (cases "n < 10")
    case True
    then show ?thesis
      using digit [of n] by (intro exI [of _ 1]) (simp add: dec.simps [of n])
  next
    case False
    with 1 obtain k where k: "\<And>acc. parse_digits acc (dec (n div 10)) = Some (acc * 10 ^ k + n div 10)"
      by blast
    have "parse_digits acc (dec n) = Some (acc * 10 ^ Suc k + n)" for acc
      using False digit [of "n mod 10"]
      by (simp add: dec.simps [of n] parse_digits_append k algebra_simps)
    then show ?thesis by blast
  qed
qed

lemma parse_zeros: "parse_digits 0 (replicate k 48 @ s) = parse_digits 0 s"
  by (induction k) simp_all

lemma dec_nonempty [simp]: "dec n \<noteq> []"
  by (simp add: dec.simps [of n])

lemma ParseUint_dec [simp]: "ParseUint (replicate k 48 @ dec (unat gen)) = Some gen"
proof -
  obtain k where "parse_digits 0 (dec (unat gen)) = Some (0 * 10 ^ k + unat gen)"
    using parse_dec by blast
  then show ?thesis
    using unsigned_less [of gen, where ?'a=nat] by (simp add: ParseUint_def parse_zeros)
qed

lemma dec_digits: "\<forall>b\<in>set (dec n). 48 \<le> b \<and> b \<le> 57"
proof (induction n rule: dec.induct)
  case (1 n)
  then show ?case
    using digit [of n] digit [of "n mod 10"] by (cases "n < 10") (simp_all add: dec.simps [of n])
qed

lemma not_space_digit: "48 \<le> (b::byte) \<Longrightarrow> \<not> is_space b"
  by (auto simp: is_space_def word_le_nat_alt)

lemma dropWhile_no: "xs \<noteq> [] \<Longrightarrow> \<not> P (hd xs) \<Longrightarrow> dropWhile P xs = xs"
  by (cases xs) auto

lemma TrimSpace_dec: "TrimSpace (dec n @ [10]) = dec n"
proof -
  have "\<not> is_space (hd (dec n))" "\<not> is_space (hd (rev (dec n)))"
    using dec_digits [of n] not_space_digit by (simp_all add: hd_rev)
  moreover have "is_space 10" by (simp add: is_space_def)
  ultimately show ?thesis by (simp add: TrimSpace_def dropWhile_no dropWhile_append2)
qed

lemma ReadCurrent_dec [simp]:
  "fs_get fs currentName = Some (dec (unat gen) @ [10]) \<Longrightarrow> ReadCurrent fs = Inr gen"
  using ParseUint_dec [of 0 gen] by (simp add: ReadCurrent_def TrimSpace_dec)

lemma layout_lengths [simp]: "length dataPrefix = 5" "length dataSuffix = 4"
  by (simp_all add: dataPrefix_def dataSuffix_def str_def)

lemma DataFile_gen:
  "HasPrefix (DataFile g) dataPrefix" "HasSuffix (DataFile g) dataSuffix"
  "ParseUint (sub 5 (length (DataFile g) - 4 - 5) (DataFile g)) = Some g"
  "9 \<le> length (DataFile g)"
  by (simp_all add: DataFile_def Let_def HasPrefix_def HasSuffix_def sub_def)

lemma DataFile_inject [simp]: "DataFile g = DataFile h \<longleftrightarrow> g = h"
  by (metis DataFile_gen(3) option.inject)


section \<open>Names apart\<close>

text \<open>\<^verbatim>\<open>filepath.Ext\<close> of a file name: from its last dot on.\<close>

definition Ext :: "path \<Rightarrow> bytes" where
  "Ext name =
     (let r = takeWhile (\<lambda>b. b \<noteq> 46) (rev name) in
      if length r = length name then [] else 46 # rev r)"

definition tmpExt :: bytes where "tmpExt = str ''.tmp''"

lemma Ext_append: "46 \<notin> set e \<Longrightarrow> Ext (name @ 46 # e) = 46 # e"
proof -
  assume "46 \<notin> set e"
  then have "takeWhile (\<lambda>b. b \<noteq> 46) (rev e @ [46] @ rev name) = rev e"
    by (subst takeWhile_append2) auto
  then show ?thesis by (simp add: Ext_def Let_def)
qed

lemma names_last [simp]:
  "last (DataFile g) = 98" "last currentName = 84" "last walName = 103" "last currentTmp = 112"
  "last (p @ tmpExt) = 112"
  by (simp_all add: DataFile_def Let_def dataSuffix_def currentName_def walName_def currentTmp_def
      tmpExt_def str_def)

lemma last_neq: "last p \<noteq> last q \<Longrightarrow> p \<noteq> q"
  by auto

lemma names_neq [simp]:
  "DataFile g \<noteq> currentName" "DataFile g \<noteq> walName" "DataFile g \<noteq> currentTmp" "DataFile g \<noteq> p @ tmpExt"
  "currentName \<noteq> DataFile g" "walName \<noteq> DataFile g" "currentTmp \<noteq> DataFile g" "p @ tmpExt \<noteq> DataFile g"
  "currentName \<noteq> walName" "walName \<noteq> currentName" "currentName \<noteq> currentTmp" "currentTmp \<noteq> currentName"
  "walName \<noteq> currentTmp" "currentTmp \<noteq> walName" "p @ tmpExt \<noteq> currentName" "currentName \<noteq> p @ tmpExt"
  "p @ tmpExt \<noteq> walName" "walName \<noteq> p @ tmpExt"
  by (rule last_neq, simp)+

lemma names_Ext [simp]:
  "Ext (DataFile g) \<noteq> tmpExt" "Ext currentName \<noteq> tmpExt" "Ext walName \<noteq> tmpExt"
  "Ext (p @ tmpExt) = tmpExt" "Ext currentTmp = tmpExt"
proof -
  have suf: "DataFile g = (dataPrefix @ replicate (6 - length (dec (unat g))) 48 @ dec (unat g)) @ 46 # str ''zdb''"
    by (simp add: DataFile_def Let_def dataSuffix_def str_def)
  show "Ext (DataFile g) \<noteq> tmpExt"
    unfolding suf by (subst Ext_append) (simp_all add: str_def tmpExt_def)
  show "Ext currentName \<noteq> tmpExt" "Ext walName \<noteq> tmpExt" "Ext currentTmp = tmpExt"
    by (simp_all add: Ext_def currentName_def walName_def currentTmp_def tmpExt_def str_def)
  have "p @ tmpExt = p @ 46 # str ''tmp''" by (simp add: tmpExt_def str_def)
  then show "Ext (p @ tmpExt) = tmpExt"
    by (simp add: Ext_append str_def tmpExt_def)
qed

text \<open>Names that do not make \<^verbatim>\<open>ListGenerations\<close> panic.\<close>

definition name_ok :: "path \<Rightarrow> bool" where
  "name_ok p \<longleftrightarrow> \<not> (HasPrefix p dataPrefix \<and> HasSuffix p dataSuffix \<and> length p < 9)"

lemma name_ok_names [simp]:
  "name_ok (DataFile g)" "name_ok currentName" "name_ok walName" "name_ok currentTmp" "name_ok (p @ tmpExt)"
  using DataFile_gen(4) [of g]
  by (auto simp: name_ok_def HasPrefix_def HasSuffix_def dataPrefix_def dataSuffix_def currentName_def
      walName_def currentTmp_def str_def tmpExt_def)

fun gens_of :: "path list \<Rightarrow> u64 list" where
  "gens_of [] = []"
| "gens_of (name # names) =
     (if \<not> HasPrefix name dataPrefix \<or> \<not> HasSuffix name dataSuffix then gens_of names
      else case ParseUint (sub 5 (length name - 4 - 5) name) of
        None \<Rightarrow> gens_of names
      | Some gen \<Rightarrow> gen # gens_of names)"

lemma list_gens_ok: "\<forall>p\<in>set names. name_ok p \<Longrightarrow> list_gens names = Inr (gens_of names)"
  by (induction names) (auto simp: name_ok_def Let_def split: option.splits)

lemma gens_of_DataFile: "DataFile g \<in> set names \<Longrightarrow> g \<in> set (gens_of names)"
  by (induction names) (auto simp: DataFile_gen DataFile_gen(3) [simplified] split: option.splits)

lemma ListGenerations_ok:
  "\<forall>p. fs_get fs p \<noteq> None \<longrightarrow> name_ok p \<Longrightarrow>
   ListGenerations fs = Inr (sort (gens_of (fs_names fs)))"
  by (simp add: ListGenerations_def list_gens_ok set_fs_names)

text \<open>Removing files is pointwise.\<close>

lemma fs_get_run_removes:
  "fs_get (fs_run (map FRemove ps) fs) q = (if q \<in> set ps then None else fs_get fs q)"
  by (induction ps arbitrary: fs) auto

lemma crashed_removes:
  "crashed (map FRemove ps) fs fs' \<Longrightarrow> \<exists>n. fs' = fs_run (map FRemove (take n ps)) fs"
proof (induction ps arbitrary: fs)
  case Nil
  then show ?case by simp
next
  case (Cons p ps)
  then consider "fs' = fs" | "crashed (map FRemove ps) (fs_del p fs) fs'" by auto
  then show ?case
  proof cases
    case 1
    then show ?thesis by (intro exI [of _ 0]) simp
  next
    case 2
    from Cons.IH [OF this] obtain n where "fs' = fs_run (map FRemove (take n ps)) (fs_del p fs)" by blast
    then show ?thesis by (intro exI [of _ "Suc n"]) simp
  qed
qed

end
