(* ===== verification/Checkpoint.thy ===== *)
theory Checkpoint
  imports Merge Mvcc Layout
begin

text \<open>
  The directory half of \<^verbatim>\<open>internal/storage/checkpoint/checkpoint.go\<close>: building a generation from the
  base generation and the retired WAL, publishing it, and the whole run of a checkpoint. Each handler
  gives the steps it takes on the directory and its result. \<open>dir_db\<close> says what database a directory
  stands for; the lemmas show that a crash at any point of a checkpoint leaves a directory that
  stands for the same database.
\<close>

section \<open>Building a generation\<close>

definition RetiredWALName :: path where
  "RetiredWALName = str ''wal.applying.log''"

definition tmp_name :: "u64 \<Rightarrow> path" where
  "tmp_name gen = DataFile gen @ tmpExt"

definition base_read ::
  "codec \<Rightarrow> fs \<Rightarrow> u64 \<Rightarrow> path \<Rightarrow> (manager \<times> meta \<times> deltas \<times> bytes list \<times> u64) res" where
  "base_read cd fs baseGen retired =
     (case fs_get fs (DataFile baseGen) of
        None \<Rightarrow> Inl ErrNotExist
      | Some f \<Rightarrow>
          bindE (mgr_Open f) (\<lambda>baseMgr.
          bindE (mgr_ReadMeta baseMgr) (\<lambda>baseMeta.
            case fs_get fs retired of
              None \<Rightarrow> Inl ErrNotExist
            | Some rf \<Rightarrow>
                bindE (parseWALDeltas cd rf (meta_LastAppliedTxID baseMeta)) (\<lambda>(ds, ks, lastApplied).
                  Inr (baseMgr, baseMeta, ds, ks, lastApplied)))))"

text \<open>
  A step writes the new file as a whole; the pages are written one by one, but nothing reads the
  temporary file before it is renamed. On an error in the middle the file is left with some contents.
\<close>

definition BuildGeneration ::
  "codec \<Rightarrow> nat \<Rightarrow> fs \<Rightarrow> u64 \<Rightarrow> u64 \<Rightarrow> path \<Rightarrow> fs_step list \<times> u64 res" where
  "BuildGeneration cd fuel fs baseGen newGen retired =
     (case base_read cd fs baseGen retired of
        Inl e \<Rightarrow> ([], Inl e)
      | Inr (baseMgr, baseMeta, ds, ks, lastApplied) \<Rightarrow>
          let newTmp = tmp_name newGen in
          case mgr_Create of
            Inl e \<Rightarrow> ([FRemove newTmp], Inl e)
          | Inr mgr \<Rightarrow>
              case bindE (mergeBuild fuel mgr_store mgr (mgr_ReadPage baseMgr) (meta_Root baseMeta) ds ks)
                     (\<lambda>(root, mgr).
                       mgr_WriteMeta mgr \<lparr>meta_Root = root, meta_LastAppliedTxID = lastApplied,
                         meta_NumPages = mgr_numPages mgr\<rparr>) of
                Inl e \<Rightarrow> ([FRemove newTmp, FWrite newTmp (mgr_f mgr)], Inl e)
              | Inr mgr \<Rightarrow>
                  ([FRemove newTmp, FWrite newTmp (mgr_f mgr), FRename newTmp (DataFile newGen)] @
                   WriteCurrent newGen, Inr lastApplied))"

section \<open>A checkpoint\<close>

text \<open>
  Rotating the log: the active log becomes the retired one and an empty log is created in its place.
\<close>

definition rotate_steps :: "path \<Rightarrow> path \<Rightarrow> fs_step list" where
  "rotate_steps active retired = [FRename active retired, FCreate active]"

definition cleanupOldGenerations :: "fs \<Rightarrow> u64 \<Rightarrow> fs_step list res" where
  "cleanupOldGenerations fs keep =
     bindE (ListGenerations fs) (\<lambda>gens.
       Inr (map (\<lambda>g. FRemove (DataFile g)) (filter (\<lambda>g. g < keep) gens)))"

text \<open>
  The result is the new generation, the highest transaction folded into it and the snapshot that
  \<^verbatim>\<open>SwapTo\<close> installs.
\<close>

definition checkpoint_Run ::
  "codec \<Rightarrow> nat \<Rightarrow> fs \<Rightarrow> fs_step list \<times> (u64 \<times> u64 \<times> snapshot) res" where
  "checkpoint_Run cd fuel fs =
     (case ReadCurrent fs of
        Inl e \<Rightarrow> ([], Inl e)
      | Inr curGen \<Rightarrow>
          let newGen = curGen + 1;
              s1 = rotate_steps walName RetiredWALName;
              (s2, r) = BuildGeneration cd fuel (fs_run s1 fs) curGen newGen RetiredWALName
          in case r of
               Inl e \<Rightarrow> (s1 @ s2, Inl e)
             | Inr foldedTxID \<Rightarrow>
                 case openSnapshot (fs_contents (fs_run (s1 @ s2) fs) (DataFile newGen)) of
                   Inl e \<Rightarrow> (s1 @ s2, Inl e)
                 | Inr snap \<Rightarrow>
                     let s3 = [FRemove RetiredWALName] in
                     case cleanupOldGenerations (fs_run (s1 @ s2 @ s3) fs) newGen of
                       Inl e \<Rightarrow> (s1 @ s2 @ s3, Inl e)
                     | Inr s4 \<Rightarrow> (s1 @ s2 @ s3 @ s4, Inr (newGen, foldedTxID, snap)))"

text \<open>
  The same with a disk that may fail during the build: with \<open>Some (n, m)\<close> the step \<open>n\<close> of
  \<^verbatim>\<open>BuildGeneration\<close> on the directory fails, a write after \<open>m\<close> of its bytes, and \<^verbatim>\<open>Run\<close> returns the error at
  once, with the log rotated.
\<close>

definition cut_step :: "nat \<Rightarrow> fs_step \<Rightarrow> fs_step list" where
  "cut_step m s = (case s of FWrite p b \<Rightarrow> [FWrite p (take m b)] | _ \<Rightarrow> [])"

definition checkpoint_Run_io ::
  "(nat \<times> nat) option \<Rightarrow> codec \<Rightarrow> nat \<Rightarrow> fs \<Rightarrow> fs_step list \<times> (u64 \<times> u64 \<times> snapshot) res" where
  "checkpoint_Run_io io cd fuel fs =
     (case (io, ReadCurrent fs) of
        (Some (n, m), Inr curGen) \<Rightarrow>
          let newGen = curGen + 1;
              s1 = rotate_steps walName RetiredWALName;
              (s2, r) = BuildGeneration cd fuel (fs_run s1 fs) curGen newGen RetiredWALName
          in if n < length s2 then (s1 @ take n s2 @ cut_step m (s2 ! n), Inl ErrIO)
             else checkpoint_Run cd fuel fs
      | _ \<Rightarrow> checkpoint_Run cd fuel fs)"

section \<open>The contents of a data file\<close>

definition data_holds :: "bytes \<Rightarrow> u64 \<Rightarrow> (bytes \<times> bytes) list \<Rightarrow> bool" where
  "data_holds f a kvs \<longleftrightarrow>
     (\<exists>m mt h. mgr_Open f = Inr m \<and> mgr_ReadMeta m = Inr mt \<and> meta_LastAppliedTxID mt = a \<and>
        unat (mgr_numPages m) < mgr_cap \<and> h \<le> length kvs \<and>
        tree_of (mgr_ReadPage m) (ids_below (unat (mgr_numPages m))) h (meta_Root mt) kvs)"

text \<open>Contents that one data file and the fuel can hold.\<close>

definition kvs_ok :: "nat \<Rightarrow> (bytes \<times> bytes) list \<Rightarrow> bool" where
  "kvs_ok fuel kvs \<longleftrightarrow>
     load_pages kvs + 2 * length kvs + 2 < mgr_cap \<and> (\<forall>kv\<in>set kvs. length (fst kv) \<le> maxKeyLen) \<and>
     enough_fuel fuel (length kvs) kvs"

definition db_ok :: "nat \<Rightarrow> db \<Rightarrow> bool" where
  "db_ok fuel d \<longleftrightarrow> (\<exists>kvs. sorted_wrt (<) (map fst kvs) \<and> map_of kvs = d \<and> kvs_ok fuel kvs)"

lemma db_ok_kvs: "db_ok fuel (map_of kvs) \<Longrightarrow> sorted_wrt (<) (map fst kvs) \<Longrightarrow> kvs_ok fuel kvs"
  unfolding db_ok_def by (metis sorted_map_of_unique)

lemma data_holds_sorted: "data_holds f a kvs \<Longrightarrow> sorted_wrt (<) (map fst kvs)"
  by (auto simp: data_holds_def tree_of_def)

lemma mgr_Open_f: "mgr_Open f = Inr m \<Longrightarrow> mgr_f m = f"
  by (auto simp: mgr_Open_def bindE_Inr_iff)

text \<open>Readers see the contents through the mapping.\<close>

lemma data_holds_snapshot:
  assumes "data_holds f a kvs"
  shows "\<exists>s h D. openSnapshot f = Inr s \<and> h \<le> length kvs \<and>
    tree_of (snap_ReadPage (sn_data s)) D h (sn_root s) kvs"
proof -
  from assms obtain m mt h where m: "mgr_Open f = Inr m" "mgr_ReadMeta m = Inr mt"
    "unat (mgr_numPages m) < mgr_cap" "h \<le> length kvs"
    "tree_of (mgr_ReadPage m) (ids_below (unat (mgr_numPages m))) h (meta_Root mt) kvs"
    by (auto simp: data_holds_def)
  from tree_of_snap [OF m(5,3)] openSnapshot_mgr [OF m(2)] mgr_Open_f [OF m(1)] m(4)
  show ?thesis by (intro exI conjI) auto
qed

text \<open>A page that is no tree page is no part of a tree.\<close>

lemma ov_chain_avoids:
  assumes "\<And>p. rd j = Inr p \<Longrightarrow> page_Type p = PageTypeMeta"
  shows "ov_chain rd D pid cs \<Longrightarrow> ov_chain rd (D - {j}) pid cs"
proof (induction cs arbitrary: pid)
  case (Cons c cs)
  then have "pid \<noteq> j" using assms by (auto simp: page_types)
  with Cons show ?case by auto
qed simp

lemma entry_value_avoids:
  assumes "\<And>p. rd j = Inr p \<Longrightarrow> page_Type p = PageTypeMeta"
  shows "entry_value rd D e v \<Longrightarrow> entry_value rd (D - {j}) e v"
  using ov_chain_avoids [OF assms] unfolding entry_value_def by (cases "le_isOverflow e") (simp, blast, simp)

lemma bt_avoids:
  assumes "\<And>p. rd j = Inr p \<Longrightarrow> page_Type p = PageTypeMeta"
  shows "bt rd D h pid kvs \<Longrightarrow> bt rd (D - {j}) h pid kvs"
proof (induction h arbitrary: pid kvs)
  case 0
  then obtain p es where p: "pid \<noteq> InvalidPageID" "pid \<in> D" "rd pid = Inr p" "decodeNode p = Inr (leafNode es)"
    "list_all2 (\<lambda>e kv. le_key e = fst kv \<and> entry_value rd D e (snd kv)) es kvs" by auto
  then have "pid \<noteq> j" using assms by (auto simp: decodeNode_def Let_def page_types)
  moreover have "list_all2 (\<lambda>e kv. le_key e = fst kv \<and> entry_value rd (D - {j}) e (snd kv)) es kvs"
    using p(5) by (rule list_all2_mono) (auto intro: entry_value_avoids [OF assms])
  ultimately show ?case using p by auto
next
  case (Suc h)
  then obtain p ks cs kvss where p: "pid \<noteq> InvalidPageID" "pid \<in> D" "rd pid = Inr p"
    "decodeNode p = Inr (internalNode ks cs)" "length cs = Suc (length ks)"
    "list_all2 (bt rd D h) cs kvss" "kvs = concat kvss" "seps ks kvss" by auto
  then have "pid \<noteq> j" using assms by (auto simp: decodeNode_def Let_def page_types)
  moreover have "list_all2 (bt rd (D - {j}) h) cs kvss"
    using p(6) by (rule list_all2_mono) (rule Suc.IH)
  ultimately show ?case using p by auto
qed

lemma tree_of_avoids:
  assumes "\<And>p. rd j = Inr p \<Longrightarrow> page_Type p = PageTypeMeta" "tree_of rd D h root kvs"
  shows "tree_of rd (D - {j}) h root kvs"
  using assms(2) bt_avoids [OF assms(1)] by (auto simp: tree_of_def)

lemma mgr_Open_reopen:
  assumes "mgr_ReadMeta m = Inr mt" "meta_NumPages mt = mgr_numPages m" "mgr_numPages m \<noteq> 0"
  shows "mgr_Open (mgr_f m) = Inr m"
proof -
  have "mgr_ReadPage \<lparr>mgr_f = mgr_f m, mgr_numPages = 0\<rparr> = mgr_ReadPage m"
    by (rule ext) (simp add: mgr_ReadPage_def)
  with assms show ?thesis by (cases m) (simp add: mgr_Open_def mgr_ReadMeta_def)
qed

lemma mgr_Create_Inr:
  "\<exists>m. mgr_Create = Inr m \<and> mgr_inv m \<and> unat (mgr_numPages m) = 1 \<and>
     (\<forall>p. mgr_ReadPage m MetaPageID = Inr p \<longrightarrow> page_Type p = PageTypeMeta) \<and>
     (\<exists>p. mgr_ReadPage m MetaPageID = Inr p) \<and> data_holds (mgr_f m) 0 []"
proof -
  let ?mt = "\<lparr>meta_Root = InvalidPageID, meta_LastAppliedTxID = 0, meta_NumPages = 1\<rparr>"
  from mgr_WriteMeta_Inr [of "\<lparr>mgr_f = [], mgr_numPages = 1\<rparr>" ?mt] obtain m where
    m: "mgr_Create = Inr m" "mgr_numPages m = 1" "mgr_ReadMeta m = Inr ?mt"
    by (auto simp: mgr_inv_def mgr_cap_def mgr_Create_def)
  have "mgr_Open (mgr_f m) = Inr m" using m by (intro mgr_Open_reopen [OF m(3)]) auto
  then have "data_holds (mgr_f m) 0 []"
    unfolding data_holds_def using m(2,3)
    by (intro exI [of _ m] exI [of _ ?mt] exI [of _ 0]) (simp add: tree_of_def mgr_cap_def)
  with m show ?thesis
    by (auto simp: mgr_inv_def mgr_cap_def mgr_ReadMeta_def bindE_Inr_iff split: if_splits)
qed

text \<open>Writing the meta page of a finished tree makes a data file that holds it.\<close>

lemma WriteMeta_data_holds:
  assumes "mgr_inv m" "0 < unat (mgr_numPages m)" "unat (mgr_numPages m) < mgr_cap"
    "\<And>p. mgr_ReadPage m MetaPageID = Inr p \<Longrightarrow> page_Type p = PageTypeMeta"
    "tree_of (mgr_ReadPage m) (ids_below (unat (mgr_numPages m))) h root kvs" "h \<le> length kvs"
  shows "\<exists>m'. mgr_WriteMeta m \<lparr>meta_Root = root, meta_LastAppliedTxID = a,
      meta_NumPages = mgr_numPages m\<rparr> = Inr m' \<and> data_holds (mgr_f m') a kvs"
proof -
  let ?mt = "\<lparr>meta_Root = root, meta_LastAppliedTxID = a, meta_NumPages = mgr_numPages m\<rparr>"
  have nz: "mgr_numPages m \<noteq> 0" using assms(2) by auto
  from mgr_WriteMeta_Inr [OF assms(1) nz, of ?mt] obtain m' where
    m': "mgr_WriteMeta m ?mt = Inr m'" "mgr_numPages m' = mgr_numPages m" "mgr_ReadMeta m' = Inr ?mt"
      "\<And>j q. j \<noteq> MetaPageID \<Longrightarrow> unat j < mgr_cap \<Longrightarrow> mgr_ReadPage m j = Inr q \<Longrightarrow>
        mgr_ReadPage m' j = Inr q" by auto
  let ?D = "ids_below (unat (mgr_numPages m))"
  have "tree_of (mgr_ReadPage m) (?D - {MetaPageID}) h root kvs"
    using assms(4,5) by (rule tree_of_avoids)
  moreover have "keeps_reads (mgr_ReadPage m) (mgr_ReadPage m') (?D - {MetaPageID})"
    using m'(4) assms(3) by (auto simp: keeps_reads_def)
  ultimately have "tree_of (mgr_ReadPage m') ?D h root kvs"
    by (rule tree_of_keep) auto
  moreover have "mgr_Open (mgr_f m') = Inr m'"
    by (rule mgr_Open_reopen [OF m'(3)]) (use m'(2) nz in simp_all)
  ultimately show ?thesis using m' assms(3,6) by (auto simp: data_holds_def)
qed

section \<open>What a build leaves\<close>

definition build_steps :: "u64 \<Rightarrow> bytes \<Rightarrow> fs_step list" where
  "build_steps newGen nf =
     [FRemove (tmp_name newGen), FWrite (tmp_name newGen) nf, FRename (tmp_name newGen) (DataFile newGen)] @
     WriteCurrent newGen"

text \<open>The entries a log adds to a database into which the transactions up to \<open>a\<close> are folded.\<close>

definition log_entries :: "codec \<Rightarrow> u64 \<Rightarrow> bytes \<Rightarrow> WALEntry list \<Rightarrow> u64 \<Rightarrow> bool" where
  "log_entries cd a f es a' \<longleftrightarrow>
     (\<exists>rs off e. wal_read f = (rs, off, e) \<and> (e = ErrEOF \<or> e = ErrCorrupt) \<and>
        entries_above cd a rs = Inr es \<and> a' = max_tx a rs)"

lemma BuildGeneration_law:
  assumes "fs_get fs (DataFile baseGen) = Some bf" "data_holds bf a kvs" "kvs_ok fuel kvs"
    "fs_get fs retired = Some rf" "log_entries cd a rf es a'"
    "db_ok fuel (fold entry_apply es (map_of kvs))"
  shows "\<exists>nf ms. BuildGeneration cd fuel fs baseGen newGen retired = (build_steps newGen nf, Inr a') \<and>
    data_holds nf a' ms \<and> kvs_ok fuel ms \<and> map_of ms = fold entry_apply es (map_of kvs)"
proof -
  from assms(2) obtain bm bmt h where bm: "mgr_Open bf = Inr bm" "mgr_ReadMeta bm = Inr bmt"
    "meta_LastAppliedTxID bmt = a" "h \<le> length kvs"
    "tree_of (mgr_ReadPage bm) (ids_below (unat (mgr_numPages bm))) h (meta_Root bmt) kvs"
    by (auto simp: data_holds_def)
  from assms(5) obtain rs off e where
    rs: "wal_read rf = (rs, off, e)" "e = ErrEOF \<or> e = ErrCorrupt" "entries_above cd a rs = Inr es"
      "a' = max_tx a rs" by (auto simp: log_entries_def)
  from parseWALDeltas_entries [OF rs(1-3)] rs(4) obtain ds where
    ds: "parseWALDeltas cd rf a = Inr (ds, sort (map fst ds), a')" "distinct (map fst ds)"
      "\<And>d. with_deltas ds d = fold entry_apply es d" by auto
  define ms where "ms = merge_list ds (sort (map fst ds)) kvs"
  have sorted: "sorted_wrt (<) (map fst kvs)" using assms(2) by (rule data_holds_sorted)
  have ms: "sorted_wrt (<) (map fst ms)" "map_of ms = fold entry_apply es (map_of kvs)"
    using merge_list_deltas [OF ds(2) sorted] ds(3) by (simp_all add: ms_def)
  then have ok: "kvs_ok fuel ms" using assms(6) db_ok_kvs by metis
  have base: "base_read cd fs baseGen retired = Inr (bm, bmt, ds, sort (map fst ds), a')"
    using assms(1,4) bm(1-3) ds(1) by (simp add: base_read_def)
  from mgr_Create_Inr obtain m0 p0 where m0: "mgr_Create = Inr m0" "mgr_inv m0" "unat (mgr_numPages m0) = 1"
    "mgr_ReadPage m0 MetaPageID = Inr p0" "page_Type p0 = PageTypeMeta" by blast
  have "enough_fuel fuel h kvs" using assms(3) bm(4) by (simp add: kvs_ok_def enough_fuel_def)
  from mgr.mergeBuild_law [OF m0(2) bm(5) this ds(2) ms_def] ok m0(3) obtain root m1 h1 where
    m1: "mergeBuild fuel mgr_store m0 (mgr_ReadPage bm) (meta_Root bmt) ds (sort (map fst ds)) = Inr (root, m1)"
      "mgr_inv m1" "1 \<le> unat (mgr_numPages m1)"
      "unat (mgr_numPages m1) \<le> Suc (1 + load_pages ms + 2 * length ms)" "h1 \<le> length ms"
      "keeps_reads (mgr_ReadPage m0) (mgr_ReadPage m1) (ids_below 1)"
      "tree_of (mgr_ReadPage m1) (ids_below (unat (mgr_numPages m1))) h1 root ms"
    by (auto simp: kvs_ok_def mgr_store_def)
  have meta: "page_Type p = PageTypeMeta" if "mgr_ReadPage m1 MetaPageID = Inr p" for p
    using that keeps_readsD [OF m1(6) _ m0(4)] m0(5) by (simp add: MetaPageID_def)
  have small: "unat (mgr_numPages m1) < mgr_cap" using m1(4) ok by (simp add: kvs_ok_def)
  from WriteMeta_data_holds [OF m1(2) _ small meta m1(7,5), of a'] m1(3) obtain m2 where
    m2: "mgr_WriteMeta m1 \<lparr>meta_Root = root, meta_LastAppliedTxID = a', meta_NumPages = mgr_numPages m1\<rparr> = Inr m2"
      "data_holds (mgr_f m2) a' ms" by auto
  have "BuildGeneration cd fuel fs baseGen newGen retired = (build_steps newGen (mgr_f m2), Inr a')"
    by (simp add: BuildGeneration_def base m0(1) m1(1) m2(1) build_steps_def Let_def)
  with m2(2) ok ms(2) show ?thesis by blast
qed

section \<open>The database a directory stands for\<close>

text \<open>
  The generation that \<^verbatim>\<open>CURRENT\<close> names, the entries of the retired log, if there is one, and then
  those of the active log, each above what is already folded in.
\<close>

definition log_at :: "codec \<Rightarrow> u64 \<Rightarrow> fs \<Rightarrow> path \<Rightarrow> WALEntry list \<Rightarrow> u64 \<Rightarrow> bool" where
  "log_at cd a fs p es a' \<longleftrightarrow>
     (case fs_get fs p of None \<Rightarrow> es = [] \<and> a' = a | Some f \<Rightarrow> log_entries cd a f es a')"

record dir_state =
  ds_gen :: u64
  ds_kvs :: "(bytes \<times> bytes) list"
  ds_applied :: u64
  ds_retired :: "WALEntry list"
  ds_mid :: u64
  ds_active :: "WALEntry list"
  ds_last :: u64

definition ds_folded :: "dir_state \<Rightarrow> db" where
  "ds_folded st = fold entry_apply (ds_retired st) (map_of (ds_kvs st))"

definition ds_db :: "dir_state \<Rightarrow> db" where
  "ds_db st = fold entry_apply (ds_active st) (ds_folded st)"

definition dir_has :: "codec \<Rightarrow> nat \<Rightarrow> fs \<Rightarrow> dir_state \<Rightarrow> bool" where
  "dir_has cd fuel fs st \<longleftrightarrow>
     ReadCurrent fs = Inr (ds_gen st) \<and>
     (\<exists>bf. fs_get fs (DataFile (ds_gen st)) = Some bf \<and> data_holds bf (ds_applied st) (ds_kvs st)) \<and>
     kvs_ok fuel (ds_kvs st) \<and>
     log_at cd (ds_applied st) fs RetiredWALName (ds_retired st) (ds_mid st) \<and>
     db_ok fuel (ds_folded st) \<and>
     log_at cd (ds_mid st) fs walName (ds_active st) (ds_last st) \<and>
     db_ok fuel (ds_db st) \<and>
     (\<forall>p. fs_get fs p \<noteq> None \<longrightarrow> name_ok p)"

definition dir_db :: "codec \<Rightarrow> nat \<Rightarrow> fs \<Rightarrow> db \<Rightarrow> bool" where
  "dir_db cd fuel fs d \<longleftrightarrow> (\<exists>st. dir_has cd fuel fs st \<and> ds_db st = d)"

text \<open>The same, where the state also satisfies an invariant \<open>I\<close>.\<close>

definition dir_db_of :: "(dir_state \<Rightarrow> bool) \<Rightarrow> codec \<Rightarrow> nat \<Rightarrow> fs \<Rightarrow> db \<Rightarrow> bool" where
  "dir_db_of I cd fuel fs d \<longleftrightarrow> (\<exists>st. dir_has cd fuel fs st \<and> ds_db st = d \<and> I st)"

lemma dir_db_of_True [simp]: "dir_db_of (\<lambda>_. True) = dir_db"
  by (intro ext) (simp add: dir_db_of_def dir_db_def)

lemma retired_last [simp]: "last RetiredWALName = 103"
  by (simp add: RetiredWALName_def str_def)

lemma retired_neq [simp]:
  "RetiredWALName \<noteq> walName" "walName \<noteq> RetiredWALName" "RetiredWALName \<noteq> currentName"
  "currentName \<noteq> RetiredWALName" "RetiredWALName \<noteq> currentTmp" "currentTmp \<noteq> RetiredWALName"
  "RetiredWALName \<noteq> DataFile g" "DataFile g \<noteq> RetiredWALName" "RetiredWALName \<noteq> tmp_name g"
  "tmp_name g \<noteq> RetiredWALName"
  unfolding tmp_name_def
  by (simp add: RetiredWALName_def walName_def str_def, simp add: RetiredWALName_def walName_def str_def)
    (rule last_neq, simp)+

lemma tmp_neq [simp]:
  "tmp_name g \<noteq> walName" "walName \<noteq> tmp_name g" "tmp_name g \<noteq> currentName" "currentName \<noteq> tmp_name g"
  "tmp_name g \<noteq> DataFile h" "DataFile h \<noteq> tmp_name g"
  by (simp_all add: tmp_name_def)

lemma name_ok_retired [simp]: "name_ok RetiredWALName" "name_ok (tmp_name g)"
  by (simp_all add: tmp_name_def)
    (simp add: RetiredWALName_def name_ok_def HasPrefix_def dataPrefix_def str_def)

lemma Ext_retired [simp]: "Ext RetiredWALName \<noteq> tmpExt" "Ext (tmp_name g) = tmpExt"
  by (simp_all add: tmp_name_def) (simp add: Ext_def RetiredWALName_def tmpExt_def str_def)

text \<open>Only four files count.\<close>

lemma ReadCurrent_cong: "fs_get fs' currentName = fs_get fs currentName \<Longrightarrow> ReadCurrent fs' = ReadCurrent fs"
  by (simp add: ReadCurrent_def)

lemma dir_has_frame:
  assumes "dir_has cd fuel fs st"
    "\<forall>p\<in>{currentName, DataFile (ds_gen st), RetiredWALName, walName}. fs_get fs' p = fs_get fs p"
    "\<forall>p. fs_get fs' p \<noteq> None \<longrightarrow> name_ok p"
  shows "dir_has cd fuel fs' st"
  using assms ReadCurrent_cong [of fs' fs] by (simp add: dir_has_def log_at_def)

lemma dir_has_names: "dir_has cd fuel fs st \<Longrightarrow> fs_get fs p \<noteq> None \<Longrightarrow> name_ok p"
  by (simp add: dir_has_def)

text \<open>A log that is folded in adds nothing.\<close>

lemma max_tx_ge: "base \<le> max_tx base rs \<and> (\<forall>r\<in>set rs. fst r \<le> max_tx base rs)"
proof (induction rs arbitrary: base)
  case Nil
  then show ?case by (simp add: max_tx_def)
next
  case (Cons r rs)
  have "max_tx base (r # rs) = max_tx (max (fst r) base) rs" by (simp add: max_tx_def)
  with Cons.IH [of "max (fst r) base"] show ?case by auto
qed

lemma max_tx_id: "\<forall>r\<in>set rs. fst r \<le> base \<Longrightarrow> max_tx base rs = base"
  by (induction rs) (auto simp: max_tx_def max_def)

lemma entries_above_id: "\<forall>r\<in>set rs. fst r \<le> base \<Longrightarrow> entries_above cd base rs = Inr []"
  by (induction rs) auto

lemma log_entries_folded: "log_entries cd a f es a' \<Longrightarrow> log_entries cd a' f [] a'"
  using max_tx_ge by (fastforce simp: log_entries_def entries_above_id max_tx_id)

lemma log_at_folded: "log_at cd a fs p es a' \<Longrightarrow> log_at cd a' fs p [] a'"
  by (auto simp: log_at_def log_entries_folded split: option.splits)

lemma log_entries_empty: "log_entries cd a [] [] a"
proof -
  have "wal_read [] = ([], 0, ErrEOF)"
    by (simp add: wal_read_def wal_read_from.simps wal_Next_def)
  then show ?thesis by (auto simp: log_entries_def max_tx_def)
qed

section \<open>Crashes during a build\<close>

text \<open>
  Until \<^verbatim>\<open>CURRENT\<close> is renamed the directory has what it had; from then on it has the new generation,
  into which the retired log is folded.
\<close>

definition ds_built :: "dir_state \<Rightarrow> (bytes \<times> bytes) list \<Rightarrow> dir_state" where
  "ds_built st ms = st\<lparr>ds_gen := ds_gen st + 1, ds_kvs := ms, ds_applied := ds_mid st, ds_retired := []\<rparr>"

text \<open>Rotating the log makes the active log the retired one.\<close>

definition ds_rotated :: "dir_state \<Rightarrow> dir_state" where
  "ds_rotated st = st\<lparr>ds_retired := ds_active st, ds_mid := ds_last st, ds_active := []\<rparr>"

text \<open>
  What checkpoints and recovery do to the state of a directory is rotating the log and building the
  next generation; an invariant of the state that both keep is kept by every crash.
\<close>

locale dir_invariant =
  fixes I :: "dir_state \<Rightarrow> bool"
  assumes rotated: "I st \<Longrightarrow> ds_retired st = [] \<Longrightarrow> I (ds_rotated st)"
    and built: "I st \<Longrightarrow> map_of ms = ds_folded st \<Longrightarrow> I (ds_built st ms)"

interpretation any: dir_invariant "\<lambda>_. True"
  by unfold_locales simp_all

lemma ds_built_db: "map_of ms = ds_folded st \<Longrightarrow> ds_db (ds_built st ms) = ds_db st"
  by (simp add: ds_db_def ds_folded_def ds_built_def)

lemma gen_Suc_neq: "(g :: u64) + 1 \<noteq> g" "g \<noteq> g + 1"
  by simp_all

lemma build_run:
  assumes "dir_has cd fuel fs st" "data_holds nf (ds_mid st) ms" "kvs_ok fuel ms" "map_of ms = ds_folded st"
  shows "dir_has cd fuel (fs_run (build_steps (ds_gen st + 1) nf) fs) (ds_built st ms)"
    "\<forall>p. p \<notin> {tmp_name (ds_gen st + 1), DataFile (ds_gen st + 1), currentTmp, currentName} \<longrightarrow>
      fs_get (fs_run (build_steps (ds_gen st + 1) nf) fs) p = fs_get fs p"
    "fs_get (fs_run (build_steps (ds_gen st + 1) nf) fs) (DataFile (ds_gen st + 1)) = Some nf"
proof -
  let ?fs = "fs_run (build_steps (ds_gen st + 1) nf) fs"
  have get: "fs_get ?fs p =
      (if p = currentName then Some (dec (unat (ds_gen st + 1)) @ [10])
       else if p = currentTmp \<or> p = tmp_name (ds_gen st + 1) then None
       else if p = DataFile (ds_gen st + 1) then Some nf else fs_get fs p)" for p
    by (simp add: build_steps_def WriteCurrent_def)
  then show "\<forall>p. p \<notin> {tmp_name (ds_gen st + 1), DataFile (ds_gen st + 1), currentTmp, currentName} \<longrightarrow>
      fs_get ?fs p = fs_get fs p" by simp
  show "fs_get ?fs (DataFile (ds_gen st + 1)) = Some nf" by (simp add: get)
  have cur: "ReadCurrent ?fs = Inr (ds_gen st + 1)" by (rule ReadCurrent_dec) (simp add: get)
  have fold: "ds_folded (ds_built st ms) = ds_folded st"
    using assms(4) by (simp add: ds_folded_def ds_built_def)
  have "log_at cd (ds_mid st) ?fs RetiredWALName [] (ds_mid st)"
    using assms(1) log_at_folded [of cd _ fs RetiredWALName] by (auto simp: dir_has_def log_at_def get)
  moreover have "log_at cd (ds_mid st) ?fs walName (ds_active st) (ds_last st)"
    using assms(1) by (simp add: dir_has_def log_at_def get)
  moreover have "name_ok p" if "fs_get ?fs p \<noteq> None" for p
    using that dir_has_names [OF assms(1), of p] by (auto simp: get split: if_splits)
  ultimately show "dir_has cd fuel ?fs (ds_built st ms)"
    using assms fold cur ds_built_db [OF assms(4)]
    by (simp add: dir_has_def) (simp add: ds_built_def get)
qed

lemma build_unpublished:
  assumes "dir_has cd fuel fs st"
    "\<forall>p. p \<notin> {tmp_name (ds_gen st + 1), DataFile (ds_gen st + 1), currentTmp} \<longrightarrow> fs_get fs' p = fs_get fs p"
  shows "dir_has cd fuel fs' st"
proof (rule dir_has_frame [OF assms(1)])
  let ?g = "ds_gen st + 1"
  show "\<forall>p\<in>{currentName, DataFile (ds_gen st), RetiredWALName, walName}. fs_get fs' p = fs_get fs p"
    using assms(2) by simp
  have "name_ok p" if "p \<in> {tmp_name ?g, DataFile ?g, currentTmp} \<or> fs_get fs p \<noteq> None" for p
    using that dir_has_names [OF assms(1)] by auto
  then show "\<forall>p. fs_get fs' p \<noteq> None \<longrightarrow> name_ok p" using assms(2) by metis
qed

context dir_invariant
begin

lemma build_crashed:
  assumes "dir_has cd fuel fs st" "data_holds nf (ds_mid st) ms" "kvs_ok fuel ms" "map_of ms = ds_folded st"
    "crashed (build_steps (ds_gen st + 1) nf) fs fs'" "I st"
  shows "dir_db_of I cd fuel fs' (ds_db st)"
proof -
  let ?g = "ds_gen st + 1"
  consider (fin) "fs' = fs_run (build_steps ?g nf) fs"
    | (same) "\<forall>p. p \<notin> {tmp_name ?g, DataFile ?g, currentTmp} \<longrightarrow> fs_get fs' p = fs_get fs p"
    using assms(5) by (auto simp: build_steps_def WriteCurrent_def)
  then show ?thesis
  proof cases
    case fin
    with build_run(1) [OF assms(1-4)] ds_built_db [OF assms(4)] built [OF assms(6,4)] show ?thesis
      by (auto simp: dir_db_of_def)
  next
    case same
    have "dir_has cd fuel fs' st" by (rule build_unpublished [OF assms(1) same])
    then show ?thesis using assms(6) by (auto simp: dir_db_of_def)
  qed
qed

end

lemma dir_has_build:
  assumes "dir_has cd fuel fs st" "fs_get fs RetiredWALName = Some rf"
  shows "\<exists>nf ms. BuildGeneration cd fuel fs (ds_gen st) (ds_gen st + 1) RetiredWALName =
      (build_steps (ds_gen st + 1) nf, Inr (ds_mid st)) \<and>
    data_holds nf (ds_mid st) ms \<and> kvs_ok fuel ms \<and> map_of ms = ds_folded st"
proof -
  from assms obtain bf where "fs_get fs (DataFile (ds_gen st)) = Some bf"
    "data_holds bf (ds_applied st) (ds_kvs st)" "kvs_ok fuel (ds_kvs st)"
    "log_entries cd (ds_applied st) rf (ds_retired st) (ds_mid st)"
    "db_ok fuel (fold entry_apply (ds_retired st) (map_of (ds_kvs st)))"
    by (auto simp: dir_has_def log_at_def ds_folded_def)
  from BuildGeneration_law [OF this(1,2,3) assms(2) this(4,5)] show ?thesis
    by (simp add: ds_folded_def)
qed

section \<open>A whole checkpoint\<close>

lemma ds_rotated_db: "ds_retired st = [] \<Longrightarrow> ds_db (ds_rotated st) = ds_db st \<and> ds_folded (ds_rotated st) = ds_db st"
  by (simp add: ds_rotated_def ds_db_def ds_folded_def)

lemma dir_has_no_retired:
  "dir_has cd fuel fs st \<Longrightarrow> fs_get fs RetiredWALName = None \<Longrightarrow> ds_retired st = [] \<and> ds_mid st = ds_applied st"
  by (simp add: dir_has_def log_at_def)

lemma rotate_run:
  assumes "dir_has cd fuel fs st" "fs_get fs RetiredWALName = None" "fs_get fs walName = Some wl"
    "fs' = fs_do (FRename walName RetiredWALName) fs \<or> fs' = fs_run (rotate_steps walName RetiredWALName) fs"
  shows "dir_has cd fuel fs' (ds_rotated st)"
proof -
  note nr = dir_has_no_retired [OF assms(1,2)]
  have get: "fs_get fs' RetiredWALName = Some wl" "fs_get fs' walName = None \<or> fs_get fs' walName = Some []"
    "\<And>p. p \<noteq> RetiredWALName \<Longrightarrow> p \<noteq> walName \<Longrightarrow> fs_get fs' p = fs_get fs p"
    using assms(3,4) by (auto simp: rotate_steps_def fs_contents_def)
  have "log_at cd (ds_last st) fs' walName [] (ds_last st)"
    using get(2) log_entries_empty by (auto simp: log_at_def)
  moreover have "log_at cd (ds_applied st) fs' RetiredWALName (ds_active st) (ds_last st)"
    using assms(1,3) nr get(1) by (simp add: dir_has_def log_at_def)
  moreover have "name_ok p" if "fs_get fs' p \<noteq> None" for p
    using that get(3) [of p] dir_has_names [OF assms(1)] by (cases "p = RetiredWALName \<or> p = walName") auto
  moreover have "ReadCurrent fs' = ReadCurrent fs" by (rule ReadCurrent_cong) (simp add: get(3))
  ultimately show ?thesis
    using assms(1) ds_rotated_db [OF conjunct1 [OF nr]]
    by (simp add: dir_has_def get(3)) (simp add: ds_rotated_def get(3))
qed

lemma remove_retired:
  assumes "dir_has cd fuel fs st" "ds_retired st = []" "ds_mid st = ds_applied st"
  shows "dir_has cd fuel (fs_del RetiredWALName fs) st"
proof -
  have "name_ok p" if "fs_get (fs_del RetiredWALName fs) p \<noteq> None" for p
    using that dir_has_names [OF assms(1)] by (simp split: if_splits)
  moreover have "ReadCurrent (fs_del RetiredWALName fs) = ReadCurrent fs" by (rule ReadCurrent_cong) simp
  ultimately show ?thesis using assms by (simp add: dir_has_def log_at_def)
qed

text \<open>Removing generations other than the current one changes nothing.\<close>

lemma remove_gens:
  assumes "dir_has cd fuel fs st" "ds_gen st \<notin> set gs" "fs' = fs_run (map (\<lambda>g. FRemove (DataFile g)) gs) fs"
  shows "dir_has cd fuel fs' st"
proof -
  have get: "fs_get fs' p = (if p \<in> DataFile ` set gs then None else fs_get fs p)" for p
    using fs_get_run_removes [of "map DataFile gs" fs p] assms(3) by (simp add: comp_def)
  show ?thesis
  proof (rule dir_has_frame [OF assms(1)])
    show "\<forall>p\<in>{currentName, DataFile (ds_gen st), RetiredWALName, walName}. fs_get fs' p = fs_get fs p"
      using assms(2) by (auto simp: get)
    show "\<forall>p. fs_get fs' p \<noteq> None \<longrightarrow> name_ok p"
      using dir_has_names [OF assms(1)] by (auto simp: get split: if_splits)
  qed
qed

lemma crashed_remove_gens:
  assumes "dir_has cd fuel fs st" "ds_gen st \<notin> set gs" "crashed (map (\<lambda>g. FRemove (DataFile g)) gs) fs fs'"
  shows "dir_has cd fuel fs' st"
proof -
  have eq: "map (\<lambda>g. FRemove (DataFile g)) xs = map FRemove (map DataFile xs)" for xs by simp
  from assms(3) obtain n where "fs' = fs_run (map FRemove (take n (map DataFile gs))) fs"
    unfolding eq using crashed_removes by blast
  then have n: "fs' = fs_run (map (\<lambda>g. FRemove (DataFile g)) (take n gs)) fs"
    unfolding eq by (simp only: take_map)
  have "ds_gen st \<notin> set (take n gs)" using assms(2) by (meson in_set_takeD)
  from remove_gens [OF assms(1) this n] show ?thesis .
qed

lemma dir_has_gens:
  "dir_has cd fuel fs st \<Longrightarrow> ListGenerations fs = Inr (sort (gens_of (fs_names fs)))"
  by (rule ListGenerations_ok) (auto dest: dir_has_names)

context dir_invariant
begin

text \<open>A checkpoint from where the log has been rotated.\<close>

lemma checkpoint_rotated:
  assumes "ReadCurrent fs = Inr (ds_gen st1)" "fs1 = fs_run (rotate_steps walName RetiredWALName) fs"
    "dir_has cd fuel fs1 st1" "fs_get fs1 RetiredWALName = Some wl" "fs_get fs1 walName = Some []" "I st1"
  shows "\<exists>steps snap ms. checkpoint_Run cd fuel fs =
      (rotate_steps walName RetiredWALName @ steps, Inr (ds_gen st1 + 1, ds_mid st1, snap)) \<and>
    (\<forall>fs'. crashed steps fs1 fs' \<longrightarrow> dir_db_of I cd fuel fs' (ds_db st1)) \<and>
    map_of ms = ds_folded st1 \<and> kvs_ok fuel ms \<and>
    (\<exists>D h. h \<le> length ms \<and> tree_of (snap_ReadPage (sn_data snap)) D h (sn_root snap) ms) \<and>
    I (ds_built st1 ms) \<and> dir_has cd fuel (fs_run steps fs1) (ds_built st1 ms) \<and>
    fs_get (fs_run steps fs1) RetiredWALName = None \<and> fs_get (fs_run steps fs1) walName = Some []"
proof -
  let ?g = "ds_gen st1 + 1"
  define s1 where "s1 = rotate_steps walName RetiredWALName"
  note h1 = assms(3)
  from dir_has_build [OF h1 assms(4)] obtain nf ms where
    b: "BuildGeneration cd fuel fs1 (ds_gen st1) ?g RetiredWALName = (build_steps ?g nf, Inr (ds_mid st1))"
      "data_holds nf (ds_mid st1) ms" "kvs_ok fuel ms" "map_of ms = ds_folded st1" by auto
  define s2 where "s2 = build_steps ?g nf"
  define fs2 where "fs2 = fs_run s2 fs1"
  note run = build_run [OF h1 b(2-4)]
  have h2: "dir_has cd fuel fs2 (ds_built st1 ms)" using run(1) by (simp add: fs2_def s2_def)
  have g2: "fs_get fs2 (DataFile ?g) = Some nf" "fs_get fs2 walName = Some []"
    using run(2,3) assms(5) by (simp_all add: fs2_def s2_def)
  from data_holds_snapshot [OF b(2)] obtain snap h D where snap: "openSnapshot nf = Inr snap"
    "h \<le> length ms" "tree_of (snap_ReadPage (sn_data snap)) D h (sn_root snap) ms" by blast
  have i2: "I (ds_built st1 ms)" using assms(6) b(4) by (rule built)
  define fs3 where "fs3 = fs_del RetiredWALName fs2"
  have built: "ds_retired (ds_built st1 ms) = []" "ds_mid (ds_built st1 ms) = ds_applied (ds_built st1 ms)"
    "ds_gen (ds_built st1 ms) = ?g" by (simp_all add: ds_built_def)
  have h3: "dir_has cd fuel fs3 (ds_built st1 ms)"
    unfolding fs3_def using h2 built(1,2) by (rule remove_retired)
  define gs where "gs = filter (\<lambda>g. g < ?g) (sort (gens_of (fs_names fs3)))"
  define s4 where "s4 = map (\<lambda>g. FRemove (DataFile g)) gs"
  have clean: "cleanupOldGenerations fs3 ?g = Inr s4"
    by (simp add: cleanupOldGenerations_def dir_has_gens [OF h3] s4_def gs_def)
  have gs: "ds_gen (ds_built st1 ms) \<notin> set gs" using built(3) by (simp add: gs_def)
  define steps where "steps = s2 @ [FRemove RetiredWALName] @ s4"
  have fs: "fs_run (s1 @ s2) fs = fs2" "fs_run (s1 @ s2 @ [FRemove RetiredWALName]) fs = fs3" "fs_run s1 fs = fs1"
    by (simp_all add: fs_run_append assms(2) fs2_def fs3_def s1_def)
  have "fs_contents fs2 (DataFile ?g) = nf" by (simp add: fs_contents_def g2)
  then have run_steps: "checkpoint_Run cd fuel fs = (s1 @ steps, Inr (?g, ds_mid st1, snap))"
    using assms(1) b(1) snap(1) clean fs
    by (simp add: checkpoint_Run_def Let_def steps_def flip: s1_def s2_def)
  have crash: "dir_db_of I cd fuel fs' (ds_db st1)" if "crashed steps fs1 fs'" for fs'
  proof -
    from that consider "crashed s2 fs1 fs'" | "crashed [FRemove RetiredWALName] fs2 fs'" | "crashed s4 fs3 fs'"
      by (auto simp: steps_def crashed_append fs2_def fs3_def)
    then show ?thesis
    proof cases
      case 1
      then show ?thesis using build_crashed [OF h1 b(2-4) _ assms(6)] by (simp add: s2_def)
    next
      case 2
      then have "fs' = fs2 \<or> fs' = fs3" by (auto simp: fs3_def)
      then show ?thesis using h2 h3 i2 ds_built_db [OF b(4)] by (auto simp: dir_db_of_def)
    next
      case 3
      then show ?thesis
        using crashed_remove_gens [OF h3 gs] i2 ds_built_db [OF b(4)] by (auto simp: dir_db_of_def s4_def)
    qed
  qed
  have fin: "fs_run steps fs1 = fs_run s4 fs3"
    by (simp add: steps_def fs_run_append fs2_def fs3_def)
  have "dir_has cd fuel (fs_run s4 fs3) (ds_built st1 ms)"
    using h3 gs by (rule remove_gens) (simp add: s4_def)
  moreover have "fs_get (fs_run s4 fs3) p = fs_get fs3 p" if "\<forall>g. p \<noteq> DataFile g" for p
    using that fs_get_run_removes [of "map DataFile gs" fs3 p] by (auto simp: s4_def comp_def)
  then have "fs_get (fs_run s4 fs3) RetiredWALName = None" "fs_get (fs_run s4 fs3) walName = Some []"
    using g2(2) by (simp_all add: fs3_def)
  ultimately show ?thesis using run_steps crash snap b(3,4) i2 unfolding fin [symmetric] s1_def
    by (intro exI [of _ steps] exI [of _ snap] exI [of _ ms] conjI) blast+
qed

lemma checkpoint_Run_law:
  assumes "dir_has cd fuel fs st" "fs_get fs RetiredWALName = None" "fs_get fs walName = Some wl" "I st"
  shows "\<exists>steps snap ms. checkpoint_Run cd fuel fs = (steps, Inr (ds_gen st + 1, ds_last st, snap)) \<and>
    (\<forall>fs'. crashed steps fs fs' \<longrightarrow> dir_db_of I cd fuel fs' (ds_db st)) \<and>
    map_of ms = ds_db st \<and> kvs_ok fuel ms \<and>
    (\<exists>D h. h \<le> length ms \<and> tree_of (snap_ReadPage (sn_data snap)) D h (sn_root snap) ms) \<and>
    I \<lparr>ds_gen = ds_gen st + 1, ds_kvs = ms, ds_applied = ds_last st,
      ds_retired = [], ds_mid = ds_last st, ds_active = [], ds_last = ds_last st\<rparr> \<and>
    dir_has cd fuel (fs_run steps fs) \<lparr>ds_gen = ds_gen st + 1, ds_kvs = ms, ds_applied = ds_last st,
      ds_retired = [], ds_mid = ds_last st, ds_active = [], ds_last = ds_last st\<rparr> \<and>
    fs_get (fs_run steps fs) RetiredWALName = None \<and> fs_get (fs_run steps fs) walName = Some []"
proof -
  let ?s1 = "rotate_steps walName RetiredWALName" and ?st1 = "ds_rotated st"
  let ?fs1 = "fs_run ?s1 fs"
  note nr = dir_has_no_retired [OF assms(1,2)]
  have db1: "ds_db ?st1 = ds_db st" "ds_folded ?st1 = ds_db st" using ds_rotated_db nr by simp_all
  have st1: "ds_gen ?st1 = ds_gen st" "ds_mid ?st1 = ds_last st" by (simp_all add: ds_rotated_def)
  have i1: "I ?st1" using rotated [OF assms(4)] nr by simp
  have h1: "dir_has cd fuel ?fs1 ?st1" using rotate_run [OF assms(1-3)] by simp
  have g1: "fs_get ?fs1 RetiredWALName = Some wl" "fs_get ?fs1 walName = Some []"
    using assms(3) by (simp_all add: rotate_steps_def fs_contents_def)
  have cur: "ReadCurrent fs = Inr (ds_gen ?st1)" using assms(1) by (simp add: dir_has_def st1)
  from checkpoint_rotated [OF cur refl h1 g1 i1] obtain steps snap ms where
    c: "checkpoint_Run cd fuel fs = (?s1 @ steps, Inr (ds_gen st + 1, ds_last st, snap))"
      "\<forall>fs'. crashed steps ?fs1 fs' \<longrightarrow> dir_db_of I cd fuel fs' (ds_db st)" "map_of ms = ds_db st" "kvs_ok fuel ms"
      "\<exists>D h. h \<le> length ms \<and> tree_of (snap_ReadPage (sn_data snap)) D h (sn_root snap) ms"
      "I (ds_built ?st1 ms)" "dir_has cd fuel (fs_run steps ?fs1) (ds_built ?st1 ms)"
      "fs_get (fs_run steps ?fs1) RetiredWALName = None" "fs_get (fs_run steps ?fs1) walName = Some []"
    unfolding st1 db1 by blast
  have "dir_db_of I cd fuel fs' (ds_db st)" if "crashed (?s1 @ steps) fs fs'" for fs'
  proof -
    from that consider "crashed ?s1 fs fs'" | "crashed steps ?fs1 fs'" unfolding crashed_append by blast
    then show ?thesis
    proof cases
      case 1
      then have "fs' = fs \<or> fs' = fs_do (FRename walName RetiredWALName) fs \<or> fs' = ?fs1"
        by (auto simp: rotate_steps_def)
      then show ?thesis
        using assms(1) rotate_run [OF assms(1-3)] db1 h1 assms(4) i1 by (auto simp: dir_db_of_def)
    qed (use c(2) in blast)
  qed
  moreover have "ds_built ?st1 ms = \<lparr>ds_gen = ds_gen st + 1, ds_kvs = ms, ds_applied = ds_last st,
      ds_retired = [], ds_mid = ds_last st, ds_active = [], ds_last = ds_last st\<rparr>"
    by (cases st) (simp add: ds_built_def ds_rotated_def)
  ultimately show ?thesis using c
    by (intro exI [of _ "?s1 @ steps"] exI [of _ snap] exI [of _ ms] conjI) (simp_all add: fs_run_append)
qed

end

section \<open>Commits\<close>

lemma entries_above_append:
  "entries_above cd a rs = Inr es \<Longrightarrow> a < tx \<Longrightarrow> cd_unmarshal cd p = Inr e \<Longrightarrow>
   entries_above cd a (rs @ [(tx, p)]) = Inr (es @ [e])"
proof (induction rs arbitrary: es)
  case Nil
  then show ?case by (simp add: not_le)
next
  case (Cons r rs)
  obtain tx' p' where "r = (tx', p')" by (cases r)
  with Cons show ?case by (auto simp: bindE_Inr_iff)
qed

lemma max_tx_append: "max_tx a (rs @ [(tx, p)]) = max tx (max_tx a rs)"
  by (simp add: max_tx_def)

text \<open>A log that ends where its last record ends.\<close>

definition clean_log :: "bytes \<Rightarrow> bool" where
  "clean_log f \<longleftrightarrow> snd (snd (wal_read f)) = ErrEOF"

lemma clean_logE: "clean_log f \<Longrightarrow> (\<And>rs off. wal_read f = (rs, off, ErrEOF) \<Longrightarrow> P) \<Longrightarrow> P"
  by (cases "wal_read f") (auto simp: clean_log_def)

lemma log_entries_append:
  assumes "log_entries cd a f es a'" "clean_log f" "length p \<le> MaxRecordLen" "cd_unmarshal cd p = Inr e" "a' < tx"
  shows "log_entries cd a (f @ wal_record tx p) (es @ [e]) tx \<and> clean_log (f @ wal_record tx p)"
proof -
  obtain rs off where f: "wal_read f = (rs, off, ErrEOF)" using assms(2) by (rule clean_logE)
  with assms(1) have es: "entries_above cd a rs = Inr es" "a' = max_tx a rs" by (auto simp: log_entries_def)
  have "a < tx" using max_tx_ge [of a rs] assms(5) es(2) by auto
  from wal_read_append [OF f assms(3), of tx] entries_above_append [OF es(1) this assms(4)] es(2) assms(5)
  show ?thesis by (auto simp: log_entries_def clean_log_def max_tx_append max_def)
qed

lemma log_entries_torn:
  assumes "log_entries cd a f es a'" "clean_log f" "length p \<le> MaxRecordLen" "n < length (wal_record tx p)"
  shows "log_entries cd a (f @ take n (wal_record tx p)) es a'"
proof -
  obtain rs off where f: "wal_read f = (rs, off, ErrEOF)" using assms(2) by (rule clean_logE)
  from wal_read_append_torn [OF f assms(3,4)] f assms(1) show ?thesis by (auto simp: log_entries_def)
qed

definition ds_commit :: "dir_state \<Rightarrow> u64 \<Rightarrow> WALEntry \<Rightarrow> dir_state" where
  "ds_commit st tx e = st\<lparr>ds_active := ds_active st @ [e], ds_last := tx\<rparr>"

lemma ds_commit_db [simp]: "ds_db (ds_commit st tx e) = entry_apply e (ds_db st)"
  "ds_folded (ds_commit st tx e) = ds_folded st"
  by (simp_all add: ds_commit_def ds_db_def ds_folded_def)

lemma dir_has_wal:
  assumes "dir_has cd fuel fs st" "log_entries cd (ds_mid st) f es a'"
    "db_ok fuel (fold entry_apply es (ds_folded st))"
  shows "dir_has cd fuel (fs_put walName f fs) (st\<lparr>ds_active := es, ds_last := a'\<rparr>)"
proof -
  have "name_ok p" if "fs_get (fs_put walName f fs) p \<noteq> None" for p
    using that dir_has_names [OF assms(1)] by (cases "p = walName") auto
  moreover have "ReadCurrent (fs_put walName f fs) = ReadCurrent fs" by (rule ReadCurrent_cong) simp
  ultimately show ?thesis using assms by (simp add: dir_has_def log_at_def ds_db_def ds_folded_def)
qed

lemma append_law:
  assumes "dir_has cd fuel fs st" "fs_get fs walName = Some wl" "clean_log wl"
    "length p \<le> MaxRecordLen" "cd_unmarshal cd p = Inr e" "ds_last st < tx"
    "db_ok fuel (entry_apply e (ds_db st))"
  shows "dir_has cd fuel (fs_do (FAppend walName (wal_record tx p)) fs) (ds_commit st tx e) \<and>
    clean_log (wl @ wal_record tx p) \<and>
    (n < length (wal_record tx p) \<longrightarrow>
      dir_has cd fuel (fs_put walName (wl @ take n (wal_record tx p)) fs) st)"
proof -
  have log: "log_entries cd (ds_mid st) wl (ds_active st) (ds_last st)"
    using assms(1,2) by (simp add: dir_has_def log_at_def)
  have ok: "db_ok fuel (fold entry_apply (ds_active st) (ds_folded st))"
    using assms(1) by (simp add: dir_has_def ds_db_def)
  note app = log_entries_append [OF log assms(3-6)]
  have "dir_has cd fuel (fs_put walName (wl @ wal_record tx p) fs) (ds_commit st tx e)"
    using dir_has_wal [OF assms(1) conjunct1 [OF app]] assms(7) by (simp add: ds_commit_def ds_db_def)
  moreover have "dir_has cd fuel (fs_put walName (wl @ take n (wal_record tx p)) fs) st"
    if "n < length (wal_record tx p)"
    using dir_has_wal [OF assms(1) log_entries_torn [OF log assms(3,4) that] ok] by simp
  ultimately show ?thesis using app assms(2) by (simp add: fs_contents_def)
qed

section \<open>A sample directory\<close>

text \<open>A fresh directory: an empty generation 0, an empty log.\<close>

definition fresh_state :: dir_state where
  "fresh_state = \<lparr>ds_gen = 0, ds_kvs = [], ds_applied = 0, ds_retired = [], ds_mid = 0,
     ds_active = [], ds_last = 0\<rparr>"

lemma db_ok_small:
  assumes "sorted_wrt (<) (map fst kvs)" "kvs_ok fuel kvs"
  shows "db_ok fuel (map_of kvs)"
  using assms by (auto simp: db_ok_def)

lemma fresh_dir:
  assumes "data_holds f 0 []" "0 < fuel"
  shows "dir_has cd fuel [(DataFile 0, f), (walName, []), (currentName, [48, 10])] fresh_state"
proof -
  let ?fs = "[(DataFile 0, f), (walName, []), (currentName, [48, 10])]"
  have "dec 0 = [48]" by (simp add: dec.simps)
  then have "ReadCurrent ?fs = Inr 0" by (intro ReadCurrent_dec) simp
  moreover have ok: "kvs_ok fuel []" using assms(2) by (simp add: kvs_ok_def enough_fuel_def mgr_cap_def)
  moreover have "db_ok fuel Map.empty" using db_ok_small [of "[]" fuel] ok by simp
  ultimately show ?thesis
    using assms log_entries_empty [of cd 0]
    by (auto simp: dir_has_def fresh_state_def log_at_def ds_db_def ds_folded_def split: if_splits)
qed

lemma fresh_file: "\<exists>m :: manager. data_holds (mgr_f m) 0 []"
  using mgr_Create_Inr by (elim exE conjE) (rule exI)

text \<open>The same after one object has been committed, with the codec of that one entry.\<close>

definition sample_put :: WALEntry where
  "sample_put = WALEntry OpPut [] [0x61] 1 [3] 0 []"

lemma clean_log_empty: "clean_log []"
  by (simp add: clean_log_def wal_read_def wal_read_from.simps wal_Next_def)

lemma sample_put_codec:
  "codec_law (one_codec sample_put) sample_put" "cd_marshal (one_codec sample_put) sample_put = Inr [1]"
  "cd_unmarshal (one_codec sample_put) [1] = Inr sample_put"
  by (simp_all add: codec_law_def one_codec_def)

lemma sample_put_db: "entry_apply sample_put (ds_db fresh_state) = map_of [(ObjectKey [] [0x61] 1, [3])]"
  by (simp add: sample_put_def entry_apply_def e_Flatten_def sub_apply_def e_Key_def op_defs fresh_state_def
      ds_db_def ds_folded_def)

lemma sample_put_ok: "db_ok 9 (entry_apply sample_put (ds_db fresh_state))"
  unfolding sample_put_db by (rule db_ok_small)
    (simp_all add: kvs_ok_def mgr_cap_def maxKeyLen_def enough_fuel_def ObjectKey_def scope_def)

lemma sample_dir:
  "\<exists>fs. dir_has (one_codec sample_put) 9 fs (ds_commit fresh_state 1 sample_put) \<and>
     fs_get fs RetiredWALName = None \<and> fs_get fs walName = Some (wal_record 1 [1]) \<and>
     clean_log (wal_record 1 [1])"
proof -
  from fresh_file obtain m :: manager where "data_holds (mgr_f m) 0 []" ..
  then have dir: "dir_has (one_codec sample_put) 9
      [(DataFile 0, mgr_f m), (walName, []), (currentName, [48, 10])] fresh_state" (is "dir_has _ _ ?fs _")
    by (rule fresh_dir) simp
  have "length [1::byte] \<le> MaxRecordLen" "ds_last fresh_state < 1"
    by (simp_all add: MaxRecordLen_def push_bit_eq_mult fresh_state_def)
  from append_law [OF dir _ clean_log_empty this(1) sample_put_codec(3) this(2) sample_put_ok]
  show ?thesis
    by (intro exI [of _ "fs_do (FAppend walName (wal_record 1 [1])) ?fs"])
      (simp add: fs_contents_def)
qed

section \<open>Properties\<close>

text \<open>
  C6: a checkpoint is invisible and crash-safe. From a directory that stands for a database, a
  checkpoint succeeds; whenever it is cut short by a crash, at any step and with any junk in the file
  being written, the directory still stands for the same database; afterwards the log is empty, the
  retired log is gone, and the snapshot it installs answers every lookup as the database does.
\<close>

theorem checkpoint_crash_safe:
  assumes "dir_has cd fuel fs st" "fs_get fs RetiredWALName = None" "fs_get fs walName = Some wl"
  shows "\<exists>steps snap. checkpoint_Run cd fuel fs = (steps, Inr (ds_gen st + 1, ds_last st, snap)) \<and>
    (\<forall>fs'. crashed steps fs fs' \<longrightarrow> dir_db cd fuel fs' (ds_db st)) \<and>
    dir_db cd fuel (fs_run steps fs) (ds_db st) \<and>
    fs_get (fs_run steps fs) walName = Some [] \<and> fs_get (fs_run steps fs) RetiredWALName = None \<and>
    (\<forall>key. snap_Get fuel snap key = Inr (ds_db st key))"
proof -
  from any.checkpoint_Run_law [OF assms TrueI, unfolded dir_db_of_True] obtain steps snap ms D h where
    c: "checkpoint_Run cd fuel fs = (steps, Inr (ds_gen st + 1, ds_last st, snap))"
      "\<forall>fs'. crashed steps fs fs' \<longrightarrow> dir_db cd fuel fs' (ds_db st)" "map_of ms = ds_db st" "kvs_ok fuel ms"
      "h \<le> length ms" "tree_of (snap_ReadPage (sn_data snap)) D h (sn_root snap) ms"
      "dir_has cd fuel (fs_run steps fs) \<lparr>ds_gen = ds_gen st + 1, ds_kvs = ms, ds_applied = ds_last st,
        ds_retired = [], ds_mid = ds_last st, ds_active = [], ds_last = ds_last st\<rparr>"
      "fs_get (fs_run steps fs) RetiredWALName = None" "fs_get (fs_run steps fs) walName = Some []"
    by blast
  have "enough_fuel fuel h ms" using c(4,5) by (simp add: kvs_ok_def enough_fuel_def)
  then have "snap_Get fuel snap key = Inr (ds_db st key)" for key
    using btree_Get_correct [OF c(6)] c(3) by (simp add: snap_Get_def)
  moreover have "dir_db cd fuel (fs_run steps fs) (ds_db st)"
    unfolding dir_db_def using c(3,7) by (intro exI conjI) (assumption, simp add: ds_db_def ds_folded_def)
  ultimately show ?thesis using c by blast
qed

theorem checkpoint_crash_safe_witness:
  "\<exists>fs steps snap. fs_get fs walName = Some [] \<and>
     checkpoint_Run (one_codec (WALEntry OpPut [] [0x61] 1 [3] 0 [])) 1 fs = (steps, Inr (1, 0, snap)) \<and>
     (\<forall>fs'. crashed steps fs fs' \<longrightarrow> dir_db (one_codec (WALEntry OpPut [] [0x61] 1 [3] 0 [])) 1 fs' Map.empty)"
proof -
  from fresh_file obtain m :: manager where "data_holds (mgr_f m) 0 []" ..
  then have "dir_has (one_codec (WALEntry OpPut [] [0x61] 1 [3] 0 [])) 1
      [(DataFile 0, mgr_f m), (walName, []), (currentName, [48, 10])] fresh_state"
    by (rule fresh_dir) simp
  from checkpoint_crash_safe [OF this] show ?thesis
    by (intro exI [of _ "[(DataFile 0, mgr_f m), (walName, []), (currentName, [48, 10])]"])
      (auto simp: fresh_state_def ds_db_def ds_folded_def)
qed

text \<open>
  A commit is atomic. Appending the record of an entry, which may be a batch, either happens or
  does not: a crash in the middle of the write leaves a directory that stands for the database
  before the entry or for the database after all of it.
\<close>

theorem commit_atomic:
  assumes "dir_has cd fuel fs st" "fs_get fs walName = Some wl" "clean_log wl" "codec_law cd e"
    "cd_marshal cd e = Inr p" "length p \<le> MaxRecordLen" "ds_last st < tx"
    "db_ok fuel (entry_apply e (ds_db st))"
  shows "dir_db cd fuel (fs_do (FAppend walName (wal_record tx p)) fs) (entry_apply e (ds_db st)) \<and>
    (\<forall>fs'. crashed [FAppend walName (wal_record tx p)] fs fs' \<longrightarrow>
      dir_db cd fuel fs' (ds_db st) \<or> dir_db cd fuel fs' (entry_apply e (ds_db st)))"
proof -
  have dec: "cd_unmarshal cd p = Inr e" using assms(4,5) by (simp add: codec_law_def)
  note app = append_law [OF assms(1-3,6) dec assms(7,8)]
  let ?fs = "fs_do (FAppend walName (wal_record tx p)) fs"
  have after: "dir_db cd fuel ?fs (entry_apply e (ds_db st))"
    using app by (auto simp: dir_db_def intro!: exI [of _ "ds_commit st tx e"])
  moreover have "dir_db cd fuel fs' (ds_db st) \<or> dir_db cd fuel fs' (entry_apply e (ds_db st))"
    if crash: "crashed [FAppend walName (wal_record tx p)] fs fs'" for fs'
  proof -
    from crash consider "fs' = fs" | "fs' = ?fs"
      | n where "fs' = fs_put walName (wl @ take n (wal_record tx p)) fs"
      using assms(2) by (auto simp: fs_contents_def)
    then show ?thesis
    proof cases
      case 1
      then show ?thesis using assms(1) by (auto simp: dir_db_def)
    next
      case 2
      then show ?thesis using after by simp
    next
      case (3 n)
      show ?thesis
      proof (cases "n < length (wal_record tx p)")
        case True
        then show ?thesis using append_law [OF assms(1-3,6) dec assms(7,8), of n] 3 by (auto simp: dir_db_def)
      next
        case False
        then show ?thesis using after 3 assms(2) by (simp add: fs_contents_def)
      qed
    qed
  qed
  ultimately show ?thesis by blast
qed

theorem commit_atomic_witness:
  "\<exists>fs. \<forall>fs'. crashed [FAppend walName (wal_record 1 [1])] fs fs' \<longrightarrow>
     dir_db (one_codec sample_put) 9 fs' Map.empty \<or>
     dir_db (one_codec sample_put) 9 fs' [ObjectKey [] [0x61] 1 \<mapsto> [3]]"
proof -
  from fresh_file obtain m :: manager where "data_holds (mgr_f m) 0 []" ..
  then have dir: "dir_has (one_codec sample_put) 9
      [(DataFile 0, mgr_f m), (walName, []), (currentName, [48, 10])] fresh_state"
    by (rule fresh_dir) simp
  from commit_atomic [OF dir _ clean_log_empty sample_put_codec(1,2) _ _ sample_put_ok, of 1] sample_put_db
  show ?thesis
    by (intro exI [of _ "[(DataFile 0, mgr_f m), (walName, []), (currentName, [48, 10])]"])
      (auto simp: fresh_state_def MaxRecordLen_def push_bit_eq_mult ds_db_def ds_folded_def)
qed

section \<open>A checkpoint whose build fails\<close>

text \<open>The failed run leaves the rotated directory, whichever step of the build has failed.\<close>

lemma checkpoint_failed:
  assumes "dir_has cd fuel fs st" "fs_get fs RetiredWALName = None" "fs_get fs walName = Some wl"
    "checkpoint_Run_io (Some (n, m)) cd fuel fs = (s1, Inl ErrIO)"
  shows "dir_has cd fuel (fs_run s1 fs) (ds_rotated st)" "fs_get (fs_run s1 fs) walName = Some []"
proof -
  let ?rot = "rotate_steps walName RetiredWALName" and ?st1 = "ds_rotated st" and ?g = "ds_gen st + 1"
  let ?fs1 = "fs_run ?rot fs"
  have h1: "dir_has cd fuel ?fs1 ?st1" using rotate_run [OF assms(1-3)] by simp
  have g1: "fs_get ?fs1 RetiredWALName = Some wl" "fs_get ?fs1 walName = Some []"
    using assms(3) by (simp_all add: rotate_steps_def fs_contents_def)
  have st1: "ds_gen ?st1 = ds_gen st" by (simp add: ds_rotated_def)
  from dir_has_build [OF h1 g1(1)] obtain nf r where
    b: "BuildGeneration cd fuel ?fs1 (ds_gen st) ?g RetiredWALName = (build_steps ?g nf, r)" unfolding st1 by blast
  have cur: "ReadCurrent fs = Inr (ds_gen st)" using assms(1) by (simp add: dir_has_def)
  obtain steps snap where "checkpoint_Run cd fuel fs = (steps, Inr (ds_gen st + 1, ds_last st, snap))"
    using any.checkpoint_Run_law [OF assms(1-3) TrueI] by blast
  then have n: "n < length (build_steps ?g nf)"
    "s1 = ?rot @ take n (build_steps ?g nf) @ cut_step m (build_steps ?g nf ! n)"
    using assms(4) by (auto simp: checkpoint_Run_io_def Let_def cur b split: if_splits)
  have "n < 5" using n(1) by (simp add: build_steps_def WriteCurrent_def)
  then consider "n = 0" | "n = 1" | "n = 2" | "n = 3" | "n = 4" by linarith
  then have get: "p \<notin> {tmp_name ?g, DataFile ?g, currentTmp} \<longrightarrow> fs_get (fs_run s1 fs) p = fs_get ?fs1 p" for p
    unfolding n(2) fs_run_append
    by cases (auto simp: build_steps_def WriteCurrent_def cut_step_def numeral_eq_Suc)
  then show "dir_has cd fuel (fs_run s1 fs) ?st1"
    by (intro build_unpublished [OF h1]) (simp add: st1)
  show "fs_get (fs_run s1 fs) walName = Some []" using get [of walName] g1(2) by simp
qed

text \<open>Rotating again puts an empty log over the retired one.\<close>

lemma rotate_over:
  assumes "dir_has cd fuel fs st" "fs_get fs walName = Some []" "fs' = fs_run (rotate_steps walName RetiredWALName) fs"
  shows "dir_has cd fuel fs' (st\<lparr>ds_retired := [], ds_mid := ds_applied st, ds_active := [], ds_last := ds_applied st\<rparr>)"
    "fs_get fs' RetiredWALName = Some []" "fs_get fs' walName = Some []" "ReadCurrent fs' = ReadCurrent fs"
proof -
  show get: "fs_get fs' RetiredWALName = Some []" "fs_get fs' walName = Some []"
    using assms(2) by (auto simp: assms(3) rotate_steps_def fs_contents_def)
  have other: "fs_get fs' p = fs_get fs p" if "p \<noteq> RetiredWALName" "p \<noteq> walName" for p
    using that assms(2) by (auto simp: assms(3) rotate_steps_def)
  let ?st = "st\<lparr>ds_retired := [], ds_mid := ds_applied st, ds_active := [], ds_last := ds_applied st\<rparr>"
  have "sorted_wrt (<) (map fst (ds_kvs st))" "kvs_ok fuel (ds_kvs st)"
    using assms(1) data_holds_sorted by (auto simp: dir_has_def)
  then have ok: "db_ok fuel (map_of (ds_kvs st))" by (rule db_ok_small)
  have "name_ok p" if "fs_get fs' p \<noteq> None" for p
    using that other [of p] dir_has_names [OF assms(1), of p] by (cases "p = RetiredWALName \<or> p = walName") auto
  moreover show "ReadCurrent fs' = ReadCurrent fs" by (rule ReadCurrent_cong) (simp add: other)
  ultimately show "dir_has cd fuel fs' ?st"
    using assms(1) ok get log_entries_empty
    by (simp add: dir_has_def log_at_def ds_db_def ds_folded_def other)
qed



end
