(* ===== verification/Idgen.thy ===== *)
theory Idgen
  imports Entry
begin

text \<open>
  \<^verbatim>\<open>internal/storage/idgen/idgen.go\<close>: the counters of the auto-increment ids, one per class. An id
  is an \<^verbatim>\<open>int64\<close>: a 64-bit word, compared with \<open>sint\<close>. A map lookup of a missing class gives 0.
  The lemmas show that a handed-out id is above everything observed or handed out before.
\<close>

type_synonym generator = "bytes \<rightharpoonup> u64"

definition gen_New :: generator where
  "gen_New = Map.empty"

definition gen_Current :: "generator \<Rightarrow> bytes \<Rightarrow> u64" where
  "gen_Current g cls = (case g cls of None \<Rightarrow> 0 | Some n \<Rightarrow> n)"

definition gen_Next :: "generator \<Rightarrow> bytes \<Rightarrow> u64 \<times> generator" where
  "gen_Next g cls = (let n = gen_Current g cls + 1 in (n, g(cls \<mapsto> n)))"

definition gen_Observe :: "bytes \<Rightarrow> u64 \<Rightarrow> generator \<Rightarrow> generator" where
  "gen_Observe cls oid g = (if sint oid > sint (gen_Current g cls) then g(cls \<mapsto> oid) else g)"

definition gen_Drop :: "generator \<Rightarrow> bytes \<Rightarrow> generator" where
  "gen_Drop g cls = g(cls := None)"

lemma gen_Current_simps [simp]:
  "gen_Current gen_New cls = 0"
  "gen_Current (g(c \<mapsto> n)) cls = (if cls = c then n else gen_Current g cls)"
  by (simp_all add: gen_Current_def gen_New_def)

lemma sint_gen_Observe:
  "sint (gen_Current (gen_Observe c i g) cls) =
     (if cls = c then max (sint i) (sint (gen_Current g cls)) else sint (gen_Current g cls))"
  by (auto simp: gen_Observe_def max_def)

lemma sint_Suc: "sint (n :: u64) < 2 ^ 63 - 1 \<Longrightarrow> sint (n + 1) = sint n + 1"
proof -
  assume n: "sint n < 2 ^ 63 - 1"
  have "- (2 ^ 63) \<le> sint n" using sint_ge [of n] by simp
  moreover have "n + 1 = word_of_int (sint n + 1)" by simp
  then have "sint (n + 1) = (sint n + 1 + 2 ^ 63) mod 2 ^ 64 - 2 ^ 63"
    using int_word_sint [where 'a=64, of "sint n + 1"] by simp
  ultimately show ?thesis using n by simp
qed

text \<open>All ids observed by a run of observations are at most the counter.\<close>

lemma sint_gen_Observe_fold:
  "sint (gen_Current g cls) \<le> sint (gen_Current (fold (\<lambda>(c, i). gen_Observe c i) obs g) cls) \<and>
   (\<forall>i. (cls, i) \<in> set obs \<longrightarrow> sint i \<le> sint (gen_Current (fold (\<lambda>(c, i). gen_Observe c i) obs g) cls))"
proof (induction obs arbitrary: g)
  case Nil
  then show ?case by simp
next
  case (Cons ci obs)
  obtain c i where ci: "ci = (c, i)" by (cases ci)
  have "sint (gen_Current g cls) \<le> sint (gen_Current (gen_Observe c i g) cls)"
    "c = cls \<Longrightarrow> sint i \<le> sint (gen_Current (gen_Observe c i g) cls)"
    by (simp_all add: sint_gen_Observe)
  with Cons.IH [of "gen_Observe c i g"] ci show ?case by fastforce
qed

fun gen_Nexts :: "generator \<Rightarrow> bytes \<Rightarrow> nat \<Rightarrow> u64 list \<times> generator" where
  "gen_Nexts g cls 0 = ([], g)"
| "gen_Nexts g cls (Suc n) =
     (let (i, g) = gen_Next g cls; (is, g) = gen_Nexts g cls n in (i # is, g))"

lemma gen_Nexts_above:
  assumes "sint (gen_Current g cls) + int n < 2 ^ 63"
  shows "map sint (fst (gen_Nexts g cls n)) =
      map (\<lambda>k. sint (gen_Current g cls) + 1 + int k) [0..<n]"
  using assms
proof (induction n arbitrary: g)
  case 0
  then show ?case by simp
next
  case (Suc n)
  have s: "sint (gen_Current g cls + 1) = sint (gen_Current g cls) + 1"
    by (rule sint_Suc) (use Suc.prems in simp)
  define g' where "g' = g(cls \<mapsto> gen_Current g cls + 1)"
  have g': "gen_Current g' cls = gen_Current g cls + 1" by (simp add: g'_def)
  have "map sint (fst (gen_Nexts g' cls n)) =
      map (\<lambda>k. sint (gen_Current g cls) + 1 + 1 + int k) [0..<n]"
    using Suc.IH [of g'] Suc.prems by (simp add: g' s)
  then have "map sint (fst (gen_Nexts g cls (Suc n))) =
      (sint (gen_Current g cls) + 1) # map (\<lambda>k. sint (gen_Current g cls) + 1 + 1 + int k) [0..<n]"
    by (cases "gen_Nexts g' cls n") (simp add: gen_Next_def Let_def s g'_def)
  also have "\<dots> = map (\<lambda>k. sint (gen_Current g cls) + 1 + int k) (0 # map Suc [0..<n])"
    by (simp add: comp_def)
  also have "\<dots> = map (\<lambda>k. sint (gen_Current g cls) + 1 + int k) [0..<Suc n]"
    by (simp only: map_Suc_upt upt_conv_Cons [symmetric] zero_less_Suc)
  finally show ?case .
qed

section \<open>Properties\<close>

text \<open>
  Ids handed out after any observations, in any order, are the consecutive numbers after a
  number that is at least every observed id of the class, so none of them was seen before; the
  counters of other classes do not matter. The bound says that the id space is not used up.
\<close>

theorem gen_ids_fresh:
  assumes "g = fold (\<lambda>(c, i). gen_Observe c i) obs gen_New" "(cls, i) \<in> set obs"
    "sint (gen_Current g cls) + int n < 2 ^ 63" "k < n"
  shows "sint i < sint (fst (gen_Nexts g cls n) ! k) \<and>
    sint (fst (gen_Nexts g cls n) ! k) = sint (gen_Current g cls) + 1 + int k"
proof -
  have len: "length (fst (gen_Nexts g cls n)) = n"
    using arg_cong [OF gen_Nexts_above [OF assms(3)], of length] by simp
  have "sint (fst (gen_Nexts g cls n) ! k) = map sint (fst (gen_Nexts g cls n)) ! k"
    using assms(4) len by simp
  also have "\<dots> = sint (gen_Current g cls) + 1 + int k"
    using assms(4) by (simp add: gen_Nexts_above [OF assms(3)])
  finally show ?thesis
    using sint_gen_Observe_fold [of gen_New cls obs] assms(1,2) by fastforce
qed

theorem gen_ids_fresh_witness:
  "sint (fst (gen_Nexts (fold (\<lambda>(c, i). gen_Observe c i) [([1], 4), ([2], 9), ([1], 3)] gen_New) [1] 2) ! 1) = 6"
  using gen_ids_fresh [OF refl, of "[1]" 4 "[([1], 4), ([2], 9), ([1], 3)]" 2 1]
  by (simp add: gen_Observe_def)

end
