(* ===== verification/Recovery.thy ===== *)
theory Recovery
  imports Checkpoint Idgen
begin

text \<open>
  \<^verbatim>\<open>internal/storage/recovery/recovery.go\<close>: what the engine does to the directory at boot, and the
  state it resumes with. The lemmas show that recovery succeeds on every directory that stands for
  a database, whatever crash left it, that it resumes with exactly that database, and that it can
  itself be cut short at any step.
\<close>

section \<open>Directory handlers\<close>

text \<open>A handler reads the directory and gives the steps it takes and its result.\<close>

type_synonym 'a fs_op = "fs \<Rightarrow> fs_step list \<times> 'a res"

definition fs_bind :: "'a fs_op \<Rightarrow> ('a \<Rightarrow> 'b fs_op) \<Rightarrow> 'b fs_op" where
  "fs_bind m k fs =
     (case m fs of
        (s, Inl e) \<Rightarrow> (s, Inl e)
      | (s, Inr x) \<Rightarrow> let (s', r) = k x (fs_run s fs) in (s @ s', r))"

definition fs_reads :: "(fs \<Rightarrow> 'a res) \<Rightarrow> 'a fs_op" where
  "fs_reads f fs = ([], f fs)"

definition fs_steps :: "(fs \<Rightarrow> fs_step list) \<Rightarrow> unit fs_op" where
  "fs_steps f fs = (f fs, Inr ())"

lemma fs_bind_Inr:
  "m fs = (s, Inr x) \<Longrightarrow> k x (fs_run s fs) = (s', r) \<Longrightarrow> fs_bind m k fs = (s @ s', r)"
  by (simp add: fs_bind_def)

lemma fs_bind_Inl: "m fs = (s, Inl e) \<Longrightarrow> fs_bind m k fs = (s, Inl e)"
  by (simp add: fs_bind_def)

section \<open>Recovery\<close>

definition removeTempFiles :: "fs \<Rightarrow> fs_step list" where
  "removeTempFiles fs = map FRemove (filter (\<lambda>n. Ext n = tmpExt) (fs_names fs))"

definition removeGenerationsAbove :: "u64 \<Rightarrow> unit fs_op" where
  "removeGenerationsAbove keep fs =
     (case ListGenerations fs of
        Inl e \<Rightarrow> ([], Inl e)
      | Inr gens \<Rightarrow> (map (\<lambda>g. FRemove (DataFile g)) (filter (\<lambda>g. g > keep) gens), Inr ()))"

text \<open>\<^verbatim>\<open>page.Create\<close> opens with \<^verbatim>\<open>O_EXCL\<close> and fails when generation 0 is already there.\<close>

definition initFresh :: "unit fs_op" where
  "initFresh fs =
     (let gen0 = DataFile 0 in
      if fs_get fs gen0 \<noteq> None then ([], Inl ErrExist)
      else case mgr_Create of
        Inl e \<Rightarrow> ([], Inl e)
      | Inr m \<Rightarrow>
          case mgr_WriteMeta m \<lparr>meta_Root = InvalidPageID, meta_LastAppliedTxID = 0,
                 meta_NumPages = mgr_numPages m\<rparr> of
            Inl e \<Rightarrow> ([FWrite gen0 (mgr_f m)], Inl e)
          | Inr m' \<Rightarrow>
              ([FWrite gen0 (mgr_f m), FWrite gen0 (mgr_f m'), FCreate walName] @ WriteCurrent 0, Inr ()))"

definition observe_sub :: "WALEntry \<Rightarrow> generator \<Rightarrow> generator" where
  "observe_sub s g =
     (if e_Op s = OpPut \<and> sint (e_ObjectID s) > 0
      then gen_Observe (ScopeKey (e_Project s) (e_Class s)) (e_ObjectID s) g else g)"

fun replay_records ::
  "codec \<Rightarrow> u64 \<Rightarrow> (u64 \<times> bytes) list \<Rightarrow> (u64 \<times> WALEntry) list \<times> u64 \<times> generator \<Rightarrow>
   ((u64 \<times> WALEntry) list \<times> u64 \<times> generator) res" where
  "replay_records cd skipUpTo [] acc = Inr acc"
| "replay_records cd skipUpTo ((tx, p) # rs) (out, maxTx, gen) =
     (let maxTx = (if tx > maxTx then tx else maxTx) in
      if tx \<le> skipUpTo then replay_records cd skipUpTo rs (out, maxTx, gen)
      else
        bindE (cd_unmarshal cd p) (\<lambda>e.
          replay_records cd skipUpTo rs
            (out @ map (Pair tx) (e_Flatten e), maxTx, fold observe_sub (e_Flatten e) gen)))"

definition replayWAL ::
  "codec \<Rightarrow> fs \<Rightarrow> u64 \<Rightarrow> generator \<Rightarrow> ((u64 \<times> WALEntry) list \<times> u64 \<times> nat \<times> generator) res" where
  "replayWAL cd fs skipUpTo gen =
     (case fs_get fs walName of
        None \<Rightarrow> Inr ([], 0, 0, gen)
      | Some f \<Rightarrow>
          let (rs, off, e) = wal_read f in
          bindE (replay_records cd skipUpTo rs ([], 0, gen)) (\<lambda>(out, maxTx, gen).
            if e = ErrEOF \<or> e = ErrCorrupt then Inr (out, maxTx, off, gen) else Inl e))"

definition truncateWAL :: "nat \<Rightarrow> fs \<Rightarrow> fs_step list" where
  "truncateWAL durableOffset fs =
     (case fs_get fs walName of
        None \<Rightarrow> []
      | Some f \<Rightarrow> if length f = durableOffset then [] else [FTruncate walName durableOffset])"

definition observe_key :: "generator visitor" where
  "observe_key gen key val =
     (case DecodeObjectKey key of
        Some (project, cls, oid) \<Rightarrow> (gen_Observe (ScopeKey project cls) oid gen, True)
      | None \<Rightarrow> (gen, True))"

definition observeTreeIDs :: "nat \<Rightarrow> page_source \<Rightarrow> u64 \<Rightarrow> generator \<Rightarrow> generator res" where
  "observeTreeIDs fuel src root gen = btree_Scan fuel src root [] observe_key gen"

record recovered =
  rr_ActiveGen :: u64
  rr_LastTxID :: u64
  rr_Replayed :: "(u64 \<times> WALEntry) list"
  rr_Gen :: generator

definition current_or_fresh :: "u64 fs_op" where
  "current_or_fresh fs =
     (case ReadCurrent fs of
        Inr g \<Rightarrow> ([], Inr g)
      | Inl e \<Rightarrow> if e = ErrNotExist then fs_bind initFresh (\<lambda>_. fs_reads (\<lambda>_. Inr 0)) fs else ([], Inl e))"

definition complete_checkpoint :: "codec \<Rightarrow> nat \<Rightarrow> u64 \<Rightarrow> u64 fs_op" where
  "complete_checkpoint cd fuel curGen fs =
     (if fs_get fs RetiredWALName = None then ([], Inr curGen)
      else
        let newGen = curGen + 1 in
        fs_bind (\<lambda>fs. BuildGeneration cd fuel fs curGen newGen RetiredWALName)
          (\<lambda>_. fs_bind (fs_steps (\<lambda>_. [FRemove RetiredWALName])) (\<lambda>_. fs_reads (\<lambda>_. Inr newGen))) fs)"

text \<open>Reading the active generation and replaying the live log: the result and the durable offset.\<close>

definition resume :: "codec \<Rightarrow> nat \<Rightarrow> u64 \<Rightarrow> fs \<Rightarrow> (recovered \<times> nat) res" where
  "resume cd fuel curGen fs =
     (case fs_get fs (DataFile curGen) of
        None \<Rightarrow> Inl ErrNotExist
      | Some f \<Rightarrow>
          bindE (mgr_Open f) (\<lambda>mgr.
          bindE (mgr_ReadMeta mgr) (\<lambda>mt.
          bindE (observeTreeIDs fuel (mgr_ReadPage mgr) (meta_Root mt) gen_New) (\<lambda>gen.
          bindE (replayWAL cd fs (meta_LastAppliedTxID mt) gen) (\<lambda>(replayed, maxTx, off, gen).
            Inr (\<lparr>rr_ActiveGen = curGen,
                   rr_LastTxID = (if maxTx > meta_LastAppliedTxID mt then maxTx else meta_LastAppliedTxID mt),
                   rr_Replayed = replayed, rr_Gen = gen\<rparr>, off))))))"

text \<open>From the removal of orphan generations on.\<close>

definition recover_from :: "codec \<Rightarrow> nat \<Rightarrow> u64 \<Rightarrow> recovered fs_op" where
  "recover_from cd fuel curGen =
     fs_bind (removeGenerationsAbove curGen) (\<lambda>_.
     fs_bind (complete_checkpoint cd fuel curGen) (\<lambda>curGen.
     fs_bind (fs_reads (resume cd fuel curGen)) (\<lambda>(res, off).
     fs_bind (fs_steps (truncateWAL off)) (\<lambda>_.
     fs_reads (\<lambda>_. Inr res)))))"

definition Recover :: "codec \<Rightarrow> nat \<Rightarrow> recovered fs_op" where
  "Recover cd fuel =
     fs_bind (fs_steps removeTempFiles) (\<lambda>_.
     fs_bind current_or_fresh (recover_from cd fuel))"

section \<open>What each stage does\<close>

text \<open>
  \<open>safe I m fs d Q\<close>: the handler succeeds, every crash of it leaves a directory for \<open>d\<close> in a state
  with the invariant \<open>I\<close>, and its result and the directory it leaves satisfy \<open>Q\<close>.
\<close>

definition safe :: "(dir_state \<Rightarrow> bool) \<Rightarrow> codec \<Rightarrow> nat \<Rightarrow> 'a fs_op \<Rightarrow> fs \<Rightarrow> db \<Rightarrow> ('a \<Rightarrow> fs \<Rightarrow> bool) \<Rightarrow> bool" where
  "safe I cd fuel m fs d Q \<longleftrightarrow>
     (\<exists>s x. m fs = (s, Inr x) \<and> (\<forall>fs'. crashed s fs fs' \<longrightarrow> dir_db_of I cd fuel fs' d) \<and> Q x (fs_run s fs))"

lemma safe_bind:
  assumes "safe I cd fuel m fs d Q" "\<And>x fs'. Q x fs' \<Longrightarrow> safe I cd fuel (k x) fs' d R"
  shows "safe I cd fuel (fs_bind m k) fs d R"
proof -
  from assms(1) obtain s x where m: "m fs = (s, Inr x)" "\<forall>fs'. crashed s fs fs' \<longrightarrow> dir_db_of I cd fuel fs' d"
    "Q x (fs_run s fs)" by (auto simp: safe_def)
  from assms(2) [OF m(3)] obtain s' y where k: "k x (fs_run s fs) = (s', Inr y)"
    "\<forall>fs'. crashed s' (fs_run s fs) fs' \<longrightarrow> dir_db_of I cd fuel fs' d" "R y (fs_run s' (fs_run s fs))"
    by (auto simp: safe_def)
  have "fs_bind m k fs = (s @ s', Inr y)" using m(1) k(1) by (rule fs_bind_Inr)
  with m(2) k(2,3) show ?thesis by (auto simp: safe_def crashed_append fs_run_append)
qed

lemma safe_reads:
  "f fs = Inr x \<Longrightarrow> Q x fs \<Longrightarrow> dir_db_of I cd fuel fs d \<Longrightarrow> safe I cd fuel (fs_reads f) fs d Q"
  by (simp add: safe_def fs_reads_def)

lemma dir_hasD: "dir_has cd fuel fs st \<Longrightarrow> I st \<Longrightarrow> dir_db_of I cd fuel fs (ds_db st)"
  by (auto simp: dir_db_of_def)

lemma removeTempFiles_safe:
  assumes "dir_has cd fuel fs st" "I st"
  shows "safe I cd fuel (fs_steps removeTempFiles) fs (ds_db st) (\<lambda>_ fs'. dir_has cd fuel fs' st)"
proof -
  let ?ps = "filter (\<lambda>n. Ext n = tmpExt) (fs_names fs)"
  have keep: "dir_has cd fuel (fs_run (map FRemove (take n ?ps)) fs) st" for n
  proof (rule dir_has_frame [OF assms(1)])
    have "set (take n ?ps) \<subseteq> {p. Ext p = tmpExt}" using set_take_subset [of n ?ps] by auto
    then have "p \<notin> set (take n ?ps)" if "Ext p \<noteq> tmpExt" for p using that by auto
    then show "\<forall>p\<in>{currentName, DataFile (ds_gen st), RetiredWALName, walName}.
        fs_get (fs_run (map FRemove (take n ?ps)) fs) p = fs_get fs p"
      by (simp add: fs_get_run_removes)
    show "\<forall>p. fs_get (fs_run (map FRemove (take n ?ps)) fs) p \<noteq> None \<longrightarrow> name_ok p"
      using dir_has_names [OF assms(1)] by (simp add: fs_get_run_removes)
  qed
  have "dir_db_of I cd fuel fs' (ds_db st)" if "crashed (removeTempFiles fs) fs fs'" for fs'
    using crashed_removes [OF that [unfolded removeTempFiles_def]] keep dir_hasD assms(2) by blast
  moreover have "dir_has cd fuel (fs_run (removeTempFiles fs) fs) st"
    using keep [of "length ?ps"] by (simp add: removeTempFiles_def)
  ultimately show ?thesis by (simp add: safe_def fs_steps_def)
qed

lemma current_or_fresh_safe:
  assumes "dir_has cd fuel fs st" "I st"
  shows "safe I cd fuel current_or_fresh fs (ds_db st) (\<lambda>g fs'. g = ds_gen st \<and> dir_has cd fuel fs' st)"
  using assms dir_hasD [where I = I, OF assms] by (simp add: safe_def current_or_fresh_def dir_has_def)

lemma removeGenerationsAbove_safe:
  assumes "dir_has cd fuel fs st" "I st"
  shows "safe I cd fuel (removeGenerationsAbove (ds_gen st)) fs (ds_db st) (\<lambda>_ fs'. dir_has cd fuel fs' st)"
proof -
  let ?gs = "filter (\<lambda>g. g > ds_gen st) (sort (gens_of (fs_names fs)))"
  have gs: "ds_gen st \<notin> set ?gs" by simp
  have "removeGenerationsAbove (ds_gen st) fs = (map (\<lambda>g. FRemove (DataFile g)) ?gs, Inr ())"
    by (simp add: removeGenerationsAbove_def dir_has_gens [OF assms(1)])
  moreover have "dir_db_of I cd fuel fs' (ds_db st)" if "crashed (map (\<lambda>g. FRemove (DataFile g)) ?gs) fs fs'" for fs'
    using crashed_remove_gens [OF assms(1) gs that] dir_hasD assms(2) by blast
  moreover have "dir_has cd fuel (fs_run (map (\<lambda>g. FRemove (DataFile g)) ?gs) fs) st"
    using remove_gens [OF assms(1) gs refl] .
  ultimately show ?thesis by (simp add: safe_def)
qed

text \<open>After an interrupted checkpoint has been completed there is no retired log.\<close>

definition ds_complete :: "dir_state \<Rightarrow> bool" where
  "ds_complete st \<longleftrightarrow> ds_retired st = [] \<and> ds_mid st = ds_applied st"

context dir_invariant
begin

lemma complete_checkpoint_safe:
  assumes "dir_has cd fuel fs st" "I st"
  shows "safe I cd fuel (complete_checkpoint cd fuel (ds_gen st)) fs (ds_db st)
    (\<lambda>g fs'. \<exists>st'. g = ds_gen st' \<and> I st' \<and> dir_has cd fuel fs' st' \<and> ds_complete st' \<and>
      map_of (ds_kvs st') = ds_folded st \<and> ds_active st' = ds_active st \<and> ds_last st' = ds_last st \<and>
      fs_get fs' RetiredWALName = None)"
proof (cases "fs_get fs RetiredWALName")
  case None
  with assms dir_hasD [where I = I, OF assms] dir_has_no_retired [OF assms(1) None] show ?thesis
    by (auto simp: safe_def complete_checkpoint_def ds_complete_def ds_folded_def)
next
  case (Some rf)
  let ?g = "ds_gen st + 1"
  from dir_has_build [OF assms(1) Some] obtain nf ms where
    b: "BuildGeneration cd fuel fs (ds_gen st) ?g RetiredWALName = (build_steps ?g nf, Inr (ds_mid st))"
      "data_holds nf (ds_mid st) ms" "kvs_ok fuel ms" "map_of ms = ds_folded st" by blast
  let ?st = "ds_built st ms"
  have db: "ds_db ?st = ds_db st" by (rule ds_built_db [OF b(4)])
  have inv: "I ?st" using assms(2) b(4) by (rule built)
  have built: "ds_complete ?st" "ds_gen ?st = ?g" "ds_kvs ?st = ms" "ds_active ?st = ds_active st"
    "ds_last ?st = ds_last st"
    by (simp_all add: ds_built_def ds_complete_def)
  have "safe I cd fuel (\<lambda>fs. BuildGeneration cd fuel fs (ds_gen st) ?g RetiredWALName) fs (ds_db st)
      (\<lambda>_ fs'. dir_has cd fuel fs' ?st)"
    using b(1) build_crashed [OF assms(1) b(2-4) _ assms(2)] build_run(1) [OF assms(1) b(2-4)] by (auto simp: safe_def)
  moreover have "safe I cd fuel (fs_bind (fs_steps (\<lambda>_. [FRemove RetiredWALName])) (\<lambda>_. fs_reads (\<lambda>_. Inr ?g)))
      fs' (ds_db st) (\<lambda>g fs''. g = ?g \<and> dir_has cd fuel fs'' ?st \<and> fs_get fs'' RetiredWALName = None)"
    if "dir_has cd fuel fs' ?st" for fs'
  proof -
    have del: "dir_has cd fuel (fs_del RetiredWALName fs') ?st"
      using that built(1) by (intro remove_retired) (simp_all add: ds_complete_def)
    have "safe I cd fuel (fs_steps (\<lambda>_. [FRemove RetiredWALName])) fs' (ds_db st)
        (\<lambda>_ fs''. fs'' = fs_del RetiredWALName fs')"
      using dir_hasD [where I = I, OF that inv] dir_hasD [where I = I, OF del inv] db by (auto simp: safe_def fs_steps_def)
    then show ?thesis
      using del dir_hasD [where I = I, OF del inv] db by (elim safe_bind) (auto intro: safe_reads)
  qed
  ultimately have "safe I cd fuel (fs_bind (\<lambda>fs. BuildGeneration cd fuel fs (ds_gen st) ?g RetiredWALName)
      (\<lambda>_. fs_bind (fs_steps (\<lambda>_. [FRemove RetiredWALName])) (\<lambda>_. fs_reads (\<lambda>_. Inr ?g)))) fs (ds_db st)
      (\<lambda>g fs''. g = ?g \<and> dir_has cd fuel fs'' ?st \<and> fs_get fs'' RetiredWALName = None)"
    by (rule safe_bind)
  then obtain s x where s: "fs_bind (\<lambda>fs. BuildGeneration cd fuel fs (ds_gen st) ?g RetiredWALName)
      (\<lambda>_. fs_bind (fs_steps (\<lambda>_. [FRemove RetiredWALName])) (\<lambda>_. fs_reads (\<lambda>_. Inr ?g))) fs = (s, Inr x)"
    "\<forall>fs'. crashed s fs fs' \<longrightarrow> dir_db_of I cd fuel fs' (ds_db st)" "x = ?g" "dir_has cd fuel (fs_run s fs) ?st"
    "fs_get (fs_run s fs) RetiredWALName = None" by (auto simp: safe_def)
  then have "complete_checkpoint cd fuel (ds_gen st) fs = (s, Inr ?g)"
    using Some by (simp add: complete_checkpoint_def Let_def)
  then show ?thesis
    using s built b(4) inv by (auto simp: safe_def intro!: exI [of _ ?st])
qed

end

section \<open>Replay\<close>

lemma fold_entry_apply: "fold entry_apply es d = fold sub_apply (concat (map e_Flatten es)) d"
  by (induction es arbitrary: d) (simp_all add: entry_apply_def)

lemma max_tx_0: "max_tx a rs = (if max_tx 0 rs > a then max_tx 0 rs else a)"
proof -
  have "max_tx a rs = max a (max_tx 0 rs)" for a
  proof (induction rs arbitrary: a)
    case Nil
    then show ?case by (simp add: max_tx_def)
  next
    case (Cons r rs)
    have step: "max_tx b (r # rs) = max_tx (max (fst r) b) rs" for b by (simp add: max_tx_def)
    have "max (fst r) (0::u64) = fst r" by (simp add: max_def)
    then show ?case
      unfolding step Cons.IH [of "max (fst r) a"] Cons.IH [of "max (fst r) 0"]
      by (simp only: max.assoc max.left_commute)
  qed
  from this [of a] show ?thesis by (auto simp: max_def)
qed

lemma replay_records_entries:
  assumes "entries_above cd skipUpTo rs = Inr es"
  shows "\<exists>outs. replay_records cd skipUpTo rs (out, mx, gen) =
      Inr (out @ outs, max_tx mx rs, fold observe_sub (map snd outs) gen) \<and>
    map snd outs = concat (map e_Flatten es) \<and> (\<forall>t\<in>set outs. skipUpTo < fst t \<and> fst t \<le> max_tx mx rs)"
  using assms
proof (induction rs arbitrary: out mx gen es)
  case Nil
  then show ?case by (simp add: max_tx_def)
next
  case (Cons r rs)
  obtain tx p where r: "r = (tx, p)" by (cases r)
  have mx: "max_tx (if tx > mx then tx else mx) rs = max_tx mx (r # rs)"
    using r by (auto simp: max_tx_def max_def)
  show ?case
  proof (cases "tx \<le> skipUpTo")
    case True
    with Cons.IH [of es out "if tx > mx then tx else mx" gen] Cons.prems r mx
    show ?thesis by (simp add: Let_def)
  next
    case False
    with Cons.prems r obtain e es' where e: "cd_unmarshal cd p = Inr e"
      "entries_above cd skipUpTo rs = Inr es'" "es = e # es'"
      by (auto simp: bindE_Inr_iff)
    from Cons.IH [OF e(2), of "out @ map (Pair tx) (e_Flatten e)" "if tx > mx then tx else mx"
        "fold observe_sub (e_Flatten e) gen"] obtain outs where
      o: "replay_records cd skipUpTo rs (out @ map (Pair tx) (e_Flatten e), if tx > mx then tx else mx,
          fold observe_sub (e_Flatten e) gen) =
        Inr ((out @ map (Pair tx) (e_Flatten e)) @ outs, max_tx mx (r # rs),
          fold observe_sub (map snd outs) (fold observe_sub (e_Flatten e) gen))"
      "map snd outs = concat (map e_Flatten es')" "\<forall>t\<in>set outs. skipUpTo < fst t \<and> fst t \<le> max_tx mx (r # rs)"
      unfolding mx by blast
    moreover have "tx \<le> max_tx mx (r # rs)" using max_tx_ge [of mx "r # rs"] r by simp
    ultimately show ?thesis using r e False
      by (intro exI [of _ "map (Pair tx) (e_Flatten e) @ outs"]) (auto simp: Let_def not_le comp_def)
  qed
qed

text \<open>A scan that never stops is a fold.\<close>

lemma visit_fold:
  assumes "\<And>st k v. fn st k v = (f k v st, True)"
  shows "visit fn kvs (st, False) = (fold (\<lambda>kv. f (fst kv) (snd kv)) kvs st, False)"
  by (induction kvs arbitrary: st) (auto simp: assms)

definition observe_tree_key :: "bytes \<Rightarrow> generator \<Rightarrow> generator" where
  "observe_tree_key key gen = fst (observe_key gen key [])"

definition observe_all :: "(bytes \<times> bytes) list \<Rightarrow> WALEntry list \<Rightarrow> generator" where
  "observe_all kvs subs = fold observe_sub subs (fold observe_tree_key (map fst kvs) gen_New)"

lemma observeTreeIDs_law:
  assumes "tree_of src D h root kvs" "enough_fuel fuel h kvs"
  shows "observeTreeIDs fuel src root gen = Inr (fold observe_tree_key (map fst kvs) gen)"
proof -
  have "observe_key g k v = (observe_tree_key k g, True)" for g k v
    by (simp add: observe_tree_key_def observe_key_def split: option.splits)
  from visit_fold [OF this] have
    "visit observe_key kvs (gen, False) = (fold (\<lambda>kv. observe_tree_key (fst kv)) kvs gen, False)" .
  moreover have "with_prefix [] kvs = kvs" by (simp add: has_prefix_def)
  ultimately show ?thesis
    by (simp add: observeTreeIDs_def btree_Scan_correct [OF assms] fold_map comp_def)
qed

lemma resume_law:
  assumes "dir_has cd fuel fs st" "ds_complete st"
  shows "\<exists>res off. resume cd fuel (ds_gen st) fs = Inr (res, off) \<and> rr_ActiveGen res = ds_gen st \<and>
    rr_LastTxID res = ds_last st \<and>
    map snd (rr_Replayed res) = concat (map e_Flatten (ds_active st)) \<and>
    (\<forall>t\<in>set (rr_Replayed res). ds_applied st < fst t \<and> fst t \<le> ds_last st) \<and>
    rr_Gen res = observe_all (ds_kvs st) (map snd (rr_Replayed res)) \<and>
    (\<forall>f. fs_get fs walName = Some f \<longrightarrow> (\<exists>rs e. wal_read f = (rs, off, e)))"
proof -
  from assms(1) obtain f m mt h where f: "fs_get fs (DataFile (ds_gen st)) = Some f"
    "mgr_Open f = Inr m" "mgr_ReadMeta m = Inr mt" "meta_LastAppliedTxID mt = ds_applied st"
    "h \<le> length (ds_kvs st)"
    "tree_of (mgr_ReadPage m) (ids_below (unat (mgr_numPages m))) h (meta_Root mt) (ds_kvs st)"
    and ok: "kvs_ok fuel (ds_kvs st)"
    and log: "log_at cd (ds_mid st) fs walName (ds_active st) (ds_last st)"
    by (auto simp: dir_has_def data_holds_def)
  have "enough_fuel fuel h (ds_kvs st)" using ok f(5) by (simp add: kvs_ok_def enough_fuel_def)
  note obs = observeTreeIDs_law [OF f(6) this, of gen_New]
  let ?gen = "fold observe_tree_key (map fst (ds_kvs st)) gen_New"
  have mid: "ds_mid st = ds_applied st" using assms(2) by (simp add: ds_complete_def)
  show ?thesis
  proof (cases "fs_get fs walName")
    case None
    with log have "ds_active st = []" "ds_last st = ds_mid st" by (simp_all add: log_at_def)
    with None f obs mid show ?thesis
      by (simp add: resume_def replayWAL_def observe_all_def)
  next
    case (Some wl)
    with log mid obtain rs off e where rs: "wal_read wl = (rs, off, e)" "e = ErrEOF \<or> e = ErrCorrupt"
      "entries_above cd (ds_applied st) rs = Inr (ds_active st)" "ds_last st = max_tx (ds_applied st) rs"
      by (auto simp: log_at_def log_entries_def)
    from replay_records_entries [OF rs(3), of "[]" 0 ?gen] obtain outs where
      o: "replay_records cd (ds_applied st) rs ([], 0, ?gen) =
        Inr (outs, max_tx 0 rs, fold observe_sub (map snd outs) ?gen)"
      "map snd outs = concat (map e_Flatten (ds_active st))"
      "\<forall>t\<in>set outs. ds_applied st < fst t \<and> fst t \<le> max_tx 0 rs" by auto
    then have o4: "\<forall>t\<in>set outs. ds_applied st < fst t \<and> fst t \<le> ds_last st"
      using rs(4) max_tx_0 [of "ds_applied st" rs] by fastforce
    have "replayWAL cd fs (ds_applied st) ?gen = Inr (outs, max_tx 0 rs, off, fold observe_sub (map snd outs) ?gen)"
      using Some rs(1,2) o(1) by (simp add: replayWAL_def)
    then show ?thesis
      using Some f obs o(2) o4 rs(1,4) max_tx_0 [of "ds_applied st" rs]
      by (simp add: resume_def observe_all_def)
  qed
qed

lemma truncateWAL_safe:
  assumes "dir_has cd fuel fs st" "I st" "\<forall>f. fs_get fs walName = Some f \<longrightarrow> (\<exists>rs e. wal_read f = (rs, off, e))"
  shows "safe I cd fuel (fs_steps (truncateWAL off)) fs (ds_db st)
    (\<lambda>_ fs'. dir_has cd fuel fs' st \<and> (\<forall>f. fs_get fs' walName = Some f \<longrightarrow> clean_log f) \<and>
       fs_get fs' RetiredWALName = fs_get fs RetiredWALName \<and>
       (\<forall>g. fs_get fs' (DataFile g) = fs_get fs (DataFile g)))"
proof (cases "fs_get fs walName")
  case None
  with assms(1) dir_hasD [where I = I, OF assms(1,2)] show ?thesis by (simp add: safe_def fs_steps_def truncateWAL_def)
next
  case (Some wl)
  with assms(3) obtain rs e where wl: "wal_read wl = (rs, off, e)" by blast
  note cut = wal_read_truncate [OF wl]
  have log: "log_entries cd (ds_mid st) wl (ds_active st) (ds_last st)"
    using assms(1) Some by (simp add: dir_has_def log_at_def)
  then have "log_entries cd (ds_mid st) (take off wl) (ds_active st) (ds_last st)"
    using wl cut by (auto simp: log_entries_def)
  moreover have "db_ok fuel (fold entry_apply (ds_active st) (ds_folded st))"
    using assms(1) by (simp add: dir_has_def ds_db_def)
  ultimately have "dir_has cd fuel (fs_put walName (take off wl) fs) st"
    using dir_has_wal [OF assms(1)] by fastforce
  moreover have "clean_log (take off wl)" using cut by (simp add: clean_log_def)
  moreover have "length wl = off \<Longrightarrow> clean_log wl" using cut by (simp add: clean_log_def)
  ultimately show ?thesis
    using assms(1,2) dir_hasD Some
    by (cases "length wl = off") (auto simp: safe_def fs_steps_def truncateWAL_def fs_contents_def)
qed

text \<open>
  The state that recovery resumes with: the generation, its contents, and the replayed mutations,
  which lead from these contents to the database.
\<close>

definition resumes :: "nat \<Rightarrow> fs \<Rightarrow> dir_state \<Rightarrow> recovered \<Rightarrow> bool" where
  "resumes fuel fs st res \<longleftrightarrow>
     rr_ActiveGen res = ds_gen st \<and> rr_LastTxID res = ds_last st \<and>
     fold sub_apply (map snd (rr_Replayed res)) (map_of (ds_kvs st)) = ds_db st \<and>
     map snd (rr_Replayed res) = concat (map e_Flatten (ds_active st)) \<and>
     (\<forall>t\<in>set (rr_Replayed res). ds_applied st < fst t \<and> fst t \<le> ds_last st) \<and>
     rr_Gen res = observe_all (ds_kvs st) (map snd (rr_Replayed res)) \<and>
     (\<forall>f. fs_get fs walName = Some f \<longrightarrow> clean_log f) \<and> fs_get fs RetiredWALName = None"

context dir_invariant
begin

lemma recover_from_law:
  assumes "dir_has cd fuel fs st" "I st"
  shows "safe I cd fuel (recover_from cd fuel (ds_gen st)) fs (ds_db st)
    (\<lambda>res fs'. \<exists>st'. I st' \<and> dir_has cd fuel fs' st' \<and> ds_complete st' \<and> map_of (ds_kvs st') = ds_folded st \<and>
      ds_active st' = ds_active st \<and> ds_last st' = ds_last st \<and> resumes fuel fs' st' res)"
  (is "safe _ _ _ _ _ _ ?Q")
  unfolding recover_from_def
proof (rule safe_bind [OF removeGenerationsAbove_safe [where I = I, OF assms]], rule safe_bind [OF complete_checkpoint_safe])
  fix u :: unit and fs3
  assume "dir_has cd fuel fs3 st"
  then show "dir_has cd fuel fs3 st" "I st" using assms(2) by simp_all
next
  fix g4 fs4
  assume "\<exists>st'. g4 = ds_gen st' \<and> I st' \<and> dir_has cd fuel fs4 st' \<and> ds_complete st' \<and>
    map_of (ds_kvs st') = ds_folded st \<and> ds_active st' = ds_active st \<and> ds_last st' = ds_last st \<and>
    fs_get fs4 RetiredWALName = None"
  then obtain st' where inv: "I st'" and st': "g4 = ds_gen st'" "dir_has cd fuel fs4 st'" "ds_complete st'"
    "map_of (ds_kvs st') = ds_folded st" "ds_active st' = ds_active st" "ds_last st' = ds_last st"
    "fs_get fs4 RetiredWALName = None" by blast
  have db: "ds_db st' = ds_db st"
    using st'(3-5) by (simp add: ds_db_def ds_folded_def ds_complete_def)
  from resume_law [OF st'(2,3)] obtain res off where
    r: "resume cd fuel (ds_gen st') fs4 = Inr (res, off)" "rr_ActiveGen res = ds_gen st'"
      "rr_LastTxID res = ds_last st'" "map snd (rr_Replayed res) = concat (map e_Flatten (ds_active st'))"
      "\<forall>t\<in>set (rr_Replayed res). ds_applied st' < fst t \<and> fst t \<le> ds_last st'"
      "rr_Gen res = observe_all (ds_kvs st') (map snd (rr_Replayed res))"
      "\<forall>f. fs_get fs4 walName = Some f \<longrightarrow> (\<exists>rs e. wal_read f = (rs, off, e))" by blast
  have app: "fold sub_apply (map snd (rr_Replayed res)) (map_of (ds_kvs st')) = ds_db st'"
    using st'(3) by (simp add: r(4) ds_db_def ds_folded_def ds_complete_def fold_entry_apply)
  have rd: "safe I cd fuel (fs_reads (resume cd fuel (ds_gen st'))) fs4 (ds_db st')
      (\<lambda>x fs'. x = (res, off) \<and> fs' = fs4)"
    using r(1) dir_hasD [where I = I, OF st'(2) inv] by (intro safe_reads) auto
  show "safe I cd fuel (fs_bind (fs_reads (resume cd fuel g4)) (\<lambda>(res, off).
      fs_bind (fs_steps (truncateWAL off)) (\<lambda>_. fs_reads (\<lambda>_. Inr res)))) fs4 (ds_db st) ?Q"
    unfolding st'(1) db [symmetric]
  proof (rule safe_bind [OF rd])
    fix x :: "recovered \<times> nat" and fs5
    assume "x = (res, off) \<and> fs5 = fs4"
    then have x: "x = (res, off)" "fs5 = fs4" by simp_all
    show "safe I cd fuel (case x of (res, off) \<Rightarrow> fs_bind (fs_steps (truncateWAL off)) (\<lambda>_. fs_reads (\<lambda>_. Inr res)))
        fs5 (ds_db st') ?Q"
      unfolding x prod.case
    proof (rule safe_bind [OF truncateWAL_safe [where I = I, OF st'(2) inv r(7)]], rule safe_reads, rule refl)
      fix u :: unit and fs6
      assume t: "dir_has cd fuel fs6 st' \<and> (\<forall>f. fs_get fs6 walName = Some f \<longrightarrow> clean_log f) \<and>
        fs_get fs6 RetiredWALName = fs_get fs4 RetiredWALName \<and>
        (\<forall>g. fs_get fs6 (DataFile g) = fs_get fs4 (DataFile g))"
      then have "resumes fuel fs6 st' res"
        unfolding resumes_def using r(2-6) app st'(7) by auto
      with t st' inv show "?Q res fs6" by blast
      show "dir_db_of I cd fuel fs6 (ds_db st')" using t inv dir_hasD by blast
    qed
  qed
qed

lemma Recover_law:
  assumes "dir_has cd fuel fs st" "I st"
  shows "safe I cd fuel (Recover cd fuel) fs (ds_db st)
    (\<lambda>res fs'. \<exists>st'. I st' \<and> dir_has cd fuel fs' st' \<and> ds_complete st' \<and> map_of (ds_kvs st') = ds_folded st \<and>
      ds_active st' = ds_active st \<and> ds_last st' = ds_last st \<and> resumes fuel fs' st' res)"
  unfolding Recover_def
proof (rule safe_bind [OF removeTempFiles_safe [where I = I, OF assms]], rule safe_bind [OF current_or_fresh_safe])
  fix u :: unit and fs1
  assume "dir_has cd fuel fs1 st"
  then show "dir_has cd fuel fs1 st" "I st" using assms(2) by simp_all
qed (use recover_from_law assms(2) in blast)

end

section \<open>Ids after recovery\<close>

lemma sint_observe_tree_key:
  "sint (gen_Current g cls) \<le> sint (gen_Current (observe_tree_key key g) cls)"
  "DecodeObjectKey key = Some (p, c, i) \<Longrightarrow>
     sint i \<le> sint (gen_Current (observe_tree_key key g) (ScopeKey p c))"
  by (auto simp: observe_tree_key_def observe_key_def sint_gen_Observe split: option.splits)

lemma sint_observe_keys:
  "sint (gen_Current g cls) \<le> sint (gen_Current (fold observe_tree_key keys g) cls) \<and>
   (key \<in> set keys \<longrightarrow> DecodeObjectKey key = Some (p, c, i) \<longrightarrow>
      sint i \<le> sint (gen_Current (fold observe_tree_key keys g) (ScopeKey p c)))"
proof (induction keys arbitrary: g)
  case Nil
  then show ?case by simp
next
  case (Cons k keys)
  have mono: "sint (gen_Current g cls) \<le> sint (gen_Current (fold observe_tree_key ks g) cls)" for g cls ks
  proof (induction ks arbitrary: g)
    case (Cons a ks)
    then show ?case using sint_observe_tree_key(1) [of g cls a] order_trans by fastforce
  qed simp
  show ?case
    using Cons.IH [of "observe_tree_key k g"] sint_observe_tree_key(1) [of g cls k]
      sint_observe_tree_key(2) [of k p c i g] mono [of "observe_tree_key k g" "ScopeKey p c" keys]
    by (auto intro: order_trans)
qed

lemma sint_observe_subs:
  "sint (gen_Current g cls) \<le> sint (gen_Current (fold observe_sub subs g) cls) \<and>
   (s \<in> set subs \<longrightarrow> e_Op s = OpPut \<longrightarrow> 0 < sint (e_ObjectID s) \<longrightarrow>
      sint (e_ObjectID s) \<le> sint (gen_Current (fold observe_sub subs g) (ScopeKey (e_Project s) (e_Class s))))"
proof (induction subs arbitrary: g)
  case Nil
  then show ?case by simp
next
  case (Cons t subs)
  have mono1: "sint (gen_Current g cls) \<le> sint (gen_Current (observe_sub t g) cls)" for g cls t
    by (simp add: observe_sub_def sint_gen_Observe)
  have mono: "sint (gen_Current g cls) \<le> sint (gen_Current (fold observe_sub ts g) cls)" for g cls ts
  proof (induction ts arbitrary: g)
    case (Cons a ts)
    then show ?case using mono1 [of g cls a] order_trans by fastforce
  qed simp
  have "sint (gen_Current g cls) \<le> sint (gen_Current (fold observe_sub (t # subs) g) cls)" by (rule mono)
  moreover have "sint (e_ObjectID s) \<le>
      sint (gen_Current (fold observe_sub (t # subs) g) (ScopeKey (e_Project s) (e_Class s)))"
    if s: "s \<in> set (t # subs)" "e_Op s = OpPut" "0 < sint (e_ObjectID s)"
  proof (cases "s = t")
    case True
    then have "sint (e_ObjectID s) \<le> sint (gen_Current (observe_sub t g) (ScopeKey (e_Project s) (e_Class s)))"
      using s by (simp add: observe_sub_def sint_gen_Observe)
    also have "\<dots> \<le> sint (gen_Current (fold observe_sub subs (observe_sub t g)) (ScopeKey (e_Project s) (e_Class s)))"
      by (rule mono)
    finally show ?thesis by simp
  next
    case False
    with Cons.IH [of "observe_sub t g"] s show ?thesis by simp
  qed
  ultimately show ?case by blast
qed

text \<open>What the engine submits: one of the four operations, names without the separator byte.\<close>

definition sub_ok :: "WALEntry \<Rightarrow> bool" where
  "sub_ok s \<longleftrightarrow> e_Op s \<in> {OpPut, OpDelete, OpCreateClass, OpDropClass} \<and>
     no_sep (e_Project s) \<and> no_sep (e_Class s)"

lemma fold_sub_apply_dom:
  "fold sub_apply subs d k \<noteq> None \<Longrightarrow>
   d k \<noteq> None \<or> (\<exists>s\<in>set subs. e_Key s = k \<and> e_Op s \<noteq> OpDelete \<and> e_Op s \<noteq> OpDropClass)"
proof (induction subs arbitrary: d)
  case Nil
  then show ?case by simp
next
  case (Cons s subs)
  from Cons.IH [of "sub_apply s d"] Cons.prems have
    "sub_apply s d k \<noteq> None \<or> (\<exists>s\<in>set subs. e_Key s = k \<and> e_Op s \<noteq> OpDelete \<and> e_Op s \<noteq> OpDropClass)"
    by simp
  then show ?case by (auto simp: sub_apply_def split: if_splits)
qed

lemma observe_all_bound:
  assumes "fold sub_apply subs (map_of kvs) k \<noteq> None" "DecodeObjectKey k = Some (p, c, i)"
    "\<forall>s\<in>set subs. sub_ok s"
  shows "sint i \<le> sint (gen_Current (observe_all kvs subs) (ScopeKey p c))"
proof -
  let ?g = "fold observe_tree_key (map fst kvs) gen_New"
  have base: "0 \<le> sint (gen_Current ?g cls)" for cls
    using sint_observe_keys [of gen_New cls "map fst kvs"] by simp
  from fold_sub_apply_dom [OF assms(1)] consider "k \<in> set (map fst kvs)"
    | s where "s \<in> set subs" "e_Key s = k" "e_Op s \<noteq> OpDelete" "e_Op s \<noteq> OpDropClass"
    by (auto simp: map_of_eq_None_iff)
  then show ?thesis
  proof cases
    case 1
    then have "sint i \<le> sint (gen_Current ?g (ScopeKey p c))"
      using sint_observe_keys [of gen_New "ScopeKey p c" "map fst kvs" k p c i] assms(2) by blast
    also have "\<dots> \<le> sint (gen_Current (observe_all kvs subs) (ScopeKey p c))"
      unfolding observe_all_def by (rule sint_observe_subs [THEN conjunct1])
    finally show ?thesis .
  next
    case (2 s)
    then have ok: "sub_ok s" using assms(3) by blast
    have "e_Op s = OpPut"
    proof (rule ccontr)
      assume "e_Op s \<noteq> OpPut"
      then have "e_Op s = OpCreateClass" using ok 2(3,4) by (auto simp: sub_ok_def)
      then have "k = ClassKey (e_Project s) (e_Class s)" using 2(2) by (simp add: e_Key_def)
      then show False using assms(2) by simp
    qed
    moreover from this have "k = ObjectKey (e_Project s) (e_Class s) (e_ObjectID s)"
      using 2(2) by (simp add: e_Key_def op_defs)
    then have "p = e_Project s" "c = e_Class s" "i = e_ObjectID s"
      using assms(2) ok by (auto simp: sub_ok_def)
    ultimately show ?thesis
      using sint_observe_subs [of ?g "ScopeKey p c" subs s] 2(1) base [of "ScopeKey p c"]
      by (cases "0 < sint i") (auto simp: observe_all_def)
  qed
qed

section \<open>The first boot\<close>

lemma ReadCurrent_none: "fs_get fs currentName = None \<Longrightarrow> ReadCurrent fs = Inl ErrNotExist"
  by (simp add: ReadCurrent_def)

lemma initFresh_Inr:
  assumes "fs_get fs (DataFile 0) = None"
  shows "\<exists>f f'. initFresh fs = ([FWrite (DataFile 0) f, FWrite (DataFile 0) f', FCreate walName] @ WriteCurrent 0, Inr ())
    \<and> data_holds f' 0 []"
proof -
  from mgr_Create_Inr obtain m where m: "mgr_Create = Inr m" "mgr_inv m" "unat (mgr_numPages m) = 1"
    "\<And>p. mgr_ReadPage m MetaPageID = Inr p \<Longrightarrow> page_Type p = PageTypeMeta" by blast
  from WriteMeta_data_holds [OF m(2) _ _ m(4), of 0 InvalidPageID "[]" 0] m(3) obtain m' where
    m': "mgr_WriteMeta m \<lparr>meta_Root = InvalidPageID, meta_LastAppliedTxID = 0,
       meta_NumPages = mgr_numPages m\<rparr> = Inr m'" "data_holds (mgr_f m') 0 []"
    by (auto simp: tree_of_def mgr_cap_def)
  have "initFresh fs = ([FWrite (DataFile 0) (mgr_f m), FWrite (DataFile 0) (mgr_f m'), FCreate walName] @
      WriteCurrent 0, Inr ())"
    unfolding initFresh_def Let_def m(1) m'(1) sum.case using assms by simp
  with m'(2) show ?thesis by blast
qed

lemma Recover_empty_law:
  assumes "0 < fuel"
  shows "\<exists>steps res st. Recover cd fuel [] = (steps, Inr res) \<and> dir_has cd fuel (fs_run steps []) st \<and>
    ds_complete st \<and> map_of (ds_kvs st) = Map.empty \<and> ds_active st = [] \<and> ds_last st = 0 \<and>
    resumes fuel (fs_run steps []) st res"
proof -
  from initFresh_Inr [of "[]"] obtain f f' where
    i: "initFresh [] = ([FWrite (DataFile 0) f, FWrite (DataFile 0) f', FCreate walName] @ WriteCurrent 0, Inr ())"
      "data_holds f' 0 []" by auto
  let ?s = "[FWrite (DataFile 0) f, FWrite (DataFile 0) f', FCreate walName] @ WriteCurrent 0"
  let ?fs = "fs_run ?s []" and ?fs' = "[(DataFile 0, f'), (walName, []), (currentName, [48, 10])]"
  have "fs_get ?fs p = fs_get ?fs' p" for p
    by (simp add: WriteCurrent_def fs_contents_def dec.simps)
  moreover have "dir_has cd fuel ?fs' fresh_state" using i(2) assms by (rule fresh_dir)
  ultimately have h: "dir_has cd fuel ?fs fresh_state"
    using dir_has_frame [of cd fuel ?fs' fresh_state ?fs] dir_has_names by metis
  from any.recover_from_law [OF h TrueI] obtain s res st' where
    r: "recover_from cd fuel 0 ?fs = (s, Inr res)" "dir_has cd fuel (fs_run s ?fs) st'" "ds_complete st'"
      "map_of (ds_kvs st') = Map.empty" "ds_active st' = []" "ds_last st' = 0"
      "resumes fuel (fs_run s ?fs) st' res"
    by (auto simp: safe_def fresh_state_def ds_folded_def)
  have "current_or_fresh [] = (?s, Inr 0)"
    using i(1) by (simp add: current_or_fresh_def ReadCurrent_def fs_bind_def fs_reads_def)
  then have boot: "fs_bind current_or_fresh (recover_from cd fuel) [] = (?s @ s, Inr res)"
    using r(1) by (rule fs_bind_Inr)
  have tmp: "fs_steps removeTempFiles [] = ([], Inr ())"
    by (simp add: fs_steps_def removeTempFiles_def fs_names_def)
  have "Recover cd fuel [] = ([] @ (?s @ s), Inr res)"
    unfolding Recover_def by (rule fs_bind_Inr [where x="()" and m="fs_steps removeTempFiles" and s="[]"])
      (simp_all only: tmp boot fs_run.simps)
  then have "Recover cd fuel [] = (?s @ s, Inr res)" by (simp only: append_Nil)
  with r(2-7) show ?thesis unfolding fs_run_append [symmetric] by blast
qed

section \<open>Properties\<close>

text \<open>
  C7: recovery is correct. On every directory that stands for a database, recovery succeeds and
  resumes with that database: the active generation it names exists, and replaying the mutations it
  returns over that generation's contents gives exactly the database. The transaction counter
  resumes at the last transaction, the log ends cleanly, and a crash of recovery itself, at any
  step, leaves a directory for the same database.
\<close>

theorem Recover_correct:
  assumes "dir_has cd fuel fs st"
  shows "\<exists>steps res f a kvs. Recover cd fuel fs = (steps, Inr res) \<and>
    (\<forall>fs'. crashed steps fs fs' \<longrightarrow> dir_db cd fuel fs' (ds_db st)) \<and>
    fs_get (fs_run steps fs) (DataFile (rr_ActiveGen res)) = Some f \<and> data_holds f a kvs \<and>
    fold sub_apply (map snd (rr_Replayed res)) (map_of kvs) = ds_db st \<and>
    (\<forall>t\<in>set (rr_Replayed res). a < fst t) \<and> rr_LastTxID res = ds_last st \<and>
    (\<forall>l. fs_get (fs_run steps fs) walName = Some l \<longrightarrow> clean_log l) \<and>
    fs_get (fs_run steps fs) RetiredWALName = None"
proof -
  from any.Recover_law [OF assms TrueI, unfolded dir_db_of_True] obtain steps res st' where
    r: "Recover cd fuel fs = (steps, Inr res)" "\<forall>fs'. crashed steps fs fs' \<longrightarrow> dir_db cd fuel fs' (ds_db st)"
      "dir_has cd fuel (fs_run steps fs) st'" "ds_complete st'" "map_of (ds_kvs st') = ds_folded st"
      "ds_active st' = ds_active st" "ds_last st' = ds_last st" "resumes fuel (fs_run steps fs) st' res"
    by (auto simp: safe_def)
  have "ds_db st' = ds_db st" using r(4-6) by (simp add: ds_db_def ds_folded_def ds_complete_def)
  moreover obtain f where "fs_get (fs_run steps fs) (DataFile (ds_gen st')) = Some f"
    "data_holds f (ds_applied st') (ds_kvs st')" using r(3) by (auto simp: dir_has_def)
  ultimately show ?thesis
    using r(1,2,7,8) unfolding resumes_def
    by (intro exI [of _ steps] exI [of _ res] exI [of _ f] exI [of _ "ds_applied st'"] exI [of _ "ds_kvs st'"]) auto
qed

theorem Recover_correct_witness:
  "\<exists>fs steps res f a kvs. Recover (one_codec sample_put) 9 fs = (steps, Inr res) \<and>
     fs_get (fs_run steps fs) (DataFile (rr_ActiveGen res)) = Some f \<and> data_holds f a kvs \<and>
     fold sub_apply (map snd (rr_Replayed res)) (map_of kvs) = [ObjectKey [] [0x61] 1 \<mapsto> [3]] \<and>
     rr_LastTxID res = 1"
proof -
  from sample_dir obtain fs where
    fs: "dir_has (one_codec sample_put) 9 fs (ds_commit fresh_state 1 sample_put)" by blast
  have "ds_db (ds_commit fresh_state 1 sample_put) = [ObjectKey [] [0x61] 1 \<mapsto> [3]]"
    using sample_put_db by simp
  moreover have "ds_last (ds_commit fresh_state 1 sample_put) = 1" by (simp add: ds_commit_def)
  ultimately show ?thesis using Recover_correct [OF fs] by metis
qed

text \<open>
  No crash of a checkpoint loses or invents a write. Whatever step of a checkpoint a crash cuts
  short, the recovery that follows succeeds and resumes with the database that was committed before
  the checkpoint.
\<close>

theorem checkpoint_crash_then_recover:
  assumes "dir_has cd fuel fs st" "fs_get fs RetiredWALName = None" "fs_get fs walName = Some wl"
    "crashed (fst (checkpoint_Run cd fuel fs)) fs fs'"
  shows "\<exists>steps res f a kvs. Recover cd fuel fs' = (steps, Inr res) \<and>
    fs_get (fs_run steps fs') (DataFile (rr_ActiveGen res)) = Some f \<and> data_holds f a kvs \<and>
    fold sub_apply (map snd (rr_Replayed res)) (map_of kvs) = ds_db st"
proof -
  from any.checkpoint_Run_law [OF assms(1-3) TrueI, unfolded dir_db_of_True] assms(4) have "dir_db cd fuel fs' (ds_db st)" by force
  then obtain st1 where st1: "dir_has cd fuel fs' st1" "ds_db st1 = ds_db st" by (auto simp: dir_db_def)
  from any.Recover_law [OF st1(1) TrueI, unfolded dir_db_of_True] obtain steps res st' where
    r: "Recover cd fuel fs' = (steps, Inr res)"
      "dir_has cd fuel (fs_run steps fs') st'" "ds_complete st'" "map_of (ds_kvs st') = ds_folded st1"
      "ds_active st' = ds_active st1" "resumes fuel (fs_run steps fs') st' res"
    by (auto simp: safe_def)
  have "ds_db st' = ds_db st" using r(3-5) st1(2) by (simp add: ds_db_def ds_folded_def ds_complete_def)
  moreover obtain f where "fs_get (fs_run steps fs') (DataFile (ds_gen st')) = Some f"
    "data_holds f (ds_applied st') (ds_kvs st')" using r(2) by (auto simp: dir_has_def)
  ultimately show ?thesis
    using r(1,6) unfolding resumes_def
    by (intro exI [of _ steps] exI [of _ res] exI [of _ f] exI [of _ "ds_applied st'"] exI [of _ "ds_kvs st'"]) auto
qed

theorem checkpoint_crash_then_recover_witness:
  "\<exists>fs fs' steps res f a kvs. crashed (fst (checkpoint_Run (one_codec sample_put) 9 fs)) fs fs' \<and>
     Recover (one_codec sample_put) 9 fs' = (steps, Inr res) \<and> data_holds f a kvs \<and>
     fold sub_apply (map snd (rr_Replayed res)) (map_of kvs) = [ObjectKey [] [0x61] 1 \<mapsto> [3]]"
proof -
  from sample_dir obtain fs where
    fs: "dir_has (one_codec sample_put) 9 fs (ds_commit fresh_state 1 sample_put)"
      "fs_get fs RetiredWALName = None" "fs_get fs walName = Some (wal_record 1 [1])" by blast
  have crash: "crashed (fst (checkpoint_Run (one_codec sample_put) 9 fs)) fs fs"
    by (cases "fst (checkpoint_Run (one_codec sample_put) 9 fs)") simp_all
  have "ds_db (ds_commit fresh_state 1 sample_put) = [ObjectKey [] [0x61] 1 \<mapsto> [3]]"
    using sample_put_db by simp
  with checkpoint_crash_then_recover [OF fs crash] crash show ?thesis by metis
qed

text \<open>
  The id generator that recovery rebuilds is above the id of every object in the database, in
  every project and class, whether the object is in the generation or only in the log.
\<close>

theorem Recover_ids:
  assumes "dir_has cd fuel fs st" "\<forall>e\<in>set (ds_active st). \<forall>s\<in>set (e_Flatten e). sub_ok s"
    "ds_db st k \<noteq> None" "DecodeObjectKey k = Some (p, c, i)"
  shows "\<exists>steps res. Recover cd fuel fs = (steps, Inr res) \<and>
    sint i \<le> sint (gen_Current (rr_Gen res) (ScopeKey p c))"
proof -
  from any.Recover_law [OF assms(1) TrueI, unfolded dir_db_of_True] obtain steps res st' where
    r: "Recover cd fuel fs = (steps, Inr res)" "ds_complete st'" "map_of (ds_kvs st') = ds_folded st"
      "ds_active st' = ds_active st" "resumes fuel (fs_run steps fs) st' res"
    by (auto simp: safe_def)
  have "ds_db st' = ds_db st" using r(2-4) by (simp add: ds_db_def ds_folded_def ds_complete_def)
  then have "fold sub_apply (map snd (rr_Replayed res)) (map_of (ds_kvs st')) k \<noteq> None"
    using r(5) assms(3) unfolding resumes_def by metis
  moreover have "\<forall>s\<in>set (map snd (rr_Replayed res)). sub_ok s"
    using r(4,5) assms(2) by (auto simp: resumes_def)
  ultimately have "sint i \<le> sint (gen_Current (observe_all (ds_kvs st') (map snd (rr_Replayed res))) (ScopeKey p c))"
    using observe_all_bound assms(4) by blast
  with r(1,5) show ?thesis by (auto simp: resumes_def)
qed

theorem Recover_ids_witness:
  "\<exists>fs steps res. Recover (one_codec sample_put) 9 fs = (steps, Inr res) \<and>
     1 \<le> sint (gen_Current (rr_Gen res) (ScopeKey [] [0x61]))"
proof -
  from sample_dir obtain fs where
    fs: "dir_has (one_codec sample_put) 9 fs (ds_commit fresh_state 1 sample_put)" by blast
  have "\<forall>e\<in>set (ds_active (ds_commit fresh_state 1 sample_put)). \<forall>s\<in>set (e_Flatten e). sub_ok s"
    by (simp add: ds_commit_def fresh_state_def sample_put_def e_Flatten_def sub_ok_def op_defs keySep_def)
  moreover have "ds_db (ds_commit fresh_state 1 sample_put) (ObjectKey [] [0x61] 1) \<noteq> None"
    using sample_put_db by simp
  moreover have "DecodeObjectKey (ObjectKey [] [0x61] 1) = Some ([], [0x61], 1)"
    by (simp add: keySep_def)
  ultimately show ?thesis using Recover_ids [OF fs] by fastforce
qed

text \<open>
  A first boot on an empty directory succeeds, and leaves a directory for the empty database.
\<close>

theorem Recover_first_boot:
  assumes "0 < fuel"
  shows "\<exists>steps res. Recover cd fuel [] = (steps, Inr res) \<and> rr_LastTxID res = 0 \<and>
    rr_Replayed res = [] \<and> dir_db cd fuel (fs_run steps []) Map.empty"
proof -
  from Recover_empty_law [OF assms] obtain steps res st where
    r: "Recover cd fuel [] = (steps, Inr res)" "dir_has cd fuel (fs_run steps []) st"
      "ds_complete st" "map_of (ds_kvs st) = Map.empty" "ds_active st = []" "ds_last st = 0"
      "resumes fuel (fs_run steps []) st res" by blast
  then have "ds_db st = Map.empty" by (simp add: ds_db_def ds_folded_def ds_complete_def)
  with r show ?thesis by (auto simp: resumes_def dir_db_def)
qed

theorem Recover_first_boot_witness:
  "\<exists>steps res. Recover (one_codec sample_put) 1 [] = (steps, Inr res) \<and> rr_Replayed res = []"
  using Recover_first_boot [of 1 "one_codec sample_put"] by auto

text \<open>
  C38: a crash during the first boot is for ever. If it happens after the file of generation 0 has been
  created and before \<^verbatim>\<open>CURRENT\<close> has been written, every later boot fails, without changing
  anything: the file exists, and creating it again is an error.
\<close>

theorem first_boot_crash_stuck:
  "\<exists>fs'. crashed (fst (Recover cd fuel [])) [] fs' \<and> Recover cd fuel fs' = ([], Inl ErrExist)"
proof -
  from initFresh_Inr [of "[]"] obtain f f' where
    i: "initFresh [] = ([FWrite (DataFile 0) f, FWrite (DataFile 0) f', FCreate walName] @ WriteCurrent 0, Inr ())"
    by auto
  let ?fs = "[(DataFile 0, f)]"
  obtain s' r where rest: "recover_from cd fuel 0 (fs_run (FWrite (DataFile 0) f # FWrite (DataFile 0) f' #
      FCreate walName # WriteCurrent 0) []) = (s', r)" by (cases "recover_from cd fuel 0 (fs_run
      (FWrite (DataFile 0) f # FWrite (DataFile 0) f' # FCreate walName # WriteCurrent 0) [])")
  have "fst (Recover cd fuel []) = FWrite (DataFile 0) f # FWrite (DataFile 0) f' # FCreate walName #
      WriteCurrent 0 @ s'"
    using i rest by (simp add: Recover_def fs_bind_def fs_steps_def removeTempFiles_def fs_names_def
        current_or_fresh_def ReadCurrent_def fs_reads_def Let_def)
  then have "crashed (fst (Recover cd fuel [])) [] ?fs"
    by (simp add: fs_put_def)
  moreover have "removeTempFiles ?fs = []"
    by (simp add: removeTempFiles_def fs_names_def)
  then have "Recover cd fuel ?fs = ([], Inl ErrExist)"
    by (simp add: Recover_def fs_bind_def fs_steps_def current_or_fresh_def ReadCurrent_def initFresh_def)
  ultimately show ?thesis by blast
qed

end
