(* ===== verification/Sequencer.thy ===== *)
theory Sequencer
  imports Wal Layout
begin

text \<open>
  \<^verbatim>\<open>internal/storage/wal/sequencer.go\<close> and \<^verbatim>\<open>fsyncmode.go\<close>: the goroutine that owns the log.
  A batch of requests is appended and synced by \<open>run_batch\<close>, whose inputs say what the operating
  system does with each write and with the sync; \<open>doRotate\<close> cuts the log. The queue, the response
  channels, \<^verbatim>\<open>Submit\<close> with its three \<^verbatim>\<open>select\<close>s and \<^verbatim>\<open>Close\<close> are a step relation in which the
  clients, the goroutine and the closer interleave. The lemmas show that on a disk without failures
  an acknowledged write is in the log, under a transaction number of its own, in order.
\<close>

section \<open>Modes\<close>

datatype FsyncPolicy = FsyncPerCommit | FsyncGroupCommit

record FsyncMode =
  fm_Policy :: FsyncPolicy
  fm_Interval :: int
  fm_MaxBatch :: int

definition DefaultFsyncMode :: FsyncMode where
  "DefaultFsyncMode = \<lparr>fm_Policy = FsyncPerCommit, fm_Interval = 0, fm_MaxBatch = 0\<rparr>"

text \<open>Durations are in nanoseconds.\<close>

definition GroupCommitMode :: "int \<Rightarrow> int \<Rightarrow> FsyncMode" where
  "GroupCommitMode interval maxBatch =
     (let interval = (if interval \<le> 0 then 2000000 else interval);
          maxBatch = (if maxBatch \<le> 0 then 256 else maxBatch)
      in \<lparr>fm_Policy = FsyncGroupCommit, fm_Interval = interval, fm_MaxBatch = maxBatch\<rparr>)"

section \<open>One batch\<close>

text \<open>
  The appends of a batch, up to the first error. A write to a file that is closed fails before
  anything is written; \<open>ios i\<close> is what happens to the write of request \<open>i\<close>.
\<close>

fun append_batch ::
  "bool \<Rightarrow> (nat \<Rightarrow> nat option) \<Rightarrow> nat \<Rightarrow> u64 \<Rightarrow> bytes \<Rightarrow> bytes list \<Rightarrow> bytes \<times> unit res" where
  "append_batch opn ios i tx f [] = (f, Inr ())"
| "append_batch opn ios i tx f (p # ps) =
     (case wal_Append (if opn then ios i else Some 0) f (tx + 1) p of
        (f, Inl e) \<Rightarrow> (f, Inl e)
      | (f, Inr _) \<Rightarrow> append_batch opn ios (Suc i) (tx + 1) f ps)"

text \<open>
  What the goroutine does with a batch: every request gets the next transaction number, the records
  are appended until an append fails, one sync follows, and all requests get the same error. The
  result is the counter, the log and the answers.
\<close>

definition run_batch ::
  "bool \<Rightarrow> (nat \<Rightarrow> nat option) \<Rightarrow> bool \<Rightarrow> u64 \<Rightarrow> bytes \<Rightarrow> bytes list \<Rightarrow> u64 \<times> bytes \<times> u64 res list" where
  "run_batch opn ios sync_ok tx f ps =
     (let txIDs = map (\<lambda>i. tx + word_of_nat (Suc i)) [0..<length ps];
          (f, r) = append_batch opn ios 0 tx f ps;
          err = (case r of Inl e \<Rightarrow> Some e | Inr _ \<Rightarrow> if opn \<and> sync_ok then None else Some ErrIO)
      in (tx + word_of_nat (length ps), f,
          map (\<lambda>tx. case err of None \<Rightarrow> Inr tx | Some e \<Rightarrow> Inl e) txIDs))"

section \<open>Rotation\<close>

text \<open>Whether each system call of \<^verbatim>\<open>doRotate\<close> succeeds.\<close>

record rotate_io =
  ri_sync :: bool
  ri_close :: bool
  ri_rename :: bool
  ri_open :: bool
  ri_back :: bool
  ri_reopen :: bool

text \<open>
  The steps on the directory, whether the sequencer's writer is open afterwards, and the answer.
  A writer that was closed and not replaced stays closed.
\<close>

definition doRotate :: "rotate_io \<Rightarrow> path \<Rightarrow> path \<Rightarrow> bool \<Rightarrow> fs_step list \<times> bool \<times> unit res" where
  "doRotate io active retired opn =
     (if \<not> (opn \<and> ri_sync io) then ([], opn, Inl ErrIO)
      else if \<not> ri_close io then ([], False, Inl ErrIO)
      else if \<not> ri_rename io then ([], False, Inl ErrIO)
      else if ri_open io then ([FRename active retired, FCreate active], True, Inr ())
      else if ri_back io then
        ([FRename active retired, FRename retired active], ri_reopen io, Inl ErrIO)
      else ([FRename active retired], False, Inl ErrIO))"

section \<open>Clients, goroutine and closer\<close>

text \<open>
  A client is one call of \<^verbatim>\<open>Submit\<close>: before the call, at the first \<^verbatim>\<open>select\<close>, at the second (its
  request is in the queue's buffer), at the third, returned.
\<close>

datatype client =
    CIdle
  | CSending bytes
  | CSent bytes
  | CWaiting bytes
  | CReturned bytes "u64 res"

text \<open>The goroutine: at its \<^verbatim>\<open>select\<close>, collecting a group, with a full batch, answering, draining, gone.\<close>

datatype run_pc =
    RunSelect
  | RunCollect "(nat \<times> bytes) list"
  | RunBatch "(nat \<times> bytes) list"
  | RunReply "(nat \<times> u64 res) list"
  | RunDrain
  | RunExit

record seq_sys =
  sy_file :: bytes
  sy_retired :: "bytes list"
  sy_nextTx :: u64
  sy_reqs :: "(nat \<times> bytes) list"
  sy_run :: run_pc
  sy_done :: bool
  sy_resp :: "nat \<Rightarrow> u64 res option"
  sy_client :: "nat \<Rightarrow> client"

definition NewSequencer :: "bytes \<Rightarrow> u64 \<Rightarrow> seq_sys" where
  "NewSequencer f initialTxID =
     \<lparr>sy_file = f, sy_retired = [], sy_nextTx = initialTxID, sy_reqs = [], sy_run = RunSelect, sy_done = False,
      sy_resp = (\<lambda>_. None), sy_client = (\<lambda>_. CIdle)\<rparr>"

definition call_goto :: "nat \<Rightarrow> client \<Rightarrow> seq_sys \<Rightarrow> seq_sys" where
  "call_goto c pc s = s\<lparr>sy_client := (sy_client s)(c := pc)\<rparr>"

definition run_goto :: "run_pc \<Rightarrow> seq_sys \<Rightarrow> seq_sys" where
  "run_goto pc s = s\<lparr>sy_run := pc\<rparr>"

definition answer :: "nat \<Rightarrow> u64 res \<Rightarrow> seq_sys \<Rightarrow> seq_sys" where
  "answer c r s = s\<lparr>sy_resp := (sy_resp s)(c := Some r)\<rparr>"

lemmas sy_defs = call_goto_def run_goto_def answer_def

text \<open>
  \<open>seq_step mode cap n s s'\<close>: one atomic step on a disk without failures; \<open>n\<close> transaction numbers
  are assigned in it. \<open>cap\<close> is the size of the queue's buffer. When several cases of a \<^verbatim>\<open>select\<close> are
  ready any of them may be taken; the second \<^verbatim>\<open>select\<close> of \<^verbatim>\<open>Submit\<close> has a default.
\<close>

inductive seq_step :: "FsyncMode \<Rightarrow> nat \<Rightarrow> nat \<Rightarrow> seq_sys \<Rightarrow> seq_sys \<Rightarrow> bool"
  for mode :: FsyncMode and cap :: nat where
  submit_call: "sy_client s c = CIdle \<Longrightarrow> seq_step mode cap 0 s (call_goto c (CSending p) s)"
| submit_enqueue: "sy_client s c = CSending p \<Longrightarrow> length (sy_reqs s) < cap \<Longrightarrow>
    seq_step mode cap 0 s (call_goto c (CSent p) (s\<lparr>sy_reqs := sy_reqs s @ [(c, p)]\<rparr>))"
| submit_closed: "sy_client s c = CSending p \<Longrightarrow> sy_done s \<Longrightarrow>
    seq_step mode cap 0 s (call_goto c (CReturned p (Inl ErrClosed)) s)"
| submit_ready: "sy_client s c = CSent p \<Longrightarrow> sy_resp s c = Some r \<Longrightarrow>
    seq_step mode cap 0 s (call_goto c (CReturned p r) s)"
| submit_default: "sy_client s c = CSent p \<Longrightarrow> sy_resp s c = None \<Longrightarrow>
    seq_step mode cap 0 s (call_goto c (CWaiting p) s)"
| submit_answered: "sy_client s c = CWaiting p \<Longrightarrow> sy_resp s c = Some r \<Longrightarrow>
    seq_step mode cap 0 s (call_goto c (CReturned p r) s)"
| submit_abandoned: "sy_client s c = CWaiting p \<Longrightarrow> sy_done s \<Longrightarrow>
    seq_step mode cap 0 s (call_goto c (CReturned p (Inl ErrClosed)) s)"
| run_take: "sy_run s = RunSelect \<Longrightarrow> sy_reqs s = r # q \<Longrightarrow>
    seq_step mode cap 0 s (run_goto (if fm_Policy mode = FsyncGroupCommit then RunCollect [r] else RunBatch [r])
      (s\<lparr>sy_reqs := q\<rparr>))"
| collect_more: "sy_run s = RunCollect b \<Longrightarrow> int (length b) < fm_MaxBatch mode \<Longrightarrow> sy_reqs s = r # q \<Longrightarrow>
    seq_step mode cap 0 s (run_goto (RunCollect (b @ [r])) (s\<lparr>sy_reqs := q\<rparr>))"
| collect_end: "sy_run s = RunCollect b \<Longrightarrow> seq_step mode cap 0 s (run_goto (RunBatch b) s)"
| run_commit: "sy_run s = RunBatch b \<Longrightarrow>
    run_batch True (\<lambda>_. None) True (sy_nextTx s) (sy_file s) (map snd b) = (tx, f, rs) \<Longrightarrow>
    seq_step mode cap (length b) s (run_goto (RunReply (zip (map fst b) rs)) (s\<lparr>sy_nextTx := tx, sy_file := f\<rparr>))"
| run_reply: "sy_run s = RunReply ((c, r) # q) \<Longrightarrow>
    seq_step mode cap 0 s (run_goto (RunReply q) (answer c r s))"
| run_again: "sy_run s = RunReply [] \<Longrightarrow> seq_step mode cap 0 s (run_goto RunSelect s)"
| run_rotate: "sy_run s = RunSelect \<Longrightarrow>
    seq_step mode cap 0 s (s\<lparr>sy_retired := sy_retired s @ [sy_file s], sy_file := []\<rparr>)"
| run_closed: "sy_run s = RunSelect \<Longrightarrow> sy_done s \<Longrightarrow> seq_step mode cap 0 s (run_goto RunDrain s)"
| run_drain: "sy_run s = RunDrain \<Longrightarrow> sy_reqs s = (c, p) # q \<Longrightarrow>
    seq_step mode cap 0 s (answer c (Inl ErrClosed) (s\<lparr>sy_reqs := q\<rparr>))"
| run_exit: "sy_run s = RunDrain \<Longrightarrow> sy_reqs s = [] \<Longrightarrow> seq_step mode cap 0 s (run_goto RunExit s)"
| close: "seq_step mode cap 0 s (s\<lparr>sy_done := True\<rparr>)"

inductive seq_reachable :: "FsyncMode \<Rightarrow> nat \<Rightarrow> bytes \<Rightarrow> u64 \<Rightarrow> nat \<Rightarrow> seq_sys \<Rightarrow> bool"
  for mode :: FsyncMode and cap :: nat and f :: bytes and init :: u64 where
  start: "seq_reachable mode cap f init 0 (NewSequencer f init)"
| step: "seq_reachable mode cap f init n s \<Longrightarrow> seq_step mode cap k s s' \<Longrightarrow> seq_reachable mode cap f init (n + k) s'"

inductive_cases seq_stepE: "seq_step mode cap k s s'"

section \<open>Batches on a disk without failures\<close>

text \<open>Consecutive transaction numbers after \<open>tx\<close>.\<close>

fun number :: "u64 \<Rightarrow> bytes list \<Rightarrow> (u64 \<times> bytes) list" where
  "number tx [] = []"
| "number tx (p # ps) = (tx + 1, p) # number (tx + 1) ps"

lemma append_batch_ok:
  "append_batch True (\<lambda>_. None) i tx f ps =
     (if \<forall>r\<in>set (number tx ps). record_ok r then (f @ wal_log (number tx ps), Inr ())
      else (f @ wal_log (takeWhile record_ok (number tx ps)), Inl ErrTooLarge))"
  by (induction ps arbitrary: i tx f) (simp_all add: wal_Append_def Let_def)

lemma number_nth: "number tx ps = map (\<lambda>i. (tx + word_of_nat (Suc i), ps ! i)) [0..<length ps]"
proof (induction ps arbitrary: tx)
  case (Cons p ps)
  have "[0..<length (p # ps)] = 0 # map Suc [0..<length ps]" by (simp add: upt_conv_Cons map_Suc_upt del: upt_Suc)
  then show ?case by (simp add: Cons.IH add.assoc del: upt_Suc)
qed simp

lemma number_shift:
  "number (init + word_of_nat n) ps = map (\<lambda>i. (init + word_of_nat (n + Suc i), ps ! i)) [0..<length ps]"
  unfolding number_nth by (rule map_cong) (simp_all only: of_nat_add add.assoc)

lemma number_ok: "(\<forall>r\<in>set (number tx ps). record_ok r) \<longleftrightarrow> (\<forall>p\<in>set ps. length p \<le> MaxRecordLen)"
  by (induction ps arbitrary: tx) simp_all

lemma run_batch_ok:
  "run_batch True (\<lambda>_. None) True tx f ps =
     (tx + word_of_nat (length ps),
      f @ wal_log (takeWhile record_ok (number tx ps)),
      map (\<lambda>i. if \<forall>p\<in>set ps. length p \<le> MaxRecordLen then Inr (tx + word_of_nat (Suc i)) else Inl ErrTooLarge)
        [0..<length ps])"
proof (cases "\<forall>p\<in>set ps. length p \<le> MaxRecordLen")
  case True
  have tw: "takeWhile record_ok (number tx ps) = number tx ps"
    unfolding takeWhile_eq_all_conv number_ok by (rule True)
  show ?thesis unfolding tw using True by (simp add: run_batch_def append_batch_ok number_ok)
next
  case False
  show ?thesis unfolding run_batch_def append_batch_ok number_ok if_not_P [OF False] by simp
qed

section \<open>The invariant\<close>

text \<open>A client whose request, with payload \<open>p\<close>, has been put into the queue.\<close>

fun sent :: "client \<Rightarrow> bytes \<Rightarrow> bool" where
  "sent CIdle p \<longleftrightarrow> False"
| "sent (CSending q) p \<longleftrightarrow> False"
| "sent (CSent q) p \<longleftrightarrow> q = p"
| "sent (CWaiting q) p \<longleftrightarrow> q = p"
| "sent (CReturned q r) p \<longleftrightarrow> q = p"

text \<open>Requests that the goroutine has yet to append.\<close>

definition in_flight :: "seq_sys \<Rightarrow> (nat \<times> bytes) list" where
  "in_flight s = (case sy_run s of RunCollect b \<Rightarrow> b | RunBatch b \<Rightarrow> b | _ \<Rightarrow> []) @ sy_reqs s"

text \<open>The successful answers: on their way, in the response channel, or returned.\<close>

definition acked :: "seq_sys \<Rightarrow> (nat \<times> u64) set" where
  "acked s = {(c, tx). (\<exists>q. sy_run s = RunReply q \<and> (c, Inr tx) \<in> set q) \<or>
     sy_resp s c = Some (Inr tx) \<or> (\<exists>p. sy_client s c = CReturned p (Inr tx))}"

text \<open>
  \<open>ws\<close> lists what the clients have in the log: the client, the number of its transaction counted
  from \<open>init\<close>, its payload.
\<close>

type_synonym wlist = "(nat \<times> nat \<times> bytes) list"

definition wrecs :: "u64 \<Rightarrow> wlist \<Rightarrow> (u64 \<times> bytes) list" where
  "wrecs init ws = map (\<lambda>(c, k, p). (init + word_of_nat k, p)) ws"

definition log_inv ::
  "(u64 \<times> bytes) list \<Rightarrow> u64 \<Rightarrow> nat \<Rightarrow> wlist \<Rightarrow> (u64 \<times> bytes) list list \<Rightarrow> (u64 \<times> bytes) list \<Rightarrow> seq_sys \<Rightarrow> bool" where
  "log_inv rs0 init n ws old act s \<longleftrightarrow>
     sy_retired s = map wal_log old \<and> sy_file s = wal_log act \<and> sy_nextTx s = init + word_of_nat n \<and>
     concat old @ act = rs0 @ wrecs init ws \<and> (\<forall>r\<in>set (rs0 @ wrecs init ws). record_ok r) \<and>
     sorted_wrt (<) (map (fst \<circ> snd) ws) \<and> (\<forall>(c, k, p)\<in>set ws. 0 < k \<and> k \<le> n)"

definition client_inv :: "u64 \<Rightarrow> wlist \<Rightarrow> seq_sys \<Rightarrow> bool" where
  "client_inv init ws s \<longleftrightarrow>
     distinct (map fst ws @ map fst (in_flight s)) \<and>
     (\<forall>(c, k, p)\<in>set ws. sent (sy_client s c) p) \<and> (\<forall>(c, p)\<in>set (in_flight s). sent (sy_client s c) p) \<and>
     (\<forall>(c, tx)\<in>acked s. \<exists>k p. (c, k, p) \<in> set ws \<and> tx = init + word_of_nat k)"

lemma client_invI:
  assumes "distinct (map fst ws @ map fst (in_flight s))"
    "\<And>c k p. (c, k, p) \<in> set ws \<Longrightarrow> sent (sy_client s c) p"
    "\<And>c p. (c, p) \<in> set (in_flight s) \<Longrightarrow> sent (sy_client s c) p"
    "\<And>c tx. (c, tx) \<in> acked s \<Longrightarrow> \<exists>k p. (c, k, p) \<in> set ws \<and> tx = init + word_of_nat k"
  shows "client_inv init ws s"
  unfolding client_inv_def using assms by blast

lemma client_invD:
  assumes "client_inv init ws s"
  shows "distinct (map fst ws @ map fst (in_flight s))"
    "(c, k, p) \<in> set ws \<Longrightarrow> sent (sy_client s c) p"
    "(c, p) \<in> set (in_flight s) \<Longrightarrow> sent (sy_client s c) p"
    "(c, tx) \<in> acked s \<Longrightarrow> \<exists>k p. (c, k, p) \<in> set ws \<and> tx = init + word_of_nat k"
  using assms unfolding client_inv_def by blast+

definition seq_inv :: "(u64 \<times> bytes) list \<Rightarrow> u64 \<Rightarrow> nat \<Rightarrow> seq_sys \<Rightarrow> bool" where
  "seq_inv rs0 init n s \<longleftrightarrow> (\<exists>ws old act. log_inv rs0 init n ws old act s \<and> client_inv init ws s)"

lemma seq_inv_start:
  assumes "\<forall>r\<in>set rs0. record_ok r"
  shows "seq_inv rs0 init 0 (NewSequencer (wal_log rs0) init)"
  unfolding seq_inv_def using assms
  by (intro exI [of _ "[]"] exI [of _ rs0])
    (simp add: log_inv_def client_inv_def NewSequencer_def wrecs_def in_flight_def acked_def)

text \<open>What a committed batch adds to the list.\<close>

definition batch_ws :: "nat \<Rightarrow> (nat \<times> bytes) list \<Rightarrow> wlist" where
  "batch_ws n b = map (\<lambda>i. (fst (b ! i), n + Suc i, snd (b ! i))) [0..<length b]"

lemma wrecs_batch: "wrecs init (batch_ws n b) = number (init + word_of_nat n) (map snd b)"
  unfolding number_shift by (simp add: wrecs_def batch_ws_def)

lemma wrecs_append [simp]: "wrecs init (xs @ ys) = wrecs init xs @ wrecs init ys"
  by (simp add: wrecs_def)

lemma wrecs_take: "wrecs init (take m ws) = take m (wrecs init ws)"
  by (simp add: wrecs_def take_map)

lemma batch_ws_simps:
  "map fst (batch_ws n b) = map fst b" "length (batch_ws n b) = length b"
  "map (fst \<circ> snd) (batch_ws n b) = map (\<lambda>i. n + Suc i) [0..<length b]"
proof -
  show "map fst (batch_ws n b) = map fst b" by (rule nth_equalityI) (simp_all add: batch_ws_def)
qed (simp_all add: batch_ws_def)

lemma batch_ws_sorted: "sorted_wrt (<) (map (fst \<circ> snd) (batch_ws n b))"
  by (simp add: batch_ws_simps sorted_wrt_iff_nth_less)

lemma in_batch_ws:
  "(c, k, p) \<in> set (batch_ws n b) \<Longrightarrow> (c, p) \<in> set b \<and> n < k \<and> k \<le> n + length b"
  by (auto simp: batch_ws_def)

lemma set_batch_ws:
  "i < length b \<Longrightarrow> (fst (b ! i), n + Suc i, snd (b ! i)) \<in> set (batch_ws n b)"
  by (auto simp: batch_ws_def)

lemma sorted_wrt_take: "sorted_wrt P xs \<Longrightarrow> sorted_wrt P (take m xs)"
  by (metis append_take_drop_id sorted_wrt_append)

text \<open>The committed part of a batch: its records up to the first one that is too large.\<close>

lemma commit_ws:
  fixes b :: "(nat \<times> bytes) list"
  assumes "run_batch True (\<lambda>_. None) True (init + word_of_nat n) f (map snd b) = (tx, f', rs)"
  obtains m where "f' = f @ wal_log (wrecs init (take m (batch_ws n b)))"
    "\<forall>r\<in>set (wrecs init (take m (batch_ws n b))). record_ok r"
    "tx = init + word_of_nat (n + length b)" "length rs = length b"
    "\<And>c t. (c, Inr t) \<in> set (zip (map fst b) rs) \<Longrightarrow>
      \<exists>k p. (c, k, p) \<in> set (take m (batch_ws n b)) \<and> t = init + word_of_nat k"
proof -
  let ?ns = "number (init + word_of_nat n) (map snd b)"
  define m where "m = (if \<forall>p\<in>set (map snd b). length p \<le> MaxRecordLen then length b
    else length (takeWhile record_ok ?ns))"
  note e = assms [unfolded run_batch_ok]
  have tw: "takeWhile record_ok ?ns = take m ?ns"
  proof (cases "\<forall>p\<in>set (map snd b). length p \<le> MaxRecordLen")
    case True
    have "length ?ns = length b" by (simp add: number_nth)
    moreover have "takeWhile record_ok ?ns = ?ns"
      unfolding takeWhile_eq_all_conv number_ok by (rule True)
    moreover have "m = length b" unfolding m_def by (rule if_P [OF True])
    ultimately show ?thesis by simp
  next
    case False
    show ?thesis unfolding m_def if_not_P [OF False] by (rule takeWhile_eq_take)
  qed
  have 1: "f' = f @ wal_log (wrecs init (take m (batch_ws n b)))"
    using e by (simp only: wrecs_take wrecs_batch tw prod.inject)
  have 2: "\<forall>r\<in>set (wrecs init (take m (batch_ws n b))). record_ok r"
    unfolding wrecs_take wrecs_batch tw [symmetric] using set_takeWhileD by fastforce
  have 3: "tx = init + word_of_nat (n + length b)" using e by (simp add: add.assoc)
  have 4: "length rs = length b" using e by auto
  have 5: "\<exists>k p. (c, k, p) \<in> set (take m (batch_ws n b)) \<and> t = init + word_of_nat k"
    if "(c, Inr t) \<in> set (zip (map fst b) rs)" for c t
  proof -
  from that obtain i where i: "i < length b" "c = fst (b ! i)" "rs ! i = Inr t"
    using 4 by (auto simp: set_zip)
  let ?ok = "\<forall>p\<in>set (map snd b). length p \<le> MaxRecordLen"
  have "rs = map (\<lambda>i. if ?ok then Inr (init + word_of_nat n + word_of_nat (Suc i)) else Inl ErrTooLarge)
      [0..<length (map snd b)]" using e by (simp only: prod.inject)
  then have "rs ! i = (if ?ok then Inr (init + word_of_nat n + word_of_nat (Suc i)) else Inl ErrTooLarge)"
    using i(1) by (simp only: length_map nth_map_upt)  simp
  then have ok: ?ok and t: "t = init + word_of_nat n + word_of_nat (Suc i)"
    using i(3) by (simp_all only: split: if_splits) simp_all
  have "(c, n + Suc i, snd (b ! i)) \<in> set (take m (batch_ws n b))"
    using set_batch_ws [OF i(1)] i(2) by (simp add: m_def if_P [OF ok, simplified] batch_ws_simps)
  moreover have "t = init + word_of_nat (n + Suc i)" using t by (simp only: of_nat_add add.assoc)
  ultimately show ?thesis by blast
  qed
  show thesis by (rule that [OF 1 2 3 4 5])
qed

text \<open>
  Most steps leave the log alone: they keep the requests in flight, move clients only forwards and
  make no new answer.
\<close>

lemma seq_inv_frame:
  assumes "seq_inv rs0 init n s"
    "sy_retired s' = sy_retired s" "sy_file s' = sy_file s" "sy_nextTx s' = sy_nextTx s"
    "in_flight s' = in_flight s \<or> distinct (map fst (in_flight s')) \<and> set (in_flight s') \<subseteq> set (in_flight s)"
    "\<And>c p. sent (sy_client s c) p \<Longrightarrow> sent (sy_client s' c) p" "acked s' \<subseteq> acked s"
  shows "seq_inv rs0 init n s'"
proof -
  obtain ws old act where inv: "log_inv rs0 init n ws old act s" "client_inv init ws s"
    using assms(1) by (auto simp: seq_inv_def)
  note c = client_invD [OF inv(2)]
  have fl: "set (in_flight s') \<subseteq> set (in_flight s)" using assms(5) by auto
  then have "fst ` set (in_flight s') \<subseteq> fst ` set (in_flight s)" by (rule image_mono)
  then have "distinct (map fst ws @ map fst (in_flight s'))" using c(1) assms(5) by auto
  then have "client_inv init ws s'"
    by (rule client_invI) (use c assms(6,7) fl in blast)+
  moreover have "log_inv rs0 init n ws old act s'" using inv(1) assms(2-4) by (simp add: log_inv_def)
  ultimately show ?thesis by (auto simp: seq_inv_def)
qed

lemma acked_iff:
  "(c, tx) \<in> acked s \<longleftrightarrow> (\<exists>q. sy_run s = RunReply q \<and> (c, Inr tx) \<in> set q) \<or>
     sy_resp s c = Some (Inr tx) \<or> (\<exists>p. sy_client s c = CReturned p (Inr tx))"
  by (simp add: acked_def)

lemma seq_inv_enqueue:
  assumes "seq_inv rs0 init n s" "sy_client s c = CSending p"
  shows "seq_inv rs0 init n (call_goto c (CSent p) (s\<lparr>sy_reqs := sy_reqs s @ [(c, p)]\<rparr>))" (is "seq_inv _ _ _ ?s")
proof -
  obtain ws old act where inv: "log_inv rs0 init n ws old act s" "client_inv init ws s"
    using assms(1) by (auto simp: seq_inv_def)
  note ci = client_invD [OF inv(2)]
  have fl: "in_flight ?s = in_flight s @ [(c, p)]" by (simp add: in_flight_def call_goto_def)
  have no: "\<not> sent (sy_client s c) q" for q using assms(2) by simp
  have new: "c \<notin> fst ` set ws" "c \<notin> fst ` set (in_flight s)" using ci(2,3) no by fastforce+
  have keep: "sent (sy_client s d) q \<Longrightarrow> sent (sy_client ?s d) q" for d q
    using no by (auto simp: call_goto_def)
  have "client_inv init ws ?s"
  proof (rule client_invI)
    show "distinct (map fst ws @ map fst (in_flight ?s))" using ci(1) new by (simp add: fl)
    show "sent (sy_client ?s d) q" if "(d, k, q) \<in> set ws" for d k q using keep ci(2) that by blast
    show "sent (sy_client ?s d) q" if "(d, q) \<in> set (in_flight ?s)" for d q
      using keep ci(3) [of d q] no [of q] that unfolding fl by (auto simp: call_goto_def)
    show "\<exists>k p. (d, k, p) \<in> set ws \<and> tx = init + word_of_nat k" if "(d, tx) \<in> acked ?s" for d tx
      using ci(4) [of d tx] that by (auto simp: acked_iff call_goto_def split: if_splits)
  qed
  moreover have "log_inv rs0 init n ws old act ?s" using inv(1) by (simp add: log_inv_def call_goto_def)
  ultimately show ?thesis by (auto simp: seq_inv_def)
qed

lemma seq_inv_commit:
  assumes "seq_inv rs0 init n s" "sy_run s = RunBatch b"
    "run_batch True (\<lambda>_. None) True (sy_nextTx s) (sy_file s) (map snd b) = (tx, f, rs)"
  shows "seq_inv rs0 init (n + length b)
    (run_goto (RunReply (zip (map fst b) rs)) (s\<lparr>sy_nextTx := tx, sy_file := f\<rparr>))" (is "seq_inv _ _ _ ?s")
proof -
  obtain ws old act where inv: "log_inv rs0 init n ws old act s" "client_inv init ws s"
    using assms(1) by (auto simp: seq_inv_def)
  note ci = client_invD [OF inv(2)]
  have nx: "sy_nextTx s = init + word_of_nat n" using inv(1) by (simp add: log_inv_def)
  from assms(3) [unfolded nx] obtain m where
    m: "f = sy_file s @ wal_log (wrecs init (take m (batch_ws n b)))"
      "\<forall>r\<in>set (wrecs init (take m (batch_ws n b))). record_ok r"
      "tx = init + word_of_nat (n + length b)" "length rs = length b"
      "\<And>c t. (c, Inr t) \<in> set (zip (map fst b) rs) \<Longrightarrow>
        \<exists>k p. (c, k, p) \<in> set (take m (batch_ws n b)) \<and> t = init + word_of_nat k"
    by (rule commit_ws) blast
  define new where "new = take m (batch_ws n b)"
  have sub: "(c, p) \<in> set b \<and> n < k \<and> k \<le> n + length b" if "(c, k, p) \<in> set new" for c k p
    using that in_batch_ws set_take_subset unfolding new_def by (meson subsetD)
  have fl: "in_flight s = b @ sy_reqs s" "in_flight ?s = sy_reqs s"
    using assms(2) by (simp_all add: in_flight_def run_goto_def)
  have fst_new: "map fst new = take m (map fst b)"
    by (simp add: new_def take_map [symmetric] batch_ws_simps)
  have "sorted_wrt (<) (map (fst \<circ> snd) new)"
    using sorted_wrt_take [OF batch_ws_sorted] by (simp add: new_def take_map)
  then have "log_inv rs0 init (n + length b) (ws @ new) old (act @ wrecs init new) ?s"
    unfolding log_inv_def
  proof (intro conjI)
    show "sorted_wrt (<) (map (fst \<circ> snd) (ws @ new))"
      using inv(1) \<open>sorted_wrt (<) (map (fst \<circ> snd) new)\<close> sub
      by (fastforce simp: log_inv_def sorted_wrt_append)
    show "\<forall>(c, k, p)\<in>set (ws @ new). 0 < k \<and> k \<le> n + length b"
      using inv(1) sub by (fastforce simp: log_inv_def)
    show "\<forall>r\<in>set (rs0 @ wrecs init (ws @ new)). record_ok r"
      using inv(1) m(2) by (auto simp: log_inv_def new_def)
  qed (use inv(1) m(1,3) in \<open>simp_all add: log_inv_def run_goto_def new_def\<close>)
  moreover have "client_inv init (ws @ new) ?s"
  proof (rule client_invI)
    have "distinct (map fst ws @ take m (map fst b) @ map fst (sy_reqs s))"
      using ci(1) set_take_subset [of m "map fst b"] unfolding fl by (auto simp: image_iff)
    then show "distinct (map fst (ws @ new) @ map fst (in_flight ?s))" by (simp add: fl(2) fst_new)
    show "sent (sy_client ?s c) p" if "(c, k, p) \<in> set (ws @ new)" for c k p
      using that ci(2,3) sub by (fastforce simp: run_goto_def fl)
    show "sent (sy_client ?s c) p" if "(c, p) \<in> set (in_flight ?s)" for c p
      using that ci(3) [of c p] unfolding fl by (simp add: run_goto_def)
    show "\<exists>k p. (c, k, p) \<in> set (ws @ new) \<and> t = init + word_of_nat k" if "(c, t) \<in> acked ?s" for c t
    proof -
      from that have "(c, Inr t) \<in> set (zip (map fst b) rs) \<or> (c, t) \<in> acked s"
        by (auto simp: acked_iff run_goto_def)
      then show ?thesis using m(5) ci(4) by (fastforce simp: new_def)
    qed
  qed
  ultimately show ?thesis by (auto simp: seq_inv_def)
qed

lemma seq_inv_rotate:
  assumes "seq_inv rs0 init n s" "sy_run s = RunSelect"
  shows "seq_inv rs0 init n (s\<lparr>sy_retired := sy_retired s @ [sy_file s], sy_file := []\<rparr>)" (is "seq_inv _ _ _ ?s")
proof -
  obtain ws old act where inv: "log_inv rs0 init n ws old act s" "client_inv init ws s"
    using assms(1) by (auto simp: seq_inv_def)
  have "log_inv rs0 init n ws (old @ [act]) [] ?s" using inv(1) by (auto simp: log_inv_def)
  moreover have "client_inv init ws ?s"
    using inv(2) by (simp add: client_inv_def in_flight_def acked_def)
  ultimately show ?thesis by (auto simp: seq_inv_def)
qed

lemma seq_inv_step:
  assumes "seq_inv rs0 init n s" "seq_step mode cap k s s'"
  shows "seq_inv rs0 init (n + k) s'"
proof -
  have frame: ?thesis if "k = 0" "sy_retired s' = sy_retired s" "sy_file s' = sy_file s" "sy_nextTx s' = sy_nextTx s"
    "in_flight s' = in_flight s \<or> distinct (map fst (in_flight s')) \<and> set (in_flight s') \<subseteq> set (in_flight s)"
    "\<And>c p. sent (sy_client s c) p \<Longrightarrow> sent (sy_client s' c) p" "\<And>c t. (c, t) \<in> acked s' \<Longrightarrow> (c, t) \<in> acked s"
  proof -
    have "acked s' \<subseteq> acked s" using that(7) by auto
    from seq_inv_frame [OF assms(1) that(2-6) this] that(1) show ?thesis by simp
  qed
  have d: "distinct (map fst (in_flight s))"
    using assms(1) by (auto simp: seq_inv_def client_inv_def)
  from assms(2) show ?thesis
  proof cases
    case submit_enqueue
    then show ?thesis using seq_inv_enqueue [OF assms(1)] by simp
  next
    case run_commit
    then show ?thesis using seq_inv_commit [OF assms(1)] by simp
  next
    case run_rotate
    then show ?thesis using seq_inv_rotate [OF assms(1)] by simp
  next
    case run_take
    then show ?thesis
      by (intro frame) (auto simp: sy_defs in_flight_def acked_iff split: if_splits)
  qed (rule frame; use d in \<open>auto simp: sy_defs in_flight_def acked_iff split: if_splits\<close>)+
qed

lemma seq_reachable_inv:
  assumes "seq_reachable mode cap (wal_log rs0) init n s" "\<forall>r\<in>set rs0. record_ok r"
  shows "seq_inv rs0 init n s"
  using assms(1)
proof (induction rule: seq_reachable.induct)
  case start
  show ?case using assms(2) by (rule seq_inv_start)
next
  case (step n s k s')
  then show ?case by (blast intro: seq_inv_step)
qed

lemma wrecs_mono:
  assumes "unat init + n < 2 ^ 64" "j < k" "k \<le> n"
  shows "init + word_of_nat j < (init :: u64) + word_of_nat k"
proof -
  have "unat (init + word_of_nat i) = unat init + i" if "i \<le> n" for i
    using assms(1) that by (simp add: unat_word_ariths unat_of_nat)
  then show ?thesis using assms(2,3) by (simp add: word_less_nat_alt)
qed

lemma wrecs_sorted:
  assumes "unat init + n < 2 ^ 64" "sorted_wrt (<) (map (fst \<circ> snd) ws)" "\<forall>(c, k, p)\<in>set ws. 0 < k \<and> k \<le> n"
  shows "sorted_wrt (<) (map fst (wrecs init ws))"
proof -
  have "map fst (wrecs init ws) = map (\<lambda>k. init + word_of_nat k) (map (fst \<circ> snd) ws)"
    by (simp add: wrecs_def case_prod_beta)
  moreover have "sorted_wrt (<) (map (\<lambda>k. init + word_of_nat k) (map (fst \<circ> snd) ws))"
    unfolding sorted_wrt_map [of _ "\<lambda>k. init + word_of_nat k"]
    by (rule sorted_wrt_mono_rel [OF _ assms(2)]) (use assms(3) in \<open>fastforce intro: wrecs_mono [OF assms(1)]\<close>)
  ultimately show ?thesis by simp
qed

lemma wal_read_logs:
  assumes "\<forall>r\<in>set (concat old @ act). record_ok r"
  shows "concat (map (fst \<circ> wal_read) (map wal_log old @ [wal_log act])) = concat old @ act"
    "\<forall>f\<in>set (map wal_log old @ [wal_log act]). snd (snd (wal_read f)) = ErrEOF"
  using assms by (induction old) (simp_all add: wal_read_log)

section \<open>Properties\<close>

text \<open>
  C8: an acknowledged write is in the log. Whatever the interleaving of clients, goroutine, rotations
  and shutdown, in either mode: reading the retired logs and then the active one gives what was there
  at the start and then, in the order of their transaction numbers and without a torn record, the new
  records; every \<^verbatim>\<open>Submit\<close> that returned without an error has its payload there, under the number
  it returned, and no two calls return the same number.
\<close>

theorem submit_durable:
  assumes "seq_reachable mode cap (wal_log rs0) init n s" "\<forall>r\<in>set rs0. length (snd r) \<le> MaxRecordLen"
    "unat init + n < 2 ^ 64"
  shows "\<exists>new. concat (map (fst \<circ> wal_read) (sy_retired s @ [sy_file s])) = rs0 @ new \<and>
    (\<forall>f\<in>set (sy_retired s @ [sy_file s]). snd (snd (wal_read f)) = ErrEOF) \<and>
    sorted_wrt (<) (map fst new) \<and>
    (\<forall>c p tx. sy_client s c = CReturned p (Inr tx) \<longrightarrow> (tx, p) \<in> set new) \<and>
    (\<forall>c p c' p' tx. sy_client s c = CReturned p (Inr tx) \<longrightarrow> sy_client s c' = CReturned p' (Inr tx) \<longrightarrow> c = c')"
proof -
  from seq_reachable_inv [OF assms(1,2)] obtain ws old act where
    inv: "log_inv rs0 init n ws old act s" "client_inv init ws s" by (auto simp: seq_inv_def)
  note ci = client_invD [OF inv(2)]
  have li: "sy_retired s = map wal_log old" "sy_file s = wal_log act" "concat old @ act = rs0 @ wrecs init ws"
    "\<forall>r\<in>set (concat old @ act). record_ok r" "sorted_wrt (<) (map (fst \<circ> snd) ws)"
    "\<forall>(c, k, p)\<in>set ws. 0 < k \<and> k \<le> n"
    using inv(1) by (simp_all add: log_inv_def)
  have mine: "\<exists>k. (c, k, p) \<in> set ws \<and> tx = init + word_of_nat k" if "sy_client s c = CReturned p (Inr tx)" for c p tx
    using ci(4) [of c tx] ci(2) that by (fastforce simp: acked_iff)
  have "(tx, p) \<in> set (wrecs init ws)" if "sy_client s c = CReturned p (Inr tx)" for c p tx
    using mine [OF that] by (force simp: wrecs_def)
  moreover have "c = c'" if c: "sy_client s c = CReturned p (Inr tx)" "sy_client s c' = CReturned p' (Inr tx)" for c p c' p' tx
  proof -
    obtain k k' where k: "(c, k, p) \<in> set ws" "(c', k', p') \<in> set ws"
      "init + word_of_nat k = init + word_of_nat k'" using mine c by metis
    then have "k = k'"
      using li(6) wrecs_mono [OF assms(3), of k k'] wrecs_mono [OF assms(3), of k' k] by (metis (no_types, lifting) case_prodD less_irrefl linorder_neqE_nat)
    moreover have "distinct (map (fst \<circ> snd) ws)" using li(5) by (simp add: strict_sorted_iff)
    ultimately show ?thesis using k(1,2) by (force simp: distinct_map inj_on_def)
  qed
  ultimately show ?thesis
    using wal_read_logs [OF li(4)] wrecs_sorted [OF assms(3) li(5,6)] unfolding li(1-3)
    by (intro exI [of _ "wrecs init ws"] conjI allI impI) blast+
qed

text \<open>A run in which one client's write is logged; it is abandoned or acknowledged.\<close>

lemma reach0:
  "seq_reachable mode cap f init n s \<Longrightarrow> seq_step mode cap 0 s s' \<Longrightarrow> seq_reachable mode cap f init n s'"
  by (drule (1) seq_reachable.step) simp

definition taken :: "bytes \<Rightarrow> client \<Rightarrow> bool \<Rightarrow> seq_sys" where
  "taken p pc closed = run_goto (RunBatch [(0, p)])
     (call_goto 0 pc (NewSequencer [] 0\<lparr>sy_done := closed\<rparr>))"

definition logged :: "bytes \<Rightarrow> client \<Rightarrow> bool \<Rightarrow> seq_sys" where
  "logged p pc closed = run_goto (RunReply [(0, Inr 1)])
     (taken p pc closed\<lparr>sy_nextTx := 1, sy_file := wal_log [(1, p)]\<rparr>)"

lemma taken_reachable: "seq_reachable DefaultFsyncMode 1 (wal_log []) 0 0 (taken p (CSent p) False)"
proof -
  let ?R = "seq_reachable DefaultFsyncMode 1 (wal_log []) 0 0"
  let ?s0 = "NewSequencer (wal_log []) 0"
  let ?s1 = "call_goto 0 (CSending p) ?s0"
  let ?s2 = "call_goto 0 (CSent p) (?s1\<lparr>sy_reqs := sy_reqs ?s1 @ [(0, p)]\<rparr>)"
  have "?R ?s0" by (rule seq_reachable.start)
  then have "?R ?s1" by (rule reach0 [OF _ submit_call]) (simp add: NewSequencer_def)
  then have "?R ?s2" by (rule reach0 [OF _ submit_enqueue]) (simp_all add: NewSequencer_def sy_defs)
  then have "?R (run_goto (if fm_Policy DefaultFsyncMode = FsyncGroupCommit then RunCollect [(0, p)]
      else RunBatch [(0, p)]) (?s2\<lparr>sy_reqs := []\<rparr>))"
    by (rule reach0 [OF _ run_take]) (simp_all add: NewSequencer_def sy_defs)
  then show ?thesis by (simp add: DefaultFsyncMode_def taken_def sy_defs NewSequencer_def)
qed

lemma commit_reachable:
  assumes "seq_reachable DefaultFsyncMode 1 (wal_log []) 0 0 (taken p pc closed)" "length p \<le> MaxRecordLen"
  shows "seq_reachable DefaultFsyncMode 1 (wal_log []) 0 1 (logged p pc closed)"
proof -
  have "run_batch True (\<lambda>_. None) True (sy_nextTx (taken p pc closed)) (sy_file (taken p pc closed))
      (map snd [(0 :: nat, p)]) = (1, wal_log [(1, p)], [Inr 1])"
    using assms(2) by (simp add: run_batch_ok taken_def sy_defs NewSequencer_def)
  then have "seq_step DefaultFsyncMode 1 (length [(0 :: nat, p)]) (taken p pc closed)
      (run_goto (RunReply (zip (map fst [(0, p)]) [Inr 1]))
        (taken p pc closed\<lparr>sy_nextTx := 1, sy_file := wal_log [(1, p)]\<rparr>))"
    by (intro run_commit) (simp_all add: taken_def sy_defs)
  from seq_reachable.step [OF assms(1) this] show ?thesis by (simp add: logged_def)
qed

lemma acknowledged_reachable:
  assumes "length p \<le> MaxRecordLen"
  shows "seq_reachable DefaultFsyncMode 1 (wal_log []) 0 1
    (call_goto 0 (CReturned p (Inr 1)) (run_goto (RunReply []) (answer 0 (Inr 1) (logged p (CSent p) False))))"
  by (rule reach0 [OF reach0 [OF commit_reachable [OF taken_reachable assms] run_reply] submit_ready])
    (simp_all add: logged_def taken_def sy_defs)

theorem submit_durable_witness:
  "\<exists>(s :: seq_sys) new. sy_client s 0 = CReturned [7] (Inr 1) \<and>
     concat (map (fst \<circ> wal_read) (sy_retired s @ [sy_file s])) = new \<and> (1, [7]) \<in> set new"
proof -
  have "length [7 :: byte] \<le> MaxRecordLen" by (simp add: MaxRecordLen_def push_bit_eq_mult)
  note r = acknowledged_reachable [OF this]
  let ?s = "call_goto 0 (CReturned [7] (Inr 1)) (run_goto (RunReply []) (answer 0 (Inr 1) (logged [7] (CSent [7]) False)))"
  have "sy_client ?s 0 = CReturned [7] (Inr 1)" by (simp add: call_goto_def)
  with submit_durable [OF r, simplified] show ?thesis by (intro exI [of _ ?s]) auto
qed

text \<open>
  A durable write reported as closed. The comment in \<^verbatim>\<open>Submit\<close> says that a durably committed
  write is never misreported as closed during shutdown; but when \<^verbatim>\<open>Close\<close> comes while the goroutine
  has the request in its hands, \<^verbatim>\<open>Submit\<close> gives up with \<^verbatim>\<open>ErrClosed\<close> and the goroutine then
  writes and syncs the record: the write is in the log, and recovery will replay it.
\<close>

theorem submit_misreported_closed:
  "\<exists>s. seq_reachable DefaultFsyncMode 1 (wal_log []) 0 1 s \<and>
     sy_client s 0 = CReturned [7] (Inl ErrClosed) \<and> wal_read (sy_file s) = ([(1, [7])], length (sy_file s), ErrEOF)"
proof -
  let ?R = "seq_reachable DefaultFsyncMode 1 (wal_log []) 0"
  have ok: "length [7 :: byte] \<le> MaxRecordLen" by (simp add: MaxRecordLen_def push_bit_eq_mult)
  have "?R 0 (call_goto 0 (CWaiting [7]) (taken [7] (CSent [7]) False))"
    by (rule reach0 [OF taken_reachable submit_default]) (simp_all add: taken_def sy_defs NewSequencer_def)
  then have "?R 0 (call_goto 0 (CWaiting [7]) (taken [7] (CSent [7]) False)\<lparr>sy_done := True\<rparr>)"
    by (rule reach0 [OF _ close])
  then have "?R 0 (call_goto 0 (CReturned [7] (Inl ErrClosed))
      (call_goto 0 (CWaiting [7]) (taken [7] (CSent [7]) False)\<lparr>sy_done := True\<rparr>))"
    by (rule reach0 [OF _ submit_abandoned]) (simp_all add: taken_def sy_defs)
  then have "?R 0 (taken [7] (CReturned [7] (Inl ErrClosed)) True)"
    by (simp add: taken_def sy_defs NewSequencer_def)
  from commit_reachable [OF this ok] show ?thesis
    using wal_read_log [of "[(1, [7])]"] ok
    by (intro exI [of _ "logged [7] (CReturned [7] (Inl ErrClosed)) True"]) (simp add: logged_def taken_def sy_defs)
qed

text \<open>
  An oversized payload fails its whole group, in part behind its back. If a request of a group is
  too large, every request of the group gets that error; but the records before it have been
  appended, so that recovery replays writes whose callers were told that they failed.
\<close>

theorem group_fails_but_logged:
  assumes "\<forall>r\<in>set rs0. length (snd r) \<le> MaxRecordLen" "\<forall>p\<in>set ps. length p \<le> MaxRecordLen"
    "MaxRecordLen < length big"
  shows "\<exists>tx' f. run_batch True (\<lambda>_. None) True tx (wal_log rs0) (ps @ big # rest) =
      (tx', f, replicate (length (ps @ big # rest)) (Inl ErrTooLarge)) \<and>
    map snd (fst (wal_read f)) = map snd rs0 @ ps"
proof -
  have num: "number tx (ps @ qs) = number tx ps @ number (tx + word_of_nat (length ps)) qs" for tx ps qs
    by (induction ps arbitrary: tx) (simp_all add: add.assoc)
  have snd_num: "map snd (number tx ps) = ps" for tx ps by (induction ps arbitrary: tx) simp_all
  have ok: "\<forall>r\<in>set (number tx ps). record_ok r" unfolding number_ok by (rule assms(2))
  have tw: "takeWhile record_ok (number tx (ps @ big # rest)) = number tx ps"
    unfolding num using ok assms(3) by (subst takeWhile_append2) simp_all
  have "\<not> (\<forall>p\<in>set (ps @ big # rest). length p \<le> MaxRecordLen)" using assms(3) by simp
  note e = run_batch_ok [of tx "wal_log rs0" "ps @ big # rest", unfolded if_not_P [OF this] tw]
  have "fst (wal_read (wal_log rs0 @ wal_log (number tx ps))) = rs0 @ number tx ps"
    using wal_read_log [of "rs0 @ number tx ps"] assms(1) ok by (simp add: ball_Un)
  then show ?thesis unfolding e by (simp add: snd_num map_replicate_const)
qed

theorem group_fails_but_logged_witness:
  "\<exists>tx' f. run_batch True (\<lambda>_. None) True 4 (wal_log [(4, [1])]) [[7], replicate (Suc MaxRecordLen) 0] =
      (tx', f, [Inl ErrTooLarge, Inl ErrTooLarge]) \<and> map snd (fst (wal_read f)) = [[1], [7]]"
proof -
  have "length [x :: byte] \<le> MaxRecordLen" for x by (simp add: MaxRecordLen_def push_bit_eq_mult)
  then show ?thesis
    using group_fails_but_logged [of "[(4, [1])]" "[[7]]" "replicate (Suc MaxRecordLen) 0" 4 "[]"] by simp
qed

text \<open>
  A rotation whose rename fails stops the database for good. The writer was closed before the
  rename and is not opened again: every later batch that has room is refused without being written,
  and every later rotation fails. (The branch for a failed reopen does try to restore the writer.)
\<close>

theorem rotate_rename_failure_wedges:
  assumes "ri_sync io" "ri_close io" "\<not> ri_rename io"
  shows "doRotate io active retired True = ([], False, Inl ErrIO) \<and>
    (length p \<le> MaxRecordLen \<longrightarrow>
      run_batch False ios sync_ok tx f (p # ps) =
        (tx + word_of_nat (length (p # ps)), f, replicate (length (p # ps)) (Inl ErrIO))) \<and>
    doRotate io' active retired False = ([], False, Inl ErrIO)"
proof -
  have "append_batch False ios 0 tx f (p # ps) = (f, Inl ErrIO)" if "length p \<le> MaxRecordLen"
    using that by (simp add: wal_Append_def Let_def)
  then show ?thesis using assms
    by (simp add: doRotate_def run_batch_def Let_def map_replicate_const del: append_batch.simps)
qed

theorem rotate_rename_failure_wedges_witness:
  "doRotate \<lparr>ri_sync = True, ri_close = True, ri_rename = False, ri_open = True, ri_back = True, ri_reopen = True\<rparr>
     walName [1] True = ([], False, Inl ErrIO) \<and>
   run_batch False (\<lambda>_. None) True 7 [] [[1], [2]] = (9, [], [Inl ErrIO, Inl ErrIO])"
proof -
  have "length [1 :: byte] \<le> MaxRecordLen" by (simp add: MaxRecordLen_def push_bit_eq_mult)
  then show ?thesis
    using rotate_rename_failure_wedges [of "\<lparr>ri_sync = True, ri_close = True, ri_rename = False, ri_open = True,
      ri_back = True, ri_reopen = True\<rparr>" walName "[1]" "[1]" "\<lambda>_. None" True 7 "[]" "[[2]]"] by simp
qed

end
