(* ===== verification/Engine.thy ===== *)
theory Engine
  imports Recovery Sequencer
begin

text \<open>
  \<^verbatim>\<open>internal/storage/engine.go\<close>: the object store. The state of an engine is the data directory, the
  sequencer's counter and writer, the snapshot readers use, the id generator, the overlay of writes
  that are not yet in the snapshot, and the set of classes; every exported operation is a function
  on it. Inputs of an operation that come from outside are an \<open>env\<close>: the msgpack codec, the fuel of
  tree walks, the clock, and what the operating system does with the write and the sync of the log.
  Steps of \<^verbatim>\<open>submit\<close> and \<^verbatim>\<open>QueryObjects\<close> between which another goroutine may run are definitions
  of their own. The Go maps (overlay, classes, merged objects) are association lists.
\<close>

section \<open>Configuration\<close>

record config =
  cf_CheckpointWALBytes :: int
  cf_CheckpointInterval :: int
  cf_QueueDepth :: int

text \<open>Durations are in nanoseconds.\<close>

definition withDefaults :: "config \<Rightarrow> config" where
  "withDefaults c =
     (let c = (if cf_CheckpointWALBytes c \<le> 0 then c\<lparr>cf_CheckpointWALBytes := 67108864\<rparr> else c);
          c = (if cf_CheckpointInterval c \<le> 0 then c\<lparr>cf_CheckpointInterval := 300000000000\<rparr> else c)
      in if cf_QueueDepth c \<le> 0 then c\<lparr>cf_QueueDepth := 4096\<rparr> else c)"

section \<open>Names\<close>

definition name_byte :: "byte \<Rightarrow> bool" where
  "name_byte c \<longleftrightarrow> c = 95 \<or> c = 45 \<or> c = 46 \<or> (48 \<le> c \<and> c \<le> 57) \<or> (65 \<le> c \<and> c \<le> 90) \<or> (97 \<le> c \<and> c \<le> 122)"

definition validName :: "bytes \<Rightarrow> bool" where
  "validName name \<longleftrightarrow> \<not> (name = [] \<or> length name > 128) \<and> list_all name_byte name"

definition validProject :: "bytes \<Rightarrow> bool" where
  "validProject project \<longleftrightarrow> project = [] \<or> validName project"

text \<open>The loop of \<^verbatim>\<open>splitScopeKey\<close>: the bytes seen so far, the bytes to come.\<close>

fun splitScopeKey_from :: "bytes \<Rightarrow> bytes \<Rightarrow> (bytes \<times> bytes) option" where
  "splitScopeKey_from seen [] = None"
| "splitScopeKey_from seen (b # k) = (if b = 0 then Some (seen, k) else splitScopeKey_from (seen @ [b]) k)"

definition splitScopeKey :: "bytes \<Rightarrow> bytes \<times> bytes" where
  "splitScopeKey k = (case splitScopeKey_from [] k of Some r \<Rightarrow> r | None \<Rightarrow> ([], k))"

section \<open>The engine\<close>

record overlayVal =
  ov_txID :: u64
  ov_data :: bytes
  ov_deleted :: bool

type_synonym overlay = "(bytes \<times> overlayVal) list"

record engine =
  en_dir :: fs
  en_open :: bool
  en_nextTx :: u64
  en_snap :: snapshot
  en_idgen :: generator
  en_overlay :: overlay
  en_classes :: "bytes list"
  en_activeGen :: u64
  en_checkpoints :: u64

record env =
  ev_codec :: codec
  ev_fuel :: nat
  ev_now :: u64
  ev_io :: "nat option"
  ev_sync :: bool

type_synonym 'a engine_op = "engine \<Rightarrow> engine \<times> 'a res"

section \<open>Writing and looking up\<close>

definition with_timestamp :: "WALEntry \<Rightarrow> u64 \<Rightarrow> WALEntry" where
  "with_timestamp e t = WALEntry (e_Op e) (e_Project e) (e_Class e) (e_ObjectID e) (e_Data e) t (e_Sub e)"

text \<open>
  \<^verbatim>\<open>seq.Submit\<close> as the only caller: a batch of one. \<open>en_open\<close> is false once the sequencer has been closed.
\<close>

definition seq_Submit :: "env \<Rightarrow> bytes \<Rightarrow> u64 engine_op" where
  "seq_Submit ev payload en =
     (if \<not> en_open en then (en, Inl ErrClosed)
      else
        let (tx, f, rs) = run_batch True (\<lambda>_. ev_io ev) (ev_sync ev) (en_nextTx en)
              (fs_contents (en_dir en) walName) [payload]
        in (en\<lparr>en_nextTx := tx, en_dir := fs_put walName f (en_dir en)\<rparr>, hd rs))"

definition publish :: "WALEntry \<Rightarrow> bool \<Rightarrow> u64 \<Rightarrow> engine \<Rightarrow> engine" where
  "publish entry deleted txID en =
     en\<lparr>en_overlay := AList.update (e_Key entry)
          \<lparr>ov_txID = txID, ov_data = e_Data entry, ov_deleted = deleted\<rparr> (en_overlay en)\<rparr>"

definition submit_log :: "env \<Rightarrow> WALEntry \<Rightarrow> u64 engine_op" where
  "submit_log ev entry en =
     (case cd_marshal (ev_codec ev) (with_timestamp entry (ev_now ev)) of
        Inl e \<Rightarrow> (en, Inl e)
      | Inr payload \<Rightarrow> seq_Submit ev payload en)"

definition submit :: "env \<Rightarrow> WALEntry \<Rightarrow> bool \<Rightarrow> u64 engine_op" where
  "submit ev entry deleted en =
     (case submit_log ev entry en of
        (en, Inl e) \<Rightarrow> (en, Inl e)
      | (en, Inr txID) \<Rightarrow> (publish entry deleted txID en, Inr txID))"

definition en_lookup :: "env \<Rightarrow> engine \<Rightarrow> bytes \<Rightarrow> bytes option res" where
  "en_lookup ev en key =
     (case map_of (en_overlay en) key of
        Some ov \<Rightarrow> if ov_deleted ov then Inr None else Inr (Some (ov_data ov))
      | None \<Rightarrow> snap_Get (ev_fuel ev) (en_snap en) key)"

section \<open>Queries\<close>

text \<open>Scanning the snapshot: the objects of the class, by id.\<close>

definition query_visit :: "bytes \<Rightarrow> bytes \<Rightarrow> (u64 \<times> bytes) list visitor" where
  "query_visit project cls merged key val =
     (case DecodeObjectKey key of
        Some (p, c, oid) \<Rightarrow>
          (if p = project \<and> c = cls then AList.update oid val merged else merged, True)
      | None \<Rightarrow> (merged, True))"

definition query_snapshot :: "env \<Rightarrow> snapshot \<Rightarrow> bytes \<Rightarrow> bytes \<Rightarrow> (u64 \<times> bytes) list res" where
  "query_snapshot ev snap project cls =
     snap_Scan (ev_fuel ev) snap (ObjectPrefix project cls) (query_visit project cls) []"

text \<open>Applying the overlay on top.\<close>

fun query_overlay :: "bytes \<Rightarrow> bytes \<Rightarrow> overlay \<Rightarrow> (u64 \<times> bytes) list \<Rightarrow> (u64 \<times> bytes) list" where
  "query_overlay project cls [] merged = merged"
| "query_overlay project cls ((key, ov) # ovs) merged =
     (case DecodeObjectKey key of
        None \<Rightarrow> query_overlay project cls ovs merged
      | Some (p, c, oid) \<Rightarrow>
          if p \<noteq> project \<or> c \<noteq> cls then query_overlay project cls ovs merged
          else if ov_deleted ov then query_overlay project cls ovs (AList.delete oid merged)
          else query_overlay project cls ovs (AList.update oid (ov_data ov) merged))"

fun query_match :: "(bytes \<Rightarrow> bool res) option \<Rightarrow> (u64 \<times> bytes) list \<Rightarrow> u64 list res" where
  "query_match m [] = Inr []"
| "query_match m ((oid, data) # rest) =
     (case m of
        None \<Rightarrow> bindE (query_match m rest) (\<lambda>ids. Inr (oid # ids))
      | Some f \<Rightarrow>
          bindE (f data) (\<lambda>ok.
            if ok then bindE (query_match m rest) (\<lambda>ids. Inr (oid # ids)) else query_match m rest))"

definition paginate :: "int \<Rightarrow> int \<Rightarrow> 'a list \<Rightarrow> 'a list" where
  "paginate limit offset ids =
     (let offset = (if offset < 0 then 0 else offset);
          offset = (if offset > int (length ids) then int (length ids) else offset);
          ids = drop (nat offset) ids
      in if limit > 0 \<and> limit < int (length ids) then take (nat limit) ids else ids)"

definition data_at :: "(u64 \<times> bytes) list \<Rightarrow> u64 \<Rightarrow> bytes" where
  "data_at merged oid = (case map_of merged oid of None \<Rightarrow> [] | Some d \<Rightarrow> d)"

text \<open>Matching, sorting by id as \<^verbatim>\<open>int64\<close>, and the page asked for.\<close>

definition query_page ::
  "(bytes \<Rightarrow> bool res) option \<Rightarrow> int \<Rightarrow> int \<Rightarrow> (u64 \<times> bytes) list \<Rightarrow> (u64 \<times> bytes) list res" where
  "query_page match limit offset merged =
     bindE (query_match match merged) (\<lambda>ids.
       Inr (map (\<lambda>oid. (oid, data_at merged oid)) (paginate limit offset (sort_key sint ids))))"

definition ClassExists :: "engine \<Rightarrow> bytes \<Rightarrow> bytes \<Rightarrow> bool" where
  "ClassExists en project name \<longleftrightarrow> ScopeKey project name \<in> set (en_classes en)"

definition QueryObjects ::
  "env \<Rightarrow> engine \<Rightarrow> bytes \<Rightarrow> bytes \<Rightarrow> (bytes \<Rightarrow> bool res) option \<Rightarrow> int \<Rightarrow> int \<Rightarrow> (u64 \<times> bytes) list res" where
  "QueryObjects ev en project cls match limit offset =
     (if \<not> ClassExists en project cls then Inl ErrNoClass
      else
        bindE (query_snapshot ev (en_snap en) project cls) (\<lambda>merged.
          query_page match limit offset (query_overlay project cls (en_overlay en) merged)))"

definition ListObjects :: "env \<Rightarrow> engine \<Rightarrow> bytes \<Rightarrow> bytes \<Rightarrow> int \<Rightarrow> int \<Rightarrow> (u64 \<times> bytes) list res" where
  "ListObjects ev en project cls limit offset = QueryObjects ev en project cls None limit offset"

section \<open>Projects and classes\<close>

definition ListProjects :: "engine \<Rightarrow> bytes list" where
  "ListProjects en = sort (remdups (map (fst \<circ> splitScopeKey) (en_classes en)))"

definition ListClasses :: "engine \<Rightarrow> bytes \<Rightarrow> bytes list" where
  "ListClasses en project =
     sort (map snd (filter (\<lambda>(p, c). p = project) (map splitScopeKey (en_classes en))))"

definition class_entry :: "byte \<Rightarrow> bytes \<Rightarrow> bytes \<Rightarrow> WALEntry" where
  "class_entry op project name = WALEntry op project name 0 [] 0 []"

definition object_entry :: "byte \<Rightarrow> bytes \<Rightarrow> bytes \<Rightarrow> u64 \<Rightarrow> bytes \<Rightarrow> WALEntry" where
  "object_entry op project cls oid data = WALEntry op project cls oid data 0 []"

definition CreateClass :: "env \<Rightarrow> bytes \<Rightarrow> bytes \<Rightarrow> unit engine_op" where
  "CreateClass ev project name en =
     (if \<not> validName name \<or> \<not> validProject project then (en, Inl ErrInvalidName)
      else if ClassExists en project name then (en, Inl ErrClassExists)
      else case submit ev (class_entry OpCreateClass project name) False en of
        (en, Inl e) \<Rightarrow> (en, Inl e)
      | (en, Inr _) \<Rightarrow> (en\<lparr>en_classes := List.insert (ScopeKey project name) (en_classes en)\<rparr>, Inr ()))"

definition DropClass :: "env \<Rightarrow> bytes \<Rightarrow> bytes \<Rightarrow> unit engine_op" where
  "DropClass ev project name en =
     (if \<not> ClassExists en project name then (en, Inl ErrNoClass)
      else case ListObjects ev en project name 1 0 of
        Inl e \<Rightarrow> (en, Inl e)
      | Inr objs \<Rightarrow>
          if objs \<noteq> [] then (en, Inl ErrClassNotEmpty)
          else case submit ev (class_entry OpDropClass project name) True en of
            (en, Inl e) \<Rightarrow> (en, Inl e)
          | (en, Inr _) \<Rightarrow>
              (en\<lparr>en_classes := removeAll (ScopeKey project name) (en_classes en),
                  en_idgen := gen_Drop (en_idgen en) (ScopeKey project name)\<rparr>, Inr ()))"

section \<open>Objects\<close>

definition CreateObject :: "env \<Rightarrow> bytes \<Rightarrow> bytes \<Rightarrow> bytes \<Rightarrow> u64 engine_op" where
  "CreateObject ev project cls data en =
     (if \<not> ClassExists en project cls then (en, Inl ErrNoClass)
      else
        let (oid, g) = gen_Next (en_idgen en) (ScopeKey project cls);
            en = en\<lparr>en_idgen := g\<rparr>
        in case submit ev (object_entry OpPut project cls oid data) False en of
             (en, Inl e) \<Rightarrow> (en, Inl e)
           | (en, Inr _) \<Rightarrow> (en, Inr oid))"

text \<open>Ids and entries of a bulk insert, one after the other.\<close>

fun bulk_subs :: "u64 \<Rightarrow> bytes \<Rightarrow> bytes \<Rightarrow> bytes list \<Rightarrow> generator \<Rightarrow> WALEntry list \<times> generator" where
  "bulk_subs ts project cls [] g = ([], g)"
| "bulk_subs ts project cls (d # ds) g =
     (let (oid, g) = gen_Next g (ScopeKey project cls);
          (subs, g) = bulk_subs ts project cls ds g
      in (WALEntry OpPut project cls oid d ts [] # subs, g))"

definition CreateObjectsBulk :: "env \<Rightarrow> bytes \<Rightarrow> bytes \<Rightarrow> bytes list \<Rightarrow> u64 list engine_op" where
  "CreateObjectsBulk ev project cls datas en =
     (if \<not> ClassExists en project cls then (en, Inl ErrNoClass)
      else if datas = [] then (en, Inr [])
      else
        let (subs, g) = bulk_subs (ev_now ev) project cls datas (en_idgen en);
            en = en\<lparr>en_idgen := g\<rparr>
        in case cd_marshal (ev_codec ev) (WALEntry OpBatch [] [] 0 [] (ev_now ev) subs) of
             Inl e \<Rightarrow> (en, Inl e)
           | Inr payload \<Rightarrow>
               case seq_Submit ev payload en of
                 (en, Inl e) \<Rightarrow> (en, Inl e)
               | (en, Inr txID) \<Rightarrow> (fold (\<lambda>s. publish s False txID) subs en, Inr (map e_ObjectID subs)))"

definition GetObject :: "env \<Rightarrow> engine \<Rightarrow> bytes \<Rightarrow> bytes \<Rightarrow> u64 \<Rightarrow> bytes option res" where
  "GetObject ev en project cls oid =
     (if \<not> ClassExists en project cls then Inl ErrNoClass
      else en_lookup ev en (ObjectKey project cls oid))"

definition PutObject :: "env \<Rightarrow> bytes \<Rightarrow> bytes \<Rightarrow> u64 \<Rightarrow> bytes \<Rightarrow> unit engine_op" where
  "PutObject ev project cls oid data en =
     (if \<not> ClassExists en project cls then (en, Inl ErrNoClass)
      else case en_lookup ev en (ObjectKey project cls oid) of
        Inl e \<Rightarrow> (en, Inl e)
      | Inr None \<Rightarrow> (en, Inl ErrNotFound)
      | Inr (Some _) \<Rightarrow>
          (case submit ev (object_entry OpPut project cls oid data) False en of
             (en, Inl e) \<Rightarrow> (en, Inl e)
           | (en, Inr _) \<Rightarrow> (en, Inr ())))"

definition DeleteObject :: "env \<Rightarrow> bytes \<Rightarrow> bytes \<Rightarrow> u64 \<Rightarrow> unit engine_op" where
  "DeleteObject ev project cls oid en =
     (if \<not> ClassExists en project cls then (en, Inl ErrNoClass)
      else case en_lookup ev en (ObjectKey project cls oid) of
        Inl e \<Rightarrow> (en, Inl e)
      | Inr None \<Rightarrow> (en, Inl ErrNotFound)
      | Inr (Some _) \<Rightarrow>
          (case submit ev (object_entry OpDelete project cls oid []) True en of
             (en, Inl e) \<Rightarrow> (en, Inl e)
           | (en, Inr _) \<Rightarrow> (en, Inr ())))"

section \<open>Checkpoints\<close>

text \<open>Removing from the overlay what the new snapshot has.\<close>

definition prune :: "u64 \<Rightarrow> u64 \<Rightarrow> engine \<Rightarrow> engine" where
  "prune newGen foldedTxID en =
     en\<lparr>en_overlay := filter (\<lambda>(k, ov). \<not> ov_txID ov \<le> foldedTxID) (en_overlay en), en_activeGen := newGen\<rparr>"

text \<open>A closed sequencer is not rotated; otherwise the rotation is part of \<open>checkpoint_Run\<close>.\<close>

definition Checkpoint :: "env \<Rightarrow> unit engine_op" where
  "Checkpoint ev en =
     (if \<not> en_open en then (en, Inl ErrClosed)
      else case checkpoint_Run (ev_codec ev) (ev_fuel ev) (en_dir en) of
        (steps, Inl e) \<Rightarrow> (en\<lparr>en_dir := fs_run steps (en_dir en)\<rparr>, Inl e)
      | (steps, Inr (newGen, foldedTxID, snap)) \<Rightarrow>
          let en = en\<lparr>en_dir := fs_run steps (en_dir en), en_snap := snap\<rparr>;
              en = prune newGen foldedTxID en
          in (en\<lparr>en_checkpoints := en_checkpoints en + 1\<rparr>, Inr ()))"

text \<open>
  What one tick of \<^verbatim>\<open>checkpointLoop\<close> decides, with the time since the last checkpoint. \<^verbatim>\<open>Sequencer.Offset\<close> is the
  length of the log as long as no write failed half-way (\<^verbatim>\<open>Writer\<close>).
\<close>

definition checkpoint_due :: "config \<Rightarrow> int \<Rightarrow> engine \<Rightarrow> bool" where
  "checkpoint_due cfg since en =
     (let pending = en_overlay en \<noteq> [];
          bySize = int (length (fs_contents (en_dir en) walName)) \<ge> cf_CheckpointWALBytes cfg;
          byTime = pending \<and> since \<ge> cf_CheckpointInterval cfg
      in bySize \<or> byTime)"

text \<open>
  The tick at the time \<open>now\<close>; the first component is the time of the last checkpoint, \<open>finished\<close> that of a
  checkpoint of this tick.
\<close>

definition checkpointLoop_tick :: "env \<Rightarrow> config \<Rightarrow> int \<Rightarrow> int \<Rightarrow> int \<times> engine \<Rightarrow> int \<times> engine" where
  "checkpointLoop_tick ev cfg now finished st =
     (case st of (lastRun, en) \<Rightarrow>
        if checkpoint_due cfg (now - lastRun) en then
          (case Checkpoint ev en of
             (en, Inl _) \<Rightarrow> (lastRun, en)
           | (en, Inr _) \<Rightarrow> (finished, en))
        else (lastRun, en))"

section \<open>Opening\<close>

definition load_visit :: "bytes list visitor" where
  "load_visit classes key val =
     (case DecodeClassKey key of
        Some (project, name) \<Rightarrow> (List.insert (ScopeKey project name) classes, True)
      | None \<Rightarrow> (classes, True))"

definition loadClasses :: "env \<Rightarrow> snapshot \<Rightarrow> bytes list res" where
  "loadClasses ev snap = snap_Scan (ev_fuel ev) snap [0x01] load_visit []"

definition applyReplay_one :: "u64 \<times> WALEntry \<Rightarrow> engine \<Rightarrow> engine" where
  "applyReplay_one r en =
     (case r of (txID, e) \<Rightarrow>
       let put = \<lparr>ov_txID = txID, ov_data = e_Data e, ov_deleted = False\<rparr>;
           del = \<lparr>ov_txID = txID, ov_data = [], ov_deleted = True\<rparr>;
           sk = ScopeKey (e_Project e) (e_Class e)
       in if e_Op e = OpPut then en\<lparr>en_overlay := AList.update (e_Key e) put (en_overlay en)\<rparr>
          else if e_Op e = OpDelete then en\<lparr>en_overlay := AList.update (e_Key e) del (en_overlay en)\<rparr>
          else if e_Op e = OpCreateClass then
            en\<lparr>en_overlay := AList.update (e_Key e) put (en_overlay en), en_classes := List.insert sk (en_classes en)\<rparr>
          else if e_Op e = OpDropClass then
            en\<lparr>en_overlay := AList.update (e_Key e) del (en_overlay en), en_classes := removeAll sk (en_classes en)\<rparr>
          else en)"

definition applyReplay :: "(u64 \<times> WALEntry) list \<Rightarrow> engine \<Rightarrow> engine" where
  "applyReplay replayed en = fold applyReplay_one replayed en"

text \<open>What follows recovery.\<close>

definition open_recovered :: "env \<Rightarrow> recovered \<Rightarrow> engine fs_op" where
  "open_recovered ev res =
     fs_bind (fs_reads (\<lambda>fs. case fs_get fs (DataFile (rr_ActiveGen res)) of
       None \<Rightarrow> Inl ErrNotExist | Some f \<Rightarrow> openSnapshot f)) (\<lambda>snap.
     fs_bind (fs_steps (\<lambda>_. [FCreate walName])) (\<lambda>_.
     fs_reads (\<lambda>fs.
       bindE (loadClasses ev snap) (\<lambda>classes.
         Inr (applyReplay (rr_Replayed res)
           \<lparr>en_dir = fs, en_open = True, en_nextTx = rr_LastTxID res, en_snap = snap, en_idgen = rr_Gen res,
            en_overlay = [], en_classes = classes, en_activeGen = rr_ActiveGen res, en_checkpoints = 0\<rparr>)))))"

definition en_Close :: "engine \<Rightarrow> engine" where
  "en_Close en = en\<lparr>en_open := False\<rparr>"

definition en_Open :: "env \<Rightarrow> engine fs_op" where
  "en_Open ev = fs_bind (Recover (ev_codec ev) (ev_fuel ev)) (open_recovered ev)"

section \<open>Counters\<close>

record stats =
  st_LastTxID :: u64
  st_WALBytes :: int
  st_ActiveGen :: u64
  st_NumClasses :: int
  st_OverlaySize :: int
  st_Checkpoints :: u64

definition Stats :: "engine \<Rightarrow> stats" where
  "Stats en =
     \<lparr>st_LastTxID = en_nextTx en, st_WALBytes = int (length (fs_contents (en_dir en) walName)),
      st_ActiveGen = en_activeGen en, st_NumClasses = int (length (en_classes en)),
      st_OverlaySize = int (length (en_overlay en)), st_Checkpoints = en_checkpoints en\<rparr>"

end
