(* ===== verification/Config.thy ===== *)
theory Config
  imports Engine
begin

text \<open>
  \<^verbatim>\<open>internal/server/config/config.go\<close>: the server's configuration over its defaults, and what it makes
  of the engine's configuration. Durations are 64-bit numbers of nanoseconds, and their products
  wrap around. The YAML decoder is a parameter.
\<close>

record server_config =
  sc_DataDir :: string
  sc_HTTPAddr :: string
  sc_Fsync :: string
  sc_IntervalMs :: int
  sc_MaxBatch :: int
  sc_WALBytes :: int
  sc_IntervalSec :: int

definition Default :: server_config where
  "Default =
     \<lparr>sc_DataDir = ''./data'', sc_HTTPAddr = ''127.0.0.1:7373'', sc_Fsync = ''per-commit'',
      sc_IntervalMs = 2, sc_MaxBatch = 256, sc_WALBytes = push_bit 20 64, sc_IntervalSec = 300\<rparr>"

text \<open>The product of two \<^verbatim>\<open>int64\<close> values.\<close>

definition mul64 :: "int \<Rightarrow> int \<Rightarrow> int" where
  "mul64 a b = sint (word_of_int (a * b) :: u64)"

definition Validate :: "server_config \<Rightarrow> unit res" where
  "Validate c =
     (if sc_DataDir c = '''' then Inl ErrBadConfig
      else if sc_HTTPAddr c = '''' then Inl ErrBadConfig
      else if sc_Fsync c = ''per-commit'' \<or> sc_Fsync c = ''group-commit'' then Inr ()
      else Inl ErrBadConfig)"

text \<open>The file at the path, if it can be read.\<close>

definition Load :: "(bytes \<Rightarrow> server_config \<Rightarrow> server_config res) \<Rightarrow> (string \<Rightarrow> bytes res) \<Rightarrow> string \<Rightarrow> server_config res" where
  "Load yaml read_file path =
     (let c = Default in
      if path = '''' then Inr c
      else
        case read_file path of
          Inl e \<Rightarrow> if e = ErrNotExist then Inr c else Inl e
        | Inr b \<Rightarrow> bindE (yaml b c) (\<lambda>c. bindE (Validate c) (\<lambda>_. Inr c)))"

definition cfg_FsyncMode :: "server_config \<Rightarrow> FsyncMode" where
  "cfg_FsyncMode c =
     (if sc_Fsync c = ''group-commit'' then GroupCommitMode (mul64 (sc_IntervalMs c) 1000000) (sc_MaxBatch c)
      else DefaultFsyncMode)"

definition StorageConfig :: "server_config \<Rightarrow> config" where
  "StorageConfig c =
     \<lparr>cf_CheckpointWALBytes = sc_WALBytes c, cf_CheckpointInterval = mul64 (sc_IntervalSec c) 1000000000, cf_QueueDepth = 0\<rparr>"

lemma Load_valid:
  assumes "Load yaml read_file path = Inr c"
  shows "Validate c = Inr ()"
proof -
  have "Validate Default = Inr ()" by (simp add: Validate_def Default_def)
  then show ?thesis
    using assms by (auto simp: Load_def Let_def bindE_Inr_iff split: if_splits sum.splits)
qed

text \<open>
  C34: whatever the configuration file holds, the engine gets values it can run with. A configuration
  that loads has a data directory, an address and a known policy; the checkpoint threshold, the
  interval and the queue depth of the engine are positive 64-bit numbers, also when a product of the
  file's numbers has wrapped around, and a group commit has a positive window and batch size.
\<close>

theorem config_bounds:
  assumes "Load yaml read_file path = Inr c" "\<bar>sc_WALBytes c\<bar> < 2 ^ 63" "\<bar>sc_MaxBatch c\<bar> < 2 ^ 63"
  shows "sc_DataDir c \<noteq> '''' \<and> sc_HTTPAddr c \<noteq> '''' \<and>
    (let cfg = withDefaults (StorageConfig c) in
       0 < cf_CheckpointWALBytes cfg \<and> cf_CheckpointWALBytes cfg < 2 ^ 63 \<and>
       0 < cf_CheckpointInterval cfg \<and> cf_CheckpointInterval cfg < 2 ^ 63 \<and> 0 < cf_QueueDepth cfg) \<and>
    (if sc_Fsync c = ''per-commit'' then cfg_FsyncMode c = DefaultFsyncMode
     else fm_Policy (cfg_FsyncMode c) = FsyncGroupCommit \<and>
       0 < fm_Interval (cfg_FsyncMode c) \<and> fm_Interval (cfg_FsyncMode c) < 2 ^ 63 \<and>
       0 < fm_MaxBatch (cfg_FsyncMode c) \<and> fm_MaxBatch (cfg_FsyncMode c) < 2 ^ 63)"
proof -
  have m: "mul64 a b < 2 ^ 63" for a b using sint_lt [of "word_of_int (a * b) :: u64"] by (simp add: mul64_def)
  from Load_valid [OF assms(1)] show ?thesis
    using m assms(2,3)
    by (auto simp: Validate_def withDefaults_def StorageConfig_def cfg_FsyncMode_def GroupCommitMode_def Let_def
        split: if_splits)
qed

theorem config_bounds_witness:
  "cf_CheckpointInterval (withDefaults (StorageConfig (Default\<lparr>sc_IntervalSec := 10 ^ 10\<rparr>))) < 2 ^ 63 \<and>
   mul64 (10 ^ 10) 1000000000 \<noteq> 10 ^ 19"
proof -
  let ?c = "Default\<lparr>sc_IntervalSec := 10 ^ 10\<rparr>"
  have load: "Load (\<lambda>_ _. Inr ?c) (\<lambda>_. Inr []) ''a.yaml'' = Inr ?c"
    by (simp add: Load_def Validate_def Default_def)
  have "mul64 (10 ^ 10) 1000000000 \<noteq> 10 ^ 19"
    using sint_lt [of "word_of_int (10 ^ 10 * 1000000000) :: u64"] by (simp add: mul64_def)
  with config_bounds [OF load] show ?thesis by (simp add: Default_def Let_def push_bit_eq_mult)
qed

end
