(* ===== verification/TreeWrite.thy ===== *)
theory TreeWrite
  imports Builder
begin

text \<open>
  The copy-on-write half of \<^verbatim>\<open>internal/storage/btree/btree.go\<close>: a tree is a page store and a root;
  \<open>tree_Insert\<close> and \<open>tree_Delete\<close> write new pages along one path and advance the root. \<open>cbt\<close>
  is the invariant of the trees they make: the tree predicate of the read path with the key range of
  every node, and with entries short enough that a split by count leaves two halves that fit a
  page. \<^verbatim>\<open>splitLeaf\<close> does not check that they do; the last property shows a leaf of ordinary
  entries for which they do not.
\<close>

section \<open>Trees and updates\<close>

record 's cow_tree =
  tr_store :: 's
  tr_root :: u64

record splitResult =
  sp_sep :: bytes
  sp_right :: u64

definition tree_NewEmpty :: "'s \<Rightarrow> 's cow_tree" where
  "tree_NewEmpty s = \<lparr>tr_store = s, tr_root = InvalidPageID\<rparr>"

definition tree_Load :: "'s \<Rightarrow> u64 \<Rightarrow> 's cow_tree" where
  "tree_Load s root = \<lparr>tr_store = s, tr_root = root\<rparr>"

definition tree_Root :: "'s cow_tree \<Rightarrow> u64" where
  "tree_Root t = tr_root t"

definition tree_Get :: "nat \<Rightarrow> 's page_store \<Rightarrow> 's cow_tree \<Rightarrow> bytes \<Rightarrow> bytes option res" where
  "tree_Get fuel S t key = btree_Get fuel (st_ReadPage S (tr_store t)) (tr_root t) key"

definition tree_Scan ::
  "nat \<Rightarrow> 's page_store \<Rightarrow> 's cow_tree \<Rightarrow> bytes \<Rightarrow> 'a visitor \<Rightarrow> 'a \<Rightarrow> 'a res" where
  "tree_Scan fuel S t prefix fn st =
     btree_Scan fuel (st_ReadPage S (tr_store t)) (tr_root t) prefix fn st"

definition writeMaybeSplit ::
  "'s page_store \<Rightarrow> 's \<Rightarrow> node \<Rightarrow> (u64 \<times> splitResult option \<times> 's) res" where
  "writeMaybeSplit S s n =
     (if fits n then bindE (write_node S s n) (\<lambda>(pid, s). Inr (pid, None, s))
      else
        bindE (if nd_leaf n then splitLeaf n else splitInternal n) (\<lambda>(left, right, sep).
        bindE (write_node S s left) (\<lambda>(lid, s).
        bindE (write_node S s right) (\<lambda>(rid, s).
          Inr (lid, Some \<lparr>sp_sep = sep, sp_right = rid\<rparr>, s)))))"

fun tree_insert ::
  "nat \<Rightarrow> 's page_store \<Rightarrow> 's \<Rightarrow> u64 \<Rightarrow> leafEntry \<Rightarrow> (u64 \<times> splitResult option \<times> 's) res" where
  "tree_insert 0 S s pid ve = Inl NoFuel"
| "tree_insert (Suc fuel) S s pid ve =
     bindE (st_ReadPage S s pid) (\<lambda>p.
     bindE (decodeNode p) (\<lambda>n.
       if nd_leaf n then
         (let (idx, found) = leafSearch n (le_key ve);
              entries = take idx (nd_entries n) @ [ve];
              entries = entries @ drop (if found then idx + 1 else idx) (nd_entries n)
          in writeMaybeSplit S s (leafNode entries))
       else
         (let ci = childIndex n (le_key ve) in
          bindE (nth_res (nd_children n) ci) (\<lambda>c.
          bindE (tree_insert fuel S s c ve) (\<lambda>(childNewID, childSplit, s).
            let ks = nd_keys n;
                cs = (nd_children n)[ci := childNewID];
                (ks, cs) = (case childSplit of
                    None \<Rightarrow> (ks, cs)
                  | Some sp \<Rightarrow> (insertKeyAt ks ci (sp_sep sp), insertChildAt cs (ci + 1) (sp_right sp)))
            in writeMaybeSplit S s (internalNode ks cs))))))"

definition tree_Insert ::
  "nat \<Rightarrow> 's page_store \<Rightarrow> 's cow_tree \<Rightarrow> bytes \<Rightarrow> bytes \<Rightarrow> 's cow_tree res" where
  "tree_Insert fuel S t key val =
     bindE (makeLeafEntry S (tr_store t) key val) (\<lambda>(ve, s).
       if tr_root t = InvalidPageID
       then bindE (write_node S s (leafNode [ve])) (\<lambda>(pid, s). Inr \<lparr>tr_store = s, tr_root = pid\<rparr>)
       else
         bindE (tree_insert fuel S s (tr_root t) ve) (\<lambda>(newID, sr, s).
           case sr of
             Some sp \<Rightarrow>
               bindE (write_node S s (internalNode [sp_sep sp] [newID, sp_right sp])) (\<lambda>(pid, s).
                 Inr \<lparr>tr_store = s, tr_root = pid\<rparr>)
           | None \<Rightarrow> Inr \<lparr>tr_store = s, tr_root = newID\<rparr>))"

fun tree_delete :: "nat \<Rightarrow> 's page_store \<Rightarrow> 's \<Rightarrow> u64 \<Rightarrow> bytes \<Rightarrow> (u64 \<times> 's) res" where
  "tree_delete 0 S s pid key = Inl NoFuel"
| "tree_delete (Suc fuel) S s pid key =
     bindE (st_ReadPage S s pid) (\<lambda>p.
     bindE (decodeNode p) (\<lambda>n.
       if nd_leaf n then
         (let (idx, found) = leafSearch n key in
          if \<not> found then Inr (pid, s)
          else write_node S s (leafNode (take idx (nd_entries n) @ drop (idx + 1) (nd_entries n))))
       else
         (let ci = childIndex n key in
          bindE (nth_res (nd_children n) ci) (\<lambda>c.
          bindE (tree_delete fuel S s c key) (\<lambda>(childNewID, s).
            if childNewID = c then Inr (pid, s)
            else write_node S s (internalNode (nd_keys n) ((nd_children n)[ci := childNewID])))))))"

definition tree_Delete :: "nat \<Rightarrow> 's page_store \<Rightarrow> 's cow_tree \<Rightarrow> bytes \<Rightarrow> 's cow_tree res" where
  "tree_Delete fuel S t key =
     (if tr_root t = InvalidPageID then Inr t
      else bindE (tree_delete fuel S (tr_store t) (tr_root t) key) (\<lambda>(newID, s).
        Inr \<lparr>tr_store = s, tr_root = newID\<rparr>))"

section \<open>Updating a sorted list\<close>

definition kv_put :: "bytes \<Rightarrow> bytes \<Rightarrow> (bytes \<times> bytes) list \<Rightarrow> (bytes \<times> bytes) list" where
  "kv_put key val kvs = filter (\<lambda>x. fst x < key) kvs @ (key, val) # filter (\<lambda>x. key < fst x) kvs"

definition kv_del :: "bytes \<Rightarrow> (bytes \<times> bytes) list \<Rightarrow> (bytes \<times> bytes) list" where
  "kv_del key kvs = filter (\<lambda>x. fst x \<noteq> key) kvs"

lemma sorted_keys_filter:
  "sorted_wrt (<) (map fst kvs) \<Longrightarrow> sorted_wrt (<) (map fst (filter P kvs))"
  by (simp add: sorted_wrt_map sorted_wrt_filter)

lemma sorted_kv_put: "sorted_wrt (<) (map fst kvs) \<Longrightarrow> sorted_wrt (<) (map fst (kv_put key val kvs))"
  by (auto simp: kv_put_def sorted_wrt_append sorted_keys_filter intro: less_trans)

lemma sorted_kv_del: "sorted_wrt (<) (map fst kvs) \<Longrightarrow> sorted_wrt (<) (map fst (kv_del key kvs))"
  by (simp add: kv_del_def sorted_keys_filter)

lemma map_of_kv_del: "map_of (kv_del key kvs) = (map_of kvs)(key := None)"
  by (induction kvs) (auto simp: kv_del_def)

lemma map_of_filter_key: "map_of (filter (\<lambda>x. P (fst x)) kvs) k = (if P k then map_of kvs k else None)"
  by (induction kvs) auto

lemma map_of_kv_put: "map_of (kv_put key val kvs) = (map_of kvs)(key \<mapsto> val)"
proof
  fix k :: bytes
  consider "k = key" | "k < key" | "key < k" by fastforce
  then show "map_of (kv_put key val kvs) k = ((map_of kvs)(key \<mapsto> val)) k"
    by cases (auto simp: kv_put_def map_add_def map_of_filter_key [of "\<lambda>k. k < key"]
        map_of_filter_key [of "\<lambda>k. key < k"] split: option.split)
qed

text \<open>An update in the middle of a list whose other keys are on their sides stays in the middle.\<close>

lemma kv_put_middle:
  assumes "\<forall>x\<in>set a. fst x < key" "\<forall>x\<in>set d. key < fst x"
  shows "kv_put key val (a @ b @ d) = a @ kv_put key val b @ d"
proof -
  have "filter (\<lambda>x. fst x < key) a = a" "filter (\<lambda>x. key < fst x) d = d"
    using assms by (simp_all add: filter_id_conv)
  moreover have "filter (\<lambda>x. key < fst x) a = []" "filter (\<lambda>x. fst x < key) d = []"
    using assms by (auto simp: filter_empty_conv)
  ultimately show ?thesis by (simp add: kv_put_def)
qed

lemma kv_del_middle:
  assumes "\<forall>x\<in>set a. fst x < key" "\<forall>x\<in>set d. key < fst x"
  shows "kv_del key (a @ b @ d) = a @ kv_del key b @ d"
proof -
  have "filter (\<lambda>x. fst x \<noteq> key) a = a" "filter (\<lambda>x. fst x \<noteq> key) d = d"
    using assms by (auto simp: filter_id_conv)
  then show ?thesis by (simp add: kv_del_def)
qed

lemma set_kv_put: "x \<in> set (kv_put key val kvs) \<Longrightarrow> x = (key, val) \<or> x \<in> set kvs"
  by (auto simp: kv_put_def)

section \<open>The invariant\<close>

text \<open>
  Keys of a node lie in a range \<open>lo \<le> k < hi\<close>, where the topmost has no upper end.
  \<open>children_ok P hi lo cs ks kvs\<close>: the children \<open>cs\<close>, with the separators \<open>ks\<close> between them, hold
  \<open>kvs\<close>, and each of them satisfies \<open>P\<close> for the range its separators leave it.
\<close>

definition below :: "bytes option \<Rightarrow> bytes \<Rightarrow> bool" where
  "below hi k \<longleftrightarrow> (case hi of None \<Rightarrow> True | Some h \<Rightarrow> k < h)"

lemma below_simps [simp]: "below None k" "below (Some h) k \<longleftrightarrow> k < h"
  by (simp_all add: below_def)

lemma below_trans: "below hi k \<Longrightarrow> j < k \<Longrightarrow> below hi j"
  by (auto simp: below_def split: option.splits)

type_synonym subtree = "bytes \<Rightarrow> bytes option \<Rightarrow> u64 \<Rightarrow> (bytes \<times> bytes) list \<Rightarrow> bool"

inductive children_ok ::
  "subtree \<Rightarrow> bytes option \<Rightarrow> bytes \<Rightarrow> u64 list \<Rightarrow> bytes list \<Rightarrow> (bytes \<times> bytes) list \<Rightarrow> bool"
  for P hi where
  last_child: "P lo hi c kvs \<Longrightarrow> children_ok P hi lo [c] [] kvs"
| next_child: "P lo (Some k) c a \<Longrightarrow> lo < k \<Longrightarrow> below hi k \<Longrightarrow> children_ok P hi k cs ks b \<Longrightarrow>
    children_ok P hi lo (c # cs) (k # ks) (a @ b)"

inductive_simps children_ok_last [simp]: "children_ok P hi lo cs [] kvs"
inductive_simps children_ok_next: "children_ok P hi lo cs (k # ks) kvs"

lemma children_length: "children_ok P hi lo cs ks kvs \<Longrightarrow> length cs = Suc (length ks)"
  by (induction rule: children_ok.induct) simp_all

lemma children_mono: "children_ok P hi lo cs ks kvs \<Longrightarrow> P \<le> Q \<Longrightarrow> children_ok Q hi lo cs ks kvs"
  by (induction rule: children_ok.induct) (auto simp: le_fun_def intro: children_ok.intros)

definition in_range :: "bytes \<Rightarrow> bytes option \<Rightarrow> (bytes \<times> bytes) list \<Rightarrow> bool" where
  "in_range lo hi kvs \<longleftrightarrow> (\<forall>x\<in>set kvs. lo \<le> fst x \<and> below hi (fst x))"

lemma in_range_append [simp]:
  "in_range lo hi (a @ b) \<longleftrightarrow> in_range lo hi a \<and> in_range lo hi b"
  by (auto simp: in_range_def)

lemma in_range_lower: "in_range k hi kvs \<Longrightarrow> lo < k \<Longrightarrow> in_range lo hi kvs"
  by (auto simp: in_range_def intro: order.trans)

lemma in_range_upper: "in_range lo (Some k) kvs \<Longrightarrow> below hi k \<Longrightarrow> in_range lo hi kvs"
  by (auto simp: in_range_def intro: below_trans)

lemma in_range_kv_put:
  "in_range lo hi kvs \<Longrightarrow> lo \<le> key \<Longrightarrow> below hi key \<Longrightarrow> in_range lo hi (kv_put key val kvs)"
  by (auto simp: in_range_def dest!: set_kv_put)

lemma in_range_kv_del: "in_range lo hi kvs \<Longrightarrow> in_range lo hi (kv_del key kvs)"
  by (simp add: in_range_def kv_del_def)

text \<open>What a subtree promises of the list it holds.\<close>

definition ranged :: "subtree \<Rightarrow> bool" where
  "ranged P \<longleftrightarrow> (\<forall>lo hi c kvs. P lo hi c kvs \<longrightarrow> in_range lo hi kvs \<and> sorted_wrt (<) (map fst kvs))"

lemma rangedD: "ranged P \<Longrightarrow> P lo hi c kvs \<Longrightarrow> in_range lo hi kvs \<and> sorted_wrt (<) (map fst kvs)"
  by (simp add: ranged_def)

lemma children_ranged:
  assumes "children_ok P hi lo cs ks kvs" "ranged P"
  shows "in_range lo hi kvs \<and> sorted_wrt (<) (map fst kvs)"
  using assms
proof (induction rule: children_ok.induct)
  case (last_child lo c kvs)
  then show ?case by (auto dest: rangedD)
next
  case (next_child lo k c a cs ks b)
  then have ab: "in_range lo (Some k) a" "sorted_wrt (<) (map fst a)" "in_range k hi b"
    "sorted_wrt (<) (map fst b)" by (auto dest: rangedD)
  moreover have "\<forall>x\<in>set a. \<forall>y\<in>set b. fst x < fst y"
    using ab(1,3) by (fastforce simp: in_range_def)
  ultimately show ?case using next_child.hyps(2,3)
    by (auto simp: sorted_wrt_append intro: in_range_lower in_range_upper)
qed

text \<open>Cutting the children at a separator.\<close>

lemma children_append:
  "length cs = Suc (length ks) \<Longrightarrow>
   children_ok P hi lo (cs @ cs') (ks @ k # ks') kvs \<longleftrightarrow>
     (\<exists>a b. kvs = a @ b \<and> children_ok P (Some k) lo cs ks a \<and> children_ok P hi k cs' ks' b \<and>
       lo < k \<and> below hi k)"
proof (induction ks arbitrary: cs lo kvs)
  case Nil
  then show ?case by (cases cs) (auto simp: children_ok_next)
next
  case (Cons j ks)
  then obtain c ds where cs: "cs = c # ds" "length ds = Suc (length ks)" by (cases cs) auto
  have "children_ok P hi lo (cs @ cs') ((j # ks) @ k # ks') kvs \<longleftrightarrow>
      (\<exists>x y. kvs = x @ y \<and> P lo (Some j) c x \<and> lo < j \<and> below hi j \<and>
        children_ok P hi j (ds @ cs') (ks @ k # ks') y)"
    by (auto simp: children_ok_next cs)
  also have "\<dots> \<longleftrightarrow> (\<exists>x a b. kvs = x @ a @ b \<and> P lo (Some j) c x \<and> lo < j \<and> below hi j \<and>
        children_ok P (Some k) j ds ks a \<and> children_ok P hi k cs' ks' b \<and> j < k \<and> below hi k)"
    unfolding Cons.IH [OF cs(2)] by blast
  also have "\<dots> \<longleftrightarrow> (\<exists>a b. kvs = a @ b \<and> children_ok P (Some k) lo cs (j # ks) a \<and>
        children_ok P hi k cs' ks' b \<and> lo < k \<and> below hi k)" (is "?L \<longleftrightarrow> ?R")
  proof
    assume ?L
    then obtain x a b where x: "kvs = (x @ a) @ b" "P lo (Some j) c x" "lo < j" "below hi j"
      "children_ok P (Some k) j ds ks a" "children_ok P hi k cs' ks' b" "j < k" "below hi k" by auto
    then have "children_ok P (Some k) lo cs (j # ks) (x @ a)"
      unfolding cs(1) by (intro next_child) simp_all
    with x show ?R by (blast intro: less_trans)
  next
    assume ?R
    then obtain a b where ab: "kvs = a @ b" "children_ok P (Some k) lo cs (j # ks) a"
      "children_ok P hi k cs' ks' b" "below hi k" by blast
    from ab(2) obtain x y where "a = x @ y" "P lo (Some j) c x" "lo < j" "j < k"
      "children_ok P (Some k) j ds ks y" by (auto simp: children_ok_next cs(1))
    with ab show ?L by (auto intro: below_trans)
  qed
  finally show ?case .
qed

text \<open>
  \<open>hole P hi lo cs ks i a d lo' hi'\<close>: child \<open>i\<close> may be replaced by any subtree of its range, or by
  two subtrees and a separator between them; the other children hold \<open>a\<close> on its left and \<open>d\<close> on
  its right.
\<close>

definition hole ::
  "subtree \<Rightarrow> bytes option \<Rightarrow> bytes \<Rightarrow> u64 list \<Rightarrow> bytes list \<Rightarrow> nat \<Rightarrow> (bytes \<times> bytes) list \<Rightarrow>
   (bytes \<times> bytes) list \<Rightarrow> bytes \<Rightarrow> bytes option \<Rightarrow> bool" where
  "hole P hi lo cs ks i a d lo' hi' \<longleftrightarrow>
     (\<forall>Q. P \<le> Q \<longrightarrow>
       (\<forall>c b. Q lo' hi' c b \<longrightarrow> children_ok Q hi lo (cs[i := c]) ks (a @ b @ d)) \<and>
       (\<forall>l k r x y. Q lo' (Some k) l x \<longrightarrow> Q k hi' r y \<longrightarrow> lo' < k \<longrightarrow> below hi' k \<longrightarrow>
         children_ok Q hi lo (insertChildAt (cs[i := l]) (i + 1) r) (insertKeyAt ks i k)
           (a @ (x @ y) @ d)))"

lemma hole_only: "hole P hi lo [c] [] 0 [] [] lo hi"
  by (auto simp: hole_def insertChildAt_def insertKeyAt_def children_ok_next)

lemma hole_here:
  assumes "children_ok P hi k cs ks b" "lo < k" "below hi k"
  shows "hole P hi lo (c # cs) (k # ks) 0 [] b lo (Some k)"
  unfolding hole_def
proof (intro allI impI conjI)
  fix Q assume Q: "P \<le> Q"
  have rest: "children_ok Q hi k cs ks b" by (rule children_mono [OF assms(1) Q])
  fix c' b'
  show "children_ok Q hi lo ((c # cs)[0 := c']) (k # ks) ([] @ b' @ b)" if "Q lo (Some k) c' b'"
    using children_ok.next_child [of Q, OF that assms(2,3) rest] by simp
  fix l j r x y
  assume j: "Q lo (Some j) l x" "Q j (Some k) r y" "lo < j" "below (Some k) j"
  then have jk: "j < k" "below hi j" using assms(3) by (auto intro: below_trans)
  note children_ok.next_child [of Q, OF j(2) jk(1) assms(3) rest]
  from children_ok.next_child [of Q, OF j(1,3) jk(2) this]
  show "children_ok Q hi lo (insertChildAt ((c # cs)[0 := l]) (0 + 1) r)
      (insertKeyAt (k # ks) 0 j) ([] @ (x @ y) @ b)"
    by (simp add: insertChildAt_def insertKeyAt_def)
qed

lemma hole_further:
  assumes "hole P hi k cs ks i a d lo' hi'" "P lo (Some k) c x" "lo < k" "below hi k"
  shows "hole P hi lo (c # cs) (k # ks) (Suc i) (x @ a) d lo' hi'"
  using assms
  by (auto simp: hole_def insertChildAt_def insertKeyAt_def le_fun_def intro!: next_child)

text \<open>Descending along the separators to the child for a key.\<close>

lemma children_zoom:
  assumes "children_ok P hi lo cs ks kvs" "ranged P" "i \<le> length ks"
    "\<forall>s\<in>set (take i ks). s \<le> key" "i < length ks \<longrightarrow> key < ks ! i" "lo \<le> key" "below hi key"
  shows "\<exists>a b d lo' hi'. kvs = a @ b @ d \<and> P lo' hi' (cs ! i) b \<and> lo' \<le> key \<and> below hi' key \<and>
    (\<forall>x\<in>set a. fst x < key) \<and> (\<forall>x\<in>set d. key < fst x) \<and> hole P hi lo cs ks i a d lo' hi'"
  using assms
proof (induction arbitrary: i rule: children_ok.induct)
  case (last_child lo c kvs)
  then show ?case
    by (intro exI [of _ "[]"] exI [of _ kvs] exI [of _ lo] exI [of _ hi]) (simp add: hole_only)
next
  case (next_child lo k c x cs ks y)
  have rest: "in_range k hi y" using children_ranged [OF next_child.hyps(4)] next_child.prems(1) by simp
  show ?case
  proof (cases i)
    case 0
    then have "key < k" using next_child.prems(4) by simp
    moreover from this have "\<forall>z\<in>set y. key < fst z"
      using rest by (auto simp: in_range_def)
    ultimately show ?thesis
      using 0 next_child.hyps(1) next_child.prems(5) hole_here [OF next_child.hyps(4,2,3), of c]
      by (intro exI [of _ "[]"] exI [of _ x] exI [of _ y] exI [of _ lo] exI [of _ "Some k"]) simp
  next
    case (Suc j)
    then have "k \<le> key" using next_child.prems(3) by simp
    then have "\<forall>z\<in>set x. fst z < key"
      using rangedD [OF next_child.prems(1) next_child.hyps(1)] by (auto simp: in_range_def)
    moreover from next_child.IH [of j] next_child.prems Suc \<open>k \<le> key\<close>
    obtain a b d lo' hi' where z: "y = a @ b @ d" "P lo' hi' (cs ! j) b" "lo' \<le> key"
      "below hi' key" "\<forall>x\<in>set a. fst x < key" "\<forall>x\<in>set d. key < fst x"
      "hole P hi k cs ks j a d lo' hi'" by auto
    ultimately have "x @ y = (x @ a) @ b @ d \<and> P lo' hi' ((c # cs) ! i) b \<and> lo' \<le> key \<and>
        below hi' key \<and> (\<forall>z\<in>set (x @ a). fst z < key) \<and> (\<forall>z\<in>set d. key < fst z) \<and>
        hole P hi lo (c # cs) (k # ks) i (x @ a) d lo' hi'"
      using Suc hole_further [OF z(7) next_child.hyps(1-3)] by auto
    then show ?thesis by blast
  qed
qed

text \<open>The children of a node as the read path sees them.\<close>

lemma seps_Cons:
  assumes "seps ks kvss" "\<forall>x\<in>set a. fst x < k" "\<forall>y\<in>set kvss. \<forall>x\<in>set y. k \<le> fst x"
    "\<forall>j\<in>set ks. k < j"
  shows "seps (k # ks) (a # kvss)"
  unfolding seps_def
proof (intro allI impI ballI)
  fix i j x
  assume i: "i < length (k # ks)" and j: "j < length (a # kvss)" and x: "x \<in> set ((a # kvss) ! j)"
  show "if j \<le> i then fst x < (k # ks) ! i else (k # ks) ! i \<le> fst x"
  proof (cases i)
    case 0
    with assms(2,3) j x show ?thesis by (cases j) (auto dest: nth_mem)
  next
    case (Suc i')
    with i have "i' < length ks" "k < ks ! i'" using assms(4) by simp_all
    with Suc assms(1,2) j x show ?thesis
      by (cases j) (auto simp: seps_def intro: less_trans)
  qed
qed

lemma children_seps:
  assumes "children_ok P hi lo cs ks kvs" "ranged P"
  shows "\<exists>kvss. kvs = concat kvss \<and> list_all2 (\<lambda>c x. \<exists>lo hi. P lo hi c x) cs kvss \<and> seps ks kvss"
  using assms
proof (induction rule: children_ok.induct)
  case (last_child lo c kvs)
  then show ?case by (intro exI [of _ "[kvs]"]) (auto simp: seps_def)
next
  case (next_child lo k c a cs ks b)
  then obtain kvss where r: "b = concat kvss" "list_all2 (\<lambda>c x. \<exists>lo hi. P lo hi c x) cs kvss"
    "seps ks kvss" by auto
  have a: "\<forall>x\<in>set a. fst x < k"
    using rangedD [OF next_child.prems next_child.hyps(1)] by (auto simp: in_range_def)
  have b: "\<forall>x\<in>set b. k \<le> fst x"
    using children_ranged [OF next_child.hyps(4) next_child.prems] by (auto simp: in_range_def)
  have "\<forall>j\<in>set ks. k < j"
    using next_child.hyps(4)
    by (induction rule: children_ok.induct) (auto intro: less_trans)
  then have "seps (k # ks) (a # kvss)"
    using seps_Cons [OF r(3) a] b r(1) by auto
  with r next_child.hyps(1) show ?case by (intro exI [of _ "a # kvss"]) auto
qed

text \<open>
  The entries of a leaf, of at most \<open>maxEntry\<close> bytes each, and the pages of the invariant. A key of
  such an entry leaves room for a separator.
\<close>

definition maxEntry :: nat where
  "maxEntry = 112"

definition leaf_rep ::
  "page_source \<Rightarrow> u64 set \<Rightarrow> leafEntry list \<Rightarrow> (bytes \<times> bytes) list \<Rightarrow> bool" where
  "leaf_rep rd D es kvs \<longleftrightarrow> list_all (\<lambda>e. entry_wf e \<and> le_size e \<le> maxEntry) es \<and>
     list_all2 (\<lambda>e kv. le_key e = fst kv \<and> entry_value rd D e (snd kv)) es kvs"

abbreviation short_keys :: "bytes list \<Rightarrow> bool" where
  "short_keys ks \<equiv> list_all (\<lambda>k. length k + 7 \<le> maxEntry) ks"

fun cbt :: "page_source \<Rightarrow> u64 set \<Rightarrow> nat \<Rightarrow> subtree" where
  "cbt rd D 0 lo hi pid kvs \<longleftrightarrow> pid \<noteq> InvalidPageID \<and> pid \<in> D \<and>
     (\<exists>p es. rd pid = Inr p \<and> decodeNode p = Inr (leafNode es) \<and> fits (leafNode es) \<and>
       leaf_rep rd D es kvs) \<and> sorted_wrt (<) (map fst kvs) \<and> in_range lo hi kvs"
| "cbt rd D (Suc h) lo hi pid kvs \<longleftrightarrow> pid \<noteq> InvalidPageID \<and> pid \<in> D \<and>
     (\<exists>p ks cs. rd pid = Inr p \<and> decodeNode p = Inr (internalNode ks cs) \<and>
       fits (internalNode ks cs) \<and> short_keys ks \<and> children_ok (cbt rd D h) hi lo cs ks kvs)"

lemma cbt_ranged: "ranged (cbt rd D h)"
proof (induction h)
  case 0
  then show ?case by (auto simp: ranged_def)
next
  case (Suc h)
  then show ?case
    unfolding ranged_def cbt.simps by (blast dest: children_ranged [OF _ Suc])
qed

lemma leaf_rep_keep:
  "leaf_rep rd D es kvs \<Longrightarrow> keeps_reads rd rd' D \<Longrightarrow> D \<subseteq> D' \<Longrightarrow> leaf_rep rd' D' es kvs"
  unfolding leaf_rep_def by (auto elim!: list_all2_mono intro: entry_value_keep)

lemma cbt_keep: "keeps_reads rd rd' D \<Longrightarrow> D \<subseteq> D' \<Longrightarrow> cbt rd D h \<le> cbt rd' D' h"
proof (induction h)
  case 0
  then show ?case by (auto simp: le_fun_def intro: leaf_rep_keep dest: keeps_readsD)
next
  case (Suc h)
  have "cbt rd' D' (Suc h) lo hi pid kvs" if t: "cbt rd D (Suc h) lo hi pid kvs" for lo hi pid kvs
  proof -
    from t obtain p ks cs where c: "pid \<noteq> InvalidPageID" "pid \<in> D" "rd pid = Inr p"
      "decodeNode p = Inr (internalNode ks cs)" "fits (internalNode ks cs)" "short_keys ks"
      "children_ok (cbt rd D h) hi lo cs ks kvs" by auto
    have "rd' pid = Inr p" using Suc.prems(1) c(2,3) by (rule keeps_readsD)
    with c Suc.prems(2) children_mono [OF c(7) Suc.IH [OF Suc.prems]] show ?thesis by auto
  qed
  then show ?case by (auto simp: le_fun_def simp del: cbt.simps)
qed

lemma cbt_keepD:
  "cbt rd D h lo hi pid kvs \<Longrightarrow> keeps_reads rd rd' D \<Longrightarrow> D \<subseteq> D' \<Longrightarrow> cbt rd' D' h lo hi pid kvs"
  using cbt_keep [of rd rd' D D' h] by (auto simp: le_fun_def)

text \<open>The trees of the invariant are trees of the read path.\<close>

lemma cbt_bt: "cbt rd D h lo hi pid kvs \<Longrightarrow> bt rd D h pid kvs"
proof (induction h arbitrary: lo hi pid kvs)
  case 0
  then show ?case by (auto simp: leaf_rep_def)
next
  case (Suc h)
  then obtain p ks cs where c: "pid \<noteq> InvalidPageID" "pid \<in> D" "rd pid = Inr p"
    "decodeNode p = Inr (internalNode ks cs)" "children_ok (cbt rd D h) hi lo cs ks kvs" by auto
  from children_seps [OF c(5) cbt_ranged] obtain kvss where k: "kvs = concat kvss"
    "list_all2 (\<lambda>c x. \<exists>lo hi. cbt rd D h lo hi c x) cs kvss" "seps ks kvss" by blast
  have "list_all2 (bt rd D h) cs kvss"
    using k(2) by (rule list_all2_mono) (auto intro: Suc.IH)
  with c k children_length [OF c(5)] show ?case by auto
qed

text \<open>One level down: the node at the root, and the child for a key in its hole.\<close>

lemma cbt_descend:
  assumes "cbt rd D (Suc h) lo hi pid kvs" "lo \<le> key" "below hi key"
  obtains p ks cs a b d lo' hi' where "pid \<noteq> InvalidPageID" "pid \<in> D" "rd pid = Inr p"
    "decodeNode p = Inr (internalNode ks cs)" "fits (internalNode ks cs)" "short_keys ks"
    "childIndex (internalNode ks cs) key < length cs" "kvs = a @ b @ d"
    "cbt rd D h lo' hi' (cs ! childIndex (internalNode ks cs) key) b"
    "lo' \<le> key" "below hi' key" "\<forall>x\<in>set a. fst x < key" "\<forall>x\<in>set d. key < fst x"
    "hole (cbt rd D h) hi lo cs ks (childIndex (internalNode ks cs) key) a d lo' hi'"
proof -
  from assms(1) obtain p ks cs where p: "pid \<noteq> InvalidPageID" "pid \<in> D" "rd pid = Inr p"
    "decodeNode p = Inr (internalNode ks cs)" "fits (internalNode ks cs)" "short_keys ks"
    and ch: "children_ok (cbt rd D h) hi lo cs ks kvs" by auto
  let ?ci = "childIndex (internalNode ks cs) key"
  have ci: "?ci \<le> length ks" "\<forall>k\<in>set (take ?ci ks). k \<le> key" "?ci < length ks \<longrightarrow> key < ks ! ?ci"
    using childIndex_split [of "internalNode ks cs" key] children_length [OF ch] by simp_all
  have "?ci < length cs" using ci(1) children_length [OF ch] by simp
  with children_zoom [OF ch cbt_ranged ci assms(2,3)] p that show thesis by blast
qed

section \<open>Splitting by count\<close>

lemma sum_list_le_count: "\<forall>x\<in>set xs. x \<le> m \<Longrightarrow> sum_list xs \<le> m * length xs" for m :: nat
  by (induction xs) auto

lemma sum_list_ge_count: "\<forall>x\<in>set xs. m \<le> x \<Longrightarrow> m * length xs \<le> sum_list xs" for m :: nat
  by (induction xs) auto

lemma sum_list_take_drop: "sum_list xs = sum_list (take n xs) + sum_list (drop n xs)" for xs :: "nat list"
  by (metis append_take_drop_id sum_list_append)

text \<open>
  A list of sizes from \<open>m\<close> to \<open>M\<close> that is just above \<open>C\<close> has so many elements that either half of
  it weighs at least \<open>M\<close>, so that the other half is at most \<open>C\<close>.
\<close>

lemma halves_fit:
  fixes xs :: "nat list"
  assumes "\<forall>x\<in>set xs. m \<le> x \<and> x \<le> M" "C < sum_list xs" "sum_list xs \<le> C + M"
    "M * 34 \<le> C" "M \<le> m * 17" "n = length xs div 2"
  shows "sum_list (take n xs) \<le> C \<and> sum_list (drop n xs) \<le> C \<and> 0 < n \<and> n + 1 < length xs"
proof -
  have "sum_list xs \<le> M * length xs" using assms(1) by (intro sum_list_le_count) blast
  then have "M * 34 < M * length xs" using assms(2,4) by linarith
  then have len: "34 < length xs" by simp
  have cut: "M \<le> sum_list ys" if "17 \<le> length ys" "set ys \<subseteq> set xs" for ys
  proof -
    have "m * length ys \<le> sum_list ys"
      using assms(1) that(2) by (intro sum_list_ge_count) blast
    moreover have "m * 17 \<le> m * length ys" using that(1) by (rule mult_le_mono2)
    ultimately show ?thesis using assms(5) by linarith
  qed
  have "M \<le> sum_list (take n xs)" "M \<le> sum_list (drop n xs)"
    using len assms(6) by (auto intro!: cut dest: in_set_takeD in_set_dropD)
  then show ?thesis using assms(3,6) sum_list_take_drop [of xs n] len by auto
qed

section \<open>Writing nodes\<close>

text \<open>\<open>advances\<close>: a step of the store that hands out at most \<open>k\<close> ids and keeps every page.\<close>

definition advances ::
  "'s page_store \<Rightarrow> ('s \<Rightarrow> bool) \<Rightarrow> ('s \<Rightarrow> nat) \<Rightarrow> nat \<Rightarrow> 's \<Rightarrow> 's \<Rightarrow> bool" where
  "advances S ok used k s s' \<longleftrightarrow> ok s' \<and> used s \<le> used s' \<and> used s' \<le> used s + k \<and>
     keeps_reads (st_ReadPage S s) (st_ReadPage S s') (ids_below (used s))"

lemma advances_trans:
  "advances S ok used k s s' \<Longrightarrow> advances S ok used m s' s'' \<Longrightarrow> advances S ok used (k + m) s s''"
  by (auto simp: advances_def intro: keeps_reads_trans [OF _ _ ids_below_mono])

lemma advances_mono: "advances S ok used k s s' \<Longrightarrow> k \<le> m \<Longrightarrow> advances S ok used m s s'"
  by (simp add: advances_def)

lemma advances_cbt:
  "advances S ok used k s s' \<Longrightarrow> cbt (st_ReadPage S s) (ids_below (used s)) h \<le>
     cbt (st_ReadPage S s') (ids_below (used s')) h"
  by (rule cbt_keep) (simp_all add: advances_def ids_below_mono)

lemma advances_leaf_rep:
  "advances S ok used k s s' \<Longrightarrow> leaf_rep (st_ReadPage S s) (ids_below (used s)) es kvs \<Longrightarrow>
   leaf_rep (st_ReadPage S s') (ids_below (used s')) es kvs"
  by (erule leaf_rep_keep) (simp_all add: advances_def ids_below_mono)

text \<open>What \<open>writeMaybeSplit\<close> and \<open>tree_insert\<close> return: one subtree, or two and a separator.\<close>

definition grown ::
  "page_source \<Rightarrow> u64 set \<Rightarrow> nat \<Rightarrow> bytes \<Rightarrow> bytes option \<Rightarrow> u64 \<Rightarrow> splitResult option \<Rightarrow>
   (bytes \<times> bytes) list \<Rightarrow> bool" where
  "grown rd D h lo hi pid sr kvs \<longleftrightarrow>
     (case sr of
        None \<Rightarrow> cbt rd D h lo hi pid kvs
      | Some sp \<Rightarrow> \<exists>l r. kvs = l @ r \<and> cbt rd D h lo (Some (sp_sep sp)) pid l \<and>
          cbt rd D h (sp_sep sp) hi (sp_right sp) r \<and> lo < sp_sep sp \<and> below hi (sp_sep sp) \<and>
          length (sp_sep sp) + 7 \<le> maxEntry)"

lemma grown_split:
  "cbt rd D h lo (Some sep) lid l \<Longrightarrow> cbt rd D h sep hi rid r \<Longrightarrow> lo < sep \<Longrightarrow> below hi sep \<Longrightarrow>
   length sep + 7 \<le> maxEntry \<Longrightarrow>
   grown rd D h lo hi lid (Some \<lparr>sp_sep = sep, sp_right = rid\<rparr>) (l @ r)"
  by (auto simp: grown_def simp del: cbt.simps)

lemma leaf_rep_wf: "leaf_rep rd D es kvs \<Longrightarrow> node_wf (leafNode es)"
  by (auto simp: leaf_rep_def node_wf_def list_all_iff)

lemma children_wf: "children_ok P hi lo cs ks kvs \<Longrightarrow> short_keys ks \<Longrightarrow> node_wf (internalNode ks cs)"
  by (auto simp: node_wf_def children_length maxEntry_def list_all_iff)

lemma leaf_rep_cut:
  assumes "leaf_rep rd D es kvs"
  shows "leaf_rep rd D (take n es) (take n kvs)" "leaf_rep rd D (drop n es) (drop n kvs)"
  using assms by (auto simp: leaf_rep_def list_all_iff dest: in_set_takeD in_set_dropD
      intro: list_all2_takeI list_all2_dropI)

lemma leaf_rep_keys: "leaf_rep rd D es kvs \<Longrightarrow> map le_key es = map fst kvs"
  by (auto simp: leaf_rep_def list_all2_conv_all_nth intro: nth_equalityI)

text \<open>The search in a leaf cuts the list it holds around the key.\<close>

lemma leafSearch_cut:
  assumes "leaf_rep rd D es kvs" "sorted_wrt (<) (map fst kvs)"
    "leafSearch (leafNode es) key = (i, found)" "j = (if found then i + 1 else i)"
  shows "\<exists>m. kvs = take i kvs @ m @ drop j kvs \<and> (\<forall>x\<in>set (take i kvs). fst x < key) \<and>
    (\<forall>x\<in>set (drop j kvs). key < fst x) \<and> (if found then \<exists>v. m = [(key, v)] else m = [])"
proof -
  have keys: "map le_key es = map fst kvs" by (rule leaf_rep_keys [OF assms(1)])
  from leafSearch_from_split [of es 0 key i found] assms(2,3) have
    l: "\<forall>e\<in>set (take i es). le_key e < key"
    and r: "if found then i < length es \<and> le_key (es ! i) = key
      else \<forall>e\<in>set (drop i es). key < le_key e"
    by (auto simp: keys leafSearch_def)
  have len: "length kvs = length es" by (metis keys length_map)
  have "map fst (take i kvs) = map le_key (take i es)" by (metis keys take_map)
  then have left: "\<forall>x\<in>set (take i kvs). fst x < key"
    using l by (metis image_iff list.set_map)
  show ?thesis
  proof (cases found)
    case True
    then have i: "i < length kvs" "fst (kvs ! i) = key"
      using r len keys by (auto, metis nth_map)
    have d: "drop i kvs = kvs ! i # drop (Suc i) kvs" using i(1) by (simp add: Cons_nth_drop_Suc)
    have "sorted_wrt (<) (map fst (drop i kvs))" using assms(2) by (simp add: drop_map [symmetric] sorted_wrt_drop)
    then have "\<forall>x\<in>set (drop j kvs). key < fst x" using True assms(4) i(2) d by simp
    moreover have "[(key, snd (kvs ! i))] @ drop j kvs = drop i kvs"
      using True assms(4) by (simp add: d i(2) [symmetric])
    then have "kvs = take i kvs @ [(key, snd (kvs ! i))] @ drop j kvs" by simp
    ultimately show ?thesis using left True
      by (intro exI [of _ "[(key, snd (kvs ! i))]"]) simp
  next
    case False
    have "map fst (drop i kvs) = map le_key (drop i es)" by (metis keys drop_map)
    then have "\<forall>x\<in>set (drop i kvs). key < fst x"
      using r False by (metis image_iff list.set_map)
    with left False assms(4) show ?thesis by simp
  qed
qed

lemma leaf_rep_append:
  "leaf_rep rd D (es @ es') (kvs @ kvs')" if "leaf_rep rd D es kvs" "leaf_rep rd D es' kvs'"
  using that by (auto simp: leaf_rep_def intro: list_all2_appendI)

lemma leaf_rep_put:
  assumes "leaf_rep rd D es kvs" "sorted_wrt (<) (map fst kvs)"
    "leafSearch (leafNode es) (le_key ve) = (i, found)" "j = (if found then i + 1 else i)"
    "leaf_rep rd D [ve] [(le_key ve, val)]"
  shows "leaf_rep rd D (take i es @ [ve] @ drop j es) (kv_put (le_key ve) val kvs) \<and>
    sum_list (map le_size (take i es @ [ve] @ drop j es)) \<le> sum_list (map le_size es) + le_size ve"
proof -
  from leafSearch_cut [OF assms(1-4)] obtain m where m: "kvs = take i kvs @ m @ drop j kvs"
    "\<forall>x\<in>set (take i kvs). fst x < le_key ve" "\<forall>x\<in>set (drop j kvs). le_key ve < fst x"
    "if found then \<exists>v. m = [(le_key ve, v)] else m = []" by blast
  have "kv_put (le_key ve) val m = [(le_key ve, val)]"
    using m(4) by (auto simp: kv_put_def split: if_splits)
  then have "kv_put (le_key ve) val kvs = take i kvs @ [(le_key ve, val)] @ drop j kvs"
    using kv_put_middle [OF m(2,3), of val m] m(1) by simp
  moreover have "sum_list (map le_size (drop j es)) \<le> sum_list (map le_size (drop i es))"
  proof (cases "i < length es")
    case True
    then show ?thesis using assms(4) by (simp add: Cons_nth_drop_Suc [symmetric])
  next
    case False
    then show ?thesis using assms(4) by simp
  qed
  moreover have "leaf_rep rd D (take i es @ [ve] @ drop j es)
      (take i kvs @ [(le_key ve, val)] @ drop j kvs)"
    by (intro leaf_rep_append leaf_rep_cut [OF assms(1)] assms(5))
  ultimately show ?thesis
    using sum_list_take_drop [of "map le_size es" i] by (simp add: take_map drop_map)
qed

lemma leaf_rep_del:
  assumes "leaf_rep rd D es kvs" "sorted_wrt (<) (map fst kvs)"
    "leafSearch (leafNode es) key = (i, found)"
  shows "if found then leaf_rep rd D (take i es @ drop (i + 1) es) (kv_del key kvs) \<and>
      sum_list (map le_size (take i es @ drop (i + 1) es)) \<le> sum_list (map le_size es)
    else kv_del key kvs = kvs"
proof -
  define j where "j = (if found then i + 1 else i)"
  from leafSearch_cut [OF assms j_def] obtain m where m: "kvs = take i kvs @ m @ drop j kvs"
    "\<forall>x\<in>set (take i kvs). fst x < key" "\<forall>x\<in>set (drop j kvs). key < fst x"
    "if found then \<exists>v. m = [(key, v)] else m = []" by blast
  have "kv_del key m = []" using m(4) by (auto simp: kv_del_def split: if_splits)
  then have "kv_del key kvs = take i kvs @ drop j kvs"
    using kv_del_middle [OF m(2,3), of m] m(1) by simp
  moreover have "sum_list (map le_size (drop (i + 1) es)) \<le> sum_list (map le_size (drop i es))"
    by (cases "i < length es") (simp_all add: Cons_nth_drop_Suc [symmetric])
  moreover have "leaf_rep rd D (take i es @ drop j es) (take i kvs @ drop j kvs)"
    by (intro leaf_rep_append leaf_rep_cut [OF assms(1)])
  ultimately show ?thesis
    using sum_list_take_drop [of "map le_size es" i]
    by (cases found) (simp_all add: take_map drop_map j_def)
qed

text \<open>Cutting a sorted list at its \<open>n\<close>th key.\<close>

lemma cut_at_key:
  assumes "sorted_wrt (<) (map fst kvs)" "in_range lo hi kvs" "0 < n" "n < length kvs"
    "sep = fst (kvs ! n)"
  shows "in_range lo (Some sep) (take n kvs)" "in_range sep hi (drop n kvs)"
    "sorted_wrt (<) (map fst (take n kvs))" "sorted_wrt (<) (map fst (drop n kvs))"
    "lo < sep" "below hi sep"
proof -
  have cut: "map fst kvs = map fst (take n kvs) @ map fst (drop n kvs)"
    by (metis append_take_drop_id map_append)
  have tl: "drop n kvs = kvs ! n # drop (Suc n) kvs" using assms(4) by (rule Cons_nth_drop_Suc [symmetric])
  show srt: "sorted_wrt (<) (map fst (take n kvs))" "sorted_wrt (<) (map fst (drop n kvs))"
    using assms(1) unfolding cut sorted_wrt_append by blast+
  have left: "\<forall>x\<in>set (take n kvs). fst x < sep"
    using assms(1,5) unfolding cut sorted_wrt_append by (simp add: tl)
  have right: "\<forall>x\<in>set (drop n kvs). sep \<le> fst x"
    using srt(2) assms(5) by (auto simp: tl intro: less_imp_le)
  show "in_range lo (Some sep) (take n kvs)" "in_range sep hi (drop n kvs)"
    using assms(2) left right by (auto simp: in_range_def dest: in_set_takeD in_set_dropD)
  show "below hi sep" using assms(2,4,5) by (auto simp: in_range_def)
  have "hd (take n kvs) \<in> set (take n kvs)" using assms(3,4) by (intro hd_in_set) auto
  with left assms(2) show "lo < sep"
    by (meson in_range_def in_set_takeD le_less_trans)
qed

context page_store_laws
begin

lemma write_leaf:
  assumes "inv s" "used s < cap" "leaf_rep (st_ReadPage S s) (ids_below (used s)) es kvs"
    "fits (leafNode es)" "sorted_wrt (<) (map fst kvs)" "in_range lo hi kvs"
  shows "\<exists>pid s'. write_node S s (leafNode es) = Inr (pid, s') \<and> advances S inv used 1 s s' \<and>
    cbt (st_ReadPage S s') (ids_below (used s')) 0 lo hi pid kvs"
proof -
  from write_node_law [OF assms(1,2) leaf_rep_wf [OF assms(3)] assms(4)] obtain pid s' p where
    w: "write_node S s (leafNode es) = Inr (pid, s')" "inv s'" "used s' = Suc (used s)"
      "pid \<noteq> InvalidPageID" "unat pid < used s'" "st_ReadPage S s' pid = Inr p"
      "decodeNode p = Inr (leafNode es)"
      "keeps_reads (st_ReadPage S s) (st_ReadPage S s') (ids_below (used s))" by blast
  then have adv: "advances S inv used 1 s s'" by (simp add: advances_def)
  with w assms(4-6) advances_leaf_rep [OF adv assms(3)] show ?thesis by auto
qed

lemma write_internal:
  assumes "inv s" "used s < cap" "short_keys ks" "fits (internalNode ks cs)"
    "children_ok (cbt (st_ReadPage S s) (ids_below (used s)) h) hi lo cs ks kvs"
  shows "\<exists>pid s'. write_node S s (internalNode ks cs) = Inr (pid, s') \<and> advances S inv used 1 s s' \<and>
    cbt (st_ReadPage S s') (ids_below (used s')) (Suc h) lo hi pid kvs"
proof -
  from write_node_law [OF assms(1,2) children_wf [OF assms(5,3)] assms(4)] obtain pid s' p where
    w: "write_node S s (internalNode ks cs) = Inr (pid, s')" "inv s'" "used s' = Suc (used s)"
      "pid \<noteq> InvalidPageID" "unat pid < used s'" "st_ReadPage S s' pid = Inr p"
      "decodeNode p = Inr (internalNode ks cs)"
      "keeps_reads (st_ReadPage S s) (st_ReadPage S s') (ids_below (used s))" by blast
  then have adv: "advances S inv used 1 s s'" by (simp add: advances_def)
  with w assms(3,4) children_mono [OF assms(5) advances_cbt [OF adv]] show ?thesis by auto
qed

text \<open>A leaf that is at most one entry too large is written, in one page or cut in two.\<close>

lemma writeMaybeSplit_leaf:
  assumes "inv s" "used s + 2 \<le> cap" "leaf_rep (st_ReadPage S s) (ids_below (used s)) es kvs"
    "sum_list (map le_size es) \<le> 4062 + maxEntry" "sorted_wrt (<) (map fst kvs)" "in_range lo hi kvs"
  shows "\<exists>pid sr s'. writeMaybeSplit S s (leafNode es) = Inr (pid, sr, s') \<and>
    advances S inv used 2 s s' \<and>
    grown (st_ReadPage S s') (ids_below (used s')) 0 lo hi pid sr kvs"
proof (cases "fits (leafNode es)")
  case True
  from write_leaf [OF assms(1) _ assms(3) True assms(5,6)] assms(2) obtain pid s' where
    "write_node S s (leafNode es) = Inr (pid, s')" "advances S inv used 1 s s'"
    "cbt (st_ReadPage S s') (ids_below (used s')) 0 lo hi pid kvs" by auto
  with True show ?thesis by (auto simp: writeMaybeSplit_def grown_def intro: advances_mono)
next
  case False
  define n where "n = length es div 2"
  let ?sz = "map le_size es"
  have sz: "\<forall>x\<in>set ?sz. 7 \<le> x \<and> x \<le> maxEntry"
    using assms(3) by (auto simp: leaf_rep_def list_all_iff le_size_def)
  have big: "4062 < sum_list ?sz"
    using False by (simp add: fits_def encodedSize_def fit_simps)
  from halves_fit [OF sz big assms(4)] have n: "0 < n" "n < length es"
    and fit: "fits (leafNode (take n es))" "fits (leafNode (drop n es))"
    by (simp_all add: n_def fits_def encodedSize_def fit_simps take_map drop_map maxEntry_def)
  define sep where "sep = le_key (es ! n)"
  have split_eq: "splitLeaf (leafNode es) = Inr (leafNode (take n es), leafNode (drop n es), sep)"
    using n by (simp add: splitLeaf_def Let_def n_def [symmetric] nth_res_def sep_def)
  have keys: "map le_key es = map fst kvs" by (rule leaf_rep_keys [OF assms(3)])
  then have len: "length kvs = length es" by (metis length_map)
  have sep: "sep = fst (kvs ! n)"
    using keys n(2) len by (metis nth_map sep_def)
  note cut = cut_at_key [OF assms(5,6) n(1) n(2) [folded len] sep]
  have "le_size (es ! n) \<le> maxEntry" using assms(3) n(2) by (auto simp: leaf_rep_def list_all_iff)
  then have short: "length sep + 7 \<le> maxEntry" by (auto simp: sep_def le_size_def split: if_splits)
  from write_leaf [OF assms(1) _ leaf_rep_cut(1) [OF assms(3)] fit(1) cut(3,1)] assms(2)
  obtain lid s1 where l: "write_node S s (leafNode (take n es)) = Inr (lid, s1)"
    "advances S inv used 1 s s1"
    "cbt (st_ReadPage S s1) (ids_below (used s1)) 0 lo (Some sep) lid (take n kvs)" by auto
  then have s1: "inv s1" "used s1 < cap" using assms(2) by (auto simp: advances_def)
  from write_leaf [OF s1 advances_leaf_rep [OF l(2) leaf_rep_cut(2) [OF assms(3)]] fit(2) cut(4,2)]
  obtain rid s2 where r: "write_node S s1 (leafNode (drop n es)) = Inr (rid, s2)"
    "advances S inv used 1 s1 s2"
    "cbt (st_ReadPage S s2) (ids_below (used s2)) 0 sep hi rid (drop n kvs)" by blast
  have "cbt (st_ReadPage S s2) (ids_below (used s2)) 0 lo (Some sep) lid (take n kvs)"
    using advances_cbt [OF r(2)] l(3) by (auto simp: le_fun_def simp del: cbt.simps)
  from grown_split [OF this r(3) cut(5,6) short]
  have "grown (st_ReadPage S s2) (ids_below (used s2)) 0 lo hi lid
      (Some \<lparr>sp_sep = sep, sp_right = rid\<rparr>) kvs" by simp
  moreover have "writeMaybeSplit S s (leafNode es) =
      Inr (lid, Some \<lparr>sp_sep = sep, sp_right = rid\<rparr>, s2)"
    using False split_eq l(1) r(1) by (simp add: writeMaybeSplit_def)
  moreover have "advances S inv used 2 s s2" using advances_trans [OF l(2) r(2)] by (simp only: one_add_one)
  ultimately show ?thesis by blast
qed

text \<open>The same of an internal node with at most one separator too many.\<close>

lemma writeMaybeSplit_internal:
  assumes "inv s" "used s + 2 \<le> cap" "short_keys ks"
    "sum_list (map (\<lambda>k. 2 + length k + 8) ks) \<le> 4054 + (maxEntry + 3)"
    "children_ok (cbt (st_ReadPage S s) (ids_below (used s)) h) hi lo cs ks kvs"
  shows "\<exists>pid sr s'. writeMaybeSplit S s (internalNode ks cs) = Inr (pid, sr, s') \<and>
    advances S inv used 2 s s' \<and>
    grown (st_ReadPage S s') (ids_below (used s')) (Suc h) lo hi pid sr kvs"
proof (cases "fits (internalNode ks cs)")
  case True
  have "used s < cap" using assms(2) by simp
  from write_internal [OF assms(1) this assms(3) True assms(5)] obtain pid s' where
    "write_node S s (internalNode ks cs) = Inr (pid, s')" "advances S inv used 1 s s'"
    "cbt (st_ReadPage S s') (ids_below (used s')) (Suc h) lo hi pid kvs" by blast
  with True show ?thesis
    by (auto simp: writeMaybeSplit_def grown_def simp del: cbt.simps intro: advances_mono)
next
  case False
  define n where "n = length ks div 2"
  let ?sz = "map (\<lambda>k. 2 + length k + 8) ks"
  have sz: "\<forall>x\<in>set ?sz. 10 \<le> x \<and> x \<le> maxEntry + 3"
    using assms(3) by (auto simp: list_all_iff)
  have big: "4054 < sum_list ?sz"
    using False by (simp add: fits_def encodedSize_def fit_simps)
  from halves_fit [OF sz big assms(4), of n] have n: "n + 1 < length ks"
    and sums: "sum_list (take n ?sz) \<le> 4054" "sum_list (drop n ?sz) \<le> 4054"
    by (simp_all add: n_def maxEntry_def)
  let ?L = "internalNode (take n ks) (take (n + 1) cs)"
  let ?R = "internalNode (drop (n + 1) ks) (drop (n + 1) cs)"
  define sep where "sep = ks ! n"
  have drop_n: "drop n ks = sep # drop (n + 1) ks"
    using n by (simp add: sep_def Cons_nth_drop_Suc)
  have fit: "fits ?L" "fits ?R"
    using sums by (simp_all add: fits_def encodedSize_def fit_simps take_map drop_map drop_n)
  have short: "short_keys (take n ks)" "short_keys (drop (n + 1) ks)" "length sep + 7 \<le> maxEntry"
    using assms(3) n by (auto simp: list_all_iff sep_def dest: in_set_takeD in_set_dropD)
  have "splitInternal (internalNode ks cs) = Inr (?L, ?R, sep)"
    using n by (simp add: splitInternal_def Let_def n_def [symmetric] nth_res_def sep_def)
  note split_eq = this
  have "length (take (n + 1) cs) = Suc (length (take n ks))"
    using children_length [OF assms(5)] n by simp
  from children_append [OF this, of _ hi lo "drop (n + 1) cs" sep "drop (n + 1) ks" kvs] assms(5)
  obtain a b where ab: "kvs = a @ b"
    "children_ok (cbt (st_ReadPage S s) (ids_below (used s)) h) (Some sep) lo (take (n + 1) cs) (take n ks) a"
    "children_ok (cbt (st_ReadPage S s) (ids_below (used s)) h) hi sep (drop (n + 1) cs) (drop (n + 1) ks) b"
    "lo < sep" "below hi sep"
    by (metis append_take_drop_id drop_n)
  have "used s < cap" using assms(2) by simp
  from write_internal [OF assms(1) this short(1) fit(1) ab(2)] obtain lid s1 where
    l: "write_node S s ?L = Inr (lid, s1)" "advances S inv used 1 s s1"
    "cbt (st_ReadPage S s1) (ids_below (used s1)) (Suc h) lo (Some sep) lid a" by blast
  then have s1: "inv s1" "used s1 < cap" using assms(2) by (auto simp: advances_def)
  from write_internal [OF s1 short(2) fit(2) children_mono [OF ab(3) advances_cbt [OF l(2)]]]
  obtain rid s2 where r: "write_node S s1 ?R = Inr (rid, s2)" "advances S inv used 1 s1 s2"
    "cbt (st_ReadPage S s2) (ids_below (used s2)) (Suc h) sep hi rid b" by blast
  have "cbt (st_ReadPage S s2) (ids_below (used s2)) (Suc h) lo (Some sep) lid a"
    using advances_cbt [OF r(2)] l(3) by (auto simp: le_fun_def simp del: cbt.simps)
  from grown_split [OF this r(3) ab(4,5) short(3)]
  have "grown (st_ReadPage S s2) (ids_below (used s2)) (Suc h) lo hi lid
      (Some \<lparr>sp_sep = sep, sp_right = rid\<rparr>) kvs" using ab(1) by simp
  moreover have "writeMaybeSplit S s (internalNode ks cs) =
      Inr (lid, Some \<lparr>sp_sep = sep, sp_right = rid\<rparr>, s2)"
    using False split_eq l(1) r(1) by (simp add: writeMaybeSplit_def)
  moreover have "advances S inv used 2 s s2" using advances_trans [OF l(2) r(2)] by (simp only: one_add_one)
  ultimately show ?thesis by blast
qed

text \<open>
  Insertion: with fuel for the height, it returns one or two subtrees for the updated list, using at
  most two pages on each level.
\<close>

lemma tree_insert_law:
  assumes "inv s" "cbt (st_ReadPage S s) (ids_below (used s)) h lo hi pid kvs" "h < fuel"
    "used s + 2 * (h + 1) \<le> cap"
    "leaf_rep (st_ReadPage S s) (ids_below (used s)) [ve] [(le_key ve, val)]"
    "lo \<le> le_key ve" "below hi (le_key ve)"
  shows "\<exists>pid' sr s'. tree_insert fuel S s pid ve = Inr (pid', sr, s') \<and>
    advances S inv used (2 * (h + 1)) s s' \<and>
    grown (st_ReadPage S s') (ids_below (used s')) h lo hi pid' sr (kv_put (le_key ve) val kvs)"
  using assms(2-4,6,7)
proof (induction h arbitrary: lo hi pid kvs fuel)
  case 0
  then obtain f p es where f: "fuel = Suc f" and p: "st_ReadPage S s pid = Inr p"
    "decodeNode p = Inr (leafNode es)" "fits (leafNode es)"
    and rep: "leaf_rep (st_ReadPage S s) (ids_below (used s)) es kvs"
    and kvs: "sorted_wrt (<) (map fst kvs)" "in_range lo hi kvs" by (cases fuel) auto
  obtain i found where srch: "leafSearch (leafNode es) (le_key ve) = (i, found)"
    by (cases "leafSearch (leafNode es) (le_key ve)")
  let ?es = "take i es @ [ve] @ drop (if found then i + 1 else i) es"
  note put = leaf_rep_put [OF rep kvs(1) srch refl assms(5)]
  have "le_size ve \<le> maxEntry" using assms(5) by (simp add: leaf_rep_def)
  then have "sum_list (map le_size ?es) \<le> 4062 + maxEntry"
    using put p(3) by (simp add: fits_def encodedSize_def fit_simps)
  from writeMaybeSplit_leaf [OF assms(1) _ conjunct1 [OF put] this sorted_kv_put [OF kvs(1)]
      in_range_kv_put [OF kvs(2) 0(4,5)]] 0(3) f p srch
  show ?case by (simp add: Let_def)
next
  case (Suc h)
  let ?P = "\<lambda>s. cbt (st_ReadPage S s) (ids_below (used s)) h"
  obtain f where f: "fuel = Suc f" "h < f" using Suc.prems(2) by (cases fuel) auto
  from Suc.prems(1,4,5) obtain p ks cs a b d lo' hi' where
    pid: "pid \<noteq> InvalidPageID" "pid \<in> ids_below (used s)"
    and p: "st_ReadPage S s pid = Inr p" "decodeNode p = Inr (internalNode ks cs)"
      "fits (internalNode ks cs)" "short_keys ks" "childIndex (internalNode ks cs) (le_key ve) < length cs"
    and z: "kvs = a @ b @ d" "?P s lo' hi' (cs ! childIndex (internalNode ks cs) (le_key ve)) b"
      "lo' \<le> le_key ve" "below hi' (le_key ve)" "\<forall>x\<in>set a. fst x < le_key ve" "\<forall>x\<in>set d. le_key ve < fst x"
    and hole: "hole (?P s) hi lo cs ks (childIndex (internalNode ks cs) (le_key ve)) a d lo' hi'"
    by (rule cbt_descend)
  define ci where "ci = childIndex (internalNode ks cs) (le_key ve)"
  note z = z [folded ci_def] and hole = hole [folded ci_def]
  have "used s + 2 * (h + 1) \<le> cap" using Suc.prems(3) by simp
  from Suc.IH [OF z(2) f(2) this z(3,4)] obtain c' sr s1 where
    ins: "tree_insert f S s (cs ! ci) ve = Inr (c', sr, s1)" "advances S inv used (2 * (h + 1)) s s1"
      "grown (st_ReadPage S s1) (ids_below (used s1)) h lo' hi' c' sr (kv_put (le_key ve) val b)"
    by blast
  let ?ks = "case sr of None \<Rightarrow> ks | Some sp \<Rightarrow> insertKeyAt ks ci (sp_sep sp)"
  let ?cs = "case sr of None \<Rightarrow> cs[ci := c']
    | Some sp \<Rightarrow> insertChildAt (cs[ci := c']) (ci + 1) (sp_right sp)"
  have kvs: "kv_put (le_key ve) val kvs = a @ kv_put (le_key ve) val b @ d"
    unfolding z(1) by (rule kv_put_middle [OF z(5,6)])
  have new: "children_ok (?P s1) hi lo ?cs ?ks (kv_put (le_key ve) val kvs)"
    using hole ins(3) advances_cbt [OF ins(2), of h] unfolding kvs grown_def hole_def
    by (fastforce split: option.splits)
  have room: "used s1 + 2 \<le> cap" "inv s1"
    using ins(2) Suc.prems(3) by (auto simp: advances_def)
  have short: "short_keys ?ks"
    using p(4) ins(3) by (auto simp: grown_def insertKeyAt_def list_all_iff split: option.splits
        dest: in_set_takeD in_set_dropD)
  have sum: "sum_list (map (\<lambda>k. 2 + length k + 8) ?ks) \<le> 4054 + (maxEntry + 3)"
    using p(3) ins(3) sum_list_take_drop [of "map (\<lambda>k. 2 + length k + 8) ks" ci]
    by (auto simp: grown_def insertKeyAt_def fits_def encodedSize_def fit_simps take_map drop_map
        split: option.splits)
  from writeMaybeSplit_internal [OF room(2,1) short sum new] obtain pid' sr' s2 where
    w: "writeMaybeSplit S s1 (internalNode ?ks ?cs) = Inr (pid', sr', s2)"
      "advances S inv used 2 s1 s2"
      "grown (st_ReadPage S s2) (ids_below (used s2)) (Suc h) lo hi pid' sr'
        (kv_put (le_key ve) val kvs)" by blast
  have "tree_insert fuel S s pid ve = writeMaybeSplit S s1 (internalNode ?ks ?cs)"
    using f p ins(1) by (simp add: ci_def [symmetric] nth_res_def Let_def split: option.split)
  moreover have "advances S inv used (2 * (Suc h + 1)) s s2"
    using advances_trans [OF ins(2) w(2)] by simp
  ultimately show ?case using w(1,3) by auto
qed

text \<open>Deletion never splits, and writes nothing when the key is missing.\<close>

lemma tree_delete_law:
  assumes "inv s" "cbt (st_ReadPage S s) (ids_below (used s)) h lo hi pid kvs" "h < fuel"
    "used s + (h + 1) \<le> cap" "lo \<le> key" "below hi key"
  shows "\<exists>pid' s'. tree_delete fuel S s pid key = Inr (pid', s') \<and>
    advances S inv used (h + 1) s s' \<and>
    cbt (st_ReadPage S s') (ids_below (used s')) h lo hi pid' (kv_del key kvs)"
  using assms(2-6)
proof (induction h arbitrary: lo hi pid kvs fuel)
  case 0
  then obtain f p es where f: "fuel = Suc f" and p: "st_ReadPage S s pid = Inr p"
    "decodeNode p = Inr (leafNode es)" "fits (leafNode es)"
    and rep: "leaf_rep (st_ReadPage S s) (ids_below (used s)) es kvs"
    and kvs: "sorted_wrt (<) (map fst kvs)" "in_range lo hi kvs" by (cases fuel) auto
  obtain i found where srch: "leafSearch (leafNode es) key = (i, found)"
    by (cases "leafSearch (leafNode es) key")
  note del = leaf_rep_del [OF rep kvs(1) srch]
  show ?case
  proof (cases found)
    case True
    have "used s < cap" using 0(3) by simp
    have "fits (leafNode (take i es @ drop (i + 1) es))"
      using del True p(3) by (simp add: fits_def encodedSize_def)
    from write_leaf [OF assms(1) \<open>used s < cap\<close> _ this sorted_kv_del [OF kvs(1)]
        in_range_kv_del [OF kvs(2)]] del True f p srch
    show ?thesis by (simp del: cbt.simps)
  next
    case False
    with del f p srch 0(1) assms(1) show ?thesis by (simp add: advances_def del: cbt.simps)
  qed
next
  case (Suc h)
  let ?P = "\<lambda>s. cbt (st_ReadPage S s) (ids_below (used s)) h"
  obtain f where f: "fuel = Suc f" "h < f" using Suc.prems(2) by (cases fuel) auto
  from Suc.prems(1,4,5) obtain p ks cs a b d lo' hi' where
    pid: "pid \<noteq> InvalidPageID" "pid \<in> ids_below (used s)"
    and p: "st_ReadPage S s pid = Inr p" "decodeNode p = Inr (internalNode ks cs)"
      "fits (internalNode ks cs)" "short_keys ks" "childIndex (internalNode ks cs) key < length cs"
    and z: "kvs = a @ b @ d" "?P s lo' hi' (cs ! childIndex (internalNode ks cs) key) b"
      "lo' \<le> key" "below hi' key" "\<forall>x\<in>set a. fst x < key" "\<forall>x\<in>set d. key < fst x"
    and hole: "hole (?P s) hi lo cs ks (childIndex (internalNode ks cs) key) a d lo' hi'"
    by (rule cbt_descend)
  define ci where "ci = childIndex (internalNode ks cs) key"
  note z = z [folded ci_def] and hole = hole [folded ci_def]
  have "used s + (h + 1) \<le> cap" using Suc.prems(3) by simp
  from Suc.IH [OF z(2) f(2) this z(3,4)] obtain c' s1 where
    del: "tree_delete f S s (cs ! ci) key = Inr (c', s1)" "advances S inv used (h + 1) s s1"
      "?P s1 lo' hi' c' (kv_del key b)" by blast
  have "kv_del key kvs = a @ kv_del key b @ d"
    unfolding z(1) by (rule kv_del_middle [OF z(5,6)])
  then have new: "children_ok (?P s1) hi lo (cs[ci := c']) ks (kv_del key kvs)"
    using hole del(3) advances_cbt [OF del(2), of h] unfolding hole_def by simp
  have room: "used s1 < cap" "inv s1" using del(2) Suc.prems(3) by (auto simp: advances_def)
  have step: "tree_delete fuel S s pid key =
      (if c' = cs ! ci then Inr (pid, s1) else write_node S s1 (internalNode ks (cs[ci := c'])))"
    using f p del(1) by (simp add: ci_def [symmetric] nth_res_def Let_def)
  show ?case
  proof (cases "c' = cs ! ci")
    case True
    have "st_ReadPage S s1 pid = Inr p" "unat pid < used s1"
      using del(2) pid(2) p(1) by (auto simp: advances_def dest: keeps_readsD)
    with p pid True new have "cbt (st_ReadPage S s1) (ids_below (used s1)) (Suc h) lo hi pid (kv_del key kvs)"
      by (auto simp: list_update_id)
    with step True advances_mono [OF del(2)] show ?thesis by (auto simp del: cbt.simps)
  next
    case False
    have "fits (internalNode ks (cs[ci := c']))" using p(3) by (simp add: fits_def encodedSize_def)
    from write_internal [OF room(2,1) p(4) this new] obtain pid' s2 where
      w: "write_node S s1 (internalNode ks (cs[ci := c'])) = Inr (pid', s2)"
        "advances S inv used 1 s1 s2"
        "cbt (st_ReadPage S s2) (ids_below (used s2)) (Suc h) lo hi pid' (kv_del key kvs)" by blast
    with step False advances_trans [OF del(2) w(2)] show ?thesis by (auto simp del: cbt.simps)
  qed
qed

end

section \<open>Trees as sorted lists\<close>

text \<open>
  \<open>holds S used t h kvs\<close>: the tree \<open>t\<close> has height \<open>h\<close> and holds \<open>kvs\<close>. \<open>short_entry key val\<close>: the
  entry made for the key and the value takes at most \<open>maxEntry\<close> bytes of a leaf.
\<close>

definition holds ::
  "'s page_store \<Rightarrow> ('s \<Rightarrow> nat) \<Rightarrow> 's cow_tree \<Rightarrow> nat \<Rightarrow> (bytes \<times> bytes) list \<Rightarrow> bool" where
  "holds S used t h kvs \<longleftrightarrow>
     (if tr_root t = InvalidPageID then kvs = []
      else cbt (st_ReadPage S (tr_store t)) (ids_below (used (tr_store t))) h [] None (tr_root t) kvs)"

definition short_entry :: "bytes \<Rightarrow> bytes \<Rightarrow> bool" where
  "short_entry key val \<longleftrightarrow>
     length key + 7 + (if length val \<le> maxInline then length val else 12) \<le> maxEntry"

lemma holds_tree_of:
  assumes "holds S used t h kvs"
  shows "tree_of (st_ReadPage S (tr_store t)) (ids_below (used (tr_store t))) h (tr_root t) kvs"
proof (cases "tr_root t = InvalidPageID")
  case True
  with assms show ?thesis by (simp add: holds_def tree_of_def)
next
  case False
  with assms have c: "cbt (st_ReadPage S (tr_store t)) (ids_below (used (tr_store t))) h [] None
      (tr_root t) kvs" by (simp add: holds_def)
  with False cbt_bt [OF c] rangedD [OF cbt_ranged c] show ?thesis by (simp add: tree_of_def)
qed

lemma holds_Get:
  "holds S used t h kvs \<Longrightarrow> enough_fuel n h kvs \<Longrightarrow> tree_Get n S t k = Inr (map_of kvs k)"
  unfolding tree_Get_def by (rule btree_Get_correct [OF holds_tree_of])

lemma makeLeafEntry_size:
  "makeLeafEntry S s key val = Inr (e, s') \<Longrightarrow> short_entry key val \<Longrightarrow> le_size e \<le> maxEntry"
  by (auto simp: makeLeafEntry_def short_entry_def le_size_def bindE_Inr_iff split: if_splits prod.splits)

context page_store_laws
begin

lemma NewEmpty_holds: "holds S used (tree_NewEmpty s) h []"
  by (simp add: holds_def tree_NewEmpty_def)

text \<open>Everything a captured root reaches stays as it was.\<close>

lemma holds_keep:
  assumes "holds S used t h kvs" "advances S inv used k (tr_store t) s'"
  shows "holds S used (tree_Load s' (tr_root t)) h kvs"
  using assms(1) advances_cbt [OF assms(2), of h]
  by (auto simp: holds_def tree_Load_def le_fun_def)

text \<open>The last step of an insertion: a root that was split gets a node above it.\<close>

lemma grow_root:
  assumes "inv s" "used s < cap"
    "grown (st_ReadPage S s) (ids_below (used s)) h [] None pid sr kvs"
  shows "\<exists>t' h'. (case sr of
      Some sp \<Rightarrow> bindE (write_node S s (internalNode [sp_sep sp] [pid, sp_right sp]))
        (\<lambda>(pid, s). Inr \<lparr>tr_store = s, tr_root = pid\<rparr>)
    | None \<Rightarrow> Inr \<lparr>tr_store = s, tr_root = pid\<rparr>) = Inr t' \<and> h' \<le> h + 1 \<and>
    advances S inv used 1 s (tr_store t') \<and> holds S used t' h' kvs"
proof (cases sr)
  case None
  with assms(3) have c: "cbt (st_ReadPage S s) (ids_below (used s)) h [] None pid kvs"
    by (simp add: grown_def)
  then have "pid \<noteq> InvalidPageID" by (cases h) auto
  with None c assms(1) show ?thesis
    by (intro exI [of _ "\<lparr>tr_store = s, tr_root = pid\<rparr>"] exI [of _ h])
      (simp add: holds_def advances_def del: cbt.simps)
next
  case (Some sp)
  let ?n = "internalNode [sp_sep sp] [pid, sp_right sp]"
  from Some assms(3) have ch: "children_ok (cbt (st_ReadPage S s) (ids_below (used s)) h) None []
      [pid, sp_right sp] [sp_sep sp] kvs" and short: "short_keys [sp_sep sp]"
    by (auto simp: grown_def children_ok_next)
  have "fits ?n" using short by (simp add: fits_def encodedSize_def fit_simps maxEntry_def)
  from write_internal [OF assms(1,2) short this ch] obtain pid' s' where
    w: "write_node S s ?n = Inr (pid', s')" "advances S inv used 1 s s'"
      "cbt (st_ReadPage S s') (ids_below (used s')) (Suc h) [] None pid' kvs" by blast
  then have "pid' \<noteq> InvalidPageID" by simp
  with Some w show ?thesis
    by (intro exI [of _ "\<lparr>tr_store = s', tr_root = pid'\<rparr>"] exI [of _ "Suc h"])
      (simp add: holds_def del: cbt.simps)
qed

text \<open>The entry is made, whatever it is put into.\<close>

lemma makeLeafEntry_rep:
  assumes "inv (tr_store t)" "short_entry key val" "used (tr_store t) + length val + 4 \<le> cap"
  obtains ve s1 where "makeLeafEntry S (tr_store t) key val = Inr (ve, s1)" "le_key ve = key"
    "advances S inv used (length val + 1) (tr_store t) s1"
    "leaf_rep (st_ReadPage S s1) (ids_below (used s1)) [ve] [(le_key ve, val)]"
proof -
  have len: "used (tr_store t) + length val < cap" "length key < 2 ^ 16"
    using assms(2,3) by (auto simp: short_entry_def maxEntry_def)
  from makeLeafEntry_law [OF assms(1) len] obtain ve s1 where
    ve: "makeLeafEntry S (tr_store t) key val = Inr (ve, s1)" "le_key ve = key" "entry_wf ve"
      "entry_value (st_ReadPage S s1) (ids_below (used s1)) ve val"
    and adv1: "advances S inv used (length val + 1) (tr_store t) s1"
    unfolding advances_def by auto
  have "leaf_rep (st_ReadPage S s1) (ids_below (used s1)) [ve] [(le_key ve, val)]"
    using ve(3,4) makeLeafEntry_size [OF ve(1) assms(2)] by (simp add: leaf_rep_def)
  with ve adv1 that show thesis by blast
qed

text \<open>The first entry of an empty tree makes a leaf.\<close>

lemma tree_Insert_first:
  assumes "inv (tr_store t)" "tr_root t = InvalidPageID" "short_entry key val" "used (tr_store t) + length val + 4 \<le> cap"
  shows "\<exists>t'. tree_Insert fuel S t key val = Inr t' \<and>
    advances S inv used (length val + 4) (tr_store t) (tr_store t') \<and> holds S used t' 0 [(key, val)]"
proof -
  from makeLeafEntry_rep [OF assms(1,3,4)] obtain ve s1 where
    ve: "makeLeafEntry S (tr_store t) key val = Inr (ve, s1)" "le_key ve = key"
    and adv1: "advances S inv used (length val + 1) (tr_store t) s1"
    and rep: "leaf_rep (st_ReadPage S s1) (ids_below (used s1)) [ve] [(le_key ve, val)]" .
  have fit: "inv s1" "fits (leafNode [ve])" "used s1 < cap"
    using rep adv1 assms(4) by (auto simp: leaf_rep_def fits_def encodedSize_def fit_simps maxEntry_def advances_def)
  from write_leaf [OF fit(1,3) rep fit(2), of "[]" None] obtain pid s2 where
    w: "write_node S s1 (leafNode [ve]) = Inr (pid, s2)" "advances S inv used 1 s1 s2"
      "cbt (st_ReadPage S s2) (ids_below (used s2)) 0 [] None pid [(key, val)]"
    using ve(2) by (auto simp: in_range_def)
  with assms(2) ve(1) advances_trans [OF adv1 w(2)] show ?thesis
    by (intro exI [of _ "\<lparr>tr_store = s2, tr_root = pid\<rparr>"])
      (auto simp: tree_Insert_def holds_def elim: advances_mono)
qed

lemma tree_Insert_law:
  assumes "inv (tr_store t)" "holds S used t h kvs" "h < fuel" "short_entry key val"
    "used (tr_store t) + length val + 2 * h + 4 \<le> cap"
  shows "\<exists>t' h'. tree_Insert fuel S t key val = Inr t' \<and> h' \<le> h + 1 \<and>
    advances S inv used (length val + 2 * h + 4) (tr_store t) (tr_store t') \<and>
    holds S used t' h' (kv_put key val kvs)"
proof -
  have fit: "used (tr_store t) + length val + 4 \<le> cap" using assms(5) by simp
  from makeLeafEntry_rep [OF assms(1,4) fit] obtain ve s1 where
    ve: "makeLeafEntry S (tr_store t) key val = Inr (ve, s1)" "le_key ve = key"
    and adv1: "advances S inv used (length val + 1) (tr_store t) s1"
    and rep: "leaf_rep (st_ReadPage S s1) (ids_below (used s1)) [ve] [(le_key ve, val)]" .
  have room: "inv s1" "used s1 + 2 * h + 3 \<le> cap" using adv1 assms(5) by (auto simp: advances_def)
  show ?thesis
  proof (cases "tr_root t = InvalidPageID")
    case True
    then have "kvs = []" using assms(2) by (simp add: holds_def)
    moreover from tree_Insert_first [OF assms(1) True assms(4) fit] obtain t' where
      "tree_Insert fuel S t key val = Inr t'" "advances S inv used (length val + 4) (tr_store t) (tr_store t')"
      "holds S used t' 0 [(key, val)]" by blast
    ultimately show ?thesis by (intro exI [of _ t'] exI [of _ 0]) (auto simp: kv_put_def elim: advances_mono)
  next
    case False
    let ?kvs = "kv_put key val kvs"
    have tree: "cbt (st_ReadPage S s1) (ids_below (used s1)) h [] None (tr_root t) kvs"
      using holds_keep [OF assms(2) adv1] False by (simp add: holds_def tree_Load_def)
    from tree_insert_law [OF room(1) tree assms(3) _ rep] room(2) ve(2) obtain pid sr s2 where
      ins: "tree_insert fuel S s1 (tr_root t) ve = Inr (pid, sr, s2)"
        "advances S inv used (2 * (h + 1)) s1 s2"
        "grown (st_ReadPage S s2) (ids_below (used s2)) h [] None pid sr ?kvs" by auto
    note adv2 = advances_trans [OF adv1 ins(2)]
    have s2: "inv s2" "used s2 < cap" using ins(2) room(2) by (auto simp: advances_def)
    from grow_root [OF s2 ins(3)] obtain t' h' where
      g: "(case sr of
          Some sp \<Rightarrow> bindE (write_node S s2 (internalNode [sp_sep sp] [pid, sp_right sp]))
            (\<lambda>(pid, s). Inr \<lparr>tr_store = s, tr_root = pid\<rparr>)
        | None \<Rightarrow> Inr \<lparr>tr_store = s2, tr_root = pid\<rparr>) = Inr t'"
        "h' \<le> h + 1" "advances S inv used 1 s2 (tr_store t')" "holds S used t' h' ?kvs" by blast
    have "tree_Insert fuel S t key val = Inr t'"
      using False ve(1) ins(1) g(1) by (simp add: tree_Insert_def)
    moreover note advances_mono [OF advances_trans [OF adv2 g(3)], of "length val + 2 * h + 4"]
    ultimately show ?thesis using g by auto
  qed
qed

lemma tree_Delete_law:
  assumes "inv (tr_store t)" "holds S used t h kvs" "h < fuel" "used (tr_store t) + h + 1 \<le> cap"
  shows "\<exists>t'. tree_Delete fuel S t key = Inr t' \<and>
    advances S inv used (h + 1) (tr_store t) (tr_store t') \<and> holds S used t' h (kv_del key kvs)"
proof (cases "tr_root t = InvalidPageID")
  case True
  with assms(1,2) show ?thesis
    by (auto simp: tree_Delete_def holds_def kv_del_def advances_def)
next
  case False
  with assms(2) have c: "cbt (st_ReadPage S (tr_store t)) (ids_below (used (tr_store t))) h [] None
      (tr_root t) kvs" by (simp add: holds_def)
  from tree_delete_law [OF assms(1) c assms(3), of key] assms(4) obtain pid s' where
    d: "tree_delete fuel S (tr_store t) (tr_root t) key = Inr (pid, s')"
      "advances S inv used (h + 1) (tr_store t) s'"
      "cbt (st_ReadPage S s') (ids_below (used s')) h [] None pid (kv_del key kvs)" by auto
  then have "pid \<noteq> InvalidPageID" by (cases h) auto
  with d False show ?thesis
    by (intro exI [of _ "\<lparr>tr_store = s', tr_root = pid\<rparr>"])
      (simp add: tree_Delete_def holds_def del: cbt.simps)
qed

end

section \<open>Properties\<close>

text \<open>The instances below start from a store with no page but the meta page.\<close>

definition fresh_manager :: manager where
  "fresh_manager = \<lparr>mgr_f = [], mgr_numPages = 1\<rparr>"

lemma fresh_manager_facts: "mgr_inv fresh_manager" "mgr_numPages fresh_manager = 1"
  by (simp_all add: fresh_manager_def mgr_inv_def mgr_cap_def)

abbreviation pages_used :: "manager \<Rightarrow> nat" where
  "pages_used m \<equiv> unat (mgr_numPages m)"

text \<open>
  The trees of the witnesses: keys of 100 bytes, inserted one after the other. A single leaf has no
  room for 40 of them, so that one of the insertions splits it.
\<close>

definition split_entry :: "nat \<Rightarrow> bytes \<times> bytes" where
  "split_entry i = (word_of_nat i # replicate 99 0, [word_of_nat i])"

definition split_entries :: "nat \<Rightarrow> (bytes \<times> bytes) list" where
  "split_entries n = map split_entry [0..<n]"

lemma split_entries_put:
  assumes "n < 256"
  shows "kv_put (fst (split_entry n)) (snd (split_entry n)) (split_entries n) = split_entries (Suc n)"
proof -
  have less: "fst (split_entry i) < fst (split_entry n)" if "i < n" for i
    using that assms by (simp add: split_entry_def word_less_nat_alt unat_of_nat)
  have "filter (\<lambda>x. fst x < fst (split_entry n)) (split_entries n) = split_entries n"
    using less by (auto simp: split_entries_def filter_id_conv)
  moreover have "filter (\<lambda>x. fst (split_entry n) < fst x) (split_entries n) = []"
    using less by (force simp: split_entries_def filter_empty_conv dest: less_asym)
  ultimately show ?thesis by (simp add: kv_put_def split_entries_def)
qed

lemma split_entry_short: "short_entry (fst (split_entry n)) (snd (split_entry n))"
  by (simp add: split_entry_def short_entry_def maxInline_def maxEntry_def)

lemma leaf_no_room:
  assumes "leaf_rep rd D es (split_entries 40)"
  shows "\<not> fits (leafNode es)"
proof -
  have "list_all2 (\<lambda>e kv. le_key e = fst kv) es (split_entries 40)"
    using assms unfolding leaf_rep_def by (auto elim!: list_all2_mono)
  then have len: "length es = 40" and keys: "\<forall>i<40. le_key (es ! i) = fst (split_entry i)"
    by (auto simp: list_all2_conv_all_nth split_entries_def)
  have "107 \<le> le_size e" if "e \<in> set es" for e
  proof -
    from that len keys obtain i where "le_key e = fst (split_entry i)" by (metis in_set_conv_nth)
    then have "length (le_key e) = 100" by (simp add: split_entry_def)
    then show ?thesis by (simp add: le_size_def)
  qed
  then have "length es * 107 \<le> sum_list (map le_size es)"
    using sum_list_mono [of es "\<lambda>_. 107" le_size] by (simp add: sum_list_triv)
  with len show ?thesis by (simp add: fits_def encodedSize_def fit_simps)
qed

definition split_leaf :: "nat \<Rightarrow> manager cow_tree \<Rightarrow> bool" where
  "split_leaf n t \<longleftrightarrow> mgr_inv (tr_store t) \<and> holds mgr_store pages_used t 0 (split_entries n) \<and>
     pages_used (tr_store t) \<le> 1 + 5 * n"

lemma split_leaf_full: "\<not> split_leaf 40 t"
proof
  assume "split_leaf 40 t"
  then have "holds mgr_store pages_used t 0 (split_entries 40)" by (simp add: split_leaf_def)
  moreover have "split_entries 40 \<noteq> []" by (simp add: split_entries_def)
  ultimately obtain rd D es where "fits (leafNode es)" "leaf_rep rd D es (split_entries 40)"
    by (auto simp: holds_def split: if_splits)
  with leaf_no_room show False by blast
qed

lemma split_leaf_first: "\<exists>t. split_leaf 1 t"
proof -
  have "mgr_inv (tr_store (tree_NewEmpty fresh_manager))" "tr_root (tree_NewEmpty fresh_manager) = InvalidPageID"
    "pages_used (tr_store (tree_NewEmpty fresh_manager)) + length (snd (split_entry 0)) + 4 \<le> mgr_cap"
    by (simp_all add: tree_NewEmpty_def fresh_manager_facts mgr_cap_def split_entry_def)
  from mgr.tree_Insert_first [OF this(1,2) split_entry_short [of 0] this(3)] obtain t' where
    "advances mgr_store mgr_inv pages_used 5 fresh_manager (tr_store t')" "holds mgr_store pages_used t' 0 [split_entry 0]"
    by (auto simp: tree_NewEmpty_def split_entry_def)
  then have "split_leaf 1 t'"
    by (simp add: split_leaf_def advances_def fresh_manager_facts split_entries_def)
  then show ?thesis ..
qed

text \<open>An insertion under which a leaf of many entries becomes an internal node over two leaves.\<close>

lemma sample_split:
  obtains m t t' where "1 \<le> m" "m < 40" "split_leaf m t"
    "tree_Insert 1 mgr_store t (fst (split_entry m)) (snd (split_entry m)) = Inr t'" "mgr_inv (tr_store t')"
    "holds mgr_store pages_used t' 1 (split_entries (Suc m))" "pages_used (tr_store t') \<le> 1 + 5 * Suc m"
proof -
  let ?ins = "\<lambda>m t. tree_Insert 1 mgr_store t (fst (split_entry m)) (snd (split_entry m))"
  let ?split = "\<lambda>m t t'. split_leaf m t \<and> ?ins m t = Inr t' \<and> mgr_inv (tr_store t') \<and>
    holds mgr_store pages_used t' 1 (split_entries (Suc m)) \<and> pages_used (tr_store t') \<le> 1 + 5 * Suc m"
  have step: "(\<exists>t'. ?split m t t') \<or> (\<exists>t'. split_leaf (Suc m) t')" if m: "m < 40" "split_leaf m t" for m t
  proof -
    have len: "length (snd (split_entry m)) = 1" by (simp add: split_entry_def)
    from m have "mgr_inv (tr_store t)" "holds mgr_store pages_used t 0 (split_entries m)"
      "pages_used (tr_store t) + length (snd (split_entry m)) + 2 * 0 + 4 \<le> mgr_cap"
      by (simp_all add: split_leaf_def mgr_cap_def len)
    from mgr.tree_Insert_law [OF this(1,2) _ split_entry_short this(3), of 1] split_entries_put [of m] m(1) obtain t' h' where
      t': "?ins m t = Inr t'" "h' \<le> 1" "advances mgr_store mgr_inv pages_used 5 (tr_store t) (tr_store t')"
        "holds mgr_store pages_used t' h' (split_entries (Suc m))" by (auto simp: len)
    from t'(2) consider "h' = 0" | "h' = 1" by linarith
    then show ?thesis
      by cases (use m(2) t' in \<open>auto simp: advances_def split_leaf_def\<close>)
  qed
  have "\<exists>m t t'. 1 \<le> m \<and> m < 40 \<and> ?split m t t'"
  proof (rule ccontr)
    assume no: "\<not> (\<exists>m t t'. 1 \<le> m \<and> m < 40 \<and> ?split m t t')"
    have "Suc n \<le> 40 \<longrightarrow> (\<exists>t. split_leaf (Suc n) t)" for n
    proof (induction n)
      case 0
      show ?case using split_leaf_first by simp
    next
      case (Suc n)
      show ?case
      proof
        assume lt: "Suc (Suc n) \<le> 40"
        with Suc.IH obtain t where "split_leaf (Suc n) t" by auto
        with step [of "Suc n" t] lt have "(\<exists>t'. ?split (Suc n) t t') \<or> (\<exists>t'. split_leaf (Suc (Suc n)) t')" by simp
        moreover have "\<not> (\<exists>t'. ?split (Suc n) t t')" using no lt by (metis Suc_le_eq le_add1 plus_1_eq_Suc)
        ultimately show "\<exists>t'. split_leaf (Suc (Suc n)) t'" by blast
      qed
    qed
    from this [of 39] split_leaf_full show False by simp
  qed
  with that show thesis by blast
qed

text \<open>
  C12: in trees whose entries, the new one included, take at most \<open>maxEntry\<close>, 112, bytes of a leaf each, an
  insertion over the page manager returns a tree that has the key bound to the value and is otherwise
  the same, of at most one more level, whichever nodes had to be split; and the root it started from
  still gives every lookup its old result. For larger entries a split can fail (\<^verbatim>\<open>Oversize\<close>).
\<close>

theorem tree_Insert_correct:
  assumes "mgr_inv (tr_store t)" "holds mgr_store pages_used t h kvs" "h < fuel" "short_entry key val"
    "pages_used (tr_store t) + length val + 2 * h + 4 \<le> mgr_cap"
  shows "\<exists>t' h'. tree_Insert fuel mgr_store t key val = Inr t' \<and> h' \<le> h + 1 \<and>
    mgr_inv (tr_store t') \<and> holds mgr_store pages_used t' h' (kv_put key val kvs) \<and>
    (\<forall>n k. enough_fuel n h' (kv_put key val kvs) \<longrightarrow>
      tree_Get n mgr_store t' k = Inr (((map_of kvs)(key \<mapsto> val)) k)) \<and>
    (\<forall>n k. enough_fuel n h kvs \<longrightarrow>
      tree_Get n mgr_store (tree_Load (tr_store t') (tree_Root t)) k = Inr (map_of kvs k))"
proof -
  from mgr.tree_Insert_law [OF assms] obtain t' h' where
    t': "tree_Insert fuel mgr_store t key val = Inr t'" "h' \<le> h + 1"
      "advances mgr_store mgr_inv pages_used (length val + 2 * h + 4) (tr_store t) (tr_store t')"
      "holds mgr_store pages_used t' h' (kv_put key val kvs)" by blast
  have "mgr_inv (tr_store t')" using t'(3) by (simp add: advances_def)
  with t'(1,2,4) holds_Get [OF t'(4)] holds_Get [OF mgr.holds_keep [OF assms(2) t'(3)]]
  show ?thesis by (intro exI [of _ t'] exI [of _ h']) (simp add: tree_Root_def map_of_kv_put)
qed

text \<open>An insertion that splits the only leaf of a tree: the height grows from 0 to 1.\<close>

theorem tree_Insert_correct_witness:
  "\<exists>t t' kvs k v. holds mgr_store pages_used t 0 kvs \<and> kvs \<noteq> [] \<and> tree_Insert 1 mgr_store t k v = Inr t' \<and>
     holds mgr_store pages_used t' 1 (kv_put k v kvs) \<and>
     (\<forall>x. tree_Get 9 mgr_store t' x = Inr (((map_of kvs)(k \<mapsto> v)) x)) \<and>
     (\<forall>x. tree_Get 9 mgr_store (tree_Load (tr_store t') (tree_Root t)) x = Inr (map_of kvs x))"
proof -
  from sample_split obtain m t t' where m: "1 \<le> m" "m < 40" "split_leaf m t"
    "tree_Insert 1 mgr_store t (fst (split_entry m)) (snd (split_entry m)) = Inr t'"
    "holds mgr_store pages_used t' 1 (split_entries (Suc m))" by blast
  let ?k = "fst (split_entry m)" and ?v = "snd (split_entry m)" and ?kvs = "split_entries m"
  have t: "mgr_inv (tr_store t)" "holds mgr_store pages_used t 0 ?kvs"
    "pages_used (tr_store t) + length ?v + 2 * 0 + 4 \<le> mgr_cap"
    using m(2,3) by (simp_all add: split_leaf_def mgr_cap_def) (simp add: split_entry_def)
  have fuel: "enough_fuel 9 h ?kvs \<and> enough_fuel 9 h (split_entries (Suc m))" if "h \<le> 1" for h
    using that by (auto simp: enough_fuel_def split_entries_def split_entry_def)
  have put: "kv_put ?k ?v ?kvs = split_entries (Suc m)" using split_entries_put [of m] m(2) by simp
  from tree_Insert_correct [OF t(1,2) _ split_entry_short t(3), of 1] m(4) put fuel have
    "\<forall>x. tree_Get 9 mgr_store t' x = Inr (((map_of ?kvs)(?k \<mapsto> ?v)) x)"
    "\<forall>x. tree_Get 9 mgr_store (tree_Load (tr_store t') (tree_Root t)) x = Inr (map_of ?kvs x)" by auto
  moreover have "?kvs \<noteq> []" using m(1) by (simp add: split_entries_def)
  ultimately show ?thesis using t(2) m(4,5) put by (intro exI conjI) (assumption | simp)+
qed

text \<open>
  C13: in a tree whose entries take at most 112 bytes of a leaf each, a deletion returns a tree without
  the key and otherwise the same, of the same height, also when the key was never there; and the root
  it started from still gives every lookup its old result.
\<close>

theorem tree_Delete_correct:
  assumes "mgr_inv (tr_store t)" "holds mgr_store pages_used t h kvs" "h < fuel"
    "pages_used (tr_store t) + h + 1 \<le> mgr_cap"
  shows "\<exists>t'. tree_Delete fuel mgr_store t key = Inr t' \<and>
    mgr_inv (tr_store t') \<and> holds mgr_store pages_used t' h (kv_del key kvs) \<and>
    (\<forall>n k. enough_fuel n h kvs \<longrightarrow>
      tree_Get n mgr_store t' k = Inr (((map_of kvs)(key := None)) k) \<and>
      tree_Get n mgr_store (tree_Load (tr_store t') (tree_Root t)) k = Inr (map_of kvs k))"
proof -
  from mgr.tree_Delete_law [OF assms] obtain t' where
    t': "tree_Delete fuel mgr_store t key = Inr t'"
      "advances mgr_store mgr_inv pages_used (h + 1) (tr_store t) (tr_store t')"
      "holds mgr_store pages_used t' h (kv_del key kvs)" by blast
  have "mgr_inv (tr_store t')" using t'(2) by (simp add: advances_def)
  moreover have "enough_fuel n h kvs \<Longrightarrow> enough_fuel n h (kv_del key kvs)" for n
    by (simp add: enough_fuel_def kv_del_def)
  ultimately show ?thesis
    using t'(1,3) holds_Get [OF t'(3)] holds_Get [OF mgr.holds_keep [OF assms(2) t'(2)]]
    by (intro exI [of _ t']) (simp add: tree_Root_def map_of_kv_del)
qed

text \<open>A key that is there is removed from a tree of two leaves; the others stay.\<close>

theorem tree_Delete_correct_witness:
  "\<exists>t t' kvs k. holds mgr_store pages_used t 1 kvs \<and> 1 < length kvs \<and> map_of kvs k \<noteq> None \<and>
     tree_Delete 2 mgr_store t k = Inr t' \<and> tree_Get 9 mgr_store t' k = Inr None \<and>
     (\<forall>x. x \<noteq> k \<longrightarrow> tree_Get 9 mgr_store t' x = Inr (map_of kvs x)) \<and>
     (\<forall>x. tree_Get 9 mgr_store (tree_Load (tr_store t') (tree_Root t)) x = Inr (map_of kvs x))"
proof -
  from sample_split obtain m t where m: "1 \<le> m" "m < 40" and t: "mgr_inv (tr_store t)"
    "holds mgr_store pages_used t 1 (split_entries (Suc m))" "pages_used (tr_store t) \<le> 1 + 5 * Suc m" by blast
  let ?kvs = "split_entries (Suc m)" and ?k = "fst (split_entry 0)"
  have room: "pages_used (tr_store t) + 1 + 1 \<le> mgr_cap" using m(2) t(3) by (simp add: mgr_cap_def)
  have fuel: "enough_fuel 9 1 ?kvs" by (auto simp: enough_fuel_def split_entries_def split_entry_def)
  have "split_entry 0 \<in> set ?kvs" by (simp add: split_entries_def set_map del: upt_Suc)
  then have "map_of ?kvs ?k \<noteq> None" by (metis map_of_eq_None_iff fst_conv image_eqI surj_pair)
  moreover have "1 < length ?kvs" using m(1) by (simp add: split_entries_def)
  moreover from tree_Delete_correct [OF t(1,2) _ room, of 2 ?k] fuel obtain t' where
    "tree_Delete 2 mgr_store t ?k = Inr t'"
    "\<forall>x. tree_Get 9 mgr_store t' x = Inr (((map_of ?kvs)(?k := None)) x)"
    "\<forall>x. tree_Get 9 mgr_store (tree_Load (tr_store t') (tree_Root t)) x = Inr (map_of ?kvs x)" by auto
  ultimately show ?thesis using t(2)
    by (intro exI [of _ t] exI [of _ t'] exI [of _ ?kvs] exI [of _ ?k]) simp
qed

end
