(* ===== verification/Oversize.thy ===== *)
theory Oversize
  imports TreeWrite
begin

text \<open>
  What the copy-on-write tree does with a node that does not fit a page. \<^verbatim>\<open>encodeTo\<close> cuts the
  encoding off at the end of the body and \<^verbatim>\<open>WritePage\<close> accepts the page, but no such leaf can be
  decoded. \<^verbatim>\<open>splitLeaf\<close> halves a leaf by the number of its entries, so a leaf with small entries
  on one side and large ones on the other gets such a half, and an insertion that returns no error
  makes the entries of that half unreadable.
\<close>

section \<open>Truncated encodings\<close>

lemma decodeEntry_short_key:
  assumes "length key < 2 ^ 16"
  shows "n < 2 + length key + 1 \<Longrightarrow>
    \<exists>err. decodeEntry (pre @ take n (put16 (word_of_nat (length key)) @ key @ flag # rest)) (length pre) = Inl err"
proof (cases "n < 2")
  case True
  then show ?thesis by (simp add: decodeEntry_def)
next
  case False
  assume "n < 2 + length key + 1"
  moreover have "take n (put16 (word_of_nat (length key)) @ key @ flag # rest) =
      put16 (word_of_nat (length key)) @ take (n - 2) (key @ flag # rest)"
    using False by simp
  ultimately show ?thesis
    using assms by (simp add: decodeEntry_def Let_def byte_simps)
qed

lemma decodeEntry_truncated:
  assumes "entry_wf e" "n < le_size e"
  shows "\<exists>err. decodeEntry (pre @ take n (encodeEntry e)) (length pre) = Inl err"
proof (cases "n < 2 + length (le_key e) + 1")
  case True
  with decodeEntry_short_key [of "le_key e" n pre] assms(1) show ?thesis
    by (simp add: entry_wf_def encodeEntry_def)
next
  case False
  let ?k = "le_key e" and ?m = "n - (2 + length (le_key e) + 1)"
  have k: "length ?k < 2 ^ 16" using assms(1) by (simp add: entry_wf_def)
  have tk: "take n (put16 (word_of_nat (length ?k)) @ ?k @ fl # rest) =
      put16 (word_of_nat (length ?k)) @ ?k @ fl # take ?m rest" for fl rest
    using False by (simp add: take_Cons')
  show ?thesis
  proof (cases "le_isOverflow e")
    case True
    with assms(2) False k tk show ?thesis
      by (simp add: encodeEntry_def le_size_def decodeEntry_def Let_def byte_simps nth_append
          flagOverflow_def)
  next
    case inline: False
    show ?thesis
    proof (cases "?m < 4")
      case True
      with inline assms(2) False k tk show ?thesis
        by (simp add: encodeEntry_def le_size_def decodeEntry_def Let_def byte_simps nth_append
            flagOverflow_def flagInline_def)
    next
      case m: False
      have v: "length (le_inline e) < 2 ^ 32" using assms(1) inline by (simp add: entry_wf_def)
      have "take ?m (put32 (word_of_nat (length (le_inline e))) @ le_inline e) =
          put32 (word_of_nat (length (le_inline e))) @ take (?m - 4) (le_inline e)"
        using m by simp
      with inline assms(2) False k tk v m show ?thesis
        by (simp add: encodeEntry_def le_size_def decodeEntry_def Let_def byte_simps nth_append
            flagOverflow_def flagInline_def)
    qed
  qed
qed

lemma decodeEntries_truncated:
  assumes "list_all entry_wf es" "n < sum_list (map le_size es)"
  shows "\<exists>err. decodeEntries (length es) (pre @ take n (concat (map encodeEntry es))) (length pre) = Inl err"
  using assms
proof (induction es arbitrary: pre n)
  case Nil
  then show ?case by simp
next
  case (Cons e es)
  show ?case
  proof (cases "n < le_size e")
    case True
    with Cons.prems(1) decodeEntry_truncated [of e n pre] show ?thesis by auto
  next
    case False
    then have "take n (concat (map encodeEntry (e # es))) =
        encodeEntry e @ take (n - le_size e) (concat (map encodeEntry es))" by simp
    moreover have "\<exists>err. decodeEntries (length es) ((pre @ encodeEntry e) @
        take (n - le_size e) (concat (map encodeEntry es))) (length (pre @ encodeEntry e)) = Inl err"
      using Cons.prems False by (intro Cons.IH) auto
    ultimately show ?thesis
      using Cons.prems(1) decodeEntry_encode [of e "length pre" pre]
      by auto
  qed
qed

text \<open>A leaf that is too large is encoded, but the finalized page is no page of a tree.\<close>

lemma page_Payload_overfull:
  assumes "page_wf p" "BodySize < length src" "length src < 2 ^ 32"
  shows "page_Payload (page_SetPayloadLen (page_SetBody p 0 src) (word_of_nat (length src))) =
    take BodySize src"
proof -
  have "unat (word_of_nat (length src) :: u32) = length src" using assms(3) by (simp add: unat_of_nat)
  with assms(1,2) show ?thesis
    by (simp add: page_Payload_def page_SetBody_def)
      (simp add: page_wf_def page_SetPayloadLen_def page_PayloadLen_def byte_simps fit_simps
        copy_at_def sub_def)
qed

lemma page_SetBody_cut: "page_wf p \<Longrightarrow> page_SetBody p 0 src = page_SetBody p 0 (take BodySize src)"
  by (simp add: page_SetBody_def page_wf_def copy_at_def fit_simps min_def)

lemma oversized_leaf:
  assumes "list_all entry_wf es" "\<not> fits (leafNode es)" "length es < 2 ^ 16"
    "encodedSize (leafNode es) < 2 ^ 32"
  shows "\<exists>p. encodeTo (leafNode es) pid = Inr p \<and> page_wf p \<and> page_ID p = pid \<and>
    (\<exists>err. decodeNode (page_Finalize p) = Inl err)"
proof -
  let ?b = "encodeBody (leafNode es)" and ?q = "page_New pid PageTypeBTreeLeaf"
  let ?p = "page_SetPayloadLen (page_SetBody ?q 0 ?b) (word_of_nat (length ?b))"
  have "node_wf (leafNode es)" using assms(1) by (simp add: node_wf_def)
  then have len: "length ?b = encodedSize (leafNode es)" by (rule length_encodeBody)
  have big: "BodySize < length ?b" using assms(2) len by (simp add: fits_def)
  have enc: "encodeTo (leafNode es) pid = Inr ?p" by (simp add: encodeTo_def Let_def)
  have "page_Payload ?p = take BodySize ?b"
    using assms(4) big len by (intro page_Payload_overfull) simp_all
  also have "\<dots> = put16 (word_of_nat (length es)) @ take (BodySize - 2) (concat (map encodeEntry es))"
    by (simp add: encodeBody_def fit_simps)
  finally have pl: "page_Payload ?p = \<dots>" .
  have "BodySize - 2 < sum_list (map le_size es)"
    using big len by (simp add: encodedSize_def fit_simps)
  from decodeEntries_truncated [OF assms(1) this, of "put16 (word_of_nat (length es))"]
  have "\<exists>err. decodeLeaf (page_Payload ?p) = Inl err"
    using assms(3) by (auto simp: pl decodeLeaf_def byte_simps)
  moreover have "page_wf ?p" "page_ID ?p = pid" "page_Type ?p = PageTypeBTreeLeaf"
    by (simp_all add: page_SetBody_cut [of ?q ?b])
  ultimately show ?thesis using enc by (auto simp: decodeNode_def Let_def)
qed

section \<open>An insertion that loses entries\<close>

text \<open>
  Eight keys with empty values and seven with values of 512 bytes, together in one leaf, and the
  insertion of one more of the latter.
\<close>

definition crowd :: "nat \<Rightarrow> leafEntry list" where
  "crowd n =
     map (\<lambda>i. \<lparr>le_key = [word_of_nat i], le_inline = [], le_ov = zeroRef, le_isOverflow = False\<rparr>) [1..<9] @
     map (\<lambda>i. \<lparr>le_key = [word_of_nat i], le_inline = replicate 512 7, le_ov = zeroRef,
       le_isOverflow = False\<rparr>) [9..<9 + n]"

lemma crowd_facts:
  "list_all entry_wf (crowd 7)" "fits (leafNode (crowd 7))" "list_all entry_wf (drop 8 (crowd 8))"
  "fits (leafNode (take 8 (crowd 8)))" "\<not> fits (leafNode (crowd 8))"
  "\<not> fits (leafNode (drop 8 (crowd 8)))" "encodedSize (leafNode (drop 8 (crowd 8))) < 2 ^ 32"
  "list_all entry_wf (take 8 (crowd 8))" "length (crowd 7) = 15" "length (crowd 8) = 16"
  "le_key (crowd 8 ! 8) = [9]"
  by (simp_all add: crowd_def upt_rec entry_wf_def fits_def encodedSize_def le_size_def fit_simps)

lemma crowd_insert:
  "leafSearch (leafNode (crowd 7)) [16] = (15, False)"
  "crowd 7 @ [\<lparr>le_key = [16], le_inline = replicate 512 7, le_ov = zeroRef, le_isOverflow = False\<rparr>] = crowd 8"
  by (simp_all add: crowd_def upt_rec leafSearch_def)

context page_store_laws
begin

text \<open>The write of a node that does not fit is accepted, and is not read back.\<close>

lemma write_oversized:
  assumes "inv s" "used s < cap" "list_all entry_wf es" "\<not> fits (leafNode es)"
    "length es < 2 ^ 16" "encodedSize (leafNode es) < 2 ^ 32"
  shows "\<exists>pid s' p err. write_node S s (leafNode es) = Inr (pid, s') \<and> advances S inv used 1 s s' \<and>
    unat pid < used s' \<and> st_ReadPage S s' pid = Inr p \<and> decodeNode p = Inl err"
proof -
  obtain pid s1 where al: "st_Allocate S s = (pid, s1)" by (cases "st_Allocate S s")
  from oversized_leaf [OF assms(3-6), of pid] obtain p err where
    p: "encodeTo (leafNode es) pid = Inr p" "page_wf p" "page_ID p = pid"
      "decodeNode (page_Finalize p) = Inl err" by blast
  from allocate_write [OF assms(1,2) al p(2,3)] al p show ?thesis
    by (auto simp: write_node_def advances_def)
qed

lemma insert_loses_half:
  assumes "inv s" "used s + 3 \<le> cap" "root \<noteq> InvalidPageID"
    "st_ReadPage S s root = Inr p" "decodeNode p = Inr (leafNode (crowd 7))" "1 < fuel"
  shows "\<exists>t'. tree_Insert fuel S (tree_Load s root) [16] (replicate 512 7) = Inr t' \<and>
    (\<forall>i\<in>{9..16}. \<exists>err. tree_Get fuel S t' [word_of_nat i] = Inl err)"
proof -
  let ?ve = "\<lparr>le_key = [16], le_inline = replicate 512 7, le_ov = zeroRef, le_isOverflow = False\<rparr>"
  obtain f where f: "fuel = Suc (Suc f)" using assms(6) by (metis One_nat_def less_imp_Suc_add plus_1_eq_Suc add_Suc)
  have room: "used s < cap" using assms(2) by simp
  have "node_wf (leafNode (take 8 (crowd 8)))" by (simp add: node_wf_def crowd_facts)
  from write_node_law [OF assms(1) room this crowd_facts(4)] obtain lid s1 where
    l: "write_node S s (leafNode (take 8 (crowd 8))) = Inr (lid, s1)" "inv s1" "used s1 = Suc (used s)"
    by blast
  have room1: "used s1 < cap" using assms(2) l(3) by simp
  from write_oversized [OF l(2) room1 crowd_facts(3,6) _ crowd_facts(7)] obtain rid s2 q err where
    r: "write_node S s1 (leafNode (drop 8 (crowd 8))) = Inr (rid, s2)" "advances S inv used 1 s1 s2"
      "unat rid < used s2" "st_ReadPage S s2 rid = Inr q" "decodeNode q = Inl err"
    by (auto simp: crowd_facts(10))
  let ?n = "internalNode [[9]] [lid, rid]"
  have n: "node_wf ?n" "fits ?n" "inv s2" "used s2 < cap"
    using r(2) l(3) assms(2)
    by (auto simp: node_wf_def fits_def encodedSize_def fit_simps advances_def)
  from write_node_law [OF n(3,4,1,2)] obtain pid s3 pp where
    w: "write_node S s2 ?n = Inr (pid, s3)" "pid \<noteq> InvalidPageID" "st_ReadPage S s3 pid = Inr pp"
      "decodeNode pp = Inr ?n" "keeps_reads (st_ReadPage S s2) (st_ReadPage S s3) (ids_below (used s2))"
    by blast
  have q: "st_ReadPage S s3 rid = Inr q" using w(5) r(3,4) by (auto dest: keeps_readsD)
  have spl: "splitLeaf (leafNode (crowd 8)) =
      Inr (leafNode (take 8 (crowd 8)), leafNode (drop 8 (crowd 8)), [9])"
    by (simp add: splitLeaf_def Let_def nth_res_def crowd_facts)
  have ins: "tree_insert fuel S s root ?ve = Inr (lid, Some \<lparr>sp_sep = [9], sp_right = rid\<rparr>, s2)"
    using assms(4,5) f l(1) r(1) spl
    by (simp add: crowd_insert crowd_facts writeMaybeSplit_def)
  have "tree_Insert fuel S (tree_Load s root) [16] (replicate 512 7) = Inr \<lparr>tr_store = s3, tr_root = pid\<rparr>"
    using ins assms(3) w(1) by (simp add: tree_Insert_def tree_Load_def makeLeafEntry_def maxInline_def)
  moreover have "tree_Get fuel S \<lparr>tr_store = s3, tr_root = pid\<rparr> [word_of_nat i] = Inl err"
    if "i \<in> {9..16}" for i
  proof -
    have "(9::byte) \<le> word_of_nat i" using that by (simp add: word_le_nat_alt unat_of_nat)
    then have "childIndex ?n [word_of_nat i] = 1"
      by (auto simp: childIndex_def not_less)
    with f w q r(5) show ?thesis by (simp add: tree_Get_def btree_Get_def nth_res_def)
  qed
  ultimately show ?thesis by blast
qed

end

section \<open>Properties\<close>

text \<open>
  C40: a leaf of ordinary entries that fits its page, and one more insertion that returns no error:
  afterwards a lookup of any of eight keys of that leaf fails with an error, also for keys that were
  there before. \<^verbatim>\<open>splitLeaf\<close> gives them a page of their own, in which they do not fit.
\<close>

theorem insert_splits_too_large:
  assumes "mgr_inv m" "unat (mgr_numPages m) + 3 \<le> mgr_cap" "root \<noteq> InvalidPageID"
    "mgr_ReadPage m root = Inr p" "decodeNode p = Inr (leafNode (crowd 7))" "1 < fuel"
  shows "\<exists>t'. tree_Insert fuel mgr_store (tree_Load m root) [16] (replicate 512 7) = Inr t' \<and>
    (\<forall>i\<in>{9..16}. \<exists>err. tree_Get fuel mgr_store t' [word_of_nat i] = Inl err)"
  using mgr.insert_loses_half [OF assms(1-3) _ assms(5,6)] assms(4) by (simp add: mgr_store_def)

theorem insert_splits_too_large_witness:
  "\<exists>m root t'. tree_Insert 2 mgr_store (tree_Load m root) [16] (replicate 512 7) = Inr t' \<and>
    (\<exists>err. tree_Get 2 mgr_store t' [word_of_nat 9] = Inl err)"
proof -
  let ?m0 = "\<lparr>mgr_f = [], mgr_numPages = 1\<rparr>"
  have inv0: "mgr_inv ?m0" by (simp add: mgr_inv_def mgr_cap_def)
  have wf: "node_wf (leafNode (crowd 7))" by (simp add: node_wf_def crowd_facts)
  have cap: "unat (mgr_numPages ?m0) < mgr_cap" by (simp add: mgr_cap_def)
  from mgr.write_node_law [OF inv0 cap wf crowd_facts(2)] obtain pid m p where
    m: "mgr_inv m" "unat (mgr_numPages m) = 2" "pid \<noteq> InvalidPageID" "mgr_ReadPage m pid = Inr p"
      "decodeNode p = Inr (leafNode (crowd 7))" by (auto simp: mgr_store_def)
  with insert_splits_too_large [of m pid p 2] obtain t' where
    "tree_Insert 2 mgr_store (tree_Load m pid) [16] (replicate 512 7) = Inr t'"
    and lost: "\<forall>i\<in>{9..16}. \<exists>err. tree_Get 2 mgr_store t' [word_of_nat i] = Inl err"
    by (auto simp: mgr_cap_def)
  moreover have "\<exists>err. tree_Get 2 mgr_store t' [word_of_nat 9] = Inl err"
    using lost by (rule bspec) simp
  ultimately show ?thesis by blast
qed

end
