(* ===== verification/Apply.thy ===== *)
theory Apply
  imports TreeWrite Merge
begin

text \<open>
  \<^verbatim>\<open>internal/storage/apply/apply.go\<close>: a WAL entry folded into a copy-on-write tree. The lemmas show
  that it is the update \<open>entry_apply\<close> of the database, the one that a checkpoint makes by merging
  deltas, for the operations the engine logs; an unknown operation is an error here and a put there.
\<close>

section \<open>Applying entries\<close>

definition apply_one :: "nat \<Rightarrow> 's page_store \<Rightarrow> 's cow_tree \<Rightarrow> WALEntry \<Rightarrow> 's cow_tree res" where
  "apply_one fuel S t e =
     (if e_Op e = OpPut \<or> e_Op e = OpCreateClass then tree_Insert fuel S t (e_Key e) (e_Data e)
      else if e_Op e = OpDelete \<or> e_Op e = OpDropClass then tree_Delete fuel S t (e_Key e)
      else Inl (ErrUnknownOp (e_Op e)))"

fun apply_subs :: "nat \<Rightarrow> 's page_store \<Rightarrow> 's cow_tree \<Rightarrow> WALEntry list \<Rightarrow> 's cow_tree res" where
  "apply_subs fuel S t [] = Inr t"
| "apply_subs fuel S t (e # es) = bindE (apply_one fuel S t e) (\<lambda>t. apply_subs fuel S t es)"

definition apply_Entry :: "nat \<Rightarrow> 's page_store \<Rightarrow> 's cow_tree \<Rightarrow> WALEntry \<Rightarrow> 's cow_tree res" where
  "apply_Entry fuel S t e = apply_subs fuel S t (e_Flatten e)"

section \<open>The database of a tree\<close>

text \<open>
  \<open>tree_stores S used t h d\<close>: the tree, of height at most \<open>h\<close>, holds the database \<open>d\<close>. The cost of an
  entry bounds the pages it takes in a tree of that height.
\<close>

definition tree_stores :: "'s page_store \<Rightarrow> ('s \<Rightarrow> nat) \<Rightarrow> 's cow_tree \<Rightarrow> nat \<Rightarrow> db \<Rightarrow> bool" where
  "tree_stores S used t h d \<longleftrightarrow> (\<exists>h'\<le>h. \<exists>kvs. holds S used t h' kvs \<and> map_of kvs = d)"

definition known_op :: "WALEntry \<Rightarrow> bool" where
  "known_op e \<longleftrightarrow> e_Op e \<in> {OpPut, OpDelete, OpCreateClass, OpDropClass}"

definition apply_cost :: "nat \<Rightarrow> WALEntry \<Rightarrow> nat" where
  "apply_cost h e = length (e_Data e) + 2 * h + 4"

definition small_sub :: "WALEntry \<Rightarrow> bool" where
  "small_sub e \<longleftrightarrow> known_op e \<and> short_entry (e_Key e) (e_Data e)"

context page_store_laws
begin

lemma apply_one_law:
  assumes "inv (tr_store t)" "tree_stores S used t h d" "h < fuel" "small_sub e"
    "used (tr_store t) + apply_cost h e \<le> cap"
  shows "\<exists>t'. apply_one fuel S t e = Inr t' \<and> inv (tr_store t') \<and>
    used (tr_store t') \<le> used (tr_store t) + apply_cost h e \<and> tree_stores S used t' (h + 1) (sub_apply e d)"
proof -
  from assms(2) obtain h' kvs where h: "h' \<le> h" "holds S used t h' kvs" "map_of kvs = d"
    by (auto simp: tree_stores_def)
  show ?thesis
  proof (cases "e_Op e = OpDelete \<or> e_Op e = OpDropClass")
    case True
    have "h' < fuel" "used (tr_store t) + h' + 1 \<le> cap"
      using h(1) assms(3,5) by (simp_all add: apply_cost_def)
    from tree_Delete_law [OF assms(1) h(2) this, of "e_Key e"] obtain t' where
      "tree_Delete fuel S t (e_Key e) = Inr t'" "advances S inv used (h' + 1) (tr_store t) (tr_store t')"
      "holds S used t' h' (kv_del (e_Key e) kvs)" by blast
    with True h(1) show ?thesis
      by (auto simp: apply_one_def op_defs advances_def apply_cost_def sub_apply_def tree_stores_def h(3)
          map_of_kv_del intro!: exI [of _ h'])
  next
    case False
    have "h' < fuel" "used (tr_store t) + length (e_Data e) + 2 * h' + 4 \<le> cap"
      "short_entry (e_Key e) (e_Data e)"
      using h(1) assms(3-5) by (simp_all add: apply_cost_def small_sub_def)
    from tree_Insert_law [OF assms(1) h(2) this(1,3,2)] obtain t' h'' where
      "tree_Insert fuel S t (e_Key e) (e_Data e) = Inr t'" "h'' \<le> h' + 1"
      "advances S inv used (length (e_Data e) + 2 * h' + 4) (tr_store t) (tr_store t')"
      "holds S used t' h'' (kv_put (e_Key e) (e_Data e) kvs)" by blast
    with False h(1) assms(4) show ?thesis
      by (auto simp: apply_one_def small_sub_def known_op_def advances_def apply_cost_def
          sub_apply_def tree_stores_def h(3) map_of_kv_put intro!: exI [of _ h''])
  qed
qed

text \<open>A list of entries, whose heights stay below \<open>H\<close>.\<close>

lemma apply_subs_law:
  assumes "inv (tr_store t)" "tree_stores S used t h d" "h + length es \<le> H" "H < fuel"
    "\<forall>e\<in>set es. small_sub e" "used (tr_store t) + sum_list (map (apply_cost H) es) \<le> cap"
  shows "\<exists>t'. apply_subs fuel S t es = Inr t' \<and> inv (tr_store t') \<and>
    used (tr_store t') \<le> used (tr_store t) + sum_list (map (apply_cost H) es) \<and>
    tree_stores S used t' (h + length es) (fold sub_apply es d)"
  using assms
proof (induction es arbitrary: t h d)
  case Nil
  then show ?case by simp
next
  case (Cons e es)
  have le: "apply_cost h e \<le> apply_cost H e" using Cons.prems(3) by (simp add: apply_cost_def)
  have "h < fuel" "small_sub e" "used (tr_store t) + apply_cost h e \<le> cap"
    using Cons.prems(3-6) le by simp_all
  from apply_one_law [OF Cons.prems(1,2) this] obtain t1 where
    t1: "apply_one fuel S t e = Inr t1" "inv (tr_store t1)"
      "used (tr_store t1) \<le> used (tr_store t) + apply_cost h e"
      "tree_stores S used t1 (h + 1) (sub_apply e d)" by blast
  have "h + 1 + length es \<le> H" "\<forall>e\<in>set es. small_sub e"
    "used (tr_store t1) + sum_list (map (apply_cost H) es) \<le> cap"
    using Cons.prems(3,5,6) t1(3) le by simp_all
  from Cons.IH [OF t1(2,4) this(1) Cons.prems(4) this(2,3)] t1 le show ?case by auto
qed

end

section \<open>Properties\<close>

text \<open>
  Applying an entry, a batch with all its parts, to a tree that tree_stores a database gives a tree
  that tree_stores the updated database: the tree path computes what the merge of a checkpoint computes,
  and every lookup answers from it.
\<close>

theorem apply_Entry_is_entry_apply:
  assumes "mgr_inv (tr_store t)" "tree_stores mgr_store pages_used t h d"
    "h + length (e_Flatten e) \<le> H" "H < fuel" "\<forall>s\<in>set (e_Flatten e). small_sub s"
    "pages_used (tr_store t) + sum_list (map (apply_cost H) (e_Flatten e)) \<le> mgr_cap"
  shows "\<exists>t'. apply_Entry fuel mgr_store t e = Inr t' \<and> mgr_inv (tr_store t') \<and>
    tree_stores mgr_store pages_used t' (h + length (e_Flatten e)) (entry_apply e d) \<and>
    (\<exists>n0. \<forall>n\<ge>n0. \<forall>k. tree_Get n mgr_store t' k = Inr (entry_apply e d k))"
proof -
  from mgr.apply_subs_law [OF assms] obtain t' where
    t': "apply_Entry fuel mgr_store t e = Inr t'" "mgr_inv (tr_store t')"
      "tree_stores mgr_store pages_used t' (h + length (e_Flatten e)) (entry_apply e d)"
    by (auto simp: apply_Entry_def entry_apply_def)
  from t'(3) obtain h' kvs where h: "holds mgr_store pages_used t' h' kvs"
    "map_of kvs = entry_apply e d" by (auto simp: tree_stores_def)
  let ?n0 = "h' + sum_list (map (\<lambda>kv. length (snd kv)) kvs) + 2"
  have "Suc (length (snd kv)) < n" if "?n0 \<le> n" "kv \<in> set kvs" for n kv
    using member_le_sum_list [of "length (snd kv)" "map (\<lambda>kv. length (snd kv)) kvs"] that by fastforce
  then have "enough_fuel n h' kvs" if "?n0 \<le> n" for n
    using that by (auto simp: enough_fuel_def)
  with holds_Get [OF h(1)] h(2) t' show ?thesis by metis
qed

abbreviation sample_sub :: "byte \<Rightarrow> u64 \<Rightarrow> bytes \<Rightarrow> WALEntry" where
  "sample_sub op i data \<equiv> WALEntry op [112] [99] i data 0 []"

definition sample_batch :: WALEntry where
  "sample_batch = WALEntry OpBatch [] [] 0 [] 0
     [sample_sub OpPut 1 [7], sample_sub OpPut 2 [8], sample_sub OpDelete 1 []]"

theorem apply_Entry_is_entry_apply_witness:
  "\<exists>t n. apply_Entry 9 mgr_store (tree_NewEmpty fresh_manager) sample_batch = Inr t \<and>
    (\<forall>k. tree_Get n mgr_store t k = Inr (entry_apply sample_batch Map.empty k))"
proof -
  have sub: "e_Flatten sample_batch =
      [sample_sub OpPut 1 [7], sample_sub OpPut 2 [8], sample_sub OpDelete 1 []]"
    by (simp add: sample_batch_def e_Flatten_def)
  have "tree_stores mgr_store pages_used (tree_NewEmpty fresh_manager) 0 Map.empty"
    using mgr.NewEmpty_holds [of fresh_manager 0] by (force simp: tree_stores_def)
  moreover have "\<forall>s\<in>set (e_Flatten sample_batch). small_sub s"
    by (simp add: sub small_sub_def known_op_def short_entry_def e_Key_def ObjectKey_def scope_def
        op_defs maxEntry_def maxInline_def)
  ultimately show ?thesis
    using apply_Entry_is_entry_apply [of "tree_NewEmpty fresh_manager" 0 Map.empty sample_batch 3 9]
    by (auto simp: sub tree_NewEmpty_def fresh_manager_facts apply_cost_def mgr_cap_def)
qed

end
