(* ===== verification/Filters.thy ===== *)
theory Filters
  imports Layout
begin

text \<open>
  \<^verbatim>\<open>internal/server/http/filters.go\<close>: the query filters. Strings are lists of code points. Go's
  \<^verbatim>\<open>regexp\<close> is modelled on the fragment of its syntax that \<^verbatim>\<open>likeToRegex\<close> produces: an expression of
  this fragment is parsed into atoms, and matching is the search for a place where the atoms match.
  Decoding of msgpack, rendering of floating-point numbers and Unicode's case tables are parameters.
\<close>

type_synonym rune = nat
type_synonym gostr = "rune list"

definition lit :: "string \<Rightarrow> gostr" where
  "lit = map of_char"

section \<open>Regular expressions\<close>

datatype rx = RxBegin | RxEnd | RxAny | RxAnyStar | RxLit rune

text \<open>The characters that \<^verbatim>\<open>regexp.QuoteMeta\<close> escapes.\<close>

definition rx_special :: "rune \<Rightarrow> bool" where
  "rx_special r \<longleftrightarrow> r \<in> set (lit [CHR 0x5C, CHR 0x2E, CHR 0x2B, CHR 0x2A, CHR 0x3F, CHR 0x28, CHR 0x29, CHR 0x7C,
     CHR 0x5B, CHR 0x5D, CHR 0x7B, CHR 0x7D, CHR 0x5E, CHR 0x24])"

definition QuoteMeta :: "gostr \<Rightarrow> gostr" where
  "QuoteMeta s = concat (map (\<lambda>r. if rx_special r then [92, r] else [r]) s)"

text \<open>Parsing; \<open>None\<close> for an expression outside the fragment.\<close>

fun rx_parse :: "gostr \<Rightarrow> rx list option" where
  "rx_parse [] = Some []"
| "rx_parse (r # s) =
     (if r = 94 then map_option ((#) RxBegin) (rx_parse s)
      else if r = 36 then map_option ((#) RxEnd) (rx_parse s)
      else if r = 46 then
        (case s of
           [] \<Rightarrow> Some [RxAny]
         | q # s' \<Rightarrow>
             if q = 42 then map_option ((#) RxAnyStar) (rx_parse s') else map_option ((#) RxAny) (rx_parse s))
      else if r = 92 then
        (case s of
           [] \<Rightarrow> None
         | q # s' \<Rightarrow> if rx_special q then map_option ((#) (RxLit q)) (rx_parse s') else None)
      else if rx_special r then None
      else map_option ((#) (RxLit r)) (rx_parse s))"

text \<open>
  A compiled expression with the flag \<^verbatim>\<open>i\<close>; the flag \<^verbatim>\<open>s\<close> is always set, so that a dot matches any
  character. Without the flag \<^verbatim>\<open>m\<close>, \<^verbatim>\<open>^\<close> and \<^verbatim>\<open>$\<close> match at the two ends of the text only.
\<close>

record regexp =
  rx_ci :: bool
  rx_atoms :: "rx list"

definition rx_Compile :: "bool \<Rightarrow> gostr \<Rightarrow> regexp res" where
  "rx_Compile ci s =
     (case rx_parse s of None \<Rightarrow> Inl ErrBadPattern | Some a \<Rightarrow> Inr \<lparr>rx_ci = ci, rx_atoms = a\<rparr>)"

fun rx_match :: "(rune \<Rightarrow> rune \<Rightarrow> bool) \<Rightarrow> rx list \<Rightarrow> bool \<Rightarrow> gostr \<Rightarrow> bool" where
  "rx_match eqv [] start s = True"
| "rx_match eqv (RxBegin # a) start s = (start \<and> rx_match eqv a start s)"
| "rx_match eqv (RxEnd # a) start s = (s = [] \<and> rx_match eqv a start s)"
| "rx_match eqv (RxAny # a) start s = (case s of [] \<Rightarrow> False | c # s \<Rightarrow> rx_match eqv a False s)"
| "rx_match eqv (RxLit r # a) start s = (case s of [] \<Rightarrow> False | c # s \<Rightarrow> eqv r c \<and> rx_match eqv a False s)"
| "rx_match eqv (RxAnyStar # a) start s =
     (rx_match eqv a start s \<or> (case s of [] \<Rightarrow> False | c # s \<Rightarrow> rx_match eqv (RxAnyStar # a) False s))"

text \<open>The match may begin anywhere.\<close>

fun rx_search :: "(rune \<Rightarrow> rune \<Rightarrow> bool) \<Rightarrow> rx list \<Rightarrow> bool \<Rightarrow> gostr \<Rightarrow> bool" where
  "rx_search eqv a start [] = rx_match eqv a start []"
| "rx_search eqv a start (c # s) = (rx_match eqv a start (c # s) \<or> rx_search eqv a False s)"

definition rx_MatchString :: "(rune \<Rightarrow> rune \<Rightarrow> bool) \<Rightarrow> regexp \<Rightarrow> gostr \<Rightarrow> bool" where
  "rx_MatchString cfold re s = rx_search (if rx_ci re then cfold else (=)) (rx_atoms re) True s"

section \<open>LIKE patterns\<close>

definition likeToRegex :: "gostr \<Rightarrow> bool \<Rightarrow> regexp res" where
  "likeToRegex pattern ci =
     (let b = lit [CHR 0x5E];
          b = b @ concat (map (\<lambda>r.
                if r = 37 then lit ''.*'' else if r = 95 then lit ''.'' else QuoteMeta [r]) pattern);
          b = b @ lit [CHR 0x24]
      in rx_Compile ci b)"

text \<open>What SQL says of \<^verbatim>\<open>LIKE\<close>: \<open>%\<close> stands for any sequence, \<open>_\<close> for any one character.\<close>

fun like :: "(rune \<Rightarrow> rune \<Rightarrow> bool) \<Rightarrow> gostr \<Rightarrow> gostr \<Rightarrow> bool" where
  "like eqv [] s = (s = [])"
| "like eqv (p # ps) s =
     (if p = 37 then (\<exists>n\<in>{..length s}. like eqv ps (drop n s))
      else if p = 95 then (case s of [] \<Rightarrow> False | c # s \<Rightarrow> like eqv ps s)
      else (case s of [] \<Rightarrow> False | c # s \<Rightarrow> eqv p c \<and> like eqv ps s))"

definition like_atom :: "rune \<Rightarrow> rx" where
  "like_atom r = (if r = 37 then RxAnyStar else if r = 95 then RxAny else RxLit r)"

lemma rx_special_simp: "rx_special r \<longleftrightarrow> r \<in> {92, 46, 43, 42, 63, 40, 41, 124, 91, 93, 123, 125, 94, 36}"
  by (simp add: rx_special_def lit_def)

lemma lit_simps [simp]: "lit [CHR 0x5E] = [94]" "lit [CHR 0x24] = [36]" "lit ''.*'' = [46, 42]" "lit ''.'' = [46]"
  by (simp_all add: lit_def)

lemma QuoteMeta_one: "QuoteMeta [r] = (if rx_special r then [92, r] else [r])"
  by (simp add: QuoteMeta_def)

text \<open>The text of a pattern never begins with a star, and so a dot before it stands alone.\<close>

lemma like_atom_simps [simp]:
  "like_atom 37 = RxAnyStar" "like_atom 95 = RxAny" "r \<noteq> 37 \<Longrightarrow> r \<noteq> 95 \<Longrightarrow> like_atom r = RxLit r"
  by (simp_all add: like_atom_def)

lemma parse_like:
  "rx_parse (concat (map (\<lambda>r. if r = 37 then [46, 42] else if r = 95 then [46] else QuoteMeta [r]) p) @ [36]) =
     Some (map like_atom p @ [RxEnd])"
  (is "rx_parse (?text p @ _) = _")
proof (induction p)
  case (Cons r p)
  have hd: "\<exists>q s. (if a = 37 then [46, 42] else if a = 95 then [46] else QuoteMeta [a]) @ t = q # s \<and> q \<noteq> 42"
    for a t by (auto simp: QuoteMeta_one rx_special_simp)
  obtain q s where q: "?text p @ [36] = q # s" "q \<noteq> 42"
  proof (cases p)
    case (Cons a l)
    have "?text p @ [36] = (if a = 37 then [46, 42] else if a = 95 then [46] else QuoteMeta [a]) @ (?text l @ [36])"
      unfolding Cons by simp
    with hd [of a "?text l @ [36]"] that show thesis by metis
  qed (use that in simp)
  consider "r = 37" | "r = 95" | "r \<noteq> 37" "r \<noteq> 95" "rx_special r" | "r \<noteq> 37" "r \<noteq> 95" "\<not> rx_special r" by blast
  then show ?case
  proof cases
    case 2
    have "rx_parse (46 # q # s) = Some (RxAny # map like_atom p @ [RxEnd])"
      using Cons.IH q(2) unfolding q(1) by simp
    then show ?thesis using 2 q(1) by simp
  next
    case 3
    then show ?thesis using Cons.IH by (simp add: QuoteMeta_one)
  next
    case 4
    then show ?thesis using Cons.IH by (simp add: QuoteMeta_one rx_special_simp)
  qed (use Cons.IH in simp)
qed simp

lemma likeToRegex_atoms:
  "likeToRegex p ci = Inr \<lparr>rx_ci = ci, rx_atoms = RxBegin # map like_atom p @ [RxEnd]\<rparr>"
  unfolding likeToRegex_def rx_Compile_def lit_simps Let_def by (simp add: parse_like)

lemma search_begin: "rx_search eqv (RxBegin # a) True s = rx_match eqv a True s"
proof -
  have "\<not> rx_search eqv (RxBegin # a) False s" for s by (induction s) simp_all
  then show ?thesis by (cases s) simp_all
qed

lemma match_star:
  "rx_match eqv (RxAnyStar # a) b s \<longleftrightarrow> rx_match eqv a b s \<or> (\<exists>n\<in>{1..length s}. rx_match eqv a False (drop n s))"
proof (induction s arbitrary: b)
  case (Cons c s)
  have upto: "{1..length (c # s)} = insert 1 (Suc ` {1..length s})"
    by (auto simp: image_iff Bex_def)
  have "(\<exists>n\<in>{1..length (c # s)}. rx_match eqv a False (drop n (c # s))) \<longleftrightarrow>
      rx_match eqv a False s \<or> (\<exists>n\<in>{1..length s}. rx_match eqv a False (drop n s))"
    unfolding upto by (simp del: image_Suc_atLeastAtMost)
  moreover have "rx_match eqv (RxAnyStar # a) b (c # s) \<longleftrightarrow>
      rx_match eqv a b (c # s) \<or> rx_match eqv (RxAnyStar # a) False s" by simp
  ultimately show ?case unfolding Cons.IH by blast
qed simp

lemma match_like: "rx_match eqv (map like_atom p @ [RxEnd]) b s \<longleftrightarrow> like eqv p s"
proof (induction p arbitrary: b s)
  case (Cons r p)
  show ?case
  proof (cases "r = 37")
    case True
    have "{..length s} = insert 0 {1..length s}" by auto
    then show ?thesis by (simp add: True match_star Cons.IH del: rx_match.simps(6))
  next
    case False
    then show ?thesis by (cases "r = 95"; cases s) (simp_all add: Cons.IH)
  qed
qed simp

lemma likeToRegex_like:
  "likeToRegex p ci = Inr re \<Longrightarrow> rx_MatchString cfold re s \<longleftrightarrow> like (if ci then cfold else (=)) p s"
  by (auto simp: likeToRegex_atoms rx_MatchString_def search_begin match_like)

section \<open>Values and filters\<close>

text \<open>What a stored value decodes to; a Go map is an association list, a nil map is \<open>None\<close>.\<close>

datatype mval =
    MNil
  | MBool bool
  | MStr gostr
  | MFloat64 u64
  | MFloat32 u32
  | MInt64 u64
  | MUint64 u64
  | MArr "mval list"
  | MMap "(gostr \<times> mval) list"

type_synonym obj = "(gostr \<times> mval) list"

text \<open>
  Packages the code calls: \<^verbatim>\<open>strconv\<close> and \<^verbatim>\<open>fmt\<close> for numbers that are not integers and for nested
  values, the case mapping of \<^verbatim>\<open>unicode\<close>, JSON, msgpack.
\<close>

record lib =
  lb_Float64 :: "u64 \<Rightarrow> gostr"
  lb_Float32 :: "u32 \<Rightarrow> gostr"
  lb_Sprint :: "mval \<Rightarrow> gostr"
  lb_lower :: "rune \<Rightarrow> rune"
  lb_fold :: "rune \<Rightarrow> rune \<Rightarrow> bool"
  lb_json :: "bytes \<Rightarrow> mval res"
  lb_json_items :: "bytes \<Rightarrow> bytes list res"
  lb_marshal :: "obj option \<Rightarrow> bytes res"
  lb_unmarshal :: "bytes \<Rightarrow> obj option res"

definition ToLower :: "lib \<Rightarrow> gostr \<Rightarrow> gostr" where
  "ToLower lb = map (lb_lower lb)"

definition FormatUint :: "nat \<Rightarrow> gostr" where
  "FormatUint n = map unat (dec n)"

definition FormatInt :: "int \<Rightarrow> gostr" where
  "FormatInt i = (if i < 0 then lit ''-'' @ FormatUint (nat (- i)) else FormatUint (nat i))"

fun fieldString :: "lib \<Rightarrow> mval \<Rightarrow> gostr option" where
  "fieldString lb MNil = None"
| "fieldString lb (MStr t) = Some t"
| "fieldString lb (MBool t) = Some (if t then lit ''true'' else lit ''false'')"
| "fieldString lb (MFloat64 t) = Some (lb_Float64 lb t)"
| "fieldString lb (MFloat32 t) = Some (lb_Float32 lb t)"
| "fieldString lb (MInt64 t) = Some (FormatInt (sint t))"
| "fieldString lb (MUint64 t) = Some (FormatUint (unat t))"
| "fieldString lb v = Some (lb_Sprint lb v)"

text \<open>\<^verbatim>\<open>url.Values\<close>: parameters with their values; \<^verbatim>\<open>Get\<close> is the first value or empty.\<close>

type_synonym url_values = "(gostr \<times> gostr list) list"

definition q_Get :: "url_values \<Rightarrow> gostr \<Rightarrow> gostr" where
  "q_Get q k = (case map_of q k of Some (v # _) \<Rightarrow> v | _ \<Rightarrow> [])"

record field_filter =
  fl_field :: gostr
  fl_eq :: gostr
  fl_re :: "regexp option"

record matcher =
  mt_filters :: "field_filter list"
  mt_ci :: bool

fun parse_filters :: "lib \<Rightarrow> bool \<Rightarrow> url_values \<Rightarrow> field_filter list res" where
  "parse_filters lb ci [] = Inr []"
| "parse_filters lb ci ((key, vals) # q) =
     (case vals of
        [] \<Rightarrow> parse_filters lb ci q
      | v # _ \<Rightarrow>
          if HasPrefix key (lit ''eq.'') then
            let field = drop (length (lit ''eq.'')) key in
            if field = [] then parse_filters lb ci q
            else
              let target = (if ci then ToLower lb v else v) in
              bindE (parse_filters lb ci q) (\<lambda>fs. Inr (\<lparr>fl_field = field, fl_eq = target, fl_re = None\<rparr> # fs))
          else if HasPrefix key (lit ''like.'') then
            let field = drop (length (lit ''like.'')) key in
            if field = [] then parse_filters lb ci q
            else
              bindE (likeToRegex v ci) (\<lambda>re.
              bindE (parse_filters lb ci q) (\<lambda>fs. Inr (\<lparr>fl_field = field, fl_eq = [], fl_re = Some re\<rparr> # fs)))
          else parse_filters lb ci q)"

definition parseFilters :: "lib \<Rightarrow> url_values \<Rightarrow> matcher option res" where
  "parseFilters lb q =
     (let ci = (q_Get q (lit ''ci'') \<noteq> lit ''false'' \<and> q_Get q (lit ''ci'') \<noteq> lit ''0'') in
      bindE (parse_filters lb ci q) (\<lambda>filters.
        Inr (if filters = [] then None else Some \<lparr>mt_filters = filters, mt_ci = ci\<rparr>)))"

fun match_filters :: "lib \<Rightarrow> bool \<Rightarrow> field_filter list \<Rightarrow> obj \<Rightarrow> bool" where
  "match_filters lb ci [] m = True"
| "match_filters lb ci (f # fs) m =
     (case map_of m (fl_field f) of
        None \<Rightarrow> False
      | Some raw \<Rightarrow>
          (case fieldString lb raw of
             None \<Rightarrow> False
           | Some sval \<Rightarrow>
               (case fl_re f of
                  Some re \<Rightarrow> if \<not> rx_MatchString (lb_fold lb) re sval then False else match_filters lb ci fs m
                | None \<Rightarrow>
                    let cmp = (if ci then ToLower lb sval else sval)
                    in if cmp \<noteq> fl_eq f then False else match_filters lb ci fs m)))"

definition matcher_match :: "lib \<Rightarrow> matcher \<Rightarrow> bytes \<Rightarrow> bool res" where
  "matcher_match lb m stored =
     bindE (lb_unmarshal lb stored) (\<lambda>ob.
       Inr (match_filters lb (mt_ci m) (mt_filters m) (case ob of None \<Rightarrow> [] | Some kvs \<Rightarrow> kvs)))"

section \<open>What a query means\<close>

text \<open>The condition one parameter puts on an object.\<close>

definition param_holds :: "lib \<Rightarrow> bool \<Rightarrow> gostr \<Rightarrow> gostr list \<Rightarrow> obj \<Rightarrow> bool" where
  "param_holds lb ci key vals m \<longleftrightarrow>
     (\<forall>v rest. vals = v # rest \<longrightarrow>
       (\<forall>field. field \<noteq> [] \<longrightarrow>
         (key = lit ''eq.'' @ field \<longrightarrow>
            (\<exists>raw s. map_of m field = Some raw \<and> fieldString lb raw = Some s \<and>
              (if ci then ToLower lb s = ToLower lb v else s = v))) \<and>
         (key = lit ''like.'' @ field \<longrightarrow>
            (\<exists>raw s. map_of m field = Some raw \<and> fieldString lb raw = Some s \<and>
              like (if ci then lb_fold lb else (=)) v s))))"

definition query_holds :: "lib \<Rightarrow> url_values \<Rightarrow> obj \<Rightarrow> bool" where
  "query_holds lb q m \<longleftrightarrow>
     (let ci = (q_Get q (lit ''ci'') \<noteq> lit ''false'' \<and> q_Get q (lit ''ci'') \<noteq> lit ''0'')
      in \<forall>(key, vals)\<in>set q. param_holds lb ci key vals m)"

lemma HasPrefix_iff: "HasPrefix s p \<longleftrightarrow> (\<exists>t. s = p @ t)"
  unfolding HasPrefix_def by (metis append_eq_conv_conj append_take_drop_id)

lemma not_both [simp]: "lit ''eq.'' @ t \<noteq> lit ''like.'' @ u" "lit ''like.'' @ u \<noteq> lit ''eq.'' @ t"
  by (simp_all add: lit_def)

lemma param_holds_eq:
  "param_holds lb ci (lit ''eq.'' @ field) (v # rest) m \<longleftrightarrow> field = [] \<or>
     (\<exists>raw s. map_of m field = Some raw \<and> fieldString lb raw = Some s \<and>
        (if ci then ToLower lb s = ToLower lb v else s = v))"
  by (simp add: param_holds_def) metis

lemma param_holds_like:
  "param_holds lb ci (lit ''like.'' @ field) (v # rest) m \<longleftrightarrow> field = [] \<or>
     (\<exists>raw s. map_of m field = Some raw \<and> fieldString lb raw = Some s \<and>
        like (if ci then lb_fold lb else (=)) v s)"
  by (simp add: param_holds_def) metis

lemma match_eq:
  "match_filters lb ci (\<lparr>fl_field = field, fl_eq = if ci then ToLower lb v else v, fl_re = None\<rparr> # fs) m \<longleftrightarrow>
     (\<exists>raw s. map_of m field = Some raw \<and> fieldString lb raw = Some s \<and>
        (if ci then ToLower lb s = ToLower lb v else s = v)) \<and> match_filters lb ci fs m"
  by (cases ci) (auto simp: Let_def split: option.split)

lemma match_re:
  "likeToRegex v ci = Inr re \<Longrightarrow>
   match_filters lb ci (\<lparr>fl_field = field, fl_eq = [], fl_re = Some re\<rparr> # fs) m \<longleftrightarrow>
     (\<exists>raw s. map_of m field = Some raw \<and> fieldString lb raw = Some s \<and>
        like (if ci then lb_fold lb else (=)) v s) \<and> match_filters lb ci fs m"
  using likeToRegex_like [of v ci re "lb_fold lb"] by (auto split: option.split)

lemma parse_filters_correct:
  "\<exists>fs. parse_filters lb ci q = Inr fs \<and>
     (\<forall>m. match_filters lb ci fs m \<longleftrightarrow> (\<forall>(key, vals)\<in>set q. param_holds lb ci key vals m))"
proof (induction q)
  case (Cons kv q)
  obtain key vals where kv: "kv = (key, vals)" by (cases kv)
  from Cons.IH obtain fs where fs: "parse_filters lb ci q = Inr fs"
    "\<And>m. match_filters lb ci fs m \<longleftrightarrow> (\<forall>(key, vals)\<in>set q. param_holds lb ci key vals m)" by blast
  consider (none) "vals = []" | (eq) v rest field where "vals = v # rest" "key = lit ''eq.'' @ field"
    | (lk) v rest field where "vals = v # rest" "key = lit ''like.'' @ field"
    | (other) v rest where "vals = v # rest" "\<not> HasPrefix key (lit ''eq.'')" "\<not> HasPrefix key (lit ''like.'')"
  proof (cases vals)
    case (Cons v rest)
    show thesis
    proof (cases "HasPrefix key (lit ''eq.'') \<or> HasPrefix key (lit ''like.'')")
      case True
      with Cons that(2,3) show thesis unfolding HasPrefix_iff by fast
    qed (use that(4) Cons in simp)
  qed (use that(1) in simp)
  then show ?case
  proof cases
    case none
    then show ?thesis using fs kv by (simp add: param_holds_def)
  next
    case eq
    have pre: "HasPrefix key (lit ''eq.'')" using eq(2) by (simp add: HasPrefix_def)
    show ?thesis
    proof (cases "field = []")
      case True
      then show ?thesis using fs kv eq pre by (simp add: param_holds_eq [of _ _ "[]", simplified] Let_def)
    next
      case False
      let ?f = "\<lparr>fl_field = field, fl_eq = if ci then ToLower lb v else v, fl_re = None\<rparr>"
      have "parse_filters lb ci (kv # q) = Inr (?f # fs)"
        using fs(1) kv eq pre False by (simp add: Let_def)
      moreover have "match_filters lb ci (?f # fs) m \<longleftrightarrow> (\<forall>(key, vals)\<in>set (kv # q). param_holds lb ci key vals m)" for m
        unfolding match_eq fs(2) using kv eq False param_holds_eq [of lb ci field v rest m] by simp
      ultimately show ?thesis by blast
    qed
  next
    case lk
    have pre: "HasPrefix key (lit ''like.'')" "\<not> HasPrefix key (lit ''eq.'')"
      using lk(2) by (auto simp: HasPrefix_iff)
    obtain re where re: "likeToRegex v ci = Inr re" using likeToRegex_atoms by blast
    show ?thesis
    proof (cases "field = []")
      case True
      then show ?thesis using fs kv lk pre by (simp add: param_holds_like [of _ _ "[]", simplified] Let_def)
    next
      case False
      let ?f = "\<lparr>fl_field = field, fl_eq = [], fl_re = Some re\<rparr>"
      have "parse_filters lb ci (kv # q) = Inr (?f # fs)"
        using fs(1) kv lk pre False re by (simp add: Let_def)
      moreover have "match_filters lb ci (?f # fs) m \<longleftrightarrow> (\<forall>(key, vals)\<in>set (kv # q). param_holds lb ci key vals m)" for m
        unfolding match_re [OF re] fs(2) using kv lk False param_holds_like [of lb ci field v rest m] by simp
      ultimately show ?thesis by blast
    qed
  next
    case other
    then have "param_holds lb ci key vals m" for m by (auto simp: param_holds_def HasPrefix_iff)
    then show ?thesis using fs kv other by simp
  qed
qed (intro exI [of _ "[]"] conjI allI; simp)

lemma parseFilters_law:
  assumes "lb_unmarshal lb stored = Inr ob"
  shows "case parseFilters lb q of
     Inl e \<Rightarrow> False
   | Inr None \<Rightarrow> query_holds lb q (case ob of None \<Rightarrow> [] | Some m \<Rightarrow> m)
   | Inr (Some mt) \<Rightarrow> matcher_match lb mt stored = Inr (query_holds lb q (case ob of None \<Rightarrow> [] | Some m \<Rightarrow> m))"
proof -
  let ?ci = "q_Get q (lit ''ci'') \<noteq> lit ''false'' \<and> q_Get q (lit ''ci'') \<noteq> lit ''0''"
  obtain fs where fs: "parse_filters lb ?ci q = Inr fs"
    "\<And>m. match_filters lb ?ci fs m \<longleftrightarrow> query_holds lb q m"
    using parse_filters_correct [of lb ?ci q] by (auto simp: query_holds_def Let_def)
  show ?thesis
  proof (cases "fs = []")
    case True
    have "query_holds lb q m" for m unfolding fs(2) [symmetric] True by simp
    then show ?thesis using fs(1) True by (simp add: parseFilters_def)
  next
    case False
    then show ?thesis using fs(1) assms by (simp add: parseFilters_def matcher_match_def fs(2))
  qed
qed

section \<open>Properties\<close>

text \<open>
  C25: the translation of \<^verbatim>\<open>LIKE\<close> patterns to regular expressions is right, with every other character
  taken literally: the expression always compiles, and it matches exactly the texts that the pattern
  stands for, as a whole, with case folding when it is asked for.
\<close>

theorem likeToRegex_is_LIKE:
  "\<exists>re. likeToRegex p ci = Inr re \<and>
     (\<forall>s. rx_MatchString cfold re s \<longleftrightarrow> like (if ci then cfold else (=)) p s)"
  using likeToRegex_atoms [of p ci] likeToRegex_like [of p ci] by blast

text \<open>
  C26: the matcher built from the query parameters accepts exactly the objects that satisfy every
  parameter: the field is there and not nil, and its text equals the value, up to case unless
  \<^verbatim>\<open>ci\<close> says otherwise, or is like the pattern. Without a filter there is no matcher.
\<close>

theorem parseFilters_correct:
  assumes "lb_unmarshal lb stored = Inr ob"
  shows "case parseFilters lb q of
     Inl e \<Rightarrow> False
   | Inr None \<Rightarrow> query_holds lb q (case ob of None \<Rightarrow> [] | Some m \<Rightarrow> m)
   | Inr (Some mt) \<Rightarrow> matcher_match lb mt stored = Inr (query_holds lb q (case ob of None \<Rightarrow> [] | Some m \<Rightarrow> m))"
  by (rule parseFilters_law [OF assms])

definition sample_lib :: lib where
  "sample_lib = \<lparr>lb_Float64 = (\<lambda>_. []), lb_Float32 = (\<lambda>_. []), lb_Sprint = (\<lambda>_. []), lb_lower = id, lb_fold = (=),
     lb_json = (\<lambda>b. if b = [110] then Inr MNil else Inr (MMap [(lit ''a'', MStr (lit ''x'')), (lit ''id'', MBool True)])),
     lb_json_items = (\<lambda>b. Inr []),
     lb_marshal = (\<lambda>m. case m of None \<Rightarrow> Inr [1] | Some kvs \<Rightarrow> Inr [2]),
     lb_unmarshal = (\<lambda>b. if b = [1] then Inr None else Inr (Some [(lit ''a'', MStr (lit ''x''))]))\<rparr>"

theorem parseFilters_correct_witness:
  "\<exists>mt. parseFilters sample_lib [(lit ''like.a'', [lit ''%x''])] = Inr (Some mt) \<and>
     matcher_match sample_lib mt [2] = Inr True"
proof -
  let ?q = "[(lit ''like.a'', [lit ''%x''])]"
  have u: "lb_unmarshal sample_lib [2] = Inr (Some [(lit ''a'', MStr (lit ''x''))])" by (simp add: sample_lib_def)
  have p: "\<exists>mt. parseFilters sample_lib ?q = Inr (Some mt)"
    by (simp add: parseFilters_def HasPrefix_def likeToRegex_atoms Let_def lit_def)
  have "lb_fold sample_lib = (=)" by (simp add: sample_lib_def)
  moreover have "like (=) (lit ''%x'') (lit ''x'')"
    by (simp add: lit_def) (rule bexI [of _ 0], simp_all)
  ultimately have "param_holds sample_lib ci (lit ''like.'' @ lit ''a'') [lit ''%x''] [(lit ''a'', MStr (lit ''x''))]" for ci
    unfolding param_holds_like by simp
  moreover have "lit ''like.a'' = lit ''like.'' @ lit ''a''" by (simp add: lit_def)
  ultimately have "query_holds sample_lib ?q [(lit ''a'', MStr (lit ''x''))]"
    by (simp add: query_holds_def)
  with p parseFilters_correct [OF u, of ?q] show ?thesis by auto
qed

end
