(* ===== verification/EngineStore.thy ===== *)
theory EngineStore
  imports Engine
begin

text \<open>
  What the engine's directory, log, snapshot and overlay together stand for. \<open>stores en d\<close> says that
  they stand for the database \<open>d\<close>, in memory and on disk: the directory does, and so does the
  snapshot with the overlay on top. The lemmas show that a lookup reads \<open>d\<close>, that a submit applies
  its entry to \<open>d\<close> or fails and leaves it, that a checkpoint keeps \<open>d\<close>, and that opening after a crash
  gives it back.
\<close>

section \<open>Keys the engine writes\<close>

definition key_ok :: "bytes \<Rightarrow> bool" where
  "key_ok k \<longleftrightarrow> (\<exists>p c. no_sep p \<and> no_sep c \<and> (k = ClassKey p c \<or> (\<exists>i. k = ObjectKey p c i)))"

lemma key_okI [simp]:
  "no_sep p \<Longrightarrow> no_sep c \<Longrightarrow> key_ok (ClassKey p c)" "no_sep p \<Longrightarrow> no_sep c \<Longrightarrow> key_ok (ObjectKey p c i)"
  by (auto simp: key_ok_def)

lemma key_ok_decode:
  "key_ok k \<Longrightarrow> DecodeObjectKey k = Some (p, c, i) \<longleftrightarrow> no_sep p \<and> no_sep c \<and> k = ObjectKey p c i"
  "key_ok k \<Longrightarrow> DecodeClassKey k = Some (p, c) \<longleftrightarrow> no_sep p \<and> no_sep c \<and> k = ClassKey p c"
  unfolding key_ok_def by auto

lemma sub_ok_key: "sub_ok s \<Longrightarrow> key_ok (e_Key s)"
  by (auto simp: sub_ok_def e_Key_def)

text \<open>The invariant of the directory: all keys and entries are the engine's.\<close>

definition ds_ok :: "dir_state \<Rightarrow> bool" where
  "ds_ok st \<longleftrightarrow> (\<forall>k. map_of (ds_kvs st) k \<noteq> None \<longrightarrow> key_ok k) \<and>
     (\<forall>e\<in>set (ds_retired st @ ds_active st). \<forall>s\<in>set (e_Flatten e). sub_ok s)"

lemma sub_apply_keys: "\<forall>k. d k \<noteq> None \<longrightarrow> key_ok k \<Longrightarrow> sub_ok s \<Longrightarrow> sub_apply s d k \<noteq> None \<Longrightarrow> key_ok k"
  using sub_ok_key [of s] by (auto simp: sub_apply_def split: if_splits)

lemma fold_sub_apply_keys:
  "\<forall>k. d k \<noteq> None \<longrightarrow> key_ok k \<Longrightarrow> \<forall>s\<in>set subs. sub_ok s \<Longrightarrow> fold sub_apply subs d k \<noteq> None \<Longrightarrow> key_ok k"
  using fold_sub_apply_dom [of subs d k] sub_ok_key by auto

lemma ds_ok_folded:
  assumes "ds_ok st" "ds_folded st k \<noteq> None"
  shows "key_ok k"
proof -
  let ?subs = "concat (map e_Flatten (ds_retired st))"
  have "\<forall>k. map_of (ds_kvs st) k \<noteq> None \<longrightarrow> key_ok k" "\<forall>s\<in>set ?subs. sub_ok s"
    using assms(1) by (auto simp: ds_ok_def)
  then show ?thesis using fold_sub_apply_keys assms(2) unfolding ds_folded_def fold_entry_apply by blast
qed

lemma ds_ok_db:
  assumes "ds_ok st" "ds_db st k \<noteq> None"
  shows "key_ok k"
proof -
  let ?subs = "concat (map e_Flatten (ds_active st))"
  have "\<forall>k. ds_folded st k \<noteq> None \<longrightarrow> key_ok k" using ds_ok_folded [OF assms(1)] by blast
  moreover have "\<forall>s\<in>set ?subs. sub_ok s" using assms(1) by (auto simp: ds_ok_def)
  ultimately show ?thesis using fold_sub_apply_keys assms(2) unfolding ds_db_def fold_entry_apply by blast
qed

interpretation eng: dir_invariant ds_ok
proof
  fix st ms
  assume ok: "ds_ok st"
  then show "ds_ok (ds_rotated st)" by (auto simp: ds_ok_def ds_rotated_def)
  assume "map_of ms = ds_folded st"
  then show "ds_ok (ds_built st ms)"
    using ok ds_ok_folded [OF ok] by (auto simp: ds_ok_def ds_built_def)
qed

section \<open>The overlay\<close>

definition overlay_view :: "overlay \<Rightarrow> db \<Rightarrow> db" where
  "overlay_view ov base =
     (\<lambda>k. case map_of ov k of None \<Rightarrow> base k | Some v \<Rightarrow> if ov_deleted v then None else Some (ov_data v))"

definition deletes :: "WALEntry \<Rightarrow> bool" where
  "deletes e \<longleftrightarrow> e_Op e = OpDelete \<or> e_Op e = OpDropClass"

lemma overlay_view_Nil [simp]: "overlay_view [] base = base"
  by (simp add: overlay_view_def)

lemma overlay_view_update:
  "overlay_view (AList.update (e_Key e) \<lparr>ov_txID = tx, ov_data = e_Data e, ov_deleted = deletes e\<rparr> ov) base =
     sub_apply e (overlay_view ov base)"
  by (rule ext) (simp add: overlay_view_def update_conv' sub_apply_def deletes_def)

lemma overlay_view_tomb:
  "deletes e \<Longrightarrow> overlay_view (AList.update (e_Key e) \<lparr>ov_txID = tx, ov_data = [], ov_deleted = True\<rparr> ov) base =
     sub_apply e (overlay_view ov base)"
  by (rule ext) (simp add: overlay_view_def update_conv' sub_apply_def deletes_def)

section \<open>The store\<close>

definition snap_holds :: "nat \<Rightarrow> snapshot \<Rightarrow> (bytes \<times> bytes) list \<Rightarrow> bool" where
  "snap_holds fuel snap kvs \<longleftrightarrow>
     (\<exists>D h. tree_of (snap_ReadPage (sn_data snap)) D h (sn_root snap) kvs \<and> enough_fuel fuel h kvs)"

lemma snap_holds_Get: "snap_holds fuel snap kvs \<Longrightarrow> snap_Get fuel snap k = Inr (map_of kvs k)"
  using btree_Get_correct by (auto simp: snap_holds_def snap_Get_def)

lemma snap_holds_Scan:
  "snap_holds fuel snap kvs \<Longrightarrow>
     snap_Scan fuel snap pre fn st = Inr (fst (visit fn (with_prefix pre kvs) (st, False)))"
  using btree_Scan_correct by (auto simp: snap_holds_def snap_Scan_def)

lemma snap_holdsI:
  "h \<le> length kvs \<Longrightarrow> kvs_ok fuel kvs \<Longrightarrow> tree_of (snap_ReadPage (sn_data snap)) D h (sn_root snap) kvs \<Longrightarrow>
   snap_holds fuel snap kvs"
  unfolding snap_holds_def by (intro exI [of _ D] exI [of _ h]) (simp add: kvs_ok_def enough_fuel_def)

text \<open>
  \<open>stores_st cd fuel en st wl\<close>: the engine over a directory in the state \<open>st\<close> with the log \<open>wl\<close>.
\<close>

definition overlay_ok :: "u64 \<Rightarrow> u64 \<Rightarrow> overlay \<Rightarrow> bool" where
  "overlay_ok lo mx ov \<longleftrightarrow> distinct (map fst ov) \<and> (\<forall>(k, v)\<in>set ov. key_ok k \<and> lo < ov_txID v \<and> ov_txID v \<le> mx)"

definition stores_st :: "codec \<Rightarrow> nat \<Rightarrow> engine \<Rightarrow> dir_state \<Rightarrow> bytes \<Rightarrow> bool" where
  "stores_st cd fuel en st wl \<longleftrightarrow>
     dir_has cd fuel (en_dir en) st \<and> ds_ok st \<and> fs_get (en_dir en) RetiredWALName = None \<and>
     fs_get (en_dir en) walName = Some wl \<and> clean_log wl \<and> ds_last st \<le> en_nextTx en \<and>
     ds_gen st = en_activeGen en \<and> en_open en \<and> snap_holds fuel (en_snap en) (ds_kvs st) \<and>
     overlay_view (en_overlay en) (map_of (ds_kvs st)) = ds_db st \<and>
     overlay_ok (ds_applied st) (ds_last st) (en_overlay en)"

definition stores :: "codec \<Rightarrow> nat \<Rightarrow> engine \<Rightarrow> db \<Rightarrow> bool" where
  "stores cd fuel en d \<longleftrightarrow> (\<exists>st wl. stores_st cd fuel en st wl \<and> ds_db st = d)"

lemma stores_keys: "stores cd fuel en d \<Longrightarrow> d k \<noteq> None \<Longrightarrow> key_ok k"
  by (auto simp: stores_def stores_st_def dest: ds_ok_db)

lemma lookup_law:
  assumes "stores (ev_codec ev) (ev_fuel ev) en d"
  shows "en_lookup ev en k = Inr (d k)"
proof -
  from assms obtain st wl where st: "stores_st (ev_codec ev) (ev_fuel ev) en st wl" "ds_db st = d"
    by (auto simp: stores_def)
  then have "snap_Get (ev_fuel ev) (en_snap en) k = Inr (map_of (ds_kvs st) k)"
    "overlay_view (en_overlay en) (map_of (ds_kvs st)) = d"
    using snap_holds_Get by (auto simp: stores_st_def)
  then show ?thesis by (auto simp: en_lookup_def overlay_view_def split: option.splits)
qed

text \<open>Fields that the store does not look at.\<close>

lemma stores_cong:
  "stores cd fuel en d \<Longrightarrow> en_dir en' = en_dir en \<Longrightarrow> en_open en' = en_open en \<Longrightarrow> en_nextTx en' = en_nextTx en \<Longrightarrow>
   en_snap en' = en_snap en \<Longrightarrow> en_overlay en' = en_overlay en \<Longrightarrow> en_activeGen en' = en_activeGen en \<Longrightarrow>
   stores cd fuel en' d"
  by (simp add: stores_def stores_st_def)

lemma stores_update [simp]:
  "stores cd fuel (en\<lparr>en_classes := x\<rparr>) d = stores cd fuel en d"
  "stores cd fuel (en\<lparr>en_idgen := g\<rparr>) d = stores cd fuel en d"
  by (simp_all add: stores_def stores_st_def)

section \<open>Writes\<close>

lemma log_at_le: "log_at cd a fs p es a' \<Longrightarrow> a \<le> a'"
  using max_tx_ge by (auto simp: log_at_def log_entries_def split: option.splits)

lemma dir_has_le: "dir_has cd fuel fs st \<Longrightarrow> ds_applied st \<le> ds_mid st \<and> ds_mid st \<le> ds_last st"
  by (auto simp: dir_has_def intro: log_at_le)

text \<open>A disk that does not fail, and a codec that keeps its law.\<close>

definition ev_ok :: "env \<Rightarrow> bool" where
  "ev_ok ev \<longleftrightarrow> ev_io ev = None \<and> ev_sync ev \<and> (\<forall>e. codec_law (ev_codec ev) e)"

definition tx_left :: "engine \<Rightarrow> bool" where
  "tx_left en \<longleftrightarrow> unat (en_nextTx en) + 1 < 2 ^ 64"

lemma tx_left_less: "tx_left en \<Longrightarrow> en_nextTx en < en_nextTx en + 1"
  by (simp add: tx_left_def word_less_nat_alt unat_word_ariths)

lemma seq_Submit_ok:
  assumes "ev_ok ev" "en_open en"
  shows "seq_Submit ev p en =
    (if length p \<le> MaxRecordLen
     then (en\<lparr>en_nextTx := en_nextTx en + 1,
             en_dir := fs_put walName (fs_contents (en_dir en) walName @ wal_record (en_nextTx en + 1) p) (en_dir en)\<rparr>,
           Inr (en_nextTx en + 1))
     else (en\<lparr>en_nextTx := en_nextTx en + 1, en_dir := fs_put walName (fs_contents (en_dir en) walName) (en_dir en)\<rparr>,
           Inl ErrTooLarge))"
  using assms by (simp add: seq_Submit_def run_batch_ok ev_ok_def)

lemma publish_fields [simp]:
  "en_dir (publish e b tx en) = en_dir en" "en_open (publish e b tx en) = en_open en"
  "en_nextTx (publish e b tx en) = en_nextTx en" "en_snap (publish e b tx en) = en_snap en"
  "en_activeGen (publish e b tx en) = en_activeGen en" "en_classes (publish e b tx en) = en_classes en"
  "en_idgen (publish e b tx en) = en_idgen en" "en_checkpoints (publish e b tx en) = en_checkpoints en"
  by (simp_all add: publish_def)

definition publish_all :: "WALEntry list \<Rightarrow> u64 \<Rightarrow> engine \<Rightarrow> engine" where
  "publish_all subs tx en = fold (\<lambda>s. publish s (deletes s) tx) subs en"

lemma publish_all_simps [simp]:
  "publish_all [] tx en = en"
  "publish_all (s # subs) tx en = publish_all subs tx (publish s (deletes s) tx en)"
  by (simp_all add: publish_all_def)

lemma publish_all_fields [simp]:
  "en_dir (publish_all subs tx en) = en_dir en" "en_open (publish_all subs tx en) = en_open en"
  "en_nextTx (publish_all subs tx en) = en_nextTx en" "en_snap (publish_all subs tx en) = en_snap en"
  "en_activeGen (publish_all subs tx en) = en_activeGen en" "en_classes (publish_all subs tx en) = en_classes en"
  "en_idgen (publish_all subs tx en) = en_idgen en"
  by (induction subs arbitrary: en) simp_all

lemma publish_all_view:
  "overlay_view (en_overlay (publish_all subs tx en)) base = fold sub_apply subs (overlay_view (en_overlay en) base)"
  by (induction subs arbitrary: en) (simp_all add: publish_def overlay_view_update)

lemma overlay_ok_update:
  assumes "overlay_ok lo mx ov" "key_ok k" "lo < ov_txID v" "ov_txID v \<le> mx"
  shows "overlay_ok lo mx (AList.update k v ov)"
proof -
  have "distinct (map fst (AList.update k v ov))" using assms(1) by (simp add: overlay_ok_def distinct_update)
  moreover have "set (AList.update k v ov) \<subseteq> insert (k, v) (set ov)"
    by (induction ov) auto
  ultimately show ?thesis using assms by (fastforce simp: overlay_ok_def)
qed

lemma overlay_ok_mono: "overlay_ok lo mx ov \<Longrightarrow> mx \<le> my \<Longrightarrow> overlay_ok lo my ov"
  by (fastforce simp: overlay_ok_def)

lemma publish_all_ok:
  "overlay_ok lo mx (en_overlay en) \<Longrightarrow> lo < tx \<Longrightarrow> tx \<le> mx \<Longrightarrow> \<forall>s\<in>set subs. sub_ok s \<Longrightarrow>
   overlay_ok lo mx (en_overlay (publish_all subs tx en))"
  by (induction subs arbitrary: en) (simp_all add: publish_def overlay_ok_update sub_ok_key)

text \<open>An entry, which may be a batch, is logged and published.\<close>

lemma commit_law:
  assumes "stores_st cd fuel en st wl" "ds_db st = d" "ev_ok ev" "ev_codec ev = cd" "cd_marshal cd e = Inr p"
    "length p \<le> MaxRecordLen" "tx_left en" "\<forall>s\<in>set (e_Flatten e). sub_ok s" "db_ok fuel (entry_apply e d)"
  shows "\<exists>en'. seq_Submit ev p en = (en', Inr (en_nextTx en + 1)) \<and>
    stores cd fuel (publish_all (e_Flatten e) (en_nextTx en + 1) en') (entry_apply e d) \<and>
    en_classes en' = en_classes en \<and> en_idgen en' = en_idgen en"
proof -
  let ?tx = "en_nextTx en + 1"
  define en' where "en' = en\<lparr>en_nextTx := ?tx, en_dir := fs_put walName (wl @ wal_record ?tx p) (en_dir en)\<rparr>"
  have st: "dir_has cd fuel (en_dir en) st" "ds_ok st" "fs_get (en_dir en) walName = Some wl" "clean_log wl"
    "ds_last st \<le> en_nextTx en" "en_open en" using assms(1) by (simp_all add: stores_st_def)
  have tx: "ds_last st < ?tx" using st(5) tx_left_less [OF assms(7)] by simp
  have "codec_law cd e" using assms(3,4) by (auto simp: ev_ok_def)
  then have dec: "cd_unmarshal cd p = Inr e" using assms(5) by (simp add: codec_law_def)
  have sub: "seq_Submit ev p en = (en', Inr ?tx)"
    using seq_Submit_ok [OF assms(3) st(6)] assms(6) st(3) by (simp add: en'_def fs_contents_def)
  from append_law [OF st(1,3,4) assms(6) dec tx] assms(2,9) have
    app: "dir_has cd fuel (en_dir en') (ds_commit st ?tx e)" "clean_log (wl @ wal_record ?tx p)"
    using st(3) by (simp_all add: en'_def fs_contents_def)
  have "ds_ok (ds_commit st ?tx e)" using st(2) assms(8) by (auto simp: ds_ok_def ds_commit_def)
  moreover have "overlay_ok (ds_applied st) ?tx (en_overlay (publish_all (e_Flatten e) ?tx en'))"
  proof (rule publish_all_ok)
    have "overlay_ok (ds_applied st) (ds_last st) (en_overlay en)" using assms(1) by (simp add: stores_st_def)
    then show "overlay_ok (ds_applied st) ?tx (en_overlay en')" using overlay_ok_mono tx by (fastforce simp: en'_def)
    show "ds_applied st < ?tx" using dir_has_le [OF st(1)] tx by (auto intro: order_le_less_trans)
  qed (use assms(8) in simp_all)
  moreover have "overlay_view (en_overlay (publish_all (e_Flatten e) ?tx en')) (map_of (ds_kvs st)) = entry_apply e d"
    using assms(1,2) by (simp add: publish_all_view entry_apply_def stores_st_def en'_def)
  ultimately have "stores_st cd fuel (publish_all (e_Flatten e) ?tx en') (ds_commit st ?tx e) (wl @ wal_record ?tx p)"
    using assms(1,2) app by (simp add: stores_st_def) (simp add: en'_def ds_commit_def)
  then have "stores cd fuel (publish_all (e_Flatten e) ?tx en') (entry_apply e d)"
    using assms(2) unfolding stores_def by fastforce
  then show ?thesis using sub by (intro exI [of _ en']) (simp add: en'_def)
qed

text \<open>A payload that is too large changes nothing but the counter.\<close>

lemma too_large_law:
  assumes "stores cd fuel en d" "ev_ok ev" "MaxRecordLen < length p" "tx_left en"
  shows "\<exists>en'. seq_Submit ev p en = (en', Inl ErrTooLarge) \<and> stores cd fuel en' d \<and>
    en_classes en' = en_classes en \<and> en_idgen en' = en_idgen en"
proof -
  from assms(1) obtain st wl where st: "stores_st cd fuel en st wl" "ds_db st = d" by (auto simp: stores_def)
  then have open_wl: "en_open en" "fs_get (en_dir en) walName = Some wl" by (simp_all add: stores_st_def)
  let ?en = "en\<lparr>en_nextTx := en_nextTx en + 1, en_dir := fs_put walName wl (en_dir en)\<rparr>"
  have sub: "seq_Submit ev p en = (?en, Inl ErrTooLarge)"
    using seq_Submit_ok [OF assms(2) open_wl(1)] assms(3) open_wl(2) by (simp add: fs_contents_def)
  have "dir_has cd fuel (fs_put walName wl (en_dir en)) st"
    by (rule dir_has_frame) (use st(1) open_wl(2) dir_has_names in \<open>auto simp: stores_st_def split: if_splits\<close>)
  moreover have "ds_last st \<le> en_nextTx en + 1"
    using st(1) tx_left_less [OF assms(4)] unfolding stores_st_def by (meson less_imp_le order_trans)
  ultimately have "stores_st cd fuel ?en st wl" using st(1) by (simp add: stores_st_def)
  with st(2) sub show ?thesis by (auto simp: stores_def)
qed

lemma timestamp_fields [simp]:
  "e_Op (with_timestamp e t) = e_Op e" "e_Project (with_timestamp e t) = e_Project e"
  "e_Class (with_timestamp e t) = e_Class e" "e_ObjectID (with_timestamp e t) = e_ObjectID e"
  "e_Data (with_timestamp e t) = e_Data e" "e_Key (with_timestamp e t) = e_Key e"
  by (simp_all add: with_timestamp_def e_Key_def)

lemma timestamp_same [simp]:
  "publish (with_timestamp e t) b tx en = publish e b tx en" "sub_apply (with_timestamp e t) d = sub_apply e d"
  "sub_ok (with_timestamp e t) = sub_ok e" "deletes (with_timestamp e t) = deletes e"
  by (simp_all add: publish_def sub_apply_def sub_ok_def deletes_def)

lemma sub_ok_flatten: "sub_ok e \<Longrightarrow> e_Flatten (with_timestamp e t) = [with_timestamp e t]"
  by (auto simp: e_Flatten_def sub_ok_def op_defs)

text \<open>
  Either the entry is stored, or the submit fails, for a payload that cannot be marshalled or is
  too large, and nothing that a reader or the disk sees has changed.
\<close>

definition submit_fails :: "error \<Rightarrow> env \<Rightarrow> WALEntry \<Rightarrow> bool" where
  "submit_fails err ev e \<longleftrightarrow>
     (case cd_marshal (ev_codec ev) e of
        Inl e \<Rightarrow> err = e
      | Inr p \<Rightarrow> MaxRecordLen < length p \<and> err = ErrTooLarge)"

lemma submit_law:
  assumes "stores (ev_codec ev) (ev_fuel ev) en d" "ev_ok ev" "tx_left en" "sub_ok e" "del = deletes e"
    "submit ev e del en = (en', r)"
    "\<And>tx. r = Inr tx \<Longrightarrow> db_ok (ev_fuel ev) (sub_apply e d)"
  shows "en_classes en' = en_classes en" "en_idgen en' = en_idgen en"
    "case r of Inr tx \<Rightarrow> stores (ev_codec ev) (ev_fuel ev) en' (sub_apply e d)
       | Inl err \<Rightarrow> submit_fails err ev (with_timestamp e (ev_now ev)) \<and> stores (ev_codec ev) (ev_fuel ev) en' d"
proof -
  let ?e = "with_timestamp e (ev_now ev)"
  let ?Q = "en_classes en' = en_classes en \<and> en_idgen en' = en_idgen en \<and>
    (case r of Inr tx \<Rightarrow> stores (ev_codec ev) (ev_fuel ev) en' (sub_apply e d)
       | Inl err \<Rightarrow> submit_fails err ev ?e \<and> stores (ev_codec ev) (ev_fuel ev) en' d)"
  have ?Q
  proof (cases "cd_marshal (ev_codec ev) ?e")
    case (Inl err)
    with assms(1,6) show ?thesis by (auto simp: submit_def submit_log_def submit_fails_def)
  next
    case (Inr p)
    then have sub: "submit ev e del en = (case seq_Submit ev p en of
        (en, Inl e) \<Rightarrow> (en, Inl e) | (en, Inr tx) \<Rightarrow> (publish e del tx en, Inr tx))"
      by (simp add: submit_def submit_log_def)
    show ?thesis
    proof (cases "length p \<le> MaxRecordLen")
      case False
      with too_large_law [OF assms(1,2) _ assms(3), of p] assms(6) sub Inr show ?thesis
        by (auto simp: submit_fails_def)
    next
      case True
      obtain st wl where st: "stores_st (ev_codec ev) (ev_fuel ev) en st wl" "ds_db st = d"
        using assms(1) by (auto simp: stores_def)
      have "en_open en" using st(1) by (simp add: stores_st_def)
      then have r: "r = Inr (en_nextTx en + 1)"
        using assms(6) sub True seq_Submit_ok [OF assms(2)] by auto
      have fl: "e_Flatten ?e = [?e]" using assms(4) by (rule sub_ok_flatten)
      have "db_ok (ev_fuel ev) (entry_apply ?e d)" using assms(7) [OF r] by (simp add: entry_apply_def fl)
      with commit_law [OF st assms(2) refl Inr True assms(3)] fl assms(4-6) sub r show ?thesis
        by (auto simp: entry_apply_def)
    qed
  qed
  then show "en_classes en' = en_classes en" "en_idgen en' = en_idgen en"
    "case r of Inr tx \<Rightarrow> stores (ev_codec ev) (ev_fuel ev) en' (sub_apply e d)
       | Inl err \<Rightarrow> submit_fails err ev ?e \<and> stores (ev_codec ev) (ev_fuel ev) en' d" by simp_all
qed

section \<open>Checkpoints\<close>

lemma prune_all: "overlay_ok lo mx ov \<Longrightarrow> filter (\<lambda>(k, v). \<not> ov_txID v \<le> mx) ov = []"
  by (fastforce simp: overlay_ok_def filter_empty_conv)

lemma Checkpoint_law:
  assumes "stores (ev_codec ev) (ev_fuel ev) en d"
  shows "\<exists>en'. Checkpoint ev en = (en', Inr ()) \<and> stores (ev_codec ev) (ev_fuel ev) en' d \<and>
    en_classes en' = en_classes en \<and> en_idgen en' = en_idgen en \<and> en_nextTx en' = en_nextTx en \<and> en_overlay en' = [] \<and>
    fs_get (en_dir en') walName = Some [] \<and> en_activeGen en' = en_activeGen en + 1 \<and>
    en_checkpoints en' = en_checkpoints en + 1 \<and> (\<exists>kvs. snap_holds (ev_fuel ev) (en_snap en') kvs \<and> map_of kvs = d)"
proof -
  from assms obtain st wl where s: "stores_st (ev_codec ev) (ev_fuel ev) en st wl" "ds_db st = d"
    by (auto simp: stores_def)
  then have st: "dir_has (ev_codec ev) (ev_fuel ev) (en_dir en) st" "fs_get (en_dir en) RetiredWALName = None"
    "fs_get (en_dir en) walName = Some wl" "ds_ok st" by (simp_all add: stores_st_def)
  from eng.checkpoint_Run_law [OF st] obtain steps snap ms D h where
    c: "checkpoint_Run (ev_codec ev) (ev_fuel ev) (en_dir en) = (steps, Inr (ds_gen st + 1, ds_last st, snap))"
      "map_of ms = ds_db st" "kvs_ok (ev_fuel ev) ms"
      "h \<le> length ms" "tree_of (snap_ReadPage (sn_data snap)) D h (sn_root snap) ms"
      "ds_ok \<lparr>ds_gen = ds_gen st + 1, ds_kvs = ms, ds_applied = ds_last st,
        ds_retired = [], ds_mid = ds_last st, ds_active = [], ds_last = ds_last st\<rparr>"
      "dir_has (ev_codec ev) (ev_fuel ev) (fs_run steps (en_dir en)) \<lparr>ds_gen = ds_gen st + 1, ds_kvs = ms,
        ds_applied = ds_last st, ds_retired = [], ds_mid = ds_last st, ds_active = [], ds_last = ds_last st\<rparr>"
      "fs_get (fs_run steps (en_dir en)) RetiredWALName = None" "fs_get (fs_run steps (en_dir en)) walName = Some []"
    by blast
  let ?st = "\<lparr>ds_gen = ds_gen st + 1, ds_kvs = ms, ds_applied = ds_last st,
        ds_retired = [], ds_mid = ds_last st, ds_active = [], ds_last = ds_last st\<rparr>"
  let ?en = "en\<lparr>en_dir := fs_run steps (en_dir en), en_snap := snap, en_overlay := [],
    en_activeGen := ds_gen st + 1, en_checkpoints := en_checkpoints en + 1\<rparr>"
  have holds: "snap_holds (ev_fuel ev) snap ms" using c(4,3,5) by (rule snap_holdsI)
  have pr: "filter (\<lambda>(k, v). \<not> ov_txID v \<le> ds_last st) (en_overlay en) = []"
    by (rule prune_all [of "ds_applied st"]) (use s(1) in \<open>simp add: stores_st_def\<close>)
  have run: "Checkpoint ev en = (?en, Inr ())"
    using s(1) c(1) pr by (simp add: Checkpoint_def stores_st_def prune_def Let_def)
  have "ds_db ?st = d" using c(2) s(2) by (simp add: ds_db_def ds_folded_def)
  then have "stores_st (ev_codec ev) (ev_fuel ev) ?en ?st []"
    using s c(2,6-9) holds clean_log_empty by (simp add: stores_st_def overlay_ok_def)
  with \<open>ds_db ?st = d\<close> have "stores (ev_codec ev) (ev_fuel ev) ?en d" unfolding stores_def by blast
  with run c(2,9) holds s show ?thesis by (intro exI [of _ ?en]) (auto simp: stores_st_def)
qed

section \<open>Classes\<close>

definition classes_of :: "db \<Rightarrow> bytes set" where
  "classes_of d = {ScopeKey p c |p c. no_sep p \<and> no_sep c \<and> d (ClassKey p c) \<noteq> None}"

definition classes_ok :: "bytes list \<Rightarrow> db \<Rightarrow> bool" where
  "classes_ok cs d \<longleftrightarrow> distinct cs \<and> set cs = classes_of d"

text \<open>A scope key with one separator determines its two parts.\<close>

lemma ScopeKey_split:
  assumes "no_sep p" "no_sep c" "ScopeKey p' c' = ScopeKey p c"
  shows "p' = p \<and> c' = c"
proof -
  have eq: "p' @ keySep # c' = p @ keySep # c" using assms(3) by (simp add: ScopeKey_def)
  have "count_list (p' @ keySep # c') keySep = 1" unfolding eq using assms(1,2) by (simp add: count_notin)
  then have "keySep \<notin> set p'" by (simp add: count_list_0_iff)
  with ScopeKey_inject [OF this assms(1)] assms(3) show ?thesis by simp
qed

lemma in_classes_of:
  "ScopeKey p c \<in> classes_of d \<longleftrightarrow> no_sep p \<and> no_sep c \<and> d (ClassKey p c) \<noteq> None"
  unfolding classes_of_def using ScopeKey_split by blast

lemma classes_of_eqI:
  assumes "A \<subseteq> {ScopeKey p c |p c. no_sep p \<and> no_sep c}"
    "\<And>p c. no_sep p \<Longrightarrow> no_sep c \<Longrightarrow> ScopeKey p c \<in> A \<longleftrightarrow> d (ClassKey p c) \<noteq> None"
  shows "classes_of d = A"
proof (intro set_eqI iffI)
  fix x
  assume "x \<in> classes_of d"
  then show "x \<in> A" using assms(2) by (auto simp: classes_of_def)
next
  fix x
  assume x: "x \<in> A"
  with assms(1) obtain p c where "x = ScopeKey p c" "no_sep p" "no_sep c" by blast
  with x assms(2) show "x \<in> classes_of d" by (simp add: in_classes_of)
qed

lemma classes_of_sub: "classes_of d \<subseteq> {ScopeKey p c |p c. no_sep p \<and> no_sep c}"
  unfolding classes_of_def by blast

lemma classes_of_object: "classes_of (d(ObjectKey p c i := v)) = classes_of d"
  by (simp add: classes_of_def ClassKey_neq_ObjectKey)

lemma classes_of_create:
  "no_sep p \<Longrightarrow> no_sep c \<Longrightarrow> classes_of (d(ClassKey p c \<mapsto> v)) = insert (ScopeKey p c) (classes_of d)"
  by (rule classes_of_eqI) (use classes_of_sub in \<open>auto simp: ClassKey_inject ScopeKey_inject in_classes_of\<close>)

lemma classes_of_drop:
  "no_sep p \<Longrightarrow> no_sep c \<Longrightarrow> classes_of (d(ClassKey p c := None)) = classes_of d - {ScopeKey p c}"
  by (rule classes_of_eqI) (use classes_of_sub in \<open>auto simp: ClassKey_inject ScopeKey_inject in_classes_of\<close>)

section \<open>Opening\<close>

lemma load_visit_fold:
  "visit load_visit kvs (cs, False) = (fold (\<lambda>kv cs. fst (load_visit cs (fst kv) (snd kv))) kvs cs, False)"
  by (induction kvs arbitrary: cs) (auto simp: load_visit_def split: option.splits)

lemma load_fold_set:
  "set (fold (\<lambda>kv cs. fst (load_visit cs (fst kv) (snd kv))) kvs cs) =
     set cs \<union> {ScopeKey p c |p c k v. (k, v) \<in> set kvs \<and> DecodeClassKey k = Some (p, c)} \<and>
   (distinct cs \<longrightarrow> distinct (fold (\<lambda>kv cs. fst (load_visit cs (fst kv) (snd kv))) kvs cs))"
proof (induction kvs arbitrary: cs)
  case (Cons kv kvs)
  obtain k v where kv: "kv = (k, v)" by (cases kv)
  show ?case
  proof (cases "DecodeClassKey k")
    case None
    then show ?thesis using Cons.IH [of cs] kv by (auto simp: load_visit_def)
  next
    case (Some pc)
    obtain p c where "pc = (p, c)" by (cases pc)
    with Some show ?thesis
      using Cons.IH [of "List.insert (ScopeKey p c) cs"] kv by (auto simp: load_visit_def)
  qed
qed simp

lemma loadClasses_law:
  assumes "snap_holds (ev_fuel ev) snap kvs" "\<forall>k. map_of kvs k \<noteq> None \<longrightarrow> key_ok k"
  shows "\<exists>cs. loadClasses ev snap = Inr cs \<and> classes_ok cs (map_of kvs)"
proof -
  let ?kvs = "with_prefix [0x01] kvs"
  let ?cs = "fold (\<lambda>kv cs. fst (load_visit cs (fst kv) (snd kv))) ?kvs []"
  have "loadClasses ev snap = Inr ?cs"
    by (simp add: loadClasses_def snap_holds_Scan [OF assms(1)] load_visit_fold)
  moreover have "set ?cs = classes_of (map_of kvs)"
  proof -
    have key: "key_ok k" if "(k, v) \<in> set kvs" for k v
      using assms(2) that by (metis domIff dom_map_of_conv_image_fst fst_conv image_eqI)
    have pre: "(ClassKey p c, v) \<in> set ?kvs \<longleftrightarrow> (ClassKey p c, v) \<in> set kvs" for p c v
      by (simp add: has_prefix_def ClassKey_def nsClass_def)
    have "{ScopeKey p c |p c k v. (k, v) \<in> set ?kvs \<and> DecodeClassKey k = Some (p, c)} = classes_of (map_of kvs)"
      (is "?L = ?R")
    proof (intro set_eqI iffI)
      fix x assume "x \<in> ?L"
      then obtain p c k v where x: "x = ScopeKey p c" "(k, v) \<in> set kvs" "DecodeClassKey k = Some (p, c)" by auto
      then have "no_sep p" "no_sep c" "k = ClassKey p c" using key_ok_decode(2) [OF key [OF x(2)]] by auto
      moreover from this x(2) have "map_of kvs (ClassKey p c) \<noteq> None"
        using weak_map_of_SomeI by fastforce
      ultimately show "x \<in> ?R" using x(1) unfolding classes_of_def by blast
    next
      fix x assume "x \<in> ?R"
      then obtain p c v where x: "x = ScopeKey p c" "no_sep p" "no_sep c" "(ClassKey p c, v) \<in> set kvs"
        by (auto simp: classes_of_def dest: map_of_SomeD)
      then have "(ClassKey p c, v) \<in> set ?kvs" using pre by blast
      with x show "x \<in> ?L" by fastforce
    qed
    then show ?thesis using load_fold_set [of ?kvs "[]"] by simp
  qed
  moreover have "distinct ?cs" using load_fold_set [of ?kvs "[]"] by simp
  ultimately show ?thesis by (auto simp: classes_ok_def)
qed

lemma replay_one_fields [simp]:
  "en_dir (applyReplay_one r en) = en_dir en" "en_open (applyReplay_one r en) = en_open en"
  "en_nextTx (applyReplay_one r en) = en_nextTx en" "en_snap (applyReplay_one r en) = en_snap en"
  "en_activeGen (applyReplay_one r en) = en_activeGen en" "en_idgen (applyReplay_one r en) = en_idgen en"
  by (cases r; simp add: applyReplay_one_def Let_def)+

lemma replay_one_law:
  assumes "sub_ok e" "lo < tx" "tx \<le> mx" "overlay_ok lo mx (en_overlay en)"
    "classes_ok (en_classes en) (overlay_view (en_overlay en) base)"
  shows "overlay_view (en_overlay (applyReplay_one (tx, e) en)) base = sub_apply e (overlay_view (en_overlay en) base)"
    "overlay_ok lo mx (en_overlay (applyReplay_one (tx, e) en))"
    "classes_ok (en_classes (applyReplay_one (tx, e) en)) (sub_apply e (overlay_view (en_overlay en) base))"
proof -
  have ns: "no_sep (e_Project e)" "no_sep (e_Class e)" using assms(1) by (simp_all add: sub_ok_def)
  have op: "e_Op e = OpPut \<or> e_Op e = OpDelete \<or> e_Op e = OpCreateClass \<or> e_Op e = OpDropClass"
    using assms(1) by (auto simp: sub_ok_def)
  have put: "overlay_view (AList.update (e_Key e) \<lparr>ov_txID = tx, ov_data = e_Data e, ov_deleted = False\<rparr> (en_overlay en)) base =
      sub_apply e (overlay_view (en_overlay en) base)" if "\<not> deletes e"
    using overlay_view_update [of e tx "en_overlay en" base] that by simp
  show "overlay_view (en_overlay (applyReplay_one (tx, e) en)) base = sub_apply e (overlay_view (en_overlay en) base)"
    using op put overlay_view_tomb [of e tx "en_overlay en" base]
    by (auto simp: applyReplay_one_def Let_def deletes_def op_defs)
  show "overlay_ok lo mx (en_overlay (applyReplay_one (tx, e) en))"
    using op assms(2-4) sub_ok_key [OF assms(1)] by (auto simp: applyReplay_one_def Let_def overlay_ok_update)
  show "classes_ok (en_classes (applyReplay_one (tx, e) en)) (sub_apply e (overlay_view (en_overlay en) base))"
    using op assms(5) ns
    by (auto simp: applyReplay_one_def Let_def classes_ok_def sub_apply_def e_Key_def op_defs classes_of_object
        classes_of_create classes_of_drop distinct_removeAll)
qed

lemma applyReplay_law:
  assumes "\<forall>(tx, e)\<in>set rs. sub_ok e \<and> lo < tx \<and> tx \<le> mx" "overlay_ok lo mx (en_overlay en)"
    "classes_ok (en_classes en) (overlay_view (en_overlay en) base)"
  shows "overlay_view (en_overlay (applyReplay rs en)) base = fold sub_apply (map snd rs) (overlay_view (en_overlay en) base) \<and>
    overlay_ok lo mx (en_overlay (applyReplay rs en)) \<and>
    classes_ok (en_classes (applyReplay rs en)) (fold sub_apply (map snd rs) (overlay_view (en_overlay en) base)) \<and>
    en_dir (applyReplay rs en) = en_dir en \<and> en_open (applyReplay rs en) = en_open en \<and>
    en_nextTx (applyReplay rs en) = en_nextTx en \<and> en_snap (applyReplay rs en) = en_snap en \<and>
    en_activeGen (applyReplay rs en) = en_activeGen en \<and> en_idgen (applyReplay rs en) = en_idgen en"
  using assms
proof (induction rs arbitrary: en)
  case Nil
  then show ?case by (simp add: applyReplay_def)
next
  case (Cons r rs)
  obtain tx e where r: "r = (tx, e)" by (cases r)
  with Cons.prems have "sub_ok e" "lo < tx" "tx \<le> mx" by auto
  note one = replay_one_law [OF this Cons.prems(2,3)]
  have step: "applyReplay ((tx, e) # rs) en = applyReplay rs (applyReplay_one (tx, e) en)" by (simp add: applyReplay_def)
  have "\<forall>(tx, e)\<in>set rs. sub_ok e \<and> lo < tx \<and> tx \<le> mx" using Cons.prems(1) by simp
  from Cons.IH [OF this one(2)] one(1,3) show ?case by (simp add: step r)
qed

text \<open>What recovery has found, put together into an engine.\<close>

lemma open_recovered_law:
  assumes "dir_has (ev_codec ev) (ev_fuel ev) fs st" "ds_ok st" "ds_complete st" "resumes (ev_fuel ev) fs st res"
  shows "safe ds_ok (ev_codec ev) (ev_fuel ev) (open_recovered ev res) fs (ds_db st)
    (\<lambda>en fs'. en_dir en = fs' \<and> stores (ev_codec ev) (ev_fuel ev) en (ds_db st) \<and>
      classes_ok (en_classes en) (ds_db st) \<and> en_nextTx en = ds_last st \<and> en_idgen en = rr_Gen res \<and>
      snap_holds (ev_fuel ev) (en_snap en) (ds_kvs st))"
proof -
  let ?cd = "ev_codec ev" and ?fuel = "ev_fuel ev"
  from assms(4) have r: "rr_ActiveGen res = ds_gen st" "rr_LastTxID res = ds_last st"
    "fold sub_apply (map snd (rr_Replayed res)) (map_of (ds_kvs st)) = ds_db st"
    "map snd (rr_Replayed res) = concat (map e_Flatten (ds_active st))"
    "\<forall>t\<in>set (rr_Replayed res). ds_applied st < fst t \<and> fst t \<le> ds_last st"
    "\<And>f. fs_get fs walName = Some f \<Longrightarrow> clean_log f" "fs_get fs RetiredWALName = None"
    by (auto simp: resumes_def)
  from assms(1) obtain f where f: "fs_get fs (DataFile (ds_gen st)) = Some f" "data_holds f (ds_applied st) (ds_kvs st)"
    "kvs_ok ?fuel (ds_kvs st)" by (auto simp: dir_has_def)
  from data_holds_snapshot [OF f(2)] obtain snap h D where snap: "openSnapshot f = Inr snap" "h \<le> length (ds_kvs st)"
    "tree_of (snap_ReadPage (sn_data snap)) D h (sn_root snap) (ds_kvs st)" by blast
  have holds: "snap_holds ?fuel snap (ds_kvs st)" using snap(2) f(3) snap(3) by (rule snap_holdsI)
  from loadClasses_law [OF holds] assms(2) obtain cs where cs: "loadClasses ev snap = Inr cs" "classes_ok cs (map_of (ds_kvs st))"
    by (auto simp: ds_ok_def)
  define wl where "wl = fs_contents fs walName"
  have wl: "clean_log wl" using r(6) clean_log_empty by (cases "fs_get fs walName") (simp_all add: wl_def fs_contents_def)
  define fs1 where "fs1 = fs_put walName wl fs"
  have h1: "dir_has ?cd ?fuel fs1 st"
  proof (cases "fs_get fs walName")
    case None
    then have "ds_active st = [] \<and> ds_last st = ds_mid st" "wl = []"
      using assms(1) by (simp_all add: dir_has_def log_at_def wl_def fs_contents_def)
    with dir_has_wal [OF assms(1) log_entries_empty] assms(1) show ?thesis
      by (simp add: fs1_def dir_has_def ds_db_def)
  next
    case (Some f)
    then have "wl = f" by (simp add: wl_def fs_contents_def)
    then show ?thesis using Some dir_has_names [OF assms(1)] unfolding fs1_def
      by (intro dir_has_frame [OF assms(1)]) auto
  qed
  define en0 where "en0 = \<lparr>en_dir = fs1, en_open = True, en_nextTx = ds_last st, en_snap = snap, en_idgen = rr_Gen res,
    en_overlay = [], en_classes = cs, en_activeGen = ds_gen st, en_checkpoints = 0\<rparr>"
  define en where "en = applyReplay (rr_Replayed res) en0"
  have "\<forall>(tx, e)\<in>set (rr_Replayed res). sub_ok e \<and> ds_applied st < tx \<and> tx \<le> ds_last st"
  proof -
    have "\<forall>e\<in>set (map snd (rr_Replayed res)). sub_ok e" unfolding r(4) using assms(2) by (auto simp: ds_ok_def)
    then show ?thesis using r(5) by auto
  qed
  from applyReplay_law [OF this, of en0 "map_of (ds_kvs st)"] cs(2) have
    en: "overlay_view (en_overlay en) (map_of (ds_kvs st)) = ds_db st" "overlay_ok (ds_applied st) (ds_last st) (en_overlay en)"
      "classes_ok (en_classes en) (ds_db st)" "en_dir en = fs1" "en_open en" "en_nextTx en = ds_last st"
      "en_snap en = snap" "en_activeGen en = ds_gen st" "en_idgen en = rr_Gen res"
    by (simp_all add: en_def en0_def overlay_ok_def r(3))
  have "stores_st ?cd ?fuel en st wl"
    using h1 assms(2) r(7) wl en holds by (simp add: stores_st_def) (simp add: fs1_def)
  then have store: "stores ?cd ?fuel en (ds_db st)" unfolding stores_def by blast
  have "open_recovered ev res fs = ([] @ [FCreate walName] @ [], Inr en)"
    unfolding open_recovered_def
    by (rule fs_bind_Inr, simp add: fs_reads_def r(1) f(1) snap(1))
      (rule fs_bind_Inr, simp add: fs_steps_def, simp add: fs_reads_def cs(1) en_def en0_def r(1,2) fs1_def wl_def)
  moreover have "dir_db_of ds_ok ?cd ?fuel fs' (ds_db st)" if "crashed [FCreate walName] fs fs'" for fs'
  proof -
    from that have "fs' = fs \<or> fs' = fs1" by (auto simp: fs1_def wl_def)
    then show ?thesis using assms(1,2) h1 by (auto simp: dir_db_of_def)
  qed
  ultimately show ?thesis using store holds en(3-7,9) by (simp add: safe_def) (simp add: fs1_def wl_def)
qed

lemma Open_law:
  assumes "dir_has (ev_codec ev) (ev_fuel ev) fs st" "ds_ok st"
  shows "safe ds_ok (ev_codec ev) (ev_fuel ev) (en_Open ev) fs (ds_db st)
    (\<lambda>en fs'. en_dir en = fs' \<and> stores (ev_codec ev) (ev_fuel ev) en (ds_db st) \<and>
      classes_ok (en_classes en) (ds_db st) \<and>
      (\<exists>kvs subs. en_idgen en = observe_all kvs subs \<and> fold sub_apply subs (map_of kvs) = ds_db st \<and>
        subs = concat (map e_Flatten (ds_active st)) \<and> (\<forall>s\<in>set subs. sub_ok s)))"
  unfolding en_Open_def
proof (rule safe_bind [OF eng.Recover_law [OF assms]])
  fix res fs1
  assume "\<exists>st'. ds_ok st' \<and> dir_has (ev_codec ev) (ev_fuel ev) fs1 st' \<and> ds_complete st' \<and> map_of (ds_kvs st') = ds_folded st \<and>
    ds_active st' = ds_active st \<and> ds_last st' = ds_last st \<and> resumes (ev_fuel ev) fs1 st' res"
  then obtain st' where s: "ds_ok st'" "dir_has (ev_codec ev) (ev_fuel ev) fs1 st'" "ds_complete st'"
    "map_of (ds_kvs st') = ds_folded st" "ds_active st' = ds_active st" "resumes (ev_fuel ev) fs1 st' res" by blast
  have db: "ds_db st' = ds_db st" using s(3-5) by (simp add: ds_db_def ds_folded_def ds_complete_def)
  have g: "rr_Gen res = observe_all (ds_kvs st') (map snd (rr_Replayed res)) \<and>
    fold sub_apply (map snd (rr_Replayed res)) (map_of (ds_kvs st')) = ds_db st \<and>
    map snd (rr_Replayed res) = concat (map e_Flatten (ds_active st))"
    using s(5,6) db unfolding resumes_def by metis
  have "\<forall>s\<in>set (concat (map e_Flatten (ds_active st))). sub_ok s" using assms(2) by (auto simp: ds_ok_def)
  with g have gen: "\<exists>kvs subs. rr_Gen res = observe_all kvs subs \<and> fold sub_apply subs (map_of kvs) = ds_db st \<and>
        subs = concat (map e_Flatten (ds_active st)) \<and> (\<forall>s\<in>set subs. sub_ok s)" by metis
  from open_recovered_law [OF s(2,1,3,6)] gen
  show "safe ds_ok (ev_codec ev) (ev_fuel ev) (open_recovered ev res) fs1 (ds_db st)
    (\<lambda>en fs'. en_dir en = fs' \<and> stores (ev_codec ev) (ev_fuel ev) en (ds_db st) \<and>
      classes_ok (en_classes en) (ds_db st) \<and>
      (\<exists>kvs subs. en_idgen en = observe_all kvs subs \<and> fold sub_apply subs (map_of kvs) = ds_db st \<and>
        subs = concat (map e_Flatten (ds_active st)) \<and> (\<forall>s\<in>set subs. sub_ok s)))"
    unfolding db safe_def by auto
qed

end
