(* ===== verification/EngineQuery.thy ===== *)
theory EngineQuery
  imports EngineStore
begin

text \<open>
  Queries over a class: scanning the snapshot and applying the overlay gives exactly the objects of
  the class in the database, whatever is in the one and what in the other; the answer lists those
  that match, in ascending id order, cut to the page asked for.
\<close>

section \<open>The merged objects\<close>

definition objects :: "bytes \<Rightarrow> bytes \<Rightarrow> db \<Rightarrow> u64 \<Rightarrow> bytes option" where
  "objects p c d i = d (ObjectKey p c i)"

lemma query_visit_fold:
  "visit (query_visit p c) kvs (m, False) = (fold (\<lambda>kv m. fst (query_visit p c m (fst kv) (snd kv))) kvs m, False)"
  by (induction kvs arbitrary: m) (auto simp: query_visit_def split: option.splits)

lemma query_fold:
  assumes "\<forall>kv\<in>set kvs. key_ok (fst kv)" "distinct (map fst kvs)" "no_sep p" "no_sep c"
  shows "map_of (fold (\<lambda>kv m. fst (query_visit p c m (fst kv) (snd kv))) kvs m) i =
      (case map_of kvs (ObjectKey p c i) of None \<Rightarrow> map_of m i | Some v \<Rightarrow> Some v) \<and>
    (distinct (map fst m) \<longrightarrow> distinct (map fst (fold (\<lambda>kv m. fst (query_visit p c m (fst kv) (snd kv))) kvs m)))"
  using assms(1,2)
proof (induction kvs arbitrary: m)
  case (Cons kv kvs)
  obtain k v where kv: "kv = (k, v)" by (cases kv)
  have k: "key_ok k" "k \<notin> fst ` set kvs" using Cons.prems kv by auto
  show ?case
  proof (cases "DecodeObjectKey k")
    case None
    then have "k \<noteq> ObjectKey p c i" using assms(3,4) by auto
    with None Cons.IH [of m] Cons.prems kv show ?thesis by (auto simp: query_visit_def)
  next
    case (Some t)
    obtain p' c' j where t: "t = (p', c', j)" by (cases t)
    with Some have kk: "no_sep p'" "no_sep c'" "k = ObjectKey p' c' j" using key_ok_decode(1) [OF k(1)] by auto
    show ?thesis
    proof (cases "p' = p \<and> c' = c")
      case True
      have "map_of kvs (ObjectKey p c j) = None" using k(2) kk True by (simp add: map_of_eq_None_iff)
      with True t Some kk Cons.IH [of "AList.update j v m"] Cons.prems kv assms(3,4) show ?thesis
        by (auto simp: query_visit_def update_conv' ObjectKey_inject distinct_update split: option.splits)
    next
      case False
      then have "k \<noteq> ObjectKey p c i" using kk assms(3,4) by (auto simp: ObjectKey_inject)
      with False t Some Cons.IH [of m] Cons.prems kv show ?thesis by (auto simp: query_visit_def)
    qed
  qed
qed simp

lemma query_snapshot_law:
  assumes "snap_holds (ev_fuel ev) snap kvs" "\<forall>k. map_of kvs k \<noteq> None \<longrightarrow> key_ok k" "no_sep p" "no_sep c"
  shows "\<exists>m. query_snapshot ev snap p c = Inr m \<and> map_of m = objects p c (map_of kvs) \<and> distinct (map fst m)"
proof -
  let ?kvs = "with_prefix (ObjectPrefix p c) kvs"
  let ?m = "fold (\<lambda>kv m. fst (query_visit p c m (fst kv) (snd kv))) ?kvs []"
  have "sorted_wrt (<) (map fst kvs)" using assms(1) by (auto simp: snap_holds_def tree_of_def)
  then have dk: "distinct (map fst kvs)" by (simp add: strict_sorted_iff)
  then have d: "distinct (map fst ?kvs)" by (simp add: distinct_map_filter)
  have ok: "\<forall>kv\<in>set ?kvs. key_ok (fst kv)"
    using assms(2) by (auto simp: map_of_eq_None_iff image_iff)
  have "map_of ?kvs (ObjectKey p c i) = map_of kvs (ObjectKey p c i)" for i
  proof -
    have "has_prefix (ObjectPrefix p c) (ObjectKey p c i)"
      by (simp add: has_prefix_def ObjectPrefix_def ObjectKey_def)
    then have "(ObjectKey p c i, v) \<in> set ?kvs \<longleftrightarrow> (ObjectKey p c i, v) \<in> set kvs" for v by simp
    then show ?thesis using d dk by (metis map_of_eq_Some_iff option.exhaust)
  qed
  then have "map_of ?m = objects p c (map_of kvs)"
    using query_fold [OF ok d assms(3,4), of "[]"] by (auto simp: objects_def fun_eq_iff split: option.splits)
  moreover have "query_snapshot ev snap p c = Inr ?m"
    by (simp add: query_snapshot_def snap_holds_Scan [OF assms(1)] query_visit_fold)
  ultimately show ?thesis using query_fold [OF ok d assms(3,4), of "[]"] by auto
qed

lemma query_overlay_law:
  assumes "distinct (map fst ov)" "\<forall>(k, v)\<in>set ov. key_ok k" "no_sep p" "no_sep c"
  shows "map_of (query_overlay p c ov m) i =
      (case map_of ov (ObjectKey p c i) of None \<Rightarrow> map_of m i
       | Some v \<Rightarrow> if ov_deleted v then None else Some (ov_data v)) \<and>
    (distinct (map fst m) \<longrightarrow> distinct (map fst (query_overlay p c ov m)))"
  using assms(1,2)
proof (induction ov arbitrary: m)
  case (Cons kv ov)
  obtain k v where kv: "kv = (k, v)" by (cases kv)
  have k: "key_ok k" "k \<notin> fst ` set ov" "distinct (map fst ov)" "\<forall>(k, v)\<in>set ov. key_ok k"
    using Cons.prems kv by auto
  show ?case
  proof (cases "DecodeObjectKey k")
    case None
    then have "k \<noteq> ObjectKey p c i" using assms(3,4) by auto
    with None Cons.IH [OF k(3,4), of m] kv show ?thesis by auto
  next
    case (Some t)
    obtain p' c' j where t: "t = (p', c', j)" by (cases t)
    with Some have kk: "no_sep p'" "no_sep c'" "k = ObjectKey p' c' j" using key_ok_decode(1) [OF k(1)] by auto
    show ?thesis
    proof (cases "p' = p \<and> c' = c")
      case True
      have "map_of ov (ObjectKey p c j) = None" using k(2) kk True by (simp add: map_of_eq_None_iff)
      with True t Some kk Cons.IH [OF k(3,4), of "if ov_deleted v then AList.delete j m else AList.update j (ov_data v) m"]
        kv assms(3,4) show ?thesis
        by (auto simp: update_conv' delete_conv' ObjectKey_inject distinct_update distinct_delete split: option.splits)
    next
      case False
      then have "k \<noteq> ObjectKey p c i" using kk assms(3,4) by (auto simp: ObjectKey_inject)
      with False t Some Cons.IH [OF k(3,4), of m] kv show ?thesis by auto
    qed
  qed
qed simp

lemma merged_law:
  assumes "stores (ev_codec ev) (ev_fuel ev) en d" "no_sep p" "no_sep c"
  shows "\<exists>m. query_snapshot ev (en_snap en) p c = Inr m \<and>
    map_of (query_overlay p c (en_overlay en) m) = objects p c d \<and> distinct (map fst (query_overlay p c (en_overlay en) m))"
proof -
  from assms(1) obtain st wl where st: "stores_st (ev_codec ev) (ev_fuel ev) en st wl" "ds_db st = d"
    by (auto simp: stores_def)
  then have h: "snap_holds (ev_fuel ev) (en_snap en) (ds_kvs st)" "\<forall>k. map_of (ds_kvs st) k \<noteq> None \<longrightarrow> key_ok k"
    "overlay_view (en_overlay en) (map_of (ds_kvs st)) = d" "distinct (map fst (en_overlay en))"
    "\<forall>(k, v)\<in>set (en_overlay en). key_ok k"
    by (auto simp: stores_st_def ds_ok_def overlay_ok_def)
  from query_snapshot_law [OF h(1,2) assms(2,3)] obtain m where
    m: "query_snapshot ev (en_snap en) p c = Inr m" "map_of m = objects p c (map_of (ds_kvs st))" "distinct (map fst m)" by blast
  have "map_of (query_overlay p c (en_overlay en) m) = objects p c d"
    using query_overlay_law [OF h(4,5) assms(2,3), of m] m(2)
    by (auto simp: fun_eq_iff objects_def overlay_view_def simp flip: h(3) split: option.splits)
  with m query_overlay_law [OF h(4,5) assms(2,3), of m] show ?thesis by auto
qed

section \<open>The page\<close>

definition id_sorted :: "u64 list \<Rightarrow> bool" where
  "id_sorted ids \<longleftrightarrow> sorted_wrt (\<lambda>i j. sint i < sint j) ids"

lemma id_sorted_sort: "distinct ids \<Longrightarrow> id_sorted (sort_key sint ids)"
proof -
  assume "distinct ids"
  then have "distinct (map sint (sort_key sint ids))"
    by (simp add: distinct_map inj_on_def signed_word_eqI)
  moreover have "sorted (map sint (sort_key sint ids))" by simp
  ultimately have "sorted_wrt (<) (map sint (sort_key sint ids))" by (simp only: strict_sorted_iff simp_thms)
  then show ?thesis by (simp add: id_sorted_def sorted_wrt_map)
qed

lemma query_match_law:
  assumes "\<forall>t\<in>set m. case match of None \<Rightarrow> P (snd t) | Some f \<Rightarrow> f (snd t) = Inr (P (snd t))"
  shows "query_match match m = Inr (map fst (filter (\<lambda>t. P (snd t)) m))"
  using assms by (induction m) (auto split: option.splits)

text \<open>What a query answers, for a filter that decides \<open>P\<close> on every object of the class.\<close>

definition lists :: "(u64 \<Rightarrow> bytes option) \<Rightarrow> (bytes \<Rightarrow> bool) \<Rightarrow> int \<Rightarrow> int \<Rightarrow> (u64 \<times> bytes) list \<Rightarrow> bool" where
  "lists os P limit offset out \<longleftrightarrow>
     (\<exists>ids. id_sorted ids \<and> set ids = {i. \<exists>v. os i = Some v \<and> P v} \<and>
        out = map (\<lambda>i. (i, the (os i))) (paginate limit offset ids))"

lemma paginate_subset: "set (paginate limit offset ids) \<subseteq> set ids"
  by (auto simp: paginate_def Let_def dest: in_set_takeD in_set_dropD split: if_splits)

lemma query_page_law:
  assumes "map_of m = os" "distinct (map fst m)"
    "\<forall>i v. os i = Some v \<longrightarrow> (case match of None \<Rightarrow> P v | Some f \<Rightarrow> f v = Inr (P v))"
  shows "\<exists>out. query_page match limit offset m = Inr out \<and> lists os P limit offset out"
proof -
  let ?ids = "map fst (filter (\<lambda>t. P (snd t)) m)"
  have mem: "(i, v) \<in> set m \<longleftrightarrow> os i = Some v" for i v using assms(1,2) map_of_eq_Some_iff by metis
  then have "query_match match m = Inr ?ids" using assms(3) by (intro query_match_law) auto
  then have page: "query_page match limit offset m =
      Inr (map (\<lambda>i. (i, data_at m i)) (paginate limit offset (sort_key sint ?ids)))"
    by (simp add: query_page_def)
  have "distinct ?ids" using assms(2) by (rule distinct_map_filter)
  then have sorted: "id_sorted (sort_key sint ?ids)" by (rule id_sorted_sort)
  have set: "set (sort_key sint ?ids) = {i. \<exists>v. os i = Some v \<and> P v}" using mem by force
  have "map (\<lambda>i. (i, data_at m i)) (paginate limit offset (sort_key sint ?ids)) =
      map (\<lambda>i. (i, the (os i))) (paginate limit offset (sort_key sint ?ids))"
    using paginate_subset [of limit offset "sort_key sint ?ids"] set
    by (intro map_cong) (auto simp: data_at_def assms(1))
  with page sorted set show ?thesis unfolding lists_def by blast
qed

lemma QueryObjects_law:
  assumes "stores (ev_codec ev) (ev_fuel ev) en d" "ClassExists en p c" "no_sep p" "no_sep c"
    "\<forall>i v. objects p c d i = Some v \<longrightarrow> (case match of None \<Rightarrow> P v | Some f \<Rightarrow> f v = Inr (P v))"
  shows "\<exists>out. QueryObjects ev en p c match limit offset = Inr out \<and> lists (objects p c d) P limit offset out"
proof -
  from merged_law [OF assms(1,3,4)] obtain m where m: "query_snapshot ev (en_snap en) p c = Inr m"
    "map_of (query_overlay p c (en_overlay en) m) = objects p c d"
    "distinct (map fst (query_overlay p c (en_overlay en) m))" by blast
  from query_page_law [OF m(2,3) assms(5)] m(1) assms(2) show ?thesis by (simp add: QueryObjects_def)
qed

end
