(* ===== verification/EngineSpec.thy ===== *)
theory EngineSpec
  imports EngineQuery
begin

text \<open>
  The contract of the object store and its refinement. The specification of every operation is a
  relation on the database as a map from keys to values; \<open>represents en d\<close> says that the engine
  stands for \<open>d\<close>. Every operation of the engine does what its specification says, and the engine
  opened after a crash represents what was represented before.
\<close>

section \<open>Commands\<close>

datatype cmd =
    Cmd_CreateClass bytes bytes
  | Cmd_DropClass bytes bytes
  | Cmd_Create bytes bytes bytes
  | Cmd_Bulk bytes bytes "bytes list"
  | Cmd_Put bytes bytes u64 bytes
  | Cmd_Delete bytes bytes u64
  | Cmd_Get bytes bytes u64
  | Cmd_List bytes bytes int int
  | Cmd_Checkpoint

datatype reply =
    RUnit
  | RId u64
  | RIds "u64 list"
  | RObject "bytes option"
  | RObjects "(u64 \<times> bytes) list"

definition reply_with :: "('a \<Rightarrow> reply) \<Rightarrow> engine \<times> 'a res \<Rightarrow> engine \<times> reply res" where
  "reply_with f = map_prod id (map_sum id f)"

fun exec :: "env \<Rightarrow> cmd \<Rightarrow> engine \<Rightarrow> engine \<times> reply res" where
  "exec ev (Cmd_CreateClass p c) en = reply_with (\<lambda>_. RUnit) (CreateClass ev p c en)"
| "exec ev (Cmd_DropClass p c) en = reply_with (\<lambda>_. RUnit) (DropClass ev p c en)"
| "exec ev (Cmd_Create p c data) en = reply_with RId (CreateObject ev p c data en)"
| "exec ev (Cmd_Bulk p c datas) en = reply_with RIds (CreateObjectsBulk ev p c datas en)"
| "exec ev (Cmd_Put p c i data) en = reply_with (\<lambda>_. RUnit) (PutObject ev p c i data en)"
| "exec ev (Cmd_Delete p c i) en = reply_with (\<lambda>_. RUnit) (DeleteObject ev p c i en)"
| "exec ev (Cmd_Get p c i) en = reply_with RObject (en, GetObject ev en p c i)"
| "exec ev (Cmd_List p c limit offset) en = reply_with RObjects (en, ListObjects ev en p c limit offset)"
| "exec ev Cmd_Checkpoint en = reply_with (\<lambda>_. RUnit) (Checkpoint ev en)"

section \<open>Specification\<close>

definition has_class :: "bytes \<Rightarrow> bytes \<Rightarrow> db \<Rightarrow> bool" where
  "has_class p c d \<longleftrightarrow> no_sep p \<and> no_sep c \<and> d (ClassKey p c) \<noteq> None"

text \<open>An id that no object of the class has, above all of them.\<close>

definition fresh_id :: "bytes \<Rightarrow> bytes \<Rightarrow> db \<Rightarrow> u64 \<Rightarrow> bool" where
  "fresh_id p c d i \<longleftrightarrow> 0 < sint i \<and> (\<forall>j. objects p c d j \<noteq> None \<longrightarrow> sint j < sint i)"

definition put_objects :: "bytes \<Rightarrow> bytes \<Rightarrow> (u64 \<times> bytes) list \<Rightarrow> db \<Rightarrow> db" where
  "put_objects p c xs d = fold (\<lambda>(i, v) d. d(ObjectKey p c i \<mapsto> v)) xs d"

text \<open>\<open>spec cmd d r d'\<close>: on the database \<open>d\<close> the command may answer \<open>r\<close> and leave \<open>d'\<close>.\<close>

fun spec :: "cmd \<Rightarrow> db \<Rightarrow> reply res \<Rightarrow> db \<Rightarrow> bool" where
  "spec (Cmd_CreateClass p c) d r d' \<longleftrightarrow>
     (if \<not> validName c \<or> \<not> validProject p then r = Inl ErrInvalidName \<and> d' = d
      else if has_class p c d then r = Inl ErrClassExists \<and> d' = d
      else r = Inr RUnit \<and> d' = d(ClassKey p c \<mapsto> []))"
| "spec (Cmd_DropClass p c) d r d' \<longleftrightarrow>
     (if \<not> has_class p c d then r = Inl ErrNoClass \<and> d' = d
      else if objects p c d \<noteq> Map.empty then r = Inl ErrClassNotEmpty \<and> d' = d
      else r = Inr RUnit \<and> d' = d(ClassKey p c := None))"
| "spec (Cmd_Create p c data) d r d' \<longleftrightarrow>
     (if \<not> has_class p c d then r = Inl ErrNoClass \<and> d' = d
      else \<exists>i. fresh_id p c d i \<and> r = Inr (RId i) \<and> d' = d(ObjectKey p c i \<mapsto> data))"
| "spec (Cmd_Bulk p c datas) d r d' \<longleftrightarrow>
     (if \<not> has_class p c d then r = Inl ErrNoClass \<and> d' = d
      else \<exists>ids. length ids = length datas \<and> id_sorted ids \<and> (\<forall>i\<in>set ids. fresh_id p c d i) \<and>
        r = Inr (RIds ids) \<and> d' = put_objects p c (zip ids datas) d)"
| "spec (Cmd_Put p c i data) d r d' \<longleftrightarrow>
     (if \<not> has_class p c d then r = Inl ErrNoClass \<and> d' = d
      else if objects p c d i = None then r = Inl ErrNotFound \<and> d' = d
      else r = Inr RUnit \<and> d' = d(ObjectKey p c i \<mapsto> data))"
| "spec (Cmd_Delete p c i) d r d' \<longleftrightarrow>
     (if \<not> has_class p c d then r = Inl ErrNoClass \<and> d' = d
      else if objects p c d i = None then r = Inl ErrNotFound \<and> d' = d
      else r = Inr RUnit \<and> d' = d(ObjectKey p c i := None))"
| "spec (Cmd_Get p c i) d r d' \<longleftrightarrow>
     (if \<not> has_class p c d then r = Inl ErrNoClass else r = Inr (RObject (objects p c d i))) \<and> d' = d"
| "spec (Cmd_List p c limit offset) d r d' \<longleftrightarrow>
     (if \<not> has_class p c d then r = Inl ErrNoClass
      else \<exists>out. r = Inr (RObjects out) \<and> lists (objects p c d) (\<lambda>_. True) limit offset out) \<and> d' = d"
| "spec Cmd_Checkpoint d r d' \<longleftrightarrow> r = Inr RUnit \<and> d' = d"

text \<open>A write may also be refused because its log entry cannot be marshalled or is too large.\<close>

definition refused :: "env \<Rightarrow> reply res \<Rightarrow> bool" where
  "refused ev r \<longleftrightarrow> (\<exists>err. r = Inl err \<and> (err = ErrTooLarge \<or> (\<exists>e. cd_marshal (ev_codec ev) e = Inl err)))"

lemma submit_fails_refused: "submit_fails err ev e \<Longrightarrow> refused ev (Inl err)"
  by (auto simp: submit_fails_def refused_def split: sum.splits)

section \<open>The representation\<close>

definition objects_ok :: "generator \<Rightarrow> db \<Rightarrow> bool" where
  "objects_ok g d \<longleftrightarrow> (\<forall>cls. 0 \<le> sint (gen_Current g cls)) \<and>
     (\<forall>p c i. no_sep p \<longrightarrow> no_sep c \<longrightarrow> objects p c d i \<noteq> None \<longrightarrow>
        d (ClassKey p c) \<noteq> None \<and> 0 < sint i \<and> sint i \<le> sint (gen_Current g (ScopeKey p c)))"

definition represents :: "env \<Rightarrow> engine \<Rightarrow> db \<Rightarrow> bool" where
  "represents ev en d \<longleftrightarrow>
     stores (ev_codec ev) (ev_fuel ev) en d \<and> classes_ok (en_classes en) d \<and> objects_ok (en_idgen en) d"

lemma representsD:
  assumes "represents ev en d"
  shows "stores (ev_codec ev) (ev_fuel ev) en d" "classes_ok (en_classes en) d" "objects_ok (en_idgen en) d"
  using assms by (simp_all add: represents_def)

lemma represents_open: "represents ev en d \<Longrightarrow> en_open en"
  by (auto simp: represents_def stores_def stores_st_def)

lemma ClassExists_iff: "represents ev en d \<Longrightarrow> ClassExists en p c \<longleftrightarrow> has_class p c d"
  by (simp add: represents_def classes_ok_def ClassExists_def has_class_def in_classes_of)

lemma validName_no_sep: "validName n \<Longrightarrow> no_sep n"
  by (auto simp: validName_def list_all_iff name_byte_def keySep_def)

lemma validProject_no_sep: "validProject p \<Longrightarrow> no_sep p"
  using validName_no_sep by (auto simp: validProject_def)

text \<open>Room in the log and the id space for one more command.\<close>

fun ids_needed :: "cmd \<Rightarrow> nat" where
  "ids_needed (Cmd_Create p c data) = 1"
| "ids_needed (Cmd_Bulk p c datas) = length datas"
| "ids_needed _ = 0"

definition room :: "engine \<Rightarrow> cmd \<Rightarrow> bool" where
  "room en cmd \<longleftrightarrow> tx_left en \<and> (\<forall>cls. sint (gen_Current (en_idgen en) cls) + int (ids_needed cmd) < 2 ^ 63)"

lemma class_entry_simps [simp]:
  "e_Op (class_entry op p c) = op" "e_Project (class_entry op p c) = p" "e_Class (class_entry op p c) = c"
  "e_Data (class_entry op p c) = []"
  "e_Op (object_entry op p c i v) = op" "e_Project (object_entry op p c i v) = p" "e_Class (object_entry op p c i v) = c"
  "e_ObjectID (object_entry op p c i v) = i" "e_Data (object_entry op p c i v) = v"
  by (simp_all add: class_entry_def object_entry_def)

lemma entry_ok [simp]:
  "sub_ok (class_entry OpCreateClass p c) \<longleftrightarrow> no_sep p \<and> no_sep c"
  "sub_ok (class_entry OpDropClass p c) \<longleftrightarrow> no_sep p \<and> no_sep c"
  "sub_ok (object_entry OpPut p c i v) \<longleftrightarrow> no_sep p \<and> no_sep c"
  "sub_ok (object_entry OpDelete p c i v) \<longleftrightarrow> no_sep p \<and> no_sep c"
  by (auto simp: sub_ok_def)

lemma entry_applies [simp]:
  "sub_apply (class_entry OpCreateClass p c) d = d(ClassKey p c \<mapsto> [])"
  "sub_apply (class_entry OpDropClass p c) d = d(ClassKey p c := None)"
  "sub_apply (object_entry OpPut p c i v) d = d(ObjectKey p c i \<mapsto> v)"
  "sub_apply (object_entry OpDelete p c i v) d = d(ObjectKey p c i := None)"
  by (simp_all add: sub_apply_def e_Key_def op_defs)

lemma entry_deletes [simp]:
  "deletes (class_entry OpCreateClass p c) = False" "deletes (class_entry OpDropClass p c) = True"
  "deletes (object_entry OpPut p c i v) = False" "deletes (object_entry OpDelete p c i v) = True"
  by (simp_all add: deletes_def op_defs)

lemma objects_class [simp]: "objects p c (d(ClassKey p' c' := v)) = objects p c d"
  by (simp add: objects_def fun_eq_iff ClassKey_neq_ObjectKey [symmetric])

lemma objects_put:
  "no_sep p \<Longrightarrow> no_sep c \<Longrightarrow> no_sep p' \<Longrightarrow> no_sep c' \<Longrightarrow>
   objects p c (d(ObjectKey p' c' i := v)) = (if p = p' \<and> c = c' then (objects p c d)(i := v) else objects p c d)"
  by (auto simp: objects_def fun_eq_iff ObjectKey_inject)

section \<open>Every command refines its specification\<close>

definition refines :: "env \<Rightarrow> cmd \<Rightarrow> db \<Rightarrow> engine \<times> reply res \<Rightarrow> bool" where
  "refines ev cmd d x \<longleftrightarrow>
     (\<exists>d'. (spec cmd d (snd x) d' \<or> refused ev (snd x) \<and> d' = d) \<and> represents ev (fst x) d')"

lemma refinesI: "spec cmd d r d' \<Longrightarrow> represents ev en' d' \<Longrightarrow> refines ev cmd d (en', r)"
  by (auto simp: refines_def)

lemma refines_refused: "refused ev r \<Longrightarrow> represents ev en' d \<Longrightarrow> refines ev cmd d (en', r)"
  by (auto simp: refines_def)

lemma reply_with_simps [simp]:
  "reply_with f (en, Inl e) = (en, Inl e)" "reply_with f (en, Inr x) = (en, Inr (f x))"
  by (simp_all add: reply_with_def)

lemma submit_cases:
  assumes "stores (ev_codec ev) (ev_fuel ev) en d" "ev_ok ev" "tx_left en" "sub_ok e" "del = deletes e"
    "\<And>en' tx. submit ev e del en = (en', Inr tx) \<Longrightarrow> db_ok (ev_fuel ev) (sub_apply e d)"
  obtains (fails) en' err where "submit ev e del en = (en', Inl err)" "refused ev (Inl err)"
      "stores (ev_codec ev) (ev_fuel ev) en' d" "en_classes en' = en_classes en" "en_idgen en' = en_idgen en"
    | (succeeds) en' tx where "submit ev e del en = (en', Inr tx)"
      "stores (ev_codec ev) (ev_fuel ev) en' (sub_apply e d)" "en_classes en' = en_classes en" "en_idgen en' = en_idgen en"
proof -
  obtain en' r where s: "submit ev e del en = (en', r)" by (cases "submit ev e del en")
  have "db_ok (ev_fuel ev) (sub_apply e d)" if "r = Inr tx" for tx using assms(6) s that by simp
  note law = submit_law [OF assms(1-5) s this]
  show thesis
  proof (cases r)
    case (Inl err)
    with law have l: "submit_fails err ev (with_timestamp e (ev_now ev))" "stores (ev_codec ev) (ev_fuel ev) en' d"
      by simp_all
    show ?thesis by (rule fails [OF s [unfolded Inl] submit_fails_refused [OF l(1)] l(2) law(1,2)])
  next
    case (Inr tx)
    with law have l: "stores (ev_codec ev) (ev_fuel ev) en' (sub_apply e d)" by simp
    show ?thesis by (rule succeeds [OF s [unfolded Inr] l law(1,2)])
  qed
qed

lemma objects_okD:
  assumes "objects_ok g d"
  shows "0 \<le> sint (gen_Current g cls)"
    "no_sep p \<Longrightarrow> no_sep c \<Longrightarrow> objects p c d i \<noteq> None \<Longrightarrow>
      d (ClassKey p c) \<noteq> None \<and> 0 < sint i \<and> sint i \<le> sint (gen_Current g (ScopeKey p c))"
  using assms unfolding objects_ok_def by blast+

lemma objects_okI:
  assumes "\<And>cls. 0 \<le> sint (gen_Current g cls)"
    "\<And>p c i. no_sep p \<Longrightarrow> no_sep c \<Longrightarrow> objects p c d i \<noteq> None \<Longrightarrow>
      d (ClassKey p c) \<noteq> None \<and> 0 < sint i \<and> sint i \<le> sint (gen_Current g (ScopeKey p c))"
  shows "objects_ok g d"
  using assms unfolding objects_ok_def by blast

lemma objects_ok_less:
  assumes "objects_ok g d" "\<And>cls. sint (gen_Current g cls) \<le> sint (gen_Current g' cls)"
  shows "objects_ok g' d"
  by (rule objects_okI) (use objects_okD [OF assms(1)] assms(2) order_trans in blast)+

lemma objects_ok_class: "objects_ok g d \<Longrightarrow> objects_ok g (d(ClassKey p c \<mapsto> v))"
  by (rule objects_okI) (use objects_okD in \<open>auto simp: objects_okD(1)\<close>)

lemma objects_ok_drop:
  assumes "objects_ok g d" "no_sep p" "no_sep c" "objects p c d = Map.empty"
  shows "objects_ok (gen_Drop g (ScopeKey p c)) (d(ClassKey p c := None))"
proof (rule objects_okI)
  show "0 \<le> sint (gen_Current (gen_Drop g (ScopeKey p c)) cls)" for cls
    using objects_okD(1) [OF assms(1), of cls] by (auto simp: gen_Drop_def gen_Current_def)
  fix p' c' i
  assume a: "no_sep p'" "no_sep c'" "objects p' c' (d(ClassKey p c := None)) i \<noteq> None"
  then have "p' \<noteq> p \<or> c' \<noteq> c" using assms(4) by auto
  then have "ClassKey p' c' \<noteq> ClassKey p c" "ScopeKey p' c' \<noteq> ScopeKey p c"
    using a assms(2,3) by (auto simp: ClassKey_inject ScopeKey_inject)
  then show "(d(ClassKey p c := None)) (ClassKey p' c') \<noteq> None \<and> 0 < sint i \<and>
      sint i \<le> sint (gen_Current (gen_Drop g (ScopeKey p c)) (ScopeKey p' c'))"
    using objects_okD(2) [OF assms(1) a(1,2), of i] a(3) by (simp add: gen_Drop_def gen_Current_def)
qed

lemma objects_ok_put:
  assumes "objects_ok g d" "has_class p c d" "0 < sint i" "sint i \<le> sint (gen_Current g (ScopeKey p c))"
  shows "objects_ok g (d(ObjectKey p c i \<mapsto> v))"
proof (rule objects_okI)
  fix p' c' j
  assume a: "no_sep p'" "no_sep c'" "objects p' c' (d(ObjectKey p c i \<mapsto> v)) j \<noteq> None"
  have ns: "no_sep p" "no_sep c" using assms(2) by (simp_all add: has_class_def)
  then have "objects p' c' d j \<noteq> None \<or> p' = p \<and> c' = c \<and> j = i"
    using a by (auto simp: objects_put split: if_splits)
  then show "(d(ObjectKey p c i \<mapsto> v)) (ClassKey p' c') \<noteq> None \<and> 0 < sint j \<and>
      sint j \<le> sint (gen_Current g (ScopeKey p' c'))"
    using objects_okD(2) [OF assms(1) a(1,2), of j] assms(2-4) by (auto simp: has_class_def ClassKey_neq_ObjectKey)
qed (rule objects_okD(1) [OF assms(1)])

lemma objects_ok_delete:
  assumes "objects_ok g d" "no_sep p" "no_sep c"
  shows "objects_ok g (d(ObjectKey p c i := None))"
proof (rule objects_okI)
  fix p' c' j
  assume a: "no_sep p'" "no_sep c'" "objects p' c' (d(ObjectKey p c i := None)) j \<noteq> None"
  then have "objects p' c' d j \<noteq> None" using assms(2,3) by (auto simp: objects_put split: if_splits)
  then show "(d(ObjectKey p c i := None)) (ClassKey p' c') \<noteq> None \<and> 0 < sint j \<and>
      sint j \<le> sint (gen_Current g (ScopeKey p' c'))"
    using objects_okD(2) [OF assms(1) a(1,2), of j] by (simp add: ClassKey_neq_ObjectKey)
qed (rule objects_okD(1) [OF assms(1)])

text \<open>The common end of the writes: submit one entry, then finish.\<close>

lemma submit_refines:
  assumes "represents ev en d" "ev_ok ev" "tx_left en" "sub_ok e" "del = deletes e"
    "x = (case submit ev e del en of (en, Inl err) \<Rightarrow> (en, Inl err) | (en, Inr tx) \<Rightarrow> (fin en, Inr v))"
    "spec cmd d (Inr v) (sub_apply e d)"
    "\<And>d'. spec cmd d (snd x) d' \<Longrightarrow> db_ok (ev_fuel ev) d'"
    "\<And>en'. stores (ev_codec ev) (ev_fuel ev) en' (sub_apply e d) \<Longrightarrow> en_classes en' = en_classes en \<Longrightarrow>
      en_idgen en' = en_idgen en \<Longrightarrow> represents ev (fin en') (sub_apply e d)"
  shows "refines ev cmd d x"
proof -
  have db: "db_ok (ev_fuel ev) (sub_apply e d)" if "submit ev e del en = (en', Inr tx)" for en' tx
    using assms(6-8) that by simp
  show ?thesis
  proof (rule submit_cases [OF representsD(1) [OF assms(1)] assms(2-5) db])
    fix en' err
    assume f: "submit ev e del en = (en', Inl err)" "refused ev (Inl err)"
      "stores (ev_codec ev) (ev_fuel ev) en' d" "en_classes en' = en_classes en" "en_idgen en' = en_idgen en"
    then have "represents ev en' d" using representsD [OF assms(1)] by (simp add: represents_def)
    with f(1,2) assms(6) show ?thesis by (simp add: refines_refused)
  next
    fix en' tx
    assume f: "submit ev e del en = (en', Inr tx)" "stores (ev_codec ev) (ev_fuel ev) en' (sub_apply e d)"
      "en_classes en' = en_classes en" "en_idgen en' = en_idgen en"
    from assms(9) [OF f(2-4)] f(1) assms(6,7) show ?thesis by (simp add: refinesI)
  qed
qed

lemma refines_error: "spec cmd d (Inl err) d \<Longrightarrow> represents ev en d \<Longrightarrow> refines ev cmd d (en, Inl err)"
  by (rule refinesI)

lemma has_class_no_sep: "has_class p c d \<Longrightarrow> no_sep p \<and> no_sep c"
  by (simp add: has_class_def)

lemma CreateClass_refines:
  assumes "represents ev en d" "ev_ok ev" "room en (Cmd_CreateClass p c)"
    "\<And>d'. spec (Cmd_CreateClass p c) d (snd (exec ev (Cmd_CreateClass p c) en)) d' \<Longrightarrow> db_ok (ev_fuel ev) d'"
  shows "refines ev (Cmd_CreateClass p c) d (exec ev (Cmd_CreateClass p c) en)"
proof (cases "validName c \<and> validProject p \<and> \<not> has_class p c d")
  case False
  then show ?thesis
    using assms(1) ClassExists_iff [OF assms(1), of p c] by (auto simp: CreateClass_def refines_def)
next
  case True
  then have ns: "no_sep p" "no_sep c" using validName_no_sep validProject_no_sep by auto
  have "exec ev (Cmd_CreateClass p c) en = (case submit ev (class_entry OpCreateClass p c) False en of
      (en, Inl err) \<Rightarrow> (en, Inl err)
    | (en, Inr tx) \<Rightarrow> (en\<lparr>en_classes := List.insert (ScopeKey p c) (en_classes en)\<rparr>, Inr RUnit))"
    using True ClassExists_iff [OF assms(1), of p c] by (simp add: CreateClass_def split: prod.split sum.split)
  from assms(1,2) _ _ _ this _ assms(4) show ?thesis
    by (rule submit_refines)
      (use assms(3) True ns representsD(2,3) [OF assms(1)] in
        \<open>auto simp: room_def represents_def classes_ok_def classes_of_create objects_ok_class\<close>)
qed

lemma ListObjects_law:
  assumes "represents ev en d" "has_class p c d"
  shows "\<exists>out. ListObjects ev en p c limit offset = Inr out \<and> lists (objects p c d) (\<lambda>_. True) limit offset out"
  unfolding ListObjects_def
  by (rule QueryObjects_law) (use assms representsD(1) ClassExists_iff has_class_no_sep in auto)

text \<open>Asking for one object tells whether the class is empty.\<close>

lemma lists_one:
  assumes "lists os (\<lambda>_. True) 1 0 out"
  shows "out = [] \<longleftrightarrow> os = Map.empty"
proof -
  from assms obtain ids where ids: "set ids = {i. \<exists>v. os i = Some v}" "out = map (\<lambda>i. (i, the (os i))) (paginate 1 0 ids)"
    by (auto simp: lists_def)
  have "paginate 1 0 ids = [] \<longleftrightarrow> ids = []" by (simp add: paginate_def Let_def)
  moreover have "ids = [] \<longleftrightarrow> {i. \<exists>v. os i = Some v} = {}" unfolding ids(1) [symmetric] by simp
  moreover have "{i. \<exists>v. os i = Some v} = {} \<longleftrightarrow> os = Map.empty" by (auto simp: fun_eq_iff)
  ultimately show ?thesis by (simp add: ids(2))
qed

lemma DropClass_refines:
  assumes "represents ev en d" "ev_ok ev" "room en (Cmd_DropClass p c)"
    "\<And>d'. spec (Cmd_DropClass p c) d (snd (exec ev (Cmd_DropClass p c) en)) d' \<Longrightarrow> db_ok (ev_fuel ev) d'"
  shows "refines ev (Cmd_DropClass p c) d (exec ev (Cmd_DropClass p c) en)"
proof (cases "has_class p c d")
  case False
  then show ?thesis
    using assms(1) ClassExists_iff [OF assms(1), of p c] by (auto simp: DropClass_def refines_def)
next
  case True
  note ns = has_class_no_sep [OF True]
  from ListObjects_law [OF assms(1) True, of 1 0] obtain out where
    out: "ListObjects ev en p c 1 0 = Inr out" "lists (objects p c d) (\<lambda>_. True) 1 0 out" by blast
  show ?thesis
  proof (cases "objects p c d = Map.empty")
    case False
    then show ?thesis
      using True assms(1) ClassExists_iff [OF assms(1), of p c] out lists_one [OF out(2)]
      by (auto simp: DropClass_def refines_def)
  next
    case empty: True
    have "exec ev (Cmd_DropClass p c) en = (case submit ev (class_entry OpDropClass p c) True en of
        (en, Inl err) \<Rightarrow> (en, Inl err)
      | (en, Inr tx) \<Rightarrow> (en\<lparr>en_classes := removeAll (ScopeKey p c) (en_classes en),
          en_idgen := gen_Drop (en_idgen en) (ScopeKey p c)\<rparr>, Inr RUnit))"
      using True ClassExists_iff [OF assms(1), of p c] out(1) lists_one [OF out(2)] empty
      by (simp add: DropClass_def split: prod.split sum.split)
    from assms(1,2) _ _ _ this _ assms(4) show ?thesis
      by (rule submit_refines)
        (use assms(3) True empty ns representsD(2,3) [OF assms(1)] in
          \<open>auto simp: room_def represents_def classes_ok_def classes_of_drop objects_ok_drop distinct_removeAll\<close>)
  qed
qed

lemma lookup_object:
  assumes "represents ev en d"
  shows "en_lookup ev en (ObjectKey p c i) = Inr (objects p c d i)"
  unfolding objects_def by (rule lookup_law [OF representsD(1) [OF assms]])

lemma Put_refines:
  assumes "represents ev en d" "ev_ok ev" "room en (Cmd_Put p c i v)"
    "\<And>d'. spec (Cmd_Put p c i v) d (snd (exec ev (Cmd_Put p c i v) en)) d' \<Longrightarrow> db_ok (ev_fuel ev) d'"
  shows "refines ev (Cmd_Put p c i v) d (exec ev (Cmd_Put p c i v) en)"
proof (cases "has_class p c d \<and> objects p c d i \<noteq> None")
  case False
  then show ?thesis
    using assms(1) ClassExists_iff [OF assms(1), of p c] lookup_object [OF assms(1), of p c i]
    by (auto simp: PutObject_def refines_def)
next
  case True
  have ns: "no_sep p" "no_sep c" using True by (auto simp: has_class_def)
  have "exec ev (Cmd_Put p c i v) en = (case submit ev (object_entry OpPut p c i v) False en of
      (en, Inl err) \<Rightarrow> (en, Inl err) | (en, Inr tx) \<Rightarrow> (en, Inr RUnit))"
    using True ClassExists_iff [OF assms(1), of p c] lookup_object [OF assms(1), of p c i]
    by (auto simp: PutObject_def split: prod.split sum.split)
  from assms(1,2) _ _ _ this _ assms(4) show ?thesis
    by (rule submit_refines)
      (use assms(3) True ns representsD(2,3) [OF assms(1)] objects_okD(2) [OF representsD(3) [OF assms(1)] ns, of i] in
        \<open>auto simp: room_def represents_def classes_ok_def classes_of_object intro!: objects_ok_put\<close>)
qed

lemma Delete_refines:
  assumes "represents ev en d" "ev_ok ev" "room en (Cmd_Delete p c i)"
    "\<And>d'. spec (Cmd_Delete p c i) d (snd (exec ev (Cmd_Delete p c i) en)) d' \<Longrightarrow> db_ok (ev_fuel ev) d'"
  shows "refines ev (Cmd_Delete p c i) d (exec ev (Cmd_Delete p c i) en)"
proof (cases "has_class p c d \<and> objects p c d i \<noteq> None")
  case False
  then show ?thesis
    using assms(1) ClassExists_iff [OF assms(1), of p c] lookup_object [OF assms(1), of p c i]
    by (auto simp: DeleteObject_def refines_def)
next
  case True
  have ns: "no_sep p" "no_sep c" using True by (auto simp: has_class_def)
  have "exec ev (Cmd_Delete p c i) en = (case submit ev (object_entry OpDelete p c i []) True en of
      (en, Inl err) \<Rightarrow> (en, Inl err) | (en, Inr tx) \<Rightarrow> (en, Inr RUnit))"
    using True ClassExists_iff [OF assms(1), of p c] lookup_object [OF assms(1), of p c i]
    by (auto simp: DeleteObject_def split: prod.split sum.split)
  from assms(1,2) _ _ _ this _ assms(4) show ?thesis
    by (rule submit_refines)
      (use assms(3) True ns representsD(2,3) [OF assms(1)] in
        \<open>auto simp: room_def represents_def classes_ok_def classes_of_object intro!: objects_ok_delete\<close>)
qed

text \<open>New ids.\<close>

lemma gen_Next_law:
  assumes "objects_ok g d" "gen_Next g (ScopeKey p c) = (i, g')" "no_sep p" "no_sep c"
    "sint (gen_Current g (ScopeKey p c)) + 1 < 2 ^ 63"
  shows "sint i = sint (gen_Current g (ScopeKey p c)) + 1" "gen_Current g' (ScopeKey p c) = i"
    "\<And>cls. sint (gen_Current g cls) \<le> sint (gen_Current g' cls)" "fresh_id p c d i"
proof -
  have i: "i = gen_Current g (ScopeKey p c) + 1" "g' = g(ScopeKey p c \<mapsto> i)"
    using assms(2) by (auto simp: gen_Next_def Let_def)
  show s: "sint i = sint (gen_Current g (ScopeKey p c)) + 1" unfolding i(1) using assms(5) by (intro sint_Suc) simp
  show "gen_Current g' (ScopeKey p c) = i" by (simp add: i(2))
  show "sint (gen_Current g cls) \<le> sint (gen_Current g' cls)" for cls using s by (simp add: i(2))
  show "fresh_id p c d i"
    unfolding fresh_id_def
  proof (intro conjI allI impI)
    show "0 < sint i" using s objects_okD(1) [OF assms(1), of "ScopeKey p c"] by simp
    fix j
    assume "objects p c d j \<noteq> None"
    then show "sint j < sint i" using objects_okD(2) [OF assms(1,3,4)] s by fastforce
  qed
qed

lemma Create_refines:
  assumes "represents ev en d" "ev_ok ev" "room en (Cmd_Create p c v)"
    "\<And>d'. spec (Cmd_Create p c v) d (snd (exec ev (Cmd_Create p c v) en)) d' \<Longrightarrow> db_ok (ev_fuel ev) d'"
  shows "refines ev (Cmd_Create p c v) d (exec ev (Cmd_Create p c v) en)"
proof (cases "has_class p c d")
  case False
  then show ?thesis
    using assms(1) ClassExists_iff [OF assms(1), of p c] by (auto simp: CreateObject_def refines_def)
next
  case True
  have ns: "no_sep p" "no_sep c" using True by (auto simp: has_class_def)
  obtain i g where g: "gen_Next (en_idgen en) (ScopeKey p c) = (i, g)" by (cases "gen_Next (en_idgen en) (ScopeKey p c)")
  have "sint (gen_Current (en_idgen en) (ScopeKey p c)) + 1 < 2 ^ 63" using assms(3) by (simp add: room_def)
  note n = gen_Next_law [OF representsD(3) [OF assms(1)] g ns this]
  define en1 where "en1 = en\<lparr>en_idgen := g\<rparr>"
  have ok1: "objects_ok g d" using representsD(3) [OF assms(1)] n(3) by (rule objects_ok_less)
  then have rep1: "represents ev en1 d" using representsD [OF assms(1)] by (simp add: represents_def en1_def)
  have "exec ev (Cmd_Create p c v) en = (case submit ev (object_entry OpPut p c i v) False en1 of
      (en, Inl err) \<Rightarrow> (en, Inl err) | (en, Inr tx) \<Rightarrow> (en, Inr (RId i)))"
    using True ClassExists_iff [OF assms(1), of p c] g
    by (simp add: CreateObject_def en1_def split: prod.split sum.split)
  from rep1 assms(2) _ _ _ this _ assms(4) show ?thesis
  proof (rule submit_refines)
    show "tx_left en1" using assms(3) by (simp add: room_def en1_def tx_left_def)
    show "spec (Cmd_Create p c v) d (Inr (RId i)) (sub_apply (object_entry OpPut p c i v) d)"
      using True n(4) by auto
    fix en'
    assume f: "stores (ev_codec ev) (ev_fuel ev) en' (sub_apply (object_entry OpPut p c i v) d)"
      "en_classes en' = en_classes en1" "en_idgen en' = en_idgen en1"
    have "objects_ok g (d(ObjectKey p c i \<mapsto> v))"
      using ok1 True n(2,4) by (intro objects_ok_put) (auto simp: fresh_id_def)
    then show "represents ev en' (sub_apply (object_entry OpPut p c i v) d)"
      using f representsD(2) [OF rep1] by (simp add: represents_def classes_ok_def classes_of_object en1_def)
  qed (use ns in simp_all)
qed

section \<open>Bulk inserts\<close>

lemma bulk_subs_Nexts:
  "bulk_subs ts p c ds g =
     (let (ids, g) = gen_Nexts g (ScopeKey p c) (length ds)
      in (map2 (\<lambda>i v. WALEntry OpPut p c i v ts []) ids ds, g))"
proof (induction ds arbitrary: g)
  case (Cons v ds)
  obtain i g1 where n: "gen_Next g (ScopeKey p c) = (i, g1)" by (cases "gen_Next g (ScopeKey p c)")
  obtain ids g2 where ns: "gen_Nexts g1 (ScopeKey p c) (length ds) = (ids, g2)"
    by (cases "gen_Nexts g1 (ScopeKey p c) (length ds)")
  from Cons.IH [of g1] n ns show ?case by simp
qed simp

lemma gen_Nexts_law:
  assumes "gen_Nexts g cls n = (ids, g')" "sint (gen_Current g cls) + int n < 2 ^ 63"
  shows "length ids = n" "map sint ids = map (\<lambda>k. sint (gen_Current g cls) + 1 + int k) [0..<n]"
    "\<And>cl. sint (gen_Current g cl) \<le> sint (gen_Current g' cl)"
    "\<And>i. i \<in> set ids \<Longrightarrow> sint i \<le> sint (gen_Current g' cls)"
proof -
  show ids: "map sint ids = map (\<lambda>k. sint (gen_Current g cls) + 1 + int k) [0..<n]"
    using gen_Nexts_above [OF assms(2)] assms(1) by simp
  then show "length ids = n" by (metis length_map length_upt minus_nat.diff_0)
  have "sint (gen_Current g' cls) = sint (gen_Current g cls) + int n \<and> (\<forall>cl. cl \<noteq> cls \<longrightarrow> gen_Current g' cl = gen_Current g cl)"
    using assms
  proof (induction n arbitrary: g ids g')
    case (Suc n)
    define i where "i = gen_Current g cls + 1"
    have i: "gen_Next g cls = (i, g(cls \<mapsto> i))" by (simp add: gen_Next_def i_def Let_def)
    have s: "sint i = sint (gen_Current g cls) + 1" unfolding i_def using Suc.prems(2) by (intro sint_Suc) simp
    obtain js g2 where js: "gen_Nexts (g(cls \<mapsto> i)) cls n = (js, g2)" by (cases "gen_Nexts (g(cls \<mapsto> i)) cls n")
    have g': "g2 = g'" using Suc.prems(1) i js by simp
    have "gen_Current (g(cls \<mapsto> i)) cls = i" "cl \<noteq> cls \<Longrightarrow> gen_Current (g(cls \<mapsto> i)) cl = gen_Current g cl" for cl
      by (simp_all add: gen_Current_def)
    with Suc.IH [OF js [unfolded g']] Suc.prems(2) s show ?case by (simp del: fun_upd_apply)
  qed simp
  then have fin: "sint (gen_Current g' cls) = sint (gen_Current g cls) + int n"
    "\<And>cl. cl \<noteq> cls \<Longrightarrow> gen_Current g' cl = gen_Current g cl" by auto
  show "sint (gen_Current g cl) \<le> sint (gen_Current g' cl)" for cl
    using fin by (cases "cl = cls") simp_all
  fix i
  assume "i \<in> set ids"
  then have "sint i \<in> set (map sint ids)" by simp
  then show "sint i \<le> sint (gen_Current g' cls)" unfolding ids fin(1) by auto
qed

lemma consecutive_sorted:
  assumes "map sint ids = map (\<lambda>k. a + 1 + int k) [0..<n]"
  shows "id_sorted ids" "i \<in> set ids \<Longrightarrow> a < sint i"
proof -
  have "sorted_wrt (<) (map (\<lambda>k. a + 1 + int k) [0..<n])" by (simp add: sorted_wrt_iff_nth_less)
  then show "id_sorted ids" unfolding assms [symmetric] id_sorted_def by (simp add: sorted_wrt_map)
  assume "i \<in> set ids"
  then have "sint i \<in> set (map sint ids)" by simp
  then show "a < sint i" unfolding assms by auto
qed

lemma put_objects_subs:
  "length ids = length ds \<Longrightarrow>
   fold sub_apply (map2 (\<lambda>i v. WALEntry OpPut p c i v ts []) ids ds) d = put_objects p c (zip ids ds) d"
proof (induction ids ds arbitrary: d rule: list_induct2)
  case (Cons i ids v ds)
  have "sub_apply (WALEntry OpPut p c i v ts []) d = d(ObjectKey p c i \<mapsto> v)" for d
    by (simp add: sub_apply_def e_Key_def op_defs)
  with Cons.IH show ?case by (simp add: put_objects_def)
qed (simp add: put_objects_def)

lemma put_objects_class: "put_objects p c xs d (ClassKey p' c') = d (ClassKey p' c')"
  unfolding put_objects_def by (induction xs arbitrary: d) (auto simp: ClassKey_neq_ObjectKey)

lemma put_objects_ok:
  assumes "objects_ok g d" "has_class p c d" "\<forall>i\<in>fst ` set xs. 0 < sint i \<and> sint i \<le> sint (gen_Current g (ScopeKey p c))"
  shows "objects_ok g (put_objects p c xs d)"
  using assms
proof (induction xs arbitrary: d)
  case (Cons x xs)
  obtain i v where x: "x = (i, v)" by (cases x)
  have "objects_ok g (d(ObjectKey p c i \<mapsto> v))" using Cons.prems x by (intro objects_ok_put) auto
  moreover have "has_class p c (d(ObjectKey p c i \<mapsto> v))"
    using Cons.prems(2) by (simp add: has_class_def ClassKey_neq_ObjectKey)
  ultimately show ?case using Cons.IH [of "d(ObjectKey p c i \<mapsto> v)"] Cons.prems(3) x by (simp add: put_objects_def del: fun_upd_apply)
qed (simp add: put_objects_def)

lemma Bulk_refines:
  assumes "represents ev en d" "ev_ok ev" "room en (Cmd_Bulk p c vs)"
    "\<And>d'. spec (Cmd_Bulk p c vs) d (snd (exec ev (Cmd_Bulk p c vs) en)) d' \<Longrightarrow> db_ok (ev_fuel ev) d'"
  shows "refines ev (Cmd_Bulk p c vs) d (exec ev (Cmd_Bulk p c vs) en)"
proof -
  let ?cmd = "Cmd_Bulk p c vs"
  note rep = representsD [OF assms(1)]
  consider (none) "\<not> has_class p c d" | (empty) "has_class p c d" "vs = []" | (some) "has_class p c d" "vs \<noteq> []" by blast
  then show ?thesis
  proof cases
    case none
    then show ?thesis
      using assms(1) ClassExists_iff [OF assms(1), of p c] by (auto simp: CreateObjectsBulk_def refines_def)
  next
    case empty
    then show ?thesis
      using assms(1) ClassExists_iff [OF assms(1), of p c]
      by (auto simp: CreateObjectsBulk_def refines_def id_sorted_def put_objects_def)
  next
    case some
    have ns: "no_sep p" "no_sep c" using some by (auto simp: has_class_def)
    have ce: "ClassExists en p c" using some ClassExists_iff [OF assms(1)] by simp
    obtain ids g where n: "gen_Nexts (en_idgen en) (ScopeKey p c) (length vs) = (ids, g)"
      by (cases "gen_Nexts (en_idgen en) (ScopeKey p c) (length vs)")
    let ?subs = "map2 (\<lambda>i v. WALEntry OpPut p c i v (ev_now ev) []) ids vs"
    let ?batch = "WALEntry OpBatch [] [] 0 [] (ev_now ev) ?subs"
    have bulk: "bulk_subs (ev_now ev) p c vs (en_idgen en) = (?subs, g)" by (simp add: bulk_subs_Nexts n)
    have lim: "sint (gen_Current (en_idgen en) (ScopeKey p c)) + int (length vs) < 2 ^ 63"
      using assms(3) by (simp add: room_def)
    note law = gen_Nexts_law [OF n lim]
    note cons = consecutive_sorted [OF law(2)]
    have pos: "0 \<le> sint (gen_Current (en_idgen en) (ScopeKey p c))" by (rule objects_okD(1) [OF rep(3)])
    have fresh: "fresh_id p c d i" if "i \<in> set ids" for i
      unfolding fresh_id_def using cons(2) [OF that] pos objects_okD(2) [OF rep(3) ns] by fastforce
    define en1 where "en1 = en\<lparr>en_idgen := g\<rparr>"
    have tx: "tx_left en1" using assms(3) by (simp add: room_def en1_def tx_left_def)
    have ok1: "objects_ok g d" using rep(3) law(3) by (rule objects_ok_less)
    then have rep1: "represents ev en1 d" using rep by (simp add: represents_def en1_def)
    have fl: "e_Flatten ?batch = ?subs" by (simp add: e_Flatten_def)
    have app: "entry_apply ?batch d = put_objects p c (zip ids vs) d"
      unfolding entry_apply_def fl by (rule put_objects_subs [OF law(1)])
    have run: "exec ev ?cmd en = (case cd_marshal (ev_codec ev) ?batch of
        Inl e \<Rightarrow> (en1, Inl e)
      | Inr payload \<Rightarrow> (case seq_Submit ev payload en1 of
          (en, Inl e) \<Rightarrow> (en, Inl e)
        | (en, Inr txID) \<Rightarrow> (fold (\<lambda>s. publish s False txID) ?subs en, Inr (RIds (map e_ObjectID ?subs)))))"
      using ce some(2) bulk by (simp add: CreateObjectsBulk_def en1_def split: sum.split prod.split)
    have ids: "map e_ObjectID ?subs = ids"
      using law(1) by (simp add: list_eq_iff_nth_eq)
    show ?thesis
    proof (cases "cd_marshal (ev_codec ev) ?batch")
      case (Inl e)
      then have "refused ev (Inl e)" by (auto simp: refused_def)
      then show ?thesis using run Inl rep1 by (simp add: refines_refused)
    next
      case (Inr payload)
      show ?thesis
      proof (cases "length payload \<le> MaxRecordLen")
        case False
        then have "MaxRecordLen < length payload" by simp
        from too_large_law [OF representsD(1) [OF rep1] assms(2) this tx] obtain en' where
          en': "seq_Submit ev payload en1 = (en', Inl ErrTooLarge)" "stores (ev_codec ev) (ev_fuel ev) en' d"
            "en_classes en' = en_classes en1" "en_idgen en' = en_idgen en1" by blast
        then have "represents ev en' d" using representsD [OF rep1] by (simp add: represents_def)
        moreover have "refused ev (Inl ErrTooLarge)" by (simp add: refused_def)
        ultimately show ?thesis using run Inr en'(1) by (simp add: refines_refused)
      next
        case True
        from representsD(1) [OF rep1] obtain st wl where st: "stores_st (ev_codec ev) (ev_fuel ev) en1 st wl" "ds_db st = d"
          by (auto simp: stores_def)
        then have "en_open en1" by (simp add: stores_st_def)
        then have ans: "snd (exec ev ?cmd en) = Inr (RIds ids)"
          using run Inr True seq_Submit_ok [OF assms(2)] ids by simp
        have sp: "spec ?cmd d (Inr (RIds ids)) (put_objects p c (zip ids vs) d)"
          using some(1) law(1) cons(1) fresh by auto
        have "db_ok (ev_fuel ev) (entry_apply ?batch d)"
          using assms(4) [of "put_objects p c (zip ids vs) d"] sp unfolding ans app by blast
        moreover have "\<forall>s\<in>set (e_Flatten ?batch). sub_ok s"
          unfolding fl using ns by (auto simp: sub_ok_def set_zip)
        ultimately obtain en' where en': "seq_Submit ev payload en1 = (en', Inr (en_nextTx en1 + 1))"
          "stores (ev_codec ev) (ev_fuel ev) (publish_all ?subs (en_nextTx en1 + 1) en') (put_objects p c (zip ids vs) d)"
          "en_classes en' = en_classes en1" "en_idgen en' = en_idgen en1"
          using commit_law [OF st assms(2) refl Inr True tx] unfolding fl app by blast
        have pub: "fold (\<lambda>s. publish s False txID) ?subs en' = publish_all ?subs txID en'" for txID
          unfolding publish_all_def by (rule fold_cong) (auto simp: set_zip deletes_def op_defs)
        have "objects_ok g (put_objects p c (zip ids vs) d)"
        proof (rule put_objects_ok [OF ok1 some(1)])
          have "fst ` set (zip ids vs) = set ids" using law(1) by (metis list.set_map map_fst_zip)
          then show "\<forall>i\<in>fst ` set (zip ids vs). 0 < sint i \<and> sint i \<le> sint (gen_Current g (ScopeKey p c))"
            using law(4) fresh by (auto simp: fresh_id_def)
        qed
        moreover have "classes_of (put_objects p c (zip ids vs) d) = classes_of d"
          by (simp add: classes_of_def put_objects_class)
        ultimately have "represents ev (publish_all ?subs (en_nextTx en1 + 1) en') (put_objects p c (zip ids vs) d)"
          using en'(2-4) representsD(2) [OF rep1] by (simp add: represents_def classes_ok_def en1_def)
        then show ?thesis using run Inr en'(1) pub ids sp by (simp add: refinesI)
      qed
    qed
  qed
qed

section \<open>Reads, checkpoints, and all commands\<close>

lemma Get_refines: "represents ev en d \<Longrightarrow> refines ev (Cmd_Get p c i) d (exec ev (Cmd_Get p c i) en)"
  using ClassExists_iff [of ev en d p c] lookup_object [of ev en d p c i]
  by (auto simp: GetObject_def intro!: refinesI)

lemma List_refines:
  assumes "represents ev en d"
  shows "refines ev (Cmd_List p c limit offset) d (exec ev (Cmd_List p c limit offset) en)"
proof (cases "has_class p c d")
  case True
  from ListObjects_law [OF assms True, of limit offset] obtain out where
    "ListObjects ev en p c limit offset = Inr out" "lists (objects p c d) (\<lambda>_. True) limit offset out" by blast
  then show ?thesis using True assms by (auto intro!: refinesI)
next
  case False
  then show ?thesis
    using assms ClassExists_iff [OF assms, of p c] by (auto simp: ListObjects_def QueryObjects_def intro!: refinesI)
qed

lemma Checkpoint_refines:
  assumes "represents ev en d"
  shows "refines ev Cmd_Checkpoint d (exec ev Cmd_Checkpoint en)"
proof -
  from Checkpoint_law [OF representsD(1) [OF assms]] obtain en' where
    c: "Checkpoint ev en = (en', Inr ())" "stores (ev_codec ev) (ev_fuel ev) en' d"
      "en_classes en' = en_classes en" "en_idgen en' = en_idgen en" by blast
  then have "represents ev en' d" using representsD(2,3) [OF assms] by (simp add: represents_def)
  then show ?thesis using c(1) by (auto intro!: refinesI)
qed

lemma exec_refines:
  assumes "represents ev en d" "ev_ok ev" "room en cmd"
    "\<And>d'. spec cmd d (snd (exec ev cmd en)) d' \<Longrightarrow> db_ok (ev_fuel ev) d'"
  shows "refines ev cmd d (exec ev cmd en)"
  using assms
  by (cases cmd)
    (blast intro: CreateClass_refines DropClass_refines Create_refines Bulk_refines Put_refines Delete_refines
      Get_refines List_refines Checkpoint_refines)+

end
