(* ===== verification/EngineCrash.thy ===== *)
theory EngineCrash
  imports EngineSpec
begin

text \<open>
  The engine and crashes. A crash during a command leaves a directory from which \<^verbatim>\<open>Open\<close> makes an
  engine for the database before the command or the one after it.
\<close>

section \<open>What a command does to the directory\<close>

definition appends :: "fs \<Rightarrow> fs \<Rightarrow> bool" where
  "appends fs fs' \<longleftrightarrow>
     fs' = fs \<or> (\<exists>r. fs' = fs_put walName (fs_contents fs walName @ r) fs \<and>
       (r = [] \<or> (\<exists>tx p. r = wal_record tx p \<and> length p \<le> MaxRecordLen)))"

lemma appends_refl [simp]: "appends fs fs"
  by (simp add: appends_def)

lemma appends_put:
  "length p \<le> MaxRecordLen \<Longrightarrow> appends fs (fs_put walName (fs_contents fs walName @ wal_record tx p) fs)"
  "appends fs (fs_put walName (fs_contents fs walName) fs)"
  unfolding appends_def by (blast, metis append_Nil2)

lemma seq_Submit_appends:
  "ev_ok ev \<Longrightarrow> en_open en \<Longrightarrow> appends (en_dir en) (en_dir (fst (seq_Submit ev p en)))"
  using appends_put by (simp add: seq_Submit_ok)

lemma submit_appends:
  assumes "ev_ok ev" "en_open en"
  shows "appends (en_dir en) (en_dir (fst (submit ev e del en)))"
proof (cases "cd_marshal (ev_codec ev) (with_timestamp e (ev_now ev))")
  case (Inr p)
  with seq_Submit_appends [OF assms, of p] show ?thesis
    by (auto simp: submit_def submit_log_def split: prod.split sum.split)
qed (simp add: submit_def submit_log_def)

lemma fold_publish_dir [simp]: "en_dir (fold (\<lambda>s. publish s b tx) subs en) = en_dir en"
  by (induction subs arbitrary: en) simp_all

lemma reply_with_dir [simp]: "en_dir (fst (reply_with f x)) = en_dir (fst x)"
  by (simp add: reply_with_def)

lemma bulk_appends:
  assumes "ev_ok ev" "en_open en"
  shows "appends (en_dir en) (en_dir (fst (CreateObjectsBulk ev p c vs en)))"
proof -
  obtain subs g where b: "bulk_subs (ev_now ev) p c vs (en_idgen en) = (subs, g)"
    by (cases "bulk_subs (ev_now ev) p c vs (en_idgen en)")
  let ?en = "en\<lparr>en_idgen := g\<rparr>"
  have seq: "appends (en_dir en) (en_dir (fst (seq_Submit ev q ?en)))" for q
    using seq_Submit_appends [OF assms(1), of ?en q] assms(2) by simp
  consider "\<not> ClassExists en p c" | "vs = []"
    | err where "cd_marshal (ev_codec ev) (WALEntry OpBatch [] [] 0 [] (ev_now ev) subs) = Inl err"
    | q en' r where "cd_marshal (ev_codec ev) (WALEntry OpBatch [] [] 0 [] (ev_now ev) subs) = Inr q"
        "seq_Submit ev q ?en = (en', r)"
    by (metis old.sum.exhaust surj_pair)
  then show ?thesis
  proof cases
    case (4 q en' r)
    have "appends (en_dir en) (en_dir en')" using seq [of q] unfolding 4(2) by simp
    then show ?thesis using 4 b by (cases r) (simp_all add: CreateObjectsBulk_def)
  qed (use b in \<open>simp_all add: CreateObjectsBulk_def\<close>)
qed

lemma exec_appends:
  assumes "ev_ok ev" "en_open en" "cmd \<noteq> Cmd_Checkpoint"
  shows "appends (en_dir en) (en_dir (fst (exec ev cmd en)))"
proof -
  have sub: "appends (en_dir en) (en_dir en')" if "submit ev e del en = (en', r)" for e del en' r
    using submit_appends [OF assms(1,2), of e del] that by simp
  show ?thesis
  proof (cases cmd)
    case (Cmd_Create p c v)
    have "appends (en_dir en) (en_dir en')" if "submit ev e del (en\<lparr>en_idgen := g\<rparr>) = (en', r)" for e del g en' r
      using submit_appends [OF assms(1), of "en\<lparr>en_idgen := g\<rparr>" e del] that assms(2) by simp
    with Cmd_Create show ?thesis by (auto simp: CreateObject_def split: prod.splits sum.splits)
  next
    case (Cmd_Bulk p c vs)
    with bulk_appends [OF assms(1,2)] show ?thesis by simp
  qed (use assms(3) sub in \<open>auto simp: CreateClass_def DropClass_def PutObject_def DeleteObject_def
      split: prod.splits sum.splits option.splits\<close>)
qed

text \<open>The steps of a command on the directory.\<close>

definition exec_steps :: "env \<Rightarrow> cmd \<Rightarrow> engine \<Rightarrow> fs_step list" where
  "exec_steps ev cmd en =
     (if cmd = Cmd_Checkpoint then (if en_open en then fst (checkpoint_Run (ev_codec ev) (ev_fuel ev) (en_dir en)) else [])
      else
        let old = fs_contents (en_dir en) walName; new = fs_contents (en_dir (fst (exec ev cmd en))) walName
        in [FAppend walName (drop (length old) new)])"

lemma exec_steps_run:
  assumes "represents ev en d" "ev_ok ev"
  shows "fs_get (fs_run (exec_steps ev cmd en) (en_dir en)) = fs_get (en_dir (fst (exec ev cmd en)))"
proof -
  from assms(1) have op: "en_open en" "\<exists>wl. fs_get (en_dir en) walName = Some wl"
    by (auto simp: represents_def stores_def stores_st_def)
  show ?thesis
  proof (cases "cmd = Cmd_Checkpoint")
    case True
    then show ?thesis
      using op(1) by (auto simp: exec_steps_def Checkpoint_def prune_def Let_def split: prod.split sum.split)
  next
    case False
    from exec_appends [OF assms(2) op(1) False] False op(2) show ?thesis
      by (auto simp: appends_def exec_steps_def Let_def fun_eq_iff fs_contents_def)
  qed
qed

section \<open>Crashes\<close>

text \<open>A directory that stands for \<open>d\<close> has the objects of an engine that does.\<close>

definition dir_represents :: "env \<Rightarrow> fs \<Rightarrow> db \<Rightarrow> bool" where
  "dir_represents ev fs d \<longleftrightarrow> dir_db_of ds_ok (ev_codec ev) (ev_fuel ev) fs d \<and> (\<exists>g. objects_ok g d)"

lemma represents_dir: "represents ev en d \<Longrightarrow> dir_represents ev (en_dir en) d"
  by (auto simp: represents_def stores_def stores_st_def dir_represents_def dir_db_of_def)

lemma dir_has_cong:
  assumes "dir_has cd fuel fs st" "fs_get fs' = fs_get fs"
  shows "dir_has cd fuel fs' st"
  by (rule dir_has_frame [OF assms(1)]) (use assms dir_has_names in auto)

lemma dir_represents_cong:
  assumes "dir_represents ev fs d" "fs_get fs' = fs_get fs"
  shows "dir_represents ev fs' d"
  using assms dir_has_cong [OF _ assms(2)] by (auto simp: dir_represents_def dir_db_of_def)

declare fs_contents_put [simp]

lemma torn_append_law:
  assumes "represents ev en d" "appends (en_dir en) fs'"
    "n < length (drop (length (fs_contents (en_dir en) walName)) (fs_contents fs' walName))"
  shows "dir_represents ev (fs_put walName (fs_contents (en_dir en) walName @
    take n (drop (length (fs_contents (en_dir en) walName)) (fs_contents fs' walName))) (en_dir en)) d"
proof -
  from assms(1) obtain st wl where st: "dir_has (ev_codec ev) (ev_fuel ev) (en_dir en) st" "ds_ok st" "ds_db st = d"
    "fs_get (en_dir en) walName = Some wl" "clean_log wl"
    by (auto simp: represents_def stores_def stores_st_def)
  have wl: "fs_contents (en_dir en) walName = wl" using st(4) by (simp add: fs_contents_def)
  from assms(2,3) obtain tx p where r: "fs_contents fs' walName = wl @ wal_record tx p" "length p \<le> MaxRecordLen"
    unfolding wl by (auto simp: appends_def wl)
  have n: "n < length (wal_record tx p)" using assms(3) by (simp add: wl r(1))
  have log: "log_entries (ev_codec ev) (ds_mid st) wl (ds_active st) (ds_last st)"
    "db_ok (ev_fuel ev) (fold entry_apply (ds_active st) (ds_folded st))"
    using st(1,4) by (simp_all add: dir_has_def log_at_def ds_db_def)
  have "dir_has (ev_codec ev) (ev_fuel ev) (fs_put walName (wl @ take n (wal_record tx p)) (en_dir en)) st"
    using dir_has_wal [OF st(1) log_entries_torn [OF log(1) st(5) r(2) n] log(2)] by simp
  then show ?thesis
    using st(2,3) assms(1) by (auto simp: r(1) wl dir_represents_def dir_db_of_def represents_def)
qed

text \<open>A command, done or not, that is interrupted.\<close>

lemma crashed_at_once: "crashed ss fs fs"
  by (cases ss) simp_all

lemma crashed_append_cases:
  assumes "crashed [FAppend p r] fs fs'"
  obtains "fs' = fs" | n where "n < length r" "fs' = fs_put p (fs_contents fs p @ take n r) fs"
    | "fs' = fs_put p (fs_contents fs p @ r) fs"
  using assms by (auto simp: not_le) (metis not_le take_all)

lemma exec_crashed:
  assumes "represents ev en d" "ev_ok ev" "room en cmd"
    "\<And>d'. spec cmd d (snd (exec ev cmd en)) d' \<Longrightarrow> db_ok (ev_fuel ev) d'"
    "crashed (exec_steps ev cmd en) (en_dir en) fs'"
  shows "\<exists>d'. (d' = d \<or> spec cmd d (snd (exec ev cmd en)) d') \<and> dir_represents ev fs' d'"
proof (cases "cmd = Cmd_Checkpoint")
  case True
  from assms(1) obtain st wl where st: "dir_has (ev_codec ev) (ev_fuel ev) (en_dir en) st" "ds_ok st" "ds_db st = d"
    "fs_get (en_dir en) walName = Some wl" "fs_get (en_dir en) RetiredWALName = None" "en_open en"
    by (auto simp: represents_def stores_def stores_st_def)
  from eng.checkpoint_Run_law [OF st(1,5,4,2)] assms(5) True st(3,6) representsD(3) [OF assms(1)] show ?thesis
    by (fastforce simp: exec_steps_def dir_represents_def)
next
  case False
  from assms(1) have op: "en_open en" by (auto simp: represents_def stores_def stores_st_def)
  note app = exec_appends [OF assms(2) op False]
  let ?old = "fs_contents (en_dir en) walName" and ?dir = "en_dir (fst (exec ev cmd en))"
  from assms(5) False have "crashed [FAppend walName (drop (length ?old) (fs_contents ?dir walName))] (en_dir en) fs'"
    by (simp add: exec_steps_def Let_def)
  then show ?thesis
  proof (cases rule: crashed_append_cases)
    case 1
    then show ?thesis using represents_dir [OF assms(1)] by blast
  next
    case (2 n)
    with torn_append_law [OF assms(1) app] show ?thesis by blast
  next
    case 3
    then have "fs' = fs_run (exec_steps ev cmd en) (en_dir en)"
      using False by (simp add: exec_steps_def Let_def)
    then have get: "fs_get fs' = fs_get ?dir" using exec_steps_run [OF assms(1,2)] by simp
    from exec_refines [OF assms(1-4)] obtain d' where
      d': "d' = d \<or> spec cmd d (snd (exec ev cmd en)) d'" "represents ev (fst (exec ev cmd en)) d'"
      unfolding refines_def by blast
    from dir_represents_cong [OF represents_dir [OF d'(2)] get] d'(1) show ?thesis by blast
  qed
qed

section \<open>Opening\<close>

lemma objects_ok_observed:
  assumes "objects_ok g d" "fold sub_apply subs (map_of kvs) = d" "\<forall>s\<in>set subs. sub_ok s"
  shows "objects_ok (observe_all kvs subs) d"
proof (rule objects_okI)
  let ?g = "fold observe_tree_key (map fst kvs) gen_New"
  fix cls
  have "0 \<le> sint (gen_Current ?g cls)" using sint_observe_keys [of gen_New cls "map fst kvs"] by simp
  also have "\<dots> \<le> sint (gen_Current (observe_all kvs subs) cls)"
    unfolding observe_all_def by (rule sint_observe_subs [THEN conjunct1])
  finally show "0 \<le> sint (gen_Current (observe_all kvs subs) cls)" .
next
  fix p c i
  assume a: "no_sep p" "no_sep c" "objects p c d i \<noteq> None"
  then have "fold sub_apply subs (map_of kvs) (ObjectKey p c i) \<noteq> None" using assms(2) by (simp add: objects_def)
  from observe_all_bound [OF this _ assms(3)] a(1,2)
  have "sint i \<le> sint (gen_Current (observe_all kvs subs) (ScopeKey p c))" by simp
  with objects_okD(2) [OF assms(1) a]
  show "d (ClassKey p c) \<noteq> None \<and> 0 < sint i \<and> sint i \<le> sint (gen_Current (observe_all kvs subs) (ScopeKey p c))"
    by simp
qed

lemma Open_represents:
  assumes "dir_represents ev fs d"
  shows "\<exists>steps en. en_Open ev fs = (steps, Inr en) \<and> represents ev en d \<and> en_dir en = fs_run steps fs \<and>
    (\<forall>fs'. crashed steps fs fs' \<longrightarrow> dir_represents ev fs' d)"
proof -
  from assms obtain st g where st: "dir_has (ev_codec ev) (ev_fuel ev) fs st" "ds_ok st" "ds_db st = d" "objects_ok g d"
    by (auto simp: dir_represents_def dir_db_of_def)
  from Open_law [OF st(1,2)] obtain steps en kvs subs where
    o: "en_Open ev fs = (steps, Inr en)" "\<forall>fs'. crashed steps fs fs' \<longrightarrow> dir_db_of ds_ok (ev_codec ev) (ev_fuel ev) fs' d"
      "en_dir en = fs_run steps fs" "stores (ev_codec ev) (ev_fuel ev) en d" "classes_ok (en_classes en) d"
      "en_idgen en = observe_all kvs subs" "fold sub_apply subs (map_of kvs) = d" "\<forall>s\<in>set subs. sub_ok s"
    unfolding safe_def st(3) by blast
  have "represents ev en d" using o(4-6) objects_ok_observed [OF st(4) o(7,8)] by (simp add: represents_def)
  with o(1-3) st(4) show ?thesis by (auto simp: dir_represents_def)
qed

text \<open>The first boot.\<close>

lemma Open_first:
  assumes "0 < ev_fuel ev"
  shows "\<exists>steps en. en_Open ev [] = (steps, Inr en) \<and> represents ev en Map.empty \<and> en_nextTx en = 0 \<and>
    en_idgen en = observe_all [] [] \<and> en_dir en = fs_run steps [] \<and> snap_holds (ev_fuel ev) (en_snap en) []"
proof -
  from Recover_empty_law [OF assms, of "ev_codec ev"] obtain steps res st where
    r: "Recover (ev_codec ev) (ev_fuel ev) [] = (steps, Inr res)"
      "dir_has (ev_codec ev) (ev_fuel ev) (fs_run steps []) st"
      "ds_complete st" "map_of (ds_kvs st) = Map.empty" "ds_active st = []" "ds_last st = 0"
      "resumes (ev_fuel ev) (fs_run steps []) st res" by blast
  have db: "ds_db st = Map.empty" using r(3-5) by (simp add: ds_db_def ds_folded_def ds_complete_def)
  have ok: "ds_ok st" using r(3-5) by (simp add: ds_ok_def ds_complete_def)
  have gen: "rr_Gen res = observe_all [] []"
    using r(4,5,7) by (simp add: resumes_def)
  from open_recovered_law [OF r(2) ok r(3,7)] obtain s en where
    o: "open_recovered ev res (fs_run steps []) = (s, Inr en)" "en_dir en = fs_run s (fs_run steps [])"
      "stores (ev_codec ev) (ev_fuel ev) en Map.empty" "classes_ok (en_classes en) Map.empty" "en_nextTx en = 0"
      "en_idgen en = observe_all [] []" "snap_holds (ev_fuel ev) (en_snap en) []"
    unfolding safe_def db r(6) gen using r(4) by auto
  have "en_Open ev [] = (steps @ s, Inr en)" unfolding en_Open_def using r(1) o(1) by (rule fs_bind_Inr)
  moreover have "objects_ok (observe_all [] []) Map.empty"
    by (rule objects_ok_observed [of gen_New]) (simp_all add: objects_ok_def objects_def)
  ultimately show ?thesis using o by (auto simp: represents_def fs_run_append)
qed

end
