(* ===== verification/EngineSample.thy ===== *)
theory EngineSample
  imports EngineCrash
begin

text \<open>
  A concrete run of the engine for the witnesses: the first boot of an empty directory, a class, an
  object in it. The codec is a table of the entries of the run.
\<close>

definition table_codec :: "(bytes \<times> WALEntry) list \<Rightarrow> codec" where
  "table_codec tab =
     \<lparr>cd_marshal = (\<lambda>e. case List.find (\<lambda>(p, x). x = e) tab of None \<Rightarrow> Inl ErrIO | Some (p, x) \<Rightarrow> Inr p),
      cd_unmarshal = (\<lambda>p. case map_of tab p of None \<Rightarrow> Inl ErrIO | Some e \<Rightarrow> Inr e)\<rparr>"

lemma table_codec_law: "distinct (map fst tab) \<Longrightarrow> codec_law (table_codec tab) e"
  unfolding codec_law_def
  by (auto simp: table_codec_def find_Some_iff split: option.split) (metis map_of_eq_Some_iff nth_mem option.distinct(1),
      metis map_of_eq_Some_iff nth_mem option.inject)

abbreviation sample_class :: bytes where "sample_class \<equiv> [0x61]"

definition sample_table :: "(bytes \<times> WALEntry) list" where
  "sample_table =
     [([1], class_entry OpCreateClass [] sample_class), ([2], object_entry OpPut [] sample_class 1 [3]),
      ([3], object_entry OpDelete [] sample_class 1 []), ([4], object_entry OpPut [] sample_class 1 [4]),
      ([5], object_entry OpPut [] sample_class 1 [5]), ([6], class_entry OpDropClass [] sample_class)]"

definition sample_env :: env where
  "sample_env = \<lparr>ev_codec = table_codec sample_table, ev_fuel = 9, ev_now = 0, ev_io = None, ev_sync = True\<rparr>"

definition class_db :: db where
  "class_db = map_of [(ClassKey [] sample_class, [])]"

definition object_db :: "bytes \<Rightarrow> db" where
  "object_db v = map_of [(ClassKey [] sample_class, []), (ObjectKey [] sample_class 1, v)]"

lemma sample_env_ok [simp]: "ev_ok sample_env"
  by (simp add: ev_ok_def sample_env_def table_codec_law sample_table_def)

lemma sample_env_simps [simp]: "ev_now sample_env = 0" "ev_fuel sample_env = 9" "ev_codec sample_env = table_codec sample_table"
  by (simp_all add: sample_env_def)

lemma timestamp_0 [simp]:
  "with_timestamp (class_entry op p c) 0 = class_entry op p c"
  "with_timestamp (object_entry op p c i v) 0 = object_entry op p c i v"
  by (simp_all add: with_timestamp_def class_entry_def object_entry_def)

lemma sample_marshal [simp]:
  "cd_marshal (table_codec sample_table) (class_entry OpCreateClass [] sample_class) = Inr [1]"
  "cd_marshal (table_codec sample_table) (object_entry OpPut [] sample_class 1 [3]) = Inr [2]"
  "cd_marshal (table_codec sample_table) (object_entry OpDelete [] sample_class 1 []) = Inr [3]"
  "cd_marshal (table_codec sample_table) (object_entry OpPut [] sample_class 1 [4]) = Inr [4]"
  "cd_marshal (table_codec sample_table) (object_entry OpPut [] sample_class 1 [5]) = Inr [5]"
  "cd_marshal (table_codec sample_table) (class_entry OpDropClass [] sample_class) = Inr [6]"
  by (simp_all add: table_codec_def sample_table_def class_entry_def object_entry_def op_defs)

lemma sample_names [simp]: "no_sep []" "no_sep sample_class" "validName sample_class" "validProject []"
  by (simp_all add: keySep_def validName_def validProject_def name_byte_def)

lemma sample_dbs_ok [simp]: "db_ok 9 Map.empty" "db_ok 9 class_db" "length v < 8 \<Longrightarrow> db_ok 9 (object_db v)"
proof -
  have "sorted_wrt (<) (map fst [(ClassKey [] sample_class, []), (ObjectKey [] sample_class 1, v)])"
    by (simp add: ClassKey_def ObjectKey_def nsClass_def nsObject_def)
  then show "length v < 8 \<Longrightarrow> db_ok 9 (object_db v)" unfolding object_db_def
    by (rule db_ok_small) (simp add: kvs_ok_def mgr_cap_def maxKeyLen_def enough_fuel_def ClassKey_def ObjectKey_def scope_def
        load_pages_def)
qed (use db_ok_small [of "[]" 9] in \<open>simp add: kvs_ok_def mgr_cap_def enough_fuel_def\<close>,
  unfold class_db_def, rule db_ok_small,
  simp_all add: kvs_ok_def mgr_cap_def maxKeyLen_def enough_fuel_def ClassKey_def scope_def)

lemma sample_has [simp]:
  "has_class [] sample_class class_db" "has_class [] sample_class (object_db v)"
  "\<not> has_class [] sample_class Map.empty"
  by (simp_all add: has_class_def class_db_def object_db_def keySep_def)

lemma sample_objects [simp]:
  "objects [] sample_class class_db = Map.empty" "objects [] sample_class (object_db v) = [1 \<mapsto> v]"
  by (auto simp: objects_def class_db_def object_db_def fun_eq_iff ObjectKey_inject keySep_def ClassKey_neq_ObjectKey [symmetric])

lemma sample_puts [simp]:
  "(Map.empty :: db)(ClassKey [] sample_class \<mapsto> []) = class_db"
  "class_db(ObjectKey [] sample_class 1 \<mapsto> v) = object_db v"
  "(object_db v)(ObjectKey [] sample_class 1 \<mapsto> w) = object_db w"
  "(object_db v)(ObjectKey [] sample_class 1 := None) = class_db"
  by (auto simp: class_db_def object_db_def ClassKey_neq_ObjectKey fun_eq_iff)

text \<open>An engine of the run: what it stands for, its counters; its snapshot is still empty.\<close>

definition at :: "engine \<Rightarrow> db \<Rightarrow> u64 \<Rightarrow> generator \<Rightarrow> bool" where
  "at en d tx g \<longleftrightarrow> represents sample_env en d \<and> en_nextTx en = tx \<and> en_idgen en = g \<and> snap_holds 9 (en_snap en) []"

lemma sample_submit:
  assumes "represents sample_env en d" "cd_marshal (table_codec sample_table) (with_timestamp e 0) = Inr p" "length p = 1"
  shows "\<exists>fs. submit sample_env e del en =
    (publish e del (en_nextTx en + 1) (en\<lparr>en_nextTx := en_nextTx en + 1, en_dir := fs\<rparr>), Inr (en_nextTx en + 1))"
proof -
  have "en_open en" using assms(1) by (auto simp: represents_def stores_def stores_st_def)
  moreover have "length p \<le> MaxRecordLen" using assms(3) by (simp add: MaxRecordLen_def push_bit_eq_mult)
  ultimately show ?thesis using assms(2) by (simp add: submit_def submit_log_def seq_Submit_ok) blast
qed

lemma sample_boot: "\<exists>steps en. en_Open sample_env [] = (steps, Inr en) \<and> at en Map.empty 0 gen_New"
  using Open_first [of sample_env] by (auto simp: at_def observe_all_def)

lemma at_room:
  assumes "at en d tx g" "unat tx + 1 < 2 ^ 64" "\<forall>cls. sint (gen_Current g cls) + int (ids_needed cmd) < 2 ^ 63"
  shows "room en cmd"
  using assms by (simp add: at_def room_def tx_left_def)

lemma sample_create_class:
  assumes "at en Map.empty 0 gen_New"
  shows "\<exists>en'. exec sample_env (Cmd_CreateClass [] sample_class) en = (en', Inr RUnit) \<and> at en' class_db 1 gen_New"
proof -
  let ?cmd = "Cmd_CreateClass [] sample_class"
  from assms have rep: "represents sample_env en Map.empty" by (simp add: at_def)
  have "room en ?cmd" using assms by (rule at_room) simp_all
  from exec_refines [OF rep sample_env_ok this] have ref: "refines sample_env ?cmd Map.empty (exec sample_env ?cmd en)"
    by simp
  obtain fs where s: "submit sample_env (class_entry OpCreateClass [] sample_class) False en =
      (publish (class_entry OpCreateClass [] sample_class) False (en_nextTx en + 1)
        (en\<lparr>en_nextTx := en_nextTx en + 1, en_dir := fs\<rparr>), Inr (en_nextTx en + 1))"
    using sample_submit [OF rep, of "class_entry OpCreateClass [] sample_class" "[1]"] by auto
  have "\<not> ClassExists en [] sample_class" using ClassExists_iff [OF rep] by simp
  with s obtain en' where e: "exec sample_env ?cmd en = (en', Inr RUnit)" "en_nextTx en' = en_nextTx en + 1"
    "en_idgen en' = en_idgen en" "en_snap en' = en_snap en"
    by (simp add: CreateClass_def)
  with ref have "represents sample_env en' class_db" by (auto simp: refines_def refused_def)
  with e assms show ?thesis by (auto simp: at_def)
qed

lemma sample_create:
  assumes "at en class_db tx gen_New" "unat tx + 1 < 2 ^ 64" "v = [3] \<or> v = [4] \<or> v = [5]"
  shows "\<exists>en'. exec sample_env (Cmd_Create [] sample_class v) en = (en', Inr (RId 1)) \<and>
    at en' (object_db v) (tx + 1) (gen_New(ScopeKey [] sample_class \<mapsto> 1))"
proof -
  let ?cmd = "Cmd_Create [] sample_class v"
  let ?e = "object_entry OpPut [] sample_class 1 v"
  from assms(1) have rep: "represents sample_env en class_db" by (simp add: at_def)
  have "room en ?cmd" using assms(1,2) by (rule at_room) simp
  moreover have "db_ok 9 (object_db v)" using assms(3) by (intro sample_dbs_ok) auto
  moreover define en1 where "en1 = en\<lparr>en_idgen := gen_New(ScopeKey [] sample_class \<mapsto> 1)\<rparr>"
  have rep1: "represents sample_env en1 class_db"
    using representsD [OF rep] assms(1)
    by (auto simp: represents_def en1_def at_def intro: objects_ok_less)
  obtain p where p: "cd_marshal (table_codec sample_table) (with_timestamp ?e 0) = Inr p" "length p = 1"
    using assms(3) by auto
  obtain fs where s: "submit sample_env ?e False en1 =
      (publish ?e False (en_nextTx en1 + 1) (en1\<lparr>en_nextTx := en_nextTx en1 + 1, en_dir := fs\<rparr>), Inr (en_nextTx en1 + 1))"
    using sample_submit [OF rep1 p] by blast
  have "ClassExists en [] sample_class" using ClassExists_iff [OF rep] by simp
  moreover have "gen_Next (en_idgen en) (ScopeKey [] sample_class) = (1, gen_New(ScopeKey [] sample_class \<mapsto> 1))"
    using assms(1) by (simp add: at_def gen_Next_def)
  ultimately obtain en' where e: "exec sample_env ?cmd en = (en', Inr (RId 1))" "en_nextTx en' = en_nextTx en + 1"
    "en_idgen en' = gen_New(ScopeKey [] sample_class \<mapsto> 1)" "en_snap en' = en_snap en"
    using s by (simp add: CreateObject_def en1_def)
  have "db_ok (ev_fuel sample_env) d'" if "spec ?cmd class_db (snd (exec sample_env ?cmd en)) d'" for d'
    using that \<open>db_ok 9 (object_db v)\<close> unfolding e(1) by auto
  note ref = exec_refines [OF rep sample_env_ok \<open>room en ?cmd\<close> this]
  from ref e(1) have "represents sample_env en' (object_db v)" by (auto simp: refines_def refused_def)
  with e assms(1) show ?thesis by (auto simp: at_def)
qed

lemma sample_delete:
  assumes "at en (object_db v) tx g" "unat tx + 1 < 2 ^ 64"
  shows "\<exists>en'. exec sample_env (Cmd_Delete [] sample_class 1) en = (en', Inr RUnit) \<and> at en' class_db (tx + 1) g"
proof -
  let ?cmd = "Cmd_Delete [] sample_class 1"
  let ?e = "object_entry OpDelete [] sample_class 1 []"
  from assms(1) have rep: "represents sample_env en (object_db v)" by (simp add: at_def)
  have room: "room en ?cmd" using assms(1,2) by (rule at_room) (use sint_lt [where 'a = 64] in simp)
  obtain fs where s: "submit sample_env ?e True en =
      (publish ?e True (en_nextTx en + 1) (en\<lparr>en_nextTx := en_nextTx en + 1, en_dir := fs\<rparr>), Inr (en_nextTx en + 1))"
    using sample_submit [OF rep, of ?e "[3]"] by auto
  have "ClassExists en [] sample_class" using ClassExists_iff [OF rep] by simp
  with s lookup_object [OF rep, of "[]" sample_class 1] obtain en' where
    e: "exec sample_env ?cmd en = (en', Inr RUnit)" "en_nextTx en' = en_nextTx en + 1"
      "en_idgen en' = en_idgen en" "en_snap en' = en_snap en"
    by (simp add: DeleteObject_def)
  have "db_ok (ev_fuel sample_env) d'" if "spec ?cmd (object_db v) (snd (exec sample_env ?cmd en)) d'" for d'
    using that unfolding e(1) by simp
  note ref = exec_refines [OF rep sample_env_ok room this]
  from ref e(1) have "represents sample_env en' class_db" by (auto simp: refines_def refused_def)
  with e assms(1) show ?thesis by (auto simp: at_def)
qed

lemma sample_object:
  "\<exists>en. at en (object_db [3]) 2 (gen_New(ScopeKey [] sample_class \<mapsto> 1))"
proof -
  from sample_boot obtain en0 where "at en0 Map.empty 0 gen_New" by blast
  from sample_create_class [OF this] obtain en1 where en1: "at en1 class_db 1 gen_New" by blast
  from sample_create [OF en1, of "[3]"] show ?thesis by auto
qed

end
