(* ===== verification/EngineProps.thy ===== *)
theory EngineProps
  imports EngineSample
begin

text \<open>
  The properties of the object store: every command does what its specification says, whatever a
  crash interrupts is either done or not done after the next boot, and what goes wrong when
  operations overlap or a restart forgets.
\<close>

section \<open>Refinement and crashes\<close>

text \<open>
  C3: every command of the engine refines its specification. An engine that stands for a database
  answers what the specification allows and stands for the database the specification leaves; a write
  whose log entry cannot be marshalled or is too large is refused and changes nothing.
\<close>

theorem engine_refines:
  assumes "represents ev en d" "ev_ok ev" "room en cmd"
    "\<forall>d'. spec cmd d (snd (exec ev cmd en)) d' \<longrightarrow> db_ok (ev_fuel ev) d'"
  shows "\<exists>d'. (spec cmd d (snd (exec ev cmd en)) d' \<or> refused ev (snd (exec ev cmd en)) \<and> d' = d) \<and>
    represents ev (fst (exec ev cmd en)) d'"
  using exec_refines [OF assms(1-3)] assms(4) unfolding refines_def by blast

theorem engine_refines_witness:
  "\<exists>en. represents sample_env en class_db \<and>
     snd (exec sample_env (Cmd_Create [] sample_class [3]) en) = Inr (RId 1) \<and>
     represents sample_env (fst (exec sample_env (Cmd_Create [] sample_class [3]) en)) (object_db [3])"
proof -
  let ?cmd = "Cmd_Create [] sample_class [3]"
  from sample_boot sample_create_class obtain en where en: "at en class_db 1 gen_New" by blast
  then have rep: "represents sample_env en class_db" by (simp add: at_def)
  from sample_create [OF en, of "[3]"] have ans: "snd (exec sample_env ?cmd en) = Inr (RId 1)" by auto
  then have sp: "spec ?cmd class_db (snd (exec sample_env ?cmd en)) d' \<Longrightarrow> d' = object_db [3]" for d' by auto
  have db: "\<forall>d'. spec ?cmd class_db (snd (exec sample_env ?cmd en)) d' \<longrightarrow> db_ok (ev_fuel sample_env) d'"
    using sp by force
  have room: "room en ?cmd" using en by (rule at_room) simp_all
  from engine_refines [OF rep sample_env_ok room db] obtain d' where
    "spec ?cmd class_db (snd (exec sample_env ?cmd en)) d' \<or> refused sample_env (snd (exec sample_env ?cmd en))"
    "represents sample_env (fst (exec sample_env ?cmd en)) d'" by blast
  moreover have "\<not> refused sample_env (snd (exec sample_env ?cmd en))" unfolding ans by (simp add: refused_def)
  ultimately have "represents sample_env (fst (exec sample_env ?cmd en)) (object_db [3])" using sp by blast
  with rep ans show ?thesis by (intro exI [of _ en] conjI)
qed

text \<open>
  C4: a write is atomic and durable. When the process or the machine fails at any step of a command,
  with any part of the log entry or of a checkpoint's files on the disk, the next boot succeeds and
  its engine stands for the database before the command or for the one its answer stands for. A
  command that was answered and then crashed has all its steps on the disk.
\<close>

theorem crash_recovers:
  assumes "represents ev en d" "ev_ok ev" "room en cmd"
    "\<forall>d'. spec cmd d (snd (exec ev cmd en)) d' \<longrightarrow> db_ok (ev_fuel ev) d'"
    "crashed (exec_steps ev cmd en) (en_dir en) fs'"
  shows "fs_get (fs_run (exec_steps ev cmd en) (en_dir en)) = fs_get (en_dir (fst (exec ev cmd en))) \<and>
    (\<exists>d' steps en'. (d' = d \<or> spec cmd d (snd (exec ev cmd en)) d') \<and>
      en_Open ev fs' = (steps, Inr en') \<and> represents ev en' d')"
proof (intro conjI exec_steps_run [OF assms(1,2)])
  from exec_crashed [OF assms(1-3) _ assms(5)] assms(4) obtain d' where
    d': "d' = d \<or> spec cmd d (snd (exec ev cmd en)) d'" "dir_represents ev fs' d'" by meson
  from Open_represents [OF d'(2)] obtain steps en' where
    "en_Open ev fs' = (steps, Inr en')" "represents ev en' d'" by blast
  with d'(1) show "\<exists>d' steps en'. (d' = d \<or> spec cmd d (snd (exec ev cmd en)) d') \<and>
      en_Open ev fs' = (steps, Inr en') \<and> represents ev en' d'"
    by (intro exI [of _ d'] exI [of _ steps] exI [of _ en'] conjI)
qed

theorem crash_recovers_witness:
  "\<exists>en fs' steps en'. crashed (exec_steps sample_env (Cmd_Create [] sample_class [3]) en) (en_dir en) fs' \<and>
     en_Open sample_env fs' = (steps, Inr en') \<and>
     (represents sample_env en' class_db \<or> represents sample_env en' (object_db [3]))"
proof -
  let ?cmd = "Cmd_Create [] sample_class [3]"
  from sample_boot sample_create_class obtain en where en: "at en class_db 1 gen_New" by blast
  then have rep: "represents sample_env en class_db" by (simp add: at_def)
  from sample_create [OF en, of "[3]"] have ans: "snd (exec sample_env ?cmd en) = Inr (RId 1)" by auto
  then have sp: "spec ?cmd class_db (snd (exec sample_env ?cmd en)) d' \<Longrightarrow> d' = object_db [3]" for d' by auto
  have db: "\<forall>d'. spec ?cmd class_db (snd (exec sample_env ?cmd en)) d' \<longrightarrow> db_ok (ev_fuel sample_env) d'"
    using sp by force
  have room: "room en ?cmd" using en by (rule at_room) simp_all
  have crash: "crashed (exec_steps sample_env ?cmd en) (en_dir en) (en_dir en)"
    by (rule crashed_at_once)
  from crash_recovers [OF rep sample_env_ok room db crash, THEN conjunct2] obtain d' steps en' where
    o: "d' = class_db \<or> spec ?cmd class_db (snd (exec sample_env ?cmd en)) d'"
      "en_Open sample_env (en_dir en) = (steps, Inr en')" "represents sample_env en' d'" by (elim exE conjE)
  from o(1) sp have "d' = class_db \<or> d' = object_db [3]" by fast
  with o(3) have "represents sample_env en' class_db \<or> represents sample_env en' (object_db [3])" by fast
  with crash o(2) show ?thesis
    by (intro exI [of _ en] exI [of _ "en_dir en"] exI [of _ steps] exI [of _ en'] conjI)
qed

text \<open>
  Booting can be interrupted. A crash at any step of \<^verbatim>\<open>Open\<close> leaves a directory from which the
  next \<^verbatim>\<open>Open\<close> succeeds and stands for the same database.
\<close>

theorem open_crash_safe:
  assumes "represents ev en d" "crashed (fst (en_Open ev (en_dir en))) (en_dir en) fs'"
  shows "\<exists>steps en'. en_Open ev fs' = (steps, Inr en') \<and> represents ev en' d"
proof -
  from Open_represents [OF represents_dir [OF assms(1)]] assms(2) have "dir_represents ev fs' d" by force
  from Open_represents [OF this] show ?thesis by blast
qed

theorem open_crash_safe_witness:
  "\<exists>(en :: engine) fs' steps en'. crashed (fst (en_Open sample_env (en_dir en))) (en_dir en) fs' \<and>
     en_Open sample_env fs' = (steps, Inr en') \<and> represents sample_env en' (object_db [3])"
proof -
  from sample_object obtain en where en: "represents sample_env en (object_db [3])" by (auto simp: at_def)
  have "crashed (fst (en_Open sample_env (en_dir en))) (en_dir en) (en_dir en)"
    by (rule crashed_at_once)
  with open_crash_safe [OF en this] show ?thesis by (intro exI [of _ en] exI [of _ "en_dir en"]) simp
qed

text \<open>
  C16: a query answers the objects of the class that its filter accepts, each once, by increasing id,
  from \<open>offset\<close> on and at most \<open>limit\<close> of them, whether they are in the snapshot, in the overlay or in
  both; no object of another class or project whose keys share the prefix comes in.
\<close>

theorem QueryObjects_correct:
  assumes "represents ev en d" "has_class p c d" "\<forall>i v. objects p c d i = Some v \<longrightarrow> f v = Inr (P v)"
  shows "\<exists>ids. sorted_wrt (\<lambda>i j. sint i < sint j) ids \<and> set ids = {i. \<exists>v. objects p c d i = Some v \<and> P v} \<and>
    QueryObjects ev en p c (Some f) limit offset =
      Inr (map (\<lambda>i. (i, the (objects p c d i)))
        (let rest = drop (nat offset) ids in if limit > 0 then take (nat limit) rest else rest))"
proof -
  have "ClassExists en p c" "no_sep p" "no_sep c"
    using ClassExists_iff [OF assms(1)] has_class_no_sep [OF assms(2)] assms(2) by simp_all
  from QueryObjects_law [OF representsD(1) [OF assms(1)] this, of P "Some f" limit offset] assms(3) obtain ids where
    ids: "id_sorted ids" "set ids = {i. \<exists>v. objects p c d i = Some v \<and> P v}"
    "QueryObjects ev en p c (Some f) limit offset = Inr (map (\<lambda>i. (i, the (objects p c d i))) (paginate limit offset ids))"
    by (auto simp: lists_def)
  have "paginate limit offset ids =
      (let rest = drop (nat offset) ids in if limit > 0 then take (nat limit) rest else rest)"
    by (cases ids) (auto simp: paginate_def Let_def)
  with ids show ?thesis by (intro exI [of _ ids]) (simp add: id_sorted_def)
qed

theorem QueryObjects_correct_witness:
  "\<exists>en ids. QueryObjects sample_env en [] sample_class (Some (\<lambda>v. Inr (v = [3]))) 10 0 =
     Inr (map (\<lambda>i. (i, the ([1 \<mapsto> [3]] i))) ids) \<and> set ids = {1 :: u64}"
proof -
  from sample_object obtain en where en: "represents sample_env en (object_db [3])" by (auto simp: at_def)
  have "\<forall>i v. objects [] sample_class (object_db [3]) i = Some v \<longrightarrow> (Inr (v = [3]) :: bool res) = Inr (v = [3])" by simp
  from QueryObjects_correct [OF en sample_has(2) this, of 10 0] obtain ids where
    ids: "sorted_wrt (\<lambda>i j. sint i < sint j) ids" "set ids = {i. \<exists>v. [1 \<mapsto> [3]] i = Some v \<and> v = [3]}"
    "QueryObjects sample_env en [] sample_class (Some (\<lambda>v. Inr (v = [3]))) 10 0 =
      Inr (map (\<lambda>i. (i, the ([1 \<mapsto> [3]] i))) (take 10 ids))" by (auto simp: Let_def)
  have s1: "set ids = {1}" unfolding ids(2) by auto
  have "distinct (map sint ids)" using ids(1) strict_sorted_iff [of "map sint ids"] by (simp add: sorted_wrt_map)
  then have "distinct ids" by (simp add: distinct_map)
  then have "length ids = 1" using s1 distinct_card [of ids] by simp
  with ids(3) s1 show ?thesis by auto
qed

section \<open>Restarts and overlapping operations\<close>

lemma observe_keys_none:
  assumes "\<forall>k\<in>set keys. \<forall>p c i. DecodeObjectKey k = Some (p, c, i) \<longrightarrow> ScopeKey p c \<noteq> cls"
  shows "gen_Current (fold observe_tree_key keys g) cls = gen_Current g cls"
  using assms
proof (induction keys arbitrary: g)
  case (Cons k keys)
  have "gen_Current (observe_tree_key k g) cls = gen_Current g cls"
    using Cons.prems by (auto simp: observe_tree_key_def observe_key_def gen_Observe_def split: option.splits)
  with Cons show ?case by simp
qed simp

lemma checkpoint_reopen:
  assumes "represents ev en d"
  obtains en1 steps en2 kvs where "Checkpoint ev en = (en1, Inr ())" "en_Open ev (en_dir en1) = (steps, Inr en2)"
    "represents ev en2 d" "en_idgen en2 = observe_all kvs []" "map_of kvs = d"
proof -
  from Checkpoint_law [OF representsD(1) [OF assms]] obtain en1 where
    c: "Checkpoint ev en = (en1, Inr ())" "stores (ev_codec ev) (ev_fuel ev) en1 d"
      "fs_get (en_dir en1) walName = Some []" by blast
  then obtain st where st: "dir_has (ev_codec ev) (ev_fuel ev) (en_dir en1) st" "ds_ok st" "ds_db st = d"
    by (auto simp: stores_def stores_st_def)
  have "ds_active st = []"
    using st(1) c(3) by (auto simp: dir_has_def log_at_def log_entries_def wal_read_def wal_read_from.simps wal_Next_def)
  with Open_law [OF st(1,2)] obtain steps en2 kvs where
    o: "en_Open ev (en_dir en1) = (steps, Inr en2)" "stores (ev_codec ev) (ev_fuel ev) en2 d"
      "classes_ok (en_classes en2) d" "en_idgen en2 = observe_all kvs []" "map_of kvs = d"
    unfolding safe_def st(3) by auto
  have "objects_ok (en_idgen en2) d"
    using objects_ok_observed [OF representsD(3) [OF assms], of "[]" kvs] o(4,5) by simp
  with o c(1) that show ?thesis by (simp add: represents_def)
qed

text \<open>
  Ids are reused after a restart. The comment of \<^verbatim>\<open>Observe\<close> promises that ids are never reused
  after a restart; but when the objects of a class have been deleted, a checkpoint forgets the deleted
  ids, and after the next boot the class counts from 1 again, whatever ids had been answered before.
\<close>

theorem restart_reuses_ids:
  assumes "represents ev en d" "no_sep p" "no_sep c" "objects p c d = Map.empty"
  shows "\<exists>en1 steps en2. Checkpoint ev en = (en1, Inr ()) \<and> en_Open ev (en_dir en1) = (steps, Inr en2) \<and>
    represents ev en2 d \<and> fst (gen_Next (en_idgen en2) (ScopeKey p c)) = 1 \<and>
    (\<forall>v en3 i. CreateObject ev p c v en2 = (en3, Inr i) \<longrightarrow> i = 1)"
proof -
  from checkpoint_reopen [OF assms(1)] obtain en1 steps en2 kvs where
    o: "Checkpoint ev en = (en1, Inr ())" "en_Open ev (en_dir en1) = (steps, Inr en2)"
      "represents ev en2 d" "en_idgen en2 = observe_all kvs []" "map_of kvs = d" by blast
  have "\<forall>k\<in>set (map fst kvs). \<forall>p' c' i. DecodeObjectKey k = Some (p', c', i) \<longrightarrow> ScopeKey p' c' \<noteq> ScopeKey p c"
  proof (intro ballI allI impI notI)
    fix k p' c' i
    assume a: "k \<in> set (map fst kvs)" "DecodeObjectKey k = Some (p', c', i)" "ScopeKey p' c' = ScopeKey p c"
    have dk: "d k \<noteq> None" using a(1) unfolding o(5) [symmetric] map_of_eq_None_iff by simp
    from stores_keys [OF representsD(1) [OF assms(1)] dk] have "key_ok k" .
    with a(2) have "k = ObjectKey p' c' i" "no_sep p'" "no_sep c'" by (simp_all add: key_ok_decode)
    with ScopeKey_split [OF assms(2,3) a(3)] dk assms(4) show False by (simp add: objects_def fun_eq_iff)
  qed
  from observe_keys_none [OF this, of gen_New] have "gen_Current (en_idgen en2) (ScopeKey p c) = 0"
    by (simp add: o(4) observe_all_def)
  then have n: "fst (gen_Next (en_idgen en2) (ScopeKey p c)) = 1" by (simp add: gen_Next_def Let_def)
  have "i = 1" if "CreateObject ev p c v en2 = (en3, Inr i)" for v en3 i
    using that n by (auto simp: CreateObject_def split: if_splits prod.splits sum.splits)
  with o n show ?thesis by blast
qed

theorem restart_reuses_ids_witness:
  "\<exists>en en' en1 en2 steps en3. exec sample_env (Cmd_Create [] sample_class [3]) en = (en', Inr (RId 1)) \<and>
     exec sample_env (Cmd_Delete [] sample_class 1) en' = (en1, Inr RUnit) \<and>
     Checkpoint sample_env en1 = (en2, Inr ()) \<and> en_Open sample_env (en_dir en2) = (steps, Inr en3) \<and>
     fst (gen_Next (en_idgen en3) (ScopeKey [] sample_class)) = 1"
proof -
  from sample_boot sample_create_class obtain en where en: "at en class_db 1 gen_New" by blast
  from sample_create [OF en, of "[3]"] obtain en' where
    en': "exec sample_env (Cmd_Create [] sample_class [3]) en = (en', Inr (RId 1))"
      "at en' (object_db [3]) 2 (gen_New(ScopeKey [] sample_class \<mapsto> 1))" by auto
  from sample_delete [OF en'(2)] obtain en1 where
    en1: "exec sample_env (Cmd_Delete [] sample_class 1) en' = (en1, Inr RUnit)" "represents sample_env en1 class_db"
    by (auto simp: at_def)
  from restart_reuses_ids [OF en1(2) sample_names(1,2) sample_objects(1)] en'(1) en1(1) show ?thesis by blast
qed

text \<open>
  A query can miss an acknowledged object. \<^verbatim>\<open>QueryObjects\<close> scans the snapshot first and applies the
  overlay afterwards. When a checkpoint runs in between, it moves the overlay into a new snapshot and
  empties it; an object that was only in the overlay is in neither of the two that the query reads,
  although the object was acknowledged before the query began and is never deleted.
\<close>

theorem query_misses_object:
  assumes "represents ev en d" "objects p c d i = Some v"
    "query_snapshot ev (en_snap en) p c = Inr m" "i \<notin> fst ` set m"
  shows "\<exists>en'. Checkpoint ev en = (en', Inr ()) \<and> represents ev en' d \<and>
    (\<forall>match limit offset out. query_page match limit offset (query_overlay p c (en_overlay en') m) = Inr out \<longrightarrow>
      i \<notin> fst ` set out)"
proof -
  from Checkpoint_law [OF representsD(1) [OF assms(1)]] obtain en' where
    c: "Checkpoint ev en = (en', Inr ())" "stores (ev_codec ev) (ev_fuel ev) en' d" "en_overlay en' = []"
      "en_classes en' = en_classes en" "en_idgen en' = en_idgen en" by blast
  then have rep: "represents ev en' d" using representsD(2,3) [OF assms(1)] by (simp add: represents_def)
  have sub: "set ids \<subseteq> fst ` set m" if "query_match match m = Inr ids" for match ids
    using that
    by (induction m arbitrary: ids) (auto split: option.splits if_splits simp: bindE_Inr_iff subset_eq)
  have "i \<notin> fst ` set out" if "query_page match limit offset m = Inr out" for match limit offset out
  proof -
    from that obtain ids where ids: "query_match match m = Inr ids"
      "out = map (\<lambda>oid. (oid, data_at m oid)) (paginate limit offset (sort_key sint ids))"
      by (auto simp: query_page_def bindE_Inr_iff)
    have "fst ` set out = set (paginate limit offset (sort_key sint ids))" by (force simp: ids(2))
    then show ?thesis using sub [OF ids(1)] assms(4) paginate_subset [of limit offset "sort_key sint ids"] by auto
  qed
  then show ?thesis using c rep by simp
qed

theorem query_misses_object_witness:
  "\<exists>en en'. QueryObjects sample_env en [] sample_class None 0 0 = Inr [(1, [3])] \<and>
     Checkpoint sample_env en = (en', Inr ()) \<and>
     QueryObjects sample_env en' [] sample_class None 0 0 = Inr [(1, [3])] \<and>
     query_snapshot sample_env (en_snap en) [] sample_class = Inr [] \<and>
     (\<forall>match limit offset out.
        query_page match limit offset (query_overlay [] sample_class (en_overlay en') []) = Inr out \<longrightarrow> 1 \<notin> fst ` set out)"
proof -
  have q: "QueryObjects sample_env en [] sample_class None 0 0 = Inr [(1, [3])]"
    if rep: "represents sample_env en (object_db [3])" for en
  proof -
    from ListObjects_law [OF rep sample_has(2), of 0 0] obtain ids where
      ids: "id_sorted ids" "set ids = {1}"
        "QueryObjects sample_env en [] sample_class None 0 0 = Inr (map (\<lambda>i. (i, the ([1 \<mapsto> [3]] i))) ids)"
      by (auto simp: ListObjects_def lists_def paginate_def)
    have "distinct (map sint ids)"
      using ids(1) strict_sorted_iff [of "map sint ids"] by (simp add: sorted_wrt_map id_sorted_def)
    then have "distinct ids" by (simp add: distinct_map)
    then have "length ids = 1" using ids(2) distinct_card [of ids] by simp
    then have "ids = [1]" using ids(2) by (cases ids) auto
    with ids(3) show ?thesis by simp
  qed
  from sample_object obtain en where en: "represents sample_env en (object_db [3])" "snap_holds 9 (en_snap en) []"
    by (auto simp: at_def)
  have "query_snapshot sample_env (en_snap en) [] sample_class = Inr []"
    using snap_holds_Scan [OF en(2)] by (simp add: query_snapshot_def)
  from query_misses_object [OF en(1), of "[]" sample_class 1 "[3]", OF _ this] obtain en' where
    "Checkpoint sample_env en = (en', Inr ())" "represents sample_env en' (object_db [3])"
    "\<forall>match limit offset out.
        query_page match limit offset (query_overlay [] sample_class (en_overlay en') []) = Inr out \<longrightarrow> 1 \<notin> fst ` set out"
    by auto
  with q en \<open>query_snapshot sample_env (en_snap en) [] sample_class = Inr []\<close> show ?thesis by blast
qed

lemma put_law:
  assumes "represents ev en d" "ev_ok ev" "has_class p c d" "objects p c d i \<noteq> None" "tx_left en"
    "cd_marshal (ev_codec ev) (with_timestamp (object_entry OpPut p c i v) (ev_now ev)) = Inr q" "length q \<le> MaxRecordLen"
    "db_ok (ev_fuel ev) (d(ObjectKey p c i \<mapsto> v))"
  shows "\<exists>en'. submit_log ev (object_entry OpPut p c i v) en = (en', Inr (en_nextTx en + 1)) \<and>
    PutObject ev p c i v en = (publish (object_entry OpPut p c i v) False (en_nextTx en + 1) en', Inr ()) \<and>
    en_nextTx en' = en_nextTx en + 1 \<and> en_open en' \<and> en_classes en' = en_classes en \<and>
    represents ev (publish (object_entry OpPut p c i v) False (en_nextTx en + 1) en') (d(ObjectKey p c i \<mapsto> v))"
proof -
  let ?cmd = "Cmd_Put p c i v" and ?e = "object_entry OpPut p c i v" and ?d = "d(ObjectKey p c i \<mapsto> v)"
  have op: "en_open en" using assms(1) by (auto simp: represents_def stores_def stores_st_def)
  obtain en' where sub: "submit_log ev ?e en = (en', Inr (en_nextTx en + 1))" "en_nextTx en' = en_nextTx en + 1"
      "en_open en'" "en_classes en' = en_classes en"
    using assms(6,7) op by (simp add: submit_log_def seq_Submit_ok [OF assms(2)])
  have put: "PutObject ev p c i v en = (publish ?e False (en_nextTx en + 1) en', Inr ())"
    using ClassExists_iff [OF assms(1), of p c] lookup_object [OF assms(1), of p c i] assms(3,4) sub(1)
    by (auto simp: PutObject_def submit_def)
  have "room en ?cmd" using assms(5) sint_lt [where 'a = 64] by (simp add: room_def)
  moreover have "db_ok (ev_fuel ev) d'" if "spec ?cmd d (snd (exec ev ?cmd en)) d'" for d'
    using that assms(3,4,8) by (simp add: put)
  ultimately have "refines ev ?cmd d (exec ev ?cmd en)" by (rule exec_refines [OF assms(1,2)])
  then have "represents ev (publish ?e False (en_nextTx en + 1) en') ?d"
    using assms(3,4) by (auto simp: refines_def put refused_def)
  with sub put show ?thesis by blast
qed

text \<open>
  Concurrent writes of one object can be undone by a restart. The comment of \<^verbatim>\<open>submit\<close> says that the
  entry is published under the same critical section as it is logged; it is not, and two writers can
  publish in the other order than they were logged. Then the engine answers the first entry until it
  is restarted, and the second one from then on.
\<close>

theorem publish_race:
  assumes "represents ev en d" "ev_ok ev" "has_class p c d" "objects p c d i \<noteq> None" "unat (en_nextTx en) + 2 < 2 ^ 64"
    "\<forall>v\<in>{a, b}. \<exists>q. cd_marshal (ev_codec ev) (with_timestamp (object_entry OpPut p c i v) (ev_now ev)) = Inr q \<and>
       length q \<le> MaxRecordLen \<and> db_ok (ev_fuel ev) (d(ObjectKey p c i \<mapsto> v))"
  shows "\<exists>en1 t1 en2 t2. submit_log ev (object_entry OpPut p c i a) en = (en1, Inr t1) \<and>
    submit_log ev (object_entry OpPut p c i b) en1 = (en2, Inr t2) \<and>
    (let en3 = publish (object_entry OpPut p c i a) False t1 (publish (object_entry OpPut p c i b) False t2 en2)
     in GetObject ev en3 p c i = Inr (Some a) \<and>
       (\<exists>steps en4. en_Open ev (en_dir en3) = (steps, Inr en4) \<and> GetObject ev en4 p c i = Inr (Some b)))"
proof -
  let ?a = "object_entry OpPut p c i a" and ?b = "object_entry OpPut p c i b" and ?k = "ObjectKey p c i"
  let ?t1 = "en_nextTx en + 1"
  from assms(6) obtain qa qb where q:
    "cd_marshal (ev_codec ev) (with_timestamp ?a (ev_now ev)) = Inr qa" "length qa \<le> MaxRecordLen"
    "db_ok (ev_fuel ev) (d(?k \<mapsto> a))"
    "cd_marshal (ev_codec ev) (with_timestamp ?b (ev_now ev)) = Inr qb" "length qb \<le> MaxRecordLen"
    "db_ok (ev_fuel ev) (d(?k \<mapsto> b))" by auto
  have t: "unat ?t1 = unat (en_nextTx en) + 1" using assms(5) by (simp add: unat_word_ariths)
  have ns: "no_sep p" "no_sep c" using assms(3) by (simp_all add: has_class_def)
  have "tx_left en" using assms(5) by (simp add: tx_left_def)
  from put_law [OF assms(1-4) this q(1-3)] obtain en1 where
    e1: "submit_log ev ?a en = (en1, Inr ?t1)" "en_nextTx en1 = ?t1" "en_open en1" "en_classes en1 = en_classes en"
      "represents ev (publish ?a False ?t1 en1) (d(?k \<mapsto> a))" (is "represents ev ?en1 ?d1") by blast
  have has: "has_class p c ?d1" "objects p c ?d1 i \<noteq> None"
    using assms(3) by (simp_all add: has_class_def ClassKey_neq_ObjectKey objects_def)
  have "tx_left ?en1" using assms(5) t e1(2) by (simp add: tx_left_def)
  moreover have "db_ok (ev_fuel ev) (?d1(?k \<mapsto> b))" using q(6) by simp
  ultimately obtain en2' where
    e2: "submit_log ev ?b ?en1 = (en2', Inr (?t1 + 1))" "en_classes en2' = en_classes en"
      "represents ev (publish ?b False (?t1 + 1) en2') (d(?k \<mapsto> b))"
    using put_law [OF e1(5) assms(2) has _ q(4,5)] e1(2,4) by auto
  obtain en2 where s2: "submit_log ev ?b en1 = (en2, Inr (?t1 + 1))" "en_dir en2 = en_dir en2'" "en_classes en2 = en_classes en"
    using e2(1) q(4,5) e1(2-4) by (simp add: submit_log_def seq_Submit_ok [OF assms(2)]) auto
  define en3 where "en3 = publish ?a False ?t1 (publish ?b False (?t1 + 1) en2)"
  have ce: "ClassExists en3 p c" using ClassExists_iff [OF assms(1), of p c] assms(3) s2(3) by (simp add: en3_def ClassExists_def)
  have "map_of (en_overlay en3) ?k = Some \<lparr>ov_txID = ?t1, ov_data = a, ov_deleted = False\<rparr>"
    by (simp add: en3_def publish_def update_conv' e_Key_def op_defs)
  then have g: "GetObject ev en3 p c i = Inr (Some a)" using ce by (simp add: GetObject_def en_lookup_def)
  have "en_dir en3 = en_dir (publish ?b False (?t1 + 1) en2')" using s2(2) by (simp add: en3_def)
  with Open_represents [OF represents_dir [OF e2(3)]] obtain steps en4 where
    o: "en_Open ev (en_dir en3) = (steps, Inr en4)" "represents ev en4 (d(?k \<mapsto> b))" by auto
  have "has_class p c (d(?k \<mapsto> b))" using assms(3) by (simp add: has_class_def ClassKey_neq_ObjectKey)
  then have "GetObject ev en4 p c i = Inr (Some b)"
    using ClassExists_iff [OF o(2), of p c] lookup_object [OF o(2), of p c i] by (simp add: GetObject_def objects_def)
  with e1(1) s2(1) g o(1) show ?thesis unfolding en3_def Let_def by blast
qed

theorem publish_race_witness:
  "\<exists>en en1 t1 en2 t2. submit_log sample_env (object_entry OpPut [] sample_class 1 [4]) en = (en1, Inr t1) \<and>
     submit_log sample_env (object_entry OpPut [] sample_class 1 [5]) en1 = (en2, Inr t2) \<and>
     GetObject sample_env (publish (object_entry OpPut [] sample_class 1 [4]) False t1
       (publish (object_entry OpPut [] sample_class 1 [5]) False t2 en2)) [] sample_class 1 = Inr (Some [4])"
proof -
  from sample_object obtain en where en: "represents sample_env en (object_db [3])" "en_nextTx en = 2"
    by (auto simp: at_def)
  have tx: "unat (en_nextTx en) + 2 < 2 ^ 64" using en(2) by simp
  have codec: "\<forall>v\<in>{[4], [5]}. \<exists>q. cd_marshal (ev_codec sample_env)
      (with_timestamp (object_entry OpPut [] sample_class 1 v) (ev_now sample_env)) = Inr q \<and>
      length q \<le> MaxRecordLen \<and> db_ok (ev_fuel sample_env) ((object_db [3])(ObjectKey [] sample_class 1 \<mapsto> v))"
    by (simp add: MaxRecordLen_def push_bit_eq_mult)
  have "objects [] sample_class (object_db [3]) 1 \<noteq> None" by simp
  from publish_race [OF en(1) sample_env_ok sample_has(2) this tx codec] show ?thesis unfolding Let_def by blast
qed

section \<open>Groups of writes\<close>

text \<open>Payloads submitted one after the other.\<close>

fun submit_each :: "env \<Rightarrow> bytes list \<Rightarrow> engine \<Rightarrow> engine \<times> u64 res list" where
  "submit_each ev [] en = (en, [])"
| "submit_each ev (p # ps) en =
     (let (en, r) = seq_Submit ev p en; (en, rs) = submit_each ev ps en in (en, r # rs))"

lemma fs_put_put [simp]: "fs_put p c (fs_put p c' fs) = fs_put p c fs"
  by (simp add: fs_put_def)

lemma submit_each_ok:
  "ev_ok ev \<Longrightarrow> en_open en \<Longrightarrow> \<forall>p\<in>set ps. length p \<le> MaxRecordLen \<Longrightarrow>
   submit_each ev ps en =
     (en\<lparr>en_nextTx := en_nextTx en + word_of_nat (length ps),
        en_dir := (if ps = [] then en_dir en
          else fs_put walName (fs_contents (en_dir en) walName @ wal_log (number (en_nextTx en) ps)) (en_dir en))\<rparr>,
      map (Inr \<circ> fst) (number (en_nextTx en) ps))"
  by (induction ps arbitrary: en) (auto simp: seq_Submit_ok add.assoc)

text \<open>
  C21: the engine may take writes one at a time, as the model does, although the sequencer commits them
  in groups. A group of writes whose payloads all fit a record leaves the counter, the log and the
  answers that the same writes leave when they are submitted one after the other, each with a sync of its
  own. (A group with a payload that does not fit fails as a whole, \<open>group_fails_but_logged\<close>.)
\<close>

theorem group_commit_is_sequential:
  assumes "ev_ok ev" "en_open en" "ps \<noteq> []" "\<forall>p\<in>set ps. length p \<le> MaxRecordLen"
    "run_batch True (\<lambda>_. ev_io ev) (ev_sync ev) (en_nextTx en) (fs_contents (en_dir en) walName) ps = (tx, f, rs)"
  shows "submit_each ev ps en = (en\<lparr>en_nextTx := tx, en_dir := fs_put walName f (en_dir en)\<rparr>, rs)"
proof -
  have io: "(\<lambda>_. ev_io ev) = (\<lambda>_ :: nat. None)" "ev_sync ev" using assms(1) by (simp_all add: ev_ok_def)
  have all: "takeWhile record_ok (number (en_nextTx en) ps) = number (en_nextTx en) ps"
    unfolding takeWhile_eq_all_conv number_ok by (rule assms(4))
  from assms(5) have "tx = en_nextTx en + word_of_nat (length ps)"
      "f = fs_contents (en_dir en) walName @ wal_log (number (en_nextTx en) ps)"
      "rs = map (Inr \<circ> fst) (number (en_nextTx en) ps)"
    using assms(4) by (auto simp: io run_batch_ok all) (simp add: number_nth)
  with assms(3) show ?thesis by (simp add: submit_each_ok [OF assms(1,2,4)])
qed

theorem group_commit_is_sequential_witness:
  "\<exists>en en1 rs. submit_each sample_env [[1], [2, 3]] en = (en1, rs) \<and> rs = [Inr 1, Inr 2] \<and> en_nextTx en1 = 2"
proof -
  from sample_boot obtain en where at: "at en Map.empty 0 gen_New" by blast
  then have en: "en_open en" "en_nextTx en = 0" by (auto simp: at_def represents_def stores_def stores_st_def)
  obtain tx f rs where b: "run_batch True (\<lambda>_. ev_io sample_env) (ev_sync sample_env) (en_nextTx en)
      (fs_contents (en_dir en) walName) [[1], [2, 3]] = (tx, f, rs)" by (metis prod_cases3)
  have len: "\<forall>p\<in>set [[1], [2, 3 :: byte]]. length p \<le> MaxRecordLen" by (simp add: MaxRecordLen_def push_bit_eq_mult)
  have io: "(\<lambda>_. ev_io sample_env) = (\<lambda>_ :: nat. None)" "ev_sync sample_env"
    using sample_env_ok by (simp_all add: ev_ok_def)
  from b len have "tx = 2" "rs = [Inr 1, Inr 2]" by (auto simp: io run_batch_ok en)
  with group_commit_is_sequential [OF sample_env_ok en(1) _ len b]
  have "submit_each sample_env [[1], [2, 3]] en = (en\<lparr>en_nextTx := 2, en_dir := fs_put walName f (en_dir en)\<rparr>, [Inr 1, Inr 2])"
    by simp
  then show ?thesis by (intro exI conjI) (assumption | simp)+
qed

section \<open>Checkpoints of an engine\<close>

lemma Checkpoint_represents:
  assumes "represents ev en d"
  shows "\<exists>en'. Checkpoint ev en = (en', Inr ()) \<and> represents ev en' d \<and> en_overlay en' = [] \<and>
    fs_get (en_dir en') walName = Some []"
  using Checkpoint_law [OF representsD(1) [OF assms]] representsD(2,3) [OF assms] by (fastforce simp: represents_def)

end
