(* ===== verification/EngineHistory.thy ===== *)
theory EngineHistory
  imports EngineProps
begin

text \<open>
  Histories of an engine: commands that are answered, commands that a crash interrupts, restarts, in
  any number and order. What the engine stands for is what the answers say, up to the interrupted
  commands.
\<close>

section \<open>Events\<close>

text \<open>What a command with a given answer has done to the database.\<close>

fun effect :: "cmd \<Rightarrow> reply res \<Rightarrow> db \<Rightarrow> db" where
  "effect (Cmd_CreateClass p c) (Inr RUnit) d = d(ClassKey p c \<mapsto> [])"
| "effect (Cmd_DropClass p c) (Inr RUnit) d = d(ClassKey p c := None)"
| "effect (Cmd_Create p c v) (Inr (RId i)) d = d(ObjectKey p c i \<mapsto> v)"
| "effect (Cmd_Bulk p c vs) (Inr (RIds ids)) d = put_objects p c (zip ids vs) d"
| "effect (Cmd_Put p c i v) (Inr RUnit) d = d(ObjectKey p c i \<mapsto> v)"
| "effect (Cmd_Delete p c i) (Inr RUnit) d = d(ObjectKey p c i := None)"
| "effect _ _ d = d"

lemma spec_effect: "spec cmd d r d' \<Longrightarrow> d' = effect cmd r d"
  by (cases cmd) (auto split: if_splits)

lemma effect_error [simp]: "effect cmd (Inl e) d = d"
  by (cases cmd) simp_all

lemma refused_effect: "refused ev r \<Longrightarrow> effect cmd r d = d"
  by (auto simp: refused_def)

text \<open>\<open>Lost\<close> carries the answer the interrupted command would have given.\<close>

datatype event = Answered cmd "reply res" | Lost cmd "reply res" | Restarted

fun after :: "event \<Rightarrow> db \<Rightarrow> db set" where
  "after (Answered cmd r) d = {effect cmd r d}"
| "after (Lost cmd r) d = {d, effect cmd r d}"
| "after Restarted d = {d}"

fun outcomes :: "event list \<Rightarrow> db \<Rightarrow> db set" where
  "outcomes [] d = {d}"
| "outcomes (x # xs) d = (\<Union>d'\<in>after x d. outcomes xs d')"

lemma outcomes_append: "outcomes (xs @ ys) d = (\<Union>d'\<in>outcomes xs d. outcomes ys d')"
  by (induction xs arbitrary: d) auto

section \<open>Histories\<close>

text \<open>There is room for the command and for the database it leaves.\<close>

definition has_room :: "env \<Rightarrow> engine \<Rightarrow> cmd \<Rightarrow> bool" where
  "has_room ev en cmd \<longleftrightarrow> room en cmd \<and>
     (\<forall>d d'. represents ev en d \<longrightarrow> spec cmd d (snd (exec ev cmd en)) d' \<longrightarrow> db_ok (ev_fuel ev) d')"

inductive history :: "env \<Rightarrow> engine \<Rightarrow> event list \<Rightarrow> engine \<Rightarrow> bool" for ev en0 where
  start: "history ev en0 [] en0"
| answered: "history ev en0 tr en \<Longrightarrow> has_room ev en cmd \<Longrightarrow> exec ev cmd en = (en', r) \<Longrightarrow>
    history ev en0 (tr @ [Answered cmd r]) en'"
| lost: "history ev en0 tr en \<Longrightarrow> has_room ev en cmd \<Longrightarrow> crashed (exec_steps ev cmd en) (en_dir en) fs \<Longrightarrow>
    en_Open ev fs = (steps, Inr en') \<Longrightarrow> history ev en0 (tr @ [Lost cmd (snd (exec ev cmd en))]) en'"
| restarted: "history ev en0 tr en \<Longrightarrow> crashed (fst (en_Open ev (en_dir en))) (en_dir en) fs \<Longrightarrow>
    en_Open ev fs = (steps, Inr en') \<Longrightarrow> history ev en0 (tr @ [Restarted]) en'"

inductive_cases history_emptyE: "history ev en0 [] en"
inductive_cases history_snocE: "history ev en0 (tr @ [x]) en"

lemma Open_represents_unique:
  "dir_represents ev fs d \<Longrightarrow> en_Open ev fs = (steps, Inr en) \<Longrightarrow> represents ev en d"
  using Open_represents by fastforce

lemma history_represents:
  assumes "history ev en0 tr en" "represents ev en0 d0" "ev_ok ev"
  shows "\<exists>d\<in>outcomes tr d0. represents ev en d"
  using assms(1)
proof induction
  case start
  then show ?case using assms(2) by simp
next
  case (answered tr en cmd en' r)
  then obtain d where d: "d \<in> outcomes tr d0" "represents ev en d" by blast
  have "refines ev cmd d (exec ev cmd en)"
    using answered.hyps(2) d(2) by (intro exec_refines [OF d(2) assms(3)]) (auto simp: has_room_def)
  then have "represents ev en' (effect cmd r d)"
    using answered.hyps(3) by (auto simp: refines_def refused_effect dest: spec_effect)
  with d(1) show ?case by (auto simp: outcomes_append)
next
  case (lost tr en cmd fs steps en')
  then obtain d where d: "d \<in> outcomes tr d0" "represents ev en d" by blast
  have "db_ok (ev_fuel ev) d'" if "spec cmd d (snd (exec ev cmd en)) d'" for d'
    using lost.hyps(2) d(2) that by (simp add: has_room_def)
  from exec_crashed [OF d(2) assms(3) _ this lost.hyps(3)] lost.hyps(2) obtain d' where
    d': "d' = d \<or> spec cmd d (snd (exec ev cmd en)) d'" "dir_represents ev fs d'" by (auto simp: has_room_def)
  have "represents ev en' d'" using d'(2) lost.hyps(4) by (rule Open_represents_unique)
  moreover have "d' \<in> after (Lost cmd (snd (exec ev cmd en))) d" using d'(1) spec_effect by auto
  ultimately show ?case using d(1) by (auto simp: outcomes_append)
next
  case (restarted tr en fs steps en')
  then obtain d where d: "d \<in> outcomes tr d0" "represents ev en d" by blast
  from Open_represents [OF represents_dir [OF d(2)]] restarted.hyps(2) have "dir_represents ev fs d" by force
  then have "represents ev en' d" using restarted.hyps(3) by (rule Open_represents_unique)
  with d(1) show ?case by (auto simp: outcomes_append)
qed

section \<open>Durability\<close>

text \<open>The commands of the sample run have room.\<close>

lemma sample_has_room:
  "at en0 Map.empty 0 gen_New \<Longrightarrow> has_room sample_env en0 (Cmd_CreateClass [] sample_class)"
  "at en1 class_db 1 gen_New \<Longrightarrow> has_room sample_env en1 (Cmd_Create [] sample_class [3])"
proof -
  have uniq: "d = d'" if "represents sample_env e d" "represents sample_env e d'" for e d d'
    using lookup_law [OF representsD(1) [OF that(1)]] lookup_law [OF representsD(1) [OF that(2)]] by (simp add: fun_eq_iff)
  let ?c1 = "Cmd_CreateClass [] sample_class" and ?c2 = "Cmd_Create [] sample_class [3]"
  show "has_room sample_env en0 ?c1" if b: "at en0 Map.empty 0 gen_New"
  proof -
    from sample_create_class [OF b] obtain en1 where e1: "exec sample_env ?c1 en0 = (en1, Inr RUnit)" by blast
    have "room en0 ?c1" using b by (rule at_room) simp_all
    moreover have "db_ok 9 (d(ClassKey [] sample_class \<mapsto> []))" if "represents sample_env en0 d" for d
      using b uniq [OF that, of Map.empty] by (simp add: at_def)
    ultimately show ?thesis unfolding has_room_def e1 by auto
  qed
  show "has_room sample_env en1 ?c2" if e1: "at en1 class_db 1 gen_New"
  proof -
    from sample_create [OF e1, of "[3]"] obtain en2 where e2: "exec sample_env ?c2 en1 = (en2, Inr (RId 1))" by auto
    have "room en1 ?c2" using e1 by (rule at_room) simp_all
    moreover have "db_ok 9 (d(ObjectKey [] sample_class 1 \<mapsto> [3]))" if "represents sample_env en1 d" for d
      using e1 uniq [OF that, of class_db] by (simp add: at_def)
    ultimately show ?thesis unfolding has_room_def e2 by auto
  qed
qed

text \<open>
  C2: answered writes are never lost and nothing else appears. After any history of answered
  commands, commands cut off by a crash at any of their steps, and restarts (themselves cut off and
  repeated at will), starting at the first boot of an empty directory, there is a database that the
  answers lead to, with every interrupted command either done or not done as a whole; the engine reads
  exactly it, and its directory can be opened again to an engine that does.
\<close>

theorem history_durable:
  assumes "0 < ev_fuel ev" "ev_ok ev" "en_Open ev [] = (steps0, Inr en0)" "history ev en0 tr en"
  shows "\<exists>d\<in>outcomes tr Map.empty.
    (\<forall>p c i. GetObject ev en p c i = (if has_class p c d then Inr (objects p c d i) else Inl ErrNoClass)) \<and>
    (\<exists>steps en'. en_Open ev (en_dir en) = (steps, Inr en') \<and>
      (\<forall>p c i. GetObject ev en' p c i = (if has_class p c d then Inr (objects p c d i) else Inl ErrNoClass)))"
proof -
  have get: "GetObject ev e p c i = (if has_class p c d then Inr (objects p c d i) else Inl ErrNoClass)"
    if "represents ev e d" for e d p c i
    using ClassExists_iff [OF that, of p c] lookup_object [OF that, of p c i] by (simp add: GetObject_def)
  from Open_first [OF assms(1)] assms(3) have "represents ev en0 Map.empty" by auto
  from history_represents [OF assms(4) this assms(2)] obtain d where
    d: "d \<in> outcomes tr Map.empty" "represents ev en d" by blast
  from Open_represents [OF represents_dir [OF d(2)]] obtain steps en' where
    "en_Open ev (en_dir en) = (steps, Inr en')" "represents ev en' d" by blast
  with d get show ?thesis by blast
qed

theorem history_durable_witness:
  "\<exists>steps en0 en1 en2. en_Open sample_env [] = (steps, Inr en0) \<and>
     exec sample_env (Cmd_CreateClass [] sample_class) en0 = (en1, Inr RUnit) \<and>
     exec sample_env (Cmd_Create [] sample_class [3]) en1 = (en2, Inr (RId 1)) \<and>
     GetObject sample_env en2 [] sample_class 1 = Inr (Some [3])"
proof -
  from sample_boot obtain s0 en0 where b: "en_Open sample_env [] = (s0, Inr en0)" "at en0 Map.empty 0 gen_New" by blast
  let ?c1 = "Cmd_CreateClass [] sample_class" and ?c2 = "Cmd_Create [] sample_class [3]"
  from sample_create_class [OF b(2)] obtain en1 where
    e1: "exec sample_env ?c1 en0 = (en1, Inr RUnit)" "at en1 class_db 1 gen_New" by blast
  from sample_create [OF e1(2), of "[3]"] obtain en2 where
    e2: "exec sample_env ?c2 en1 = (en2, Inr (RId 1))" by auto
  note h1 = history.answered [OF history.start sample_has_room(1) [OF b(2)] e1(1)]
  note h2 = history.answered [OF h1 sample_has_room(2) [OF e1(2)] e2]
  from history_durable [OF _ sample_env_ok b(1) h2] have "GetObject sample_env en2 [] sample_class 1 = Inr (Some [3])"
    by auto
  with b(1) e1(1) e2 show ?thesis by blast
qed

end
