(* ===== verification/EngineApi.thy ===== *)
theory EngineApi
  imports EngineHistory
begin

text \<open>
  What the clients of the engine rely on, as an interface: the commands do what they answer, and a
  database opened again is the same. The lemmas that read one's own writes are proved once, for any
  store with these laws; the engine is one.
\<close>

locale object_store =
  fixes holds :: "'e \<Rightarrow> db \<Rightarrow> bool"
    and run :: "cmd \<Rightarrow> 'e \<Rightarrow> 'e \<times> reply res"
    and fit :: "'e \<Rightarrow> cmd \<Rightarrow> bool"
    and reopened :: "'e \<Rightarrow> 'e \<Rightarrow> bool"
  assumes run_law: "holds e d \<Longrightarrow> fit e cmd \<Longrightarrow> run cmd e = (e', r) \<Longrightarrow> holds e' (effect cmd r d)"
    and answer_law: "holds e d \<Longrightarrow> fit e cmd \<Longrightarrow> run cmd e = (e', Inr x) \<Longrightarrow> spec cmd d (Inr x) (effect cmd (Inr x) d)"
    and get_law: "holds e d \<Longrightarrow> run (Cmd_Get p c i) e =
      (e, if has_class p c d then Inr (RObject (objects p c d i)) else Inl ErrNoClass)"
    and reopen_law: "holds e d \<Longrightarrow> reopened e e' \<Longrightarrow> holds e' d"

text \<open>What a store holds is an invariant of its being opened again.\<close>

sublocale object_store \<subseteq> reopening: step_invariant reopened "\<lambda>e. holds e d" for d
  by unfold_locales (rule reopen_law)

context object_store
begin

lemma get_after_create:
  assumes "holds e d" "fit e (Cmd_Create p c v)" "run (Cmd_Create p c v) e = (e1, Inr x)" "reopened\<^sup>*\<^sup>* e1 e2"
  obtains i where "x = RId i" "0 < sint i" "objects p c d i = None"
    "run (Cmd_Get p c i) e2 = (e2, Inr (RObject (Some v)))"
proof -
  from answer_law [OF assms(1-3)] obtain i where
    i: "has_class p c d" "fresh_id p c d i" "x = RId i" by (auto split: if_splits)
  have "holds e2 (effect (Cmd_Create p c v) (Inr x) d)" using run_law [OF assms(1-3)] assms(4) reopening.steps_law by blast
  then have "holds e2 (d(ObjectKey p c i \<mapsto> v))" by (simp add: i(3))
  from get_law [OF this, of p c i] i(1) have "run (Cmd_Get p c i) e2 = (e2, Inr (RObject (Some v)))"
    by (simp add: has_class_def ClassKey_neq_ObjectKey objects_def)
  with i that show thesis by (auto simp: fresh_id_def)
qed

lemma get_after_put:
  assumes "holds e d" "fit e (Cmd_Put p c i v)" "run (Cmd_Put p c i v) e = (e1, Inr x)" "reopened\<^sup>*\<^sup>* e1 e2"
  shows "run (Cmd_Get p c i) e2 = (e2, Inr (RObject (Some v)))"
proof -
  from answer_law [OF assms(1-3)] have x: "has_class p c d" "x = RUnit" by (auto split: if_splits)
  have "holds e2 (effect (Cmd_Put p c i v) (Inr x) d)" using run_law [OF assms(1-3)] assms(4) reopening.steps_law by blast
  then have "holds e2 (d(ObjectKey p c i \<mapsto> v))" by (simp add: x(2))
  from get_law [OF this, of p c i] x(1) show ?thesis
    by (simp add: has_class_def ClassKey_neq_ObjectKey objects_def)
qed

lemma get_after_delete:
  assumes "holds e d" "fit e (Cmd_Delete p c i)" "run (Cmd_Delete p c i) e = (e1, Inr x)" "reopened\<^sup>*\<^sup>* e1 e2"
  shows "run (Cmd_Get p c i) e2 = (e2, Inr (RObject None))"
proof -
  from answer_law [OF assms(1-3)] have x: "has_class p c d" "x = RUnit" by (auto split: if_splits)
  have "holds e2 (effect (Cmd_Delete p c i) (Inr x) d)" using run_law [OF assms(1-3)] assms(4) reopening.steps_law by blast
  then have "holds e2 (d(ObjectKey p c i := None))" by (simp add: x(2))
  from get_law [OF this, of p c i] x(1) show ?thesis
    by (simp add: has_class_def ClassKey_neq_ObjectKey objects_def)
qed

text \<open>Two objects created one after the other have different ids, also with restarts in between.\<close>

lemma create_twice:
  assumes "holds e d" "fit e (Cmd_Create p c v)" "run (Cmd_Create p c v) e = (e1, Inr (RId i))" "reopened\<^sup>*\<^sup>* e1 e2"
    "fit e2 (Cmd_Create p c w)" "run (Cmd_Create p c w) e2 = (e3, Inr (RId j))"
  shows "sint i < sint j"
proof -
  have "holds e2 (effect (Cmd_Create p c v) (Inr (RId i)) d)"
    using run_law [OF assms(1-3)] assms(4) reopening.steps_law by blast
  from answer_law [OF this assms(5,6)] have "fresh_id p c (d(ObjectKey p c i \<mapsto> v)) j" by (auto split: if_splits)
  then show ?thesis by (auto simp: fresh_id_def objects_def)
qed

end

text \<open>The engine with a disk that does not fail, closed or killed at any time and opened again.\<close>

definition reboots :: "env \<Rightarrow> engine \<Rightarrow> engine \<Rightarrow> bool" where
  "reboots ev en en' \<longleftrightarrow> (\<exists>steps. en_Open ev (en_dir en) = (steps, Inr en'))"

interpretation zdb: object_store "\<lambda>en d. represents ev en d \<and> ev_ok ev" "exec ev" "has_room ev" "reboots ev"
  for ev
proof
  fix e d cmd e' r
  assume a: "represents ev e d \<and> ev_ok ev" "has_room ev e cmd" "exec ev cmd e = (e', r)"
  then have "refines ev cmd d (exec ev cmd e)" by (intro exec_refines) (auto simp: has_room_def)
  with a show "represents ev e' (effect cmd r d) \<and> ev_ok ev"
    by (auto simp: refines_def refused_effect dest: spec_effect)
next
  fix e d cmd e' x
  assume a: "represents ev e d \<and> ev_ok ev" "has_room ev e cmd" "exec ev cmd e = (e', Inr x)"
  then have "refines ev cmd d (exec ev cmd e)" by (intro exec_refines) (auto simp: has_room_def)
  with a(3) obtain d' where "spec cmd d (Inr x) d'" by (auto simp: refines_def refused_def)
  with spec_effect [OF this] show "spec cmd d (Inr x) (effect cmd (Inr x) d)" by simp
next
  fix e d p c i
  assume "represents ev e d \<and> ev_ok ev"
  then show "exec ev (Cmd_Get p c i) e = (e, if has_class p c d then Inr (RObject (objects p c d i)) else Inl ErrNoClass)"
    using ClassExists_iff [of ev e d p c] lookup_object [of ev e d p c i] by (simp add: GetObject_def)
next
  fix e d e'
  assume "represents ev e d \<and> ev_ok ev" "reboots ev e e'"
  then show "represents ev e' d \<and> ev_ok ev"
    using Open_represents_unique [OF represents_dir] by (auto simp: reboots_def)
qed

end
