(* ===== verification/Http.thy ===== *)
theory Http
  imports Filters EngineApi
begin

text \<open>
  \<^verbatim>\<open>internal/server/http\<close>: the REST interface. A handler is a function on the engine that gives a
  response, or none when it panics, which the middleware turns into an internal error. A request
  has the segments of its escaped path, what is between the slashes of \<^verbatim>\<open>URL.EscapedPath()\<close> (none for the
  empty path, an empty last one for a trailing slash), its query, the project header and its body (or the
  error of reading it). Error messages that contain the text of an error carry the error. The request
  target \<^verbatim>\<open>*\<close>, which has no path, is left out.
\<close>

section \<open>Requests and responses\<close>

record request =
  rq_method :: string
  rq_path :: "bytes list"
  rq_query :: url_values
  rq_project :: bytes
  rq_body :: "bytes res"

datatype rbody =
    BNone
  | BText string
  | BMoved "bytes list"
  | BError string "error option"
  | BObject obj
  | BObjects "obj list" int int
  | BIds "u64 list"
  | BClass bytes bytes
  | BClasses "bytes list" bytes
  | BProjects "bytes list"
  | BHealth
  | BStats stats

record response =
  rs_status :: nat
  rs_body :: rbody

abbreviation writeJSON :: "nat \<Rightarrow> rbody \<Rightarrow> response option" where
  "writeJSON status b \<equiv> Some \<lparr>rs_status = status, rs_body = b\<rparr>"

definition writeError :: "nat \<Rightarrow> string \<Rightarrow> response option" where
  "writeError status msg = writeJSON status (BError msg None)"

definition writeErrorOf :: "nat \<Rightarrow> string \<Rightarrow> error \<Rightarrow> response option" where
  "writeErrorOf status msg e = writeJSON status (BError msg (Some e))"

definition errorStatus :: "error \<Rightarrow> nat" where
  "errorStatus err =
     (if err = ErrNoClass \<or> err = ErrNotFound then 404
      else if err = ErrClassExists \<or> err = ErrClassNotEmpty then 409
      else if err = ErrInvalidName then 400
      else 500)"

definition writeEngineError :: "error \<Rightarrow> response option" where
  "writeEngineError err = writeErrorOf (errorStatus err) '''' err"

type_synonym handler = "env \<Rightarrow> lib \<Rightarrow> request \<Rightarrow> engine \<Rightarrow> engine \<times> response option"

text \<open>Panic recovery; logging is left out.\<close>

definition withMiddleware :: "engine \<times> response option \<Rightarrow> engine \<times> response" where
  "withMiddleware x =
     (case x of (en, Some r) \<Rightarrow> (en, r) | (en, None) \<Rightarrow> (en, the (writeError 500 ''internal error'')))"

section \<open>Reading requests\<close>

text \<open>\<^verbatim>\<open>strings.TrimSpace\<close>: the characters it cuts off, in UTF-8.\<close>

definition space_encodings :: "bytes list" where
  "space_encodings =
     [[9], [10], [11], [12], [13], [32], [0xC2, 0x85], [0xC2, 0xA0], [0xE1, 0x9A, 0x80]] @
     map (\<lambda>b. [0xE2, 0x80, b]) [0x80, 0x81, 0x82, 0x83, 0x84, 0x85, 0x86, 0x87, 0x88, 0x89, 0x8A, 0xA8, 0xA9, 0xAF] @
     [[0xE2, 0x81, 0x9F], [0xE3, 0x80, 0x80]]"

definition space_prefix :: "bytes list \<Rightarrow> bytes \<Rightarrow> nat" where
  "space_prefix encs s = (case List.find (\<lambda>e. take (length e) s = e) encs of None \<Rightarrow> 0 | Some e \<Rightarrow> length e)"

function TrimLeft :: "bytes list \<Rightarrow> bytes \<Rightarrow> bytes" where
  "TrimLeft encs s = (if space_prefix encs s = 0 \<or> s = [] then s else TrimLeft encs (drop (space_prefix encs s) s))"
  by auto
termination by (relation "measure (\<lambda>(_, s). length s)") auto

definition TrimSpaceUTF8 :: "bytes \<Rightarrow> bytes" where
  "TrimSpaceUTF8 s = rev (TrimLeft (map rev space_encodings) (rev (TrimLeft space_encodings s)))"

definition projectOf :: "request \<Rightarrow> bytes" where
  "projectOf r = TrimSpaceUTF8 (rq_project r)"

text \<open>\<^verbatim>\<open>url.PathUnescape\<close>; the multiplexer keeps a segment that it cannot unescape.\<close>

definition unhex :: "byte \<Rightarrow> byte option" where
  "unhex c =
     (if 48 \<le> c \<and> c \<le> 57 then Some (c - 48)
      else if 97 \<le> c \<and> c \<le> 102 then Some (c - 97 + 10)
      else if 65 \<le> c \<and> c \<le> 70 then Some (c - 65 + 10)
      else None)"

fun PathUnescape :: "bytes \<Rightarrow> bytes option" where
  "PathUnescape [] = Some []"
| "PathUnescape (c # s) =
     (if c = 37 then
        (case s of
           h # l # rest \<Rightarrow>
             (case (unhex h, unhex l) of
                (Some h, Some l) \<Rightarrow> map_option ((#) (push_bit 4 h OR l)) (PathUnescape rest)
              | _ \<Rightarrow> None)
         | _ \<Rightarrow> None)
      else map_option ((#) c) (PathUnescape s))"

definition pathUnescape :: "bytes \<Rightarrow> bytes" where
  "pathUnescape s = (case PathUnescape s of None \<Rightarrow> s | Some t \<Rightarrow> t)"

text \<open>\<^verbatim>\<open>r.PathValue\<close> of the two wildcards of the routes.\<close>

definition PathClass :: "request \<Rightarrow> bytes" where
  "PathClass r = (case rq_path r of _ # _ # c # _ \<Rightarrow> pathUnescape c | _ \<Rightarrow> [])"

definition PathId :: "request \<Rightarrow> bytes" where
  "PathId r = (case rq_path r of _ # _ # _ # _ # i # _ \<Rightarrow> pathUnescape i | _ \<Rightarrow> [])"

text \<open>\<^verbatim>\<open>strconv.ParseInt(s, 10, 64)\<close> and \<^verbatim>\<open>strconv.Atoi\<close>.\<close>

definition ParseInt :: "bytes \<Rightarrow> int option" where
  "ParseInt s =
     (case s of
        [] \<Rightarrow> None
      | c # s' \<Rightarrow>
          let neg = (c = 45); digits = (if c = 43 \<or> c = 45 then s' else s)
          in case ParseUint digits of
               None \<Rightarrow> None
             | Some un \<Rightarrow>
                 if \<not> neg \<and> uint un \<ge> 2 ^ 63 then None
                 else if neg \<and> uint un > 2 ^ 63 then None
                 else Some (if neg then - uint un else uint un))"

definition Atoi :: "gostr \<Rightarrow> int option" where
  "Atoi s = (if list_all (\<lambda>r. r < 128) s then ParseInt (map word_of_nat s) else None)"

definition parseID :: "request \<Rightarrow> u64 option" where
  "parseID r =
     (case ParseInt (PathId r) of
        None \<Rightarrow> None
      | Some i \<Rightarrow> if i \<le> 0 then None else Some (word_of_int i))"

definition parseIntDefault :: "gostr \<Rightarrow> int \<Rightarrow> int" where
  "parseIntDefault s def = (if s = [] then def else case Atoi s of None \<Rightarrow> def | Some n \<Rightarrow> n)"

definition ReadAll :: "nat \<Rightarrow> request \<Rightarrow> bytes res" where
  "ReadAll limit r = bindE (rq_body r) (\<lambda>b. Inr (take limit b))"

definition maxObjectBytes :: nat where "maxObjectBytes = push_bit 20 8"
definition maxBulkBytes :: nat where "maxBulkBytes = push_bit 20 256"
definition maxBulkObjects :: nat where "maxBulkObjects = 10000"

section \<open>Stored objects\<close>

definition jsonToStored :: "lib \<Rightarrow> bytes \<Rightarrow> bytes res" where
  "jsonToStored lb body =
     bindE (lb_json lb body) (\<lambda>v.
       case v of
         MMap m \<Rightarrow> lb_marshal lb (Some (AList.delete (lit ''id'') m))
       | MNil \<Rightarrow> lb_marshal lb None
       | _ \<Rightarrow> Inl ErrUnmarshal)"

text \<open>Assigning to a nil map panics.\<close>

definition storedToObject :: "lib \<Rightarrow> bytes \<Rightarrow> u64 \<Rightarrow> obj res" where
  "storedToObject lb stored oid =
     bindE (if stored \<noteq> [] then lb_unmarshal lb stored else Inr (Some [])) (\<lambda>m.
       case m of None \<Rightarrow> Inl Panic | Some kvs \<Rightarrow> Inr (AList.update (lit ''id'') (MInt64 oid) kvs))"

definition writeObject :: "nat \<Rightarrow> obj res \<Rightarrow> response option" where
  "writeObject status x =
     (case x of
        Inr ob \<Rightarrow> writeJSON status (BObject ob)
      | Inl e \<Rightarrow> if e = Panic then None else writeErrorOf 500 '''' e)"

fun storedToObjects :: "lib \<Rightarrow> (u64 \<times> bytes) list \<Rightarrow> obj list res" where
  "storedToObjects lb [] = Inr []"
| "storedToObjects lb ((i, data) # rest) =
     bindE (storedToObject lb data i) (\<lambda>ob. bindE (storedToObjects lb rest) (\<lambda>obs. Inr (ob # obs)))"

section \<open>Classes\<close>

definition handleCreateClass :: "(bytes \<Rightarrow> bytes res) \<Rightarrow> handler" where
  "handleCreateClass name_of ev lb r en =
     (case ReadAll (push_bit 20 1) r of
        Inl _ \<Rightarrow> (en, writeError 400 ''cannot read body'')
      | Inr body \<Rightarrow>
          (case name_of body of
             Inl e \<Rightarrow> (en, writeErrorOf 400 ''invalid JSON: '' e)
           | Inr name \<Rightarrow>
               if name = [] then (en, writeError 400 ''name is required'')
               else
                 case CreateClass ev (projectOf r) name en of
                   (en, Inl err) \<Rightarrow> (en, writeEngineError err)
                 | (en, Inr _) \<Rightarrow> (en, writeJSON 201 (BClass name (projectOf r)))))"

definition handleListClasses :: handler where
  "handleListClasses ev lb r en =
     (let project = projectOf r in (en, writeJSON 200 (BClasses (ListClasses en project) project)))"

definition handleGetClass :: handler where
  "handleGetClass ev lb r en =
     (let name = PathClass r; project = projectOf r in
      if \<not> ClassExists en project name then (en, writeError 404 ''class does not exist'')
      else (en, writeJSON 200 (BClass name project)))"

definition handleDeleteClass :: handler where
  "handleDeleteClass ev lb r en =
     (case DropClass ev (projectOf r) (PathClass r) en of
        (en, Inl err) \<Rightarrow> (en, writeEngineError err)
      | (en, Inr _) \<Rightarrow> (en, writeJSON 204 BNone))"

definition handleListProjects :: handler where
  "handleListProjects ev lb r en = (en, writeJSON 200 (BProjects (ListProjects en)))"

section \<open>Objects\<close>

definition handleCreateObject :: handler where
  "handleCreateObject ev lb r en =
     (case ReadAll maxObjectBytes r of
        Inl _ \<Rightarrow> (en, writeError 400 ''cannot read body'')
      | Inr body \<Rightarrow>
          (case jsonToStored lb body of
             Inl e \<Rightarrow> (en, writeErrorOf 400 ''body must be a JSON object: '' e)
           | Inr stored \<Rightarrow>
               (case CreateObject ev (projectOf r) (PathClass r) stored en of
                  (en, Inl err) \<Rightarrow> (en, writeEngineError err)
                | (en, Inr oid) \<Rightarrow> (en, writeObject 201 (storedToObject lb stored oid)))))"

fun items_to_stored :: "lib \<Rightarrow> bytes list \<Rightarrow> bytes list res" where
  "items_to_stored lb [] = Inr []"
| "items_to_stored lb (it # items) =
     bindE (jsonToStored lb it) (\<lambda>s. bindE (items_to_stored lb items) (\<lambda>ss. Inr (s # ss)))"

definition handleCreateObjectsBulk :: handler where
  "handleCreateObjectsBulk ev lb r en =
     (case ReadAll maxBulkBytes r of
        Inl _ \<Rightarrow> (en, writeError 400 ''cannot read body'')
      | Inr body \<Rightarrow>
          (case lb_json_items lb body of
             Inl e \<Rightarrow> (en, writeErrorOf 400 ''body must be a JSON array of objects: '' e)
           | Inr items \<Rightarrow>
               if items = [] then (en, writeJSON 201 (BIds []))
               else if length items > maxBulkObjects then (en, writeError 400 ''too many objects'')
               else
                 case items_to_stored lb items of
                   Inl e \<Rightarrow> (en, writeErrorOf 400 ''item is not a JSON object: '' e)
                 | Inr datas \<Rightarrow>
                     (case CreateObjectsBulk ev (projectOf r) (PathClass r) datas en of
                        (en, Inl err) \<Rightarrow> (en, writeEngineError err)
                      | (en, Inr ids) \<Rightarrow> (en, writeJSON 201 (BIds ids)))))"

definition handleGetObject :: handler where
  "handleGetObject ev lb r en =
     (case parseID r of
        None \<Rightarrow> (en, writeError 400 ''invalid object id'')
      | Some oid \<Rightarrow>
          (en, case GetObject ev en (projectOf r) (PathClass r) oid of
                 Inl err \<Rightarrow> writeEngineError err
               | Inr None \<Rightarrow> writeError 404 ''object not found''
               | Inr (Some stored) \<Rightarrow> writeObject 200 (storedToObject lb stored oid)))"

definition handlePutObject :: handler where
  "handlePutObject ev lb r en =
     (case parseID r of
        None \<Rightarrow> (en, writeError 400 ''invalid object id'')
      | Some oid \<Rightarrow>
          (case ReadAll maxObjectBytes r of
             Inl _ \<Rightarrow> (en, writeError 400 ''cannot read body'')
           | Inr body \<Rightarrow>
               (case jsonToStored lb body of
                  Inl e \<Rightarrow> (en, writeErrorOf 400 ''body must be a JSON object: '' e)
                | Inr stored \<Rightarrow>
                    (case PutObject ev (projectOf r) (PathClass r) oid stored en of
                       (en, Inl err) \<Rightarrow> (en, writeEngineError err)
                     | (en, Inr _) \<Rightarrow> (en, writeObject 200 (storedToObject lb stored oid))))))"

definition handleDeleteObject :: handler where
  "handleDeleteObject ev lb r en =
     (case parseID r of
        None \<Rightarrow> (en, writeError 400 ''invalid object id'')
      | Some oid \<Rightarrow>
          (case DeleteObject ev (projectOf r) (PathClass r) oid en of
             (en, Inl err) \<Rightarrow> (en, writeEngineError err)
           | (en, Inr _) \<Rightarrow> (en, writeJSON 204 BNone)))"

definition handleListObjects :: handler where
  "handleListObjects ev lb r en =
     (let q = rq_query r;
          limit = parseIntDefault (q_Get q (lit ''limit'')) 100;
          offset = parseIntDefault (q_Get q (lit ''offset'')) 0
      in (en, case parseFilters lb q of
           Inl e \<Rightarrow> writeErrorOf 400 '''' e
         | Inr m \<Rightarrow>
             (case QueryObjects ev en (projectOf r) (PathClass r) (map_option (matcher_match lb) m) limit offset of
                Inl err \<Rightarrow> writeEngineError err
              | Inr objs \<Rightarrow>
                  (case storedToObjects lb objs of
                     Inl e \<Rightarrow> if e = Panic then None else writeErrorOf 500 '''' e
                   | Inr out \<Rightarrow> writeJSON 200 (BObjects out limit offset)))))"

section \<open>Routes\<close>

datatype seg = SLit bytes | SVar

text \<open>
  What \<^verbatim>\<open>http.ServeMux\<close> takes off the front of the path: the unescaped segment, and a slash when that is
  all that is left. A wildcard does not match a slash.
\<close>

definition firstSegment :: "bytes \<Rightarrow> bytes list \<Rightarrow> bytes" where
  "firstSegment p ps = (if p = [] \<and> ps = [] then [47] else pathUnescape p)"

fun seg_matches :: "seg list \<Rightarrow> bytes list \<Rightarrow> bool" where
  "seg_matches [] [] = True"
| "seg_matches (SLit l # ss) (p # ps) = (firstSegment p ps = l \<and> seg_matches ss ps)"
| "seg_matches (SVar # ss) (p # ps) = (firstSegment p ps \<noteq> [47] \<and> seg_matches ss ps)"
| "seg_matches _ _ = False"

text \<open>\<^verbatim>\<open>cleanPath\<close>: without empty segments, \<^verbatim>\<open>.\<close> and \<^verbatim>\<open>..\<close>; a trailing slash stays.\<close>

fun clean_from :: "bytes list \<Rightarrow> bytes list \<Rightarrow> bytes list" where
  "clean_from done [] = rev done"
| "clean_from done (s # ss) =
     (if s = [] \<or> s = str ''.'' then clean_from done ss
      else if s = str ''..'' then clean_from (tl done) ss
      else clean_from (s # done) ss)"

definition cleanPath :: "bytes list \<Rightarrow> bytes list" where
  "cleanPath segs =
     (let np = clean_from [] segs in
      if np = [] then [[]] else if last segs = [] then np @ [[]] else np)"

definition handleHealth :: handler where
  "handleHealth ev lb r en = (en, writeJSON 200 BHealth)"

definition handleStats :: handler where
  "handleStats ev lb r en = (en, writeJSON 200 (BStats (Stats en)))"

definition routes :: "(bytes \<Rightarrow> bytes res) \<Rightarrow> ((string \<times> seg list) \<times> handler) list" where
  "routes name_of =
     (let v1 = SLit (str ''v1''); classes = SLit (str ''classes''); objs = SLit (str ''objects'') in
      [((''GET'', [v1, SLit (str ''health'')]), handleHealth),
       ((''GET'', [v1, SLit (str ''stats'')]), handleStats),
       ((''GET'', [v1, SLit (str ''projects'')]), handleListProjects),
       ((''POST'', [v1, classes]), handleCreateClass name_of),
       ((''GET'', [v1, classes]), handleListClasses),
       ((''GET'', [v1, classes, SVar]), handleGetClass),
       ((''DELETE'', [v1, classes, SVar]), handleDeleteClass),
       ((''POST'', [v1, classes, SVar, objs]), handleCreateObject),
       ((''POST'', [v1, classes, SVar, objs, SLit (str ''bulk'')]), handleCreateObjectsBulk),
       ((''GET'', [v1, classes, SVar, objs]), handleListObjects),
       ((''GET'', [v1, classes, SVar, objs, SVar]), handleGetObject),
       ((''PUT'', [v1, classes, SVar, objs, SVar]), handlePutObject),
       ((''DELETE'', [v1, classes, SVar, objs, SVar]), handleDeleteObject)])"

text \<open>A GET route also serves HEAD.\<close>

definition route_matches :: "request \<Rightarrow> string \<times> seg list \<Rightarrow> bool" where
  "route_matches r mp \<longleftrightarrow>
     (rq_method r = fst mp \<or> rq_method r = ''HEAD'' \<and> fst mp = ''GET'') \<and> seg_matches (snd mp) (rq_path r)"

text \<open>
  The multiplexer. A path that is not clean is redirected, except for CONNECT; a path that only other
  methods have is answered with 405, one that no method has with 404, both in plain text. (The redirect
  that adds a slash is for routes that end with one; there is none.) \<open>http.Redirect\<close> writes a body for
  GET only.
\<close>

definition muxRedirect :: "request \<Rightarrow> response" where
  "muxRedirect r =
     \<lparr>rs_status = 301, rs_body = (if rq_method r = ''GET'' then BMoved (cleanPath (rq_path r)) else BNone)\<rparr>"

definition muxError :: "(bytes \<Rightarrow> bytes res) \<Rightarrow> request \<Rightarrow> response" where
  "muxError name_of r =
     (if list_ex (\<lambda>(mp, h). seg_matches (snd mp) (rq_path r)) (routes name_of)
      then \<lparr>rs_status = 405, rs_body = BText ''Method Not Allowed''\<rparr>
      else \<lparr>rs_status = 404, rs_body = BText ''404 page not found''\<rparr>)"

definition redirected :: "request \<Rightarrow> bool" where
  "redirected r \<longleftrightarrow> rq_method r \<noteq> ''CONNECT'' \<and> cleanPath (rq_path r) \<noteq> rq_path r"

text \<open>The server sends no body in answer to HEAD.\<close>

definition sendResponse :: "request \<Rightarrow> response \<Rightarrow> response" where
  "sendResponse r resp = (if rq_method r = ''HEAD'' then resp\<lparr>rs_body := BNone\<rparr> else resp)"

definition serve :: "(bytes \<Rightarrow> bytes res) \<Rightarrow> env \<Rightarrow> lib \<Rightarrow> request \<Rightarrow> engine \<Rightarrow> engine \<times> response" where
  "serve name_of ev lb r en =
     (if redirected r then (en, sendResponse r (muxRedirect r))
      else case List.find (\<lambda>(mp, h). route_matches r mp) (routes name_of) of
        Some (_, h) \<Rightarrow> apsnd (sendResponse r) (withMiddleware (h ev lb r en))
      | None \<Rightarrow> (en, sendResponse r (muxError name_of r)))"

end
