(* ===== verification/HttpProps.thy ===== *)
theory HttpProps
  imports Http
begin

text \<open>
  What the REST interface promises: requests that are refused change nothing, objects come back as
  they were sent, a listing is the query's answer; and the one JSON value that breaks a class.
\<close>

section \<open>One request, one command\<close>

text \<open>The commands a request may lead to.\<close>

fun issues :: "(bytes \<Rightarrow> bytes res) \<Rightarrow> lib \<Rightarrow> request \<Rightarrow> cmd \<Rightarrow> bool" where
  "issues name_of lb r (Cmd_CreateClass p c) \<longleftrightarrow>
     rq_method r = ''POST'' \<and> p = projectOf r \<and> (\<exists>b. ReadAll (push_bit 20 1) r = Inr b \<and> name_of b = Inr c)"
| "issues name_of lb r (Cmd_DropClass p c) \<longleftrightarrow> rq_method r = ''DELETE'' \<and> p = projectOf r \<and> c = PathClass r"
| "issues name_of lb r (Cmd_Create p c v) \<longleftrightarrow> rq_method r = ''POST'' \<and> p = projectOf r \<and> c = PathClass r \<and>
     (\<exists>b. ReadAll maxObjectBytes r = Inr b \<and> jsonToStored lb b = Inr v)"
| "issues name_of lb r (Cmd_Bulk p c vs) \<longleftrightarrow> rq_method r = ''POST'' \<and> p = projectOf r \<and> c = PathClass r \<and> length vs \<le> maxBulkObjects \<and>
     (\<exists>b items. ReadAll maxBulkBytes r = Inr b \<and> lb_json_items lb b = Inr items \<and> items_to_stored lb items = Inr vs)"
| "issues name_of lb r (Cmd_Put p c i v) \<longleftrightarrow> rq_method r = ''PUT'' \<and> p = projectOf r \<and> c = PathClass r \<and> parseID r = Some i \<and>
     (\<exists>b. ReadAll maxObjectBytes r = Inr b \<and> jsonToStored lb b = Inr v)"
| "issues name_of lb r (Cmd_Delete p c i) \<longleftrightarrow> rq_method r = ''DELETE'' \<and> p = projectOf r \<and> c = PathClass r \<and> parseID r = Some i"
| "issues name_of lb r _ \<longleftrightarrow> False"

definition refusal :: "nat \<Rightarrow> bool" where
  "refusal status \<longleftrightarrow> 400 \<le> status \<and> status < 500"

definition does :: "env \<Rightarrow> (cmd \<Rightarrow> bool) \<Rightarrow> engine \<Rightarrow> engine \<times> response option \<Rightarrow> bool" where
  "does ev iss en x \<longleftrightarrow> fst x = en \<or>
     (\<exists>cmd. iss cmd \<and> fst x = fst (exec ev cmd en) \<and>
       (\<forall>resp. snd x = Some resp \<longrightarrow> refusal (rs_status resp) \<longrightarrow> (\<exists>e. snd (exec ev cmd en) = Inl e)))"

lemma does_same [simp]: "does ev iss en (en, r)"
  by (simp add: does_def)

lemma does_case:
  assumes "iss cmd" "exec ev cmd en = reply_with g x" "\<And>y resp. ok y = Some resp \<Longrightarrow> \<not> refusal (rs_status resp)"
  shows "does ev iss en (case x of (en, Inl err) \<Rightarrow> (en, bad err) | (en, Inr y) \<Rightarrow> (en, ok y))"
proof -
  obtain en' y where x: "x = (en', y)" by (cases x)
  show ?thesis
    unfolding does_def using assms x by (intro disjI2 exI [of _ cmd]) (auto split: sum.split)
qed

lemma writeObject_accepts: "\<not> refusal s \<Longrightarrow> writeObject s x = Some resp \<Longrightarrow> \<not> refusal (rs_status resp)"
  by (auto simp: writeObject_def writeErrorOf_def refusal_def split: sum.splits if_splits)

lemma items_to_stored_length: "items_to_stored lb items = Inr vs \<Longrightarrow> length vs = length items"
  by (induction items arbitrary: vs) (auto simp: bindE_Inr_iff)

lemma writeJSON_accepts: "\<not> refusal s \<Longrightarrow> writeJSON s b = Some resp \<Longrightarrow> \<not> refusal (rs_status resp)"
  by auto

lemma refusal_codes [simp]: "\<not> refusal 200" "\<not> refusal 201" "\<not> refusal 204" "\<not> refusal 500"
  by (simp_all add: refusal_def)

lemma does_CreateClass: "rq_method r = ''POST'' \<Longrightarrow> does ev (issues name_of lb r) en (handleCreateClass name_of ev lb r en)"
  unfolding handleCreateClass_def
  by (auto split: sum.split intro!: does_case [where g = "\<lambda>_. RUnit"] intro: issues.simps(1) [THEN iffD2])

lemma does_DeleteClass: "rq_method r = ''DELETE'' \<Longrightarrow> does ev (issues name_of lb r) en (handleDeleteClass ev lb r en)"
  unfolding handleDeleteClass_def
  by (rule does_case [where cmd = "Cmd_DropClass (projectOf r) (PathClass r)" and g = "\<lambda>_. RUnit"]) auto

lemma does_CreateObject: "rq_method r = ''POST'' \<Longrightarrow> does ev (issues name_of lb r) en (handleCreateObject ev lb r en)"
proof -
  assume m: "rq_method r = ''POST''"
  have "does ev (issues name_of lb r) en (case CreateObject ev (projectOf r) (PathClass r) v en of
      (en, Inl err) \<Rightarrow> (en, writeEngineError err) | (en, Inr i) \<Rightarrow> (en, writeObject 201 (storedToObject lb v i)))"
    if "ReadAll maxObjectBytes r = Inr b" "jsonToStored lb b = Inr v" for b v
    using that m
    by (intro does_case [where cmd = "Cmd_Create (projectOf r) (PathClass r) v" and g = RId] writeObject_accepts) auto
  then show ?thesis unfolding handleCreateObject_def by (auto split: sum.split)
qed

lemma does_Bulk: "rq_method r = ''POST'' \<Longrightarrow> does ev (issues name_of lb r) en (handleCreateObjectsBulk ev lb r en)"
proof -
  assume m: "rq_method r = ''POST''"
  have "does ev (issues name_of lb r) en (case CreateObjectsBulk ev (projectOf r) (PathClass r) vs en of
      (en, Inl err) \<Rightarrow> (en, writeEngineError err) | (en, Inr ids) \<Rightarrow> (en, writeJSON 201 (BIds ids)))"
    if "ReadAll maxBulkBytes r = Inr b" "lb_json_items lb b = Inr items" "\<not> maxBulkObjects < length items"
      "items_to_stored lb items = Inr vs" for b items vs
    using that m items_to_stored_length [of lb items vs]
    by (intro does_case [where cmd = "Cmd_Bulk (projectOf r) (PathClass r) vs" and g = RIds]) auto
  then show ?thesis unfolding handleCreateObjectsBulk_def by (auto split: sum.split)
qed

lemma does_PutObject: "rq_method r = ''PUT'' \<Longrightarrow> does ev (issues name_of lb r) en (handlePutObject ev lb r en)"
proof -
  assume m: "rq_method r = ''PUT''"
  have "does ev (issues name_of lb r) en (case PutObject ev (projectOf r) (PathClass r) i v en of
      (en, Inl err) \<Rightarrow> (en, writeEngineError err) | (en, Inr _) \<Rightarrow> (en, writeObject 200 (storedToObject lb v i)))"
    if "ReadAll maxObjectBytes r = Inr b" "jsonToStored lb b = Inr v" "parseID r = Some i" for b v i
    using that m
    by (intro does_case [where cmd = "Cmd_Put (projectOf r) (PathClass r) i v" and g = "\<lambda>_. RUnit"] writeObject_accepts) auto
  then show ?thesis unfolding handlePutObject_def by (auto split: sum.split option.split)
qed

lemma does_DeleteObject: "rq_method r = ''DELETE'' \<Longrightarrow> does ev (issues name_of lb r) en (handleDeleteObject ev lb r en)"
proof -
  assume m: "rq_method r = ''DELETE''"
  have "does ev (issues name_of lb r) en (case DeleteObject ev (projectOf r) (PathClass r) i en of
      (en, Inl err) \<Rightarrow> (en, writeEngineError err) | (en, Inr _) \<Rightarrow> (en, writeJSON 204 BNone))"
    if "parseID r = Some i" for i
    using that m
    by (intro does_case [where cmd = "Cmd_Delete (projectOf r) (PathClass r) i" and g = "\<lambda>_. RUnit"]) auto
  then show ?thesis unfolding handleDeleteObject_def by (auto split: option.split)
qed

lemma does_reads:
  "does ev iss en (handleHealth ev lb r en)" "does ev iss en (handleStats ev lb r en)"
  "does ev iss en (handleListProjects ev lb r en)" "does ev iss en (handleListClasses ev lb r en)"
  "does ev iss en (handleGetClass ev lb r en)" "does ev iss en (handleListObjects ev lb r en)"
  "does ev iss en (handleGetObject ev lb r en)"
  by (simp_all add: handleHealth_def handleStats_def handleListProjects_def handleListClasses_def handleGetClass_def
      handleListObjects_def handleGetObject_def Let_def split: option.split)

lemma routes_do: "(mp, h) \<in> set (routes name_of) \<Longrightarrow> route_matches r mp \<Longrightarrow> does ev (issues name_of lb r) en (h ev lb r en)"
  unfolding routes_def Let_def
  by (auto simp: does_reads route_matches_def intro: does_CreateClass does_DeleteClass does_CreateObject does_Bulk does_PutObject does_DeleteObject)

lemma send_status [simp]: "rs_status (sendResponse r resp) = rs_status resp"
  by (simp add: sendResponse_def)

lemma send_body [simp]: "rq_method r \<noteq> ''HEAD'' \<Longrightarrow> sendResponse r resp = resp"
  by (simp add: sendResponse_def)

lemma serve_does:
  assumes "serve name_of ev lb r en = (en', resp)"
  shows "en' = en \<or> (\<exists>cmd. issues name_of lb r cmd \<and> en' = fst (exec ev cmd en) \<and>
    (refusal (rs_status resp) \<longrightarrow> (\<exists>e. snd (exec ev cmd en) = Inl e)))"
proof (cases "if redirected r then None else List.find (\<lambda>(mp, h). route_matches r mp) (routes name_of)")
  case None
  with assms show ?thesis by (auto simp: serve_def split: if_splits)
next
  case (Some mh)
  obtain mp h where mh: "mh = (mp, h)" by (cases mh)
  then have "(mp, h) \<in> set (routes name_of)" "route_matches r mp"
    using Some by (auto simp: find_Some_iff in_set_conv_nth split: if_splits)
  from routes_do [OF this, of ev lb en] assms Some mh show ?thesis
    unfolding serve_def does_def withMiddleware_def
    by (cases "snd (h ev lb r en)"; cases "h ev lb r en") (auto simp: writeError_def split: if_splits)
qed

section \<open>The routes\<close>

fun seg_disjoint :: "seg list \<Rightarrow> seg list \<Rightarrow> bool" where
  "seg_disjoint [] [] \<longleftrightarrow> False"
| "seg_disjoint (SLit a # ss) (SLit b # ts) \<longleftrightarrow> a \<noteq> b \<or> seg_disjoint ss ts"
| "seg_disjoint (_ # ss) (_ # ts) \<longleftrightarrow> seg_disjoint ss ts"
| "seg_disjoint _ _ \<longleftrightarrow> True"

lemma seg_matches_iff:
  "seg_matches [] ps \<longleftrightarrow> ps = []"
  "seg_matches (s # ss) ps \<longleftrightarrow> (\<exists>p qs. ps = p # qs \<and>
     (case s of SLit l \<Rightarrow> firstSegment p qs = l | SVar \<Rightarrow> firstSegment p qs \<noteq> [47]) \<and> seg_matches ss qs)"
  by (cases ps; cases s; simp)+

lemma seg_disjoint: "seg_disjoint ss ts \<Longrightarrow> seg_matches ss ps \<Longrightarrow> \<not> seg_matches ts ps"
  by (induction ss ts arbitrary: ps rule: seg_disjoint.induct) (auto simp: seg_matches_iff)

definition route_disjoint :: "string \<times> seg list \<Rightarrow> string \<times> seg list \<Rightarrow> bool" where
  "route_disjoint a b \<longleftrightarrow> fst a \<noteq> ''HEAD'' \<and> fst b \<noteq> ''HEAD'' \<and> (fst a \<noteq> fst b \<or> seg_disjoint (snd a) (snd b))"

lemma route_disjoint: "route_disjoint a b \<Longrightarrow> route_matches r a \<Longrightarrow> \<not> route_matches r b"
  using seg_disjoint [of "snd a" "snd b" "rq_path r"] by (auto simp: route_disjoint_def route_matches_def)

lemma routes_disjoint: "sorted_wrt (\<lambda>x y. route_disjoint (fst x) (fst y)) (routes name_of)"
  by (simp add: routes_def Let_def route_disjoint_def str_def)

lemma filter_disjoint:
  "sorted_wrt (\<lambda>x y. P x \<longrightarrow> \<not> P y) xs \<Longrightarrow> x \<in> set xs \<Longrightarrow> P x \<Longrightarrow> filter P xs = [x]"
proof (induction xs)
  case (Cons y xs)
  show ?case
  proof (cases "P y")
    case True
    then have "filter P xs = []" using Cons.prems(1) by (auto simp: filter_empty_conv)
    then show ?thesis using Cons.prems True by auto
  next
    case False
    then show ?thesis using Cons by auto
  qed
qed simp

lemma find_filter: "List.find P xs = (case filter P xs of [] \<Rightarrow> None | x # _ \<Rightarrow> Some x)"
  by (induction xs) auto

lemma routes_filter:
  assumes "(mp, h) \<in> set (routes name_of)" "route_matches r mp"
  shows "filter (\<lambda>(mp, h). route_matches r mp) (routes name_of) = [(mp, h)]"
proof (rule filter_disjoint)
  show "sorted_wrt (\<lambda>x y. (case x of (mp, h) \<Rightarrow> route_matches r mp) \<longrightarrow> \<not> (case y of (mp, h) \<Rightarrow> route_matches r mp))
      (routes name_of)"
    by (rule sorted_wrt_mono_rel [OF _ routes_disjoint]) (auto dest: route_disjoint)
qed (use assms in auto)

lemma serve_route:
  assumes "(mp, h) \<in> set (routes name_of)" "route_matches r mp" "\<not> redirected r" "rq_method r \<noteq> ''HEAD''"
  shows "serve name_of ev lb r en = withMiddleware (h ev lb r en)"
  using routes_filter [OF assms(1,2)] assms(3,4)
  by (cases "withMiddleware (h ev lb r en)") (simp add: serve_def find_filter)

text \<open>
  The segments of the routes pass as they are. \<open>wild_ok s\<close>: the segment \<open>s\<close> of a path reaches a wildcard; it
  is not removed or resolved, and is not a slash.
\<close>

definition wild_ok :: "bytes \<Rightarrow> bool" where
  "wild_ok s \<longleftrightarrow> s \<noteq> [] \<and> s \<noteq> str ''.'' \<and> s \<noteq> str ''..'' \<and> pathUnescape s \<noteq> [47]"

lemma route_segments [simp]:
  "pathUnescape (str ''v1'') = str ''v1''" "pathUnescape (str ''classes'') = str ''classes''"
  "pathUnescape (str ''objects'') = str ''objects''" "pathUnescape (str ''bulk'') = str ''bulk''"
  "wild_ok (str ''v1'')" "wild_ok (str ''classes'')" "wild_ok (str ''objects'')" "wild_ok (str ''bulk'')"
  by (simp_all add: wild_ok_def pathUnescape_def str_def)

lemma byte_segments [simp]:
  "b \<noteq> 37 \<Longrightarrow> pathUnescape [b] = [b]" "b \<notin> {37, 46, 47} \<Longrightarrow> wild_ok [b]"
  by (simp_all add: wild_ok_def pathUnescape_def str_def)

lemma firstSegment_wild [simp]: "wild_ok s \<Longrightarrow> firstSegment s ss = pathUnescape s" "wild_ok s \<Longrightarrow> pathUnescape s \<noteq> [47]"
  by (simp_all add: firstSegment_def wild_ok_def)

lemma clean_from_wild: "list_all wild_ok ss \<Longrightarrow> clean_from done ss = rev done @ ss"
  by (induction ss arbitrary: "done") (simp_all add: wild_ok_def)

lemma not_redirected [simp]: "rq_path r = ss \<Longrightarrow> ss \<noteq> [] \<Longrightarrow> list_all wild_ok ss \<Longrightarrow> \<not> redirected r"
  by (cases ss rule: rev_cases) (auto simp: redirected_def cleanPath_def Let_def clean_from_wild wild_ok_def)

text \<open>The requests for objects, by method and path.\<close>

definition at_objects :: "string \<Rightarrow> bytes \<Rightarrow> request \<Rightarrow> bool" where
  "at_objects m c r \<longleftrightarrow> rq_method r = m \<and>
     (\<exists>s. rq_path r = [str ''v1'', str ''classes'', s, str ''objects''] \<and> wild_ok s \<and> pathUnescape s = c)"

definition at_object :: "string \<Rightarrow> bytes \<Rightarrow> request \<Rightarrow> bool" where
  "at_object m c r \<longleftrightarrow> rq_method r = m \<and>
     (\<exists>s i. rq_path r = [str ''v1'', str ''classes'', s, str ''objects'', i] \<and> wild_ok s \<and> wild_ok i \<and> pathUnescape s = c)"

lemma at_object_path:
  "at_objects m c r \<Longrightarrow> \<not> redirected r \<and> PathClass r = c \<and> rq_method r = m \<and>
     seg_matches [SLit (str ''v1''), SLit (str ''classes''), SVar, SLit (str ''objects'')] (rq_path r)"
  "at_object m c r \<Longrightarrow> \<not> redirected r \<and> PathClass r = c \<and> rq_method r = m \<and>
     seg_matches [SLit (str ''v1''), SLit (str ''classes''), SVar, SLit (str ''objects''), SVar] (rq_path r)"
  by (auto simp: at_objects_def at_object_def PathClass_def)

lemma serve_objects:
  "at_objects ''POST'' c r \<Longrightarrow> serve name_of ev lb r en = withMiddleware (handleCreateObject ev lb r en)"
  "at_objects ''GET'' c r \<Longrightarrow> serve name_of ev lb r en = withMiddleware (handleListObjects ev lb r en)"
  "at_object ''GET'' c r \<Longrightarrow> serve name_of ev lb r en = withMiddleware (handleGetObject ev lb r en)"
  "at_objects m c r \<Longrightarrow> PathClass r = c" "at_object m c r \<Longrightarrow> PathClass r = c"
proof -
  have route: "serve name_of ev lb r en = withMiddleware (h ev lb r en)"
    if "((m, ss), h) \<in> set (routes name_of)" "\<not> redirected r" "rq_method r = m" "m \<noteq> ''HEAD''" "seg_matches ss (rq_path r)"
    for m ss h
    by (rule serve_route [OF that(1)]) (use that(2-5) in \<open>simp_all add: route_matches_def\<close>)
  note rs = routes_def [of name_of] Let_def
  show "at_objects ''POST'' c r \<Longrightarrow> serve name_of ev lb r en = withMiddleware (handleCreateObject ev lb r en)"
    by (rule route [of "''POST''" "[SLit (str ''v1''), SLit (str ''classes''), SVar, SLit (str ''objects'')]"])
      (use at_object_path(1) in \<open>force simp: rs\<close>)+
  show "at_objects ''GET'' c r \<Longrightarrow> serve name_of ev lb r en = withMiddleware (handleListObjects ev lb r en)"
    by (rule route [of "''GET''" "[SLit (str ''v1''), SLit (str ''classes''), SVar, SLit (str ''objects'')]"])
      (use at_object_path(1) in \<open>force simp: rs\<close>)+
  show "at_object ''GET'' c r \<Longrightarrow> serve name_of ev lb r en = withMiddleware (handleGetObject ev lb r en)"
    by (rule route [of "''GET''" "[SLit (str ''v1''), SLit (str ''classes''), SVar, SLit (str ''objects''), SVar]"])
      (use at_object_path(2) in \<open>force simp: rs\<close>)+
  show "at_objects m c r \<Longrightarrow> PathClass r = c" "at_object m c r \<Longrightarrow> PathClass r = c"
    using at_object_path by blast+
qed

section \<open>Objects over the wire\<close>

lemma reply_with_iff:
  "reply_with RId x = (en, Inr (RId i)) \<longleftrightarrow> x = (en, Inr i)"
  "reply_with RObject y = (en, Inr (RObject v)) \<longleftrightarrow> y = (en, Inr v)"
  by (cases x; cases "snd x"; auto) (cases y; cases "snd y"; auto)

lemma get_object:
  assumes "at_object ''GET'' c g" "parseID g = Some i" "GetObject ev en (projectOf g) c i = Inr (Some v)"
    "storedToObject lb v i = Inr ob"
  shows "serve name_of ev lb g en = (en, \<lparr>rs_status = 200, rs_body = BObject ob\<rparr>)"
  using assms serve_objects(3) [OF assms(1)] serve_objects(5) [OF assms(1)]
  by (simp add: handleGetObject_def withMiddleware_def writeObject_def)

text \<open>The codecs of stored objects, on one object.\<close>

definition stored_law :: "lib \<Rightarrow> obj option \<Rightarrow> bytes \<Rightarrow> bool" where
  "stored_law lb m v \<longleftrightarrow> lb_marshal lb m = Inr v \<and> v \<noteq> [] \<and> lb_unmarshal lb v = Inr m"

lemma storedToObject_law:
  "stored_law lb (Some m) v \<Longrightarrow> storedToObject lb v i = Inr (AList.update (lit ''id'') (MInt64 i) m)"
  by (simp add: stored_law_def storedToObject_def)

lemma storedToObject_nil: "stored_law lb None v \<Longrightarrow> storedToObject lb v i = Inl Panic"
  by (simp add: stored_law_def storedToObject_def)

lemma create_object:
  assumes "at_objects ''POST'' c r" "rq_body r = Inr body" "jsonToStored lb (take maxObjectBytes body) = Inr v"
  shows "serve name_of ev lb r en =
    (case CreateObject ev (projectOf r) c v en of
       (en, Inl err) \<Rightarrow> (en, \<lparr>rs_status = errorStatus err, rs_body = BError '''' (Some err)\<rparr>)
     | (en, Inr i) \<Rightarrow> withMiddleware (en, writeObject 201 (storedToObject lb v i)))"
  using assms serve_objects(1) [OF assms(1)] serve_objects(4) [OF assms(1)]
  by (auto simp: handleCreateObject_def ReadAll_def withMiddleware_def writeEngineError_def writeErrorOf_def
      split: prod.split sum.split)

section \<open>Properties\<close>

text \<open>
  C27: a refused request changes nothing. Whatever the request, the engine still stands for a database
  afterwards, and when the status is 4xx it is the one before.
\<close>

theorem http_refused_no_effect:
  assumes "represents ev en d" "ev_ok ev" "\<forall>cmd. issues name_of lb r cmd \<longrightarrow> has_room ev en cmd"
    "serve name_of ev lb r en = (en', resp)"
  shows "\<exists>d'. represents ev en' d' \<and> (400 \<le> rs_status resp \<and> rs_status resp < 500 \<longrightarrow> d' = d)"
proof (cases "en' = en")
  case False
  with serve_does [OF assms(4)] obtain cmd where cmd: "issues name_of lb r cmd" "en' = fst (exec ev cmd en)"
    "refusal (rs_status resp) \<longrightarrow> (\<exists>e. snd (exec ev cmd en) = Inl e)" by blast
  have "represents ev en' (effect cmd (snd (exec ev cmd en)) d)"
    using zdb.run_law [of ev en d cmd en' "snd (exec ev cmd en)"] assms(1-3) cmd(1,2) by simp
  with cmd(3) show ?thesis by (auto simp: refusal_def)
qed (use assms(1) in blast)

definition sample_delete_class :: request where
  "sample_delete_class = \<lparr>rq_method = ''DELETE'', rq_path = [str ''v1'', str ''classes'', [0x62]], rq_query = [],
     rq_project = [], rq_body = Inr []\<rparr>"

lemma sample_request:
  "projectOf sample_delete_class = []" "PathClass sample_delete_class = [0x62]" "parseID sample_delete_class = None"
  "rq_method sample_delete_class = ''DELETE''" "\<not> has_class [] [0x62] (object_db v)"
  by (simp_all add: sample_delete_class_def projectOf_def TrimSpaceUTF8_def TrimLeft.simps PathClass_def parseID_def
      PathId_def ParseInt_def has_class_def object_db_def ClassKey_def nsClass_def ObjectKey_def nsObject_def scope_def)

lemma sample_delete_room:
  assumes "at en (object_db [3]) 2 (gen_New(ScopeKey [] sample_class \<mapsto> 1))" "issues Inr sample_lib sample_delete_class cmd"
  shows "has_room sample_env en cmd"
proof -
  have en: "represents sample_env en (object_db [3])" using assms(1) by (simp add: at_def)
  have cmd: "cmd = Cmd_DropClass [] [0x62]" using assms(2) by (cases cmd) (simp_all add: sample_request)
  have "room en cmd" using assms(1) by (rule at_room) (use sint_lt [where 'a = 64] cmd in simp_all)
  moreover have "\<not> has_class [] [0x62] d \<and> db_ok 9 d" if "represents sample_env en d" for d
  proof -
    have "d = object_db [3]"
      using lookup_law [OF representsD(1) [OF en]] lookup_law [OF representsD(1) [OF that]] by (simp add: fun_eq_iff)
    then show ?thesis using sample_request(5) [of "[3]"] by simp
  qed
  ultimately show ?thesis by (auto simp: has_room_def cmd)
qed

theorem http_refused_no_effect_witness:
  "\<exists>en en' resp. serve Inr sample_env sample_lib sample_delete_class en = (en', resp) \<and> rs_status resp = 404 \<and>
     represents sample_env en' (object_db [3])"
proof -
  let ?r = sample_delete_class
  from sample_object obtain en g where a: "at en (object_db [3]) 2 g" and g: "g = gen_New(ScopeKey [] sample_class \<mapsto> 1)" by blast
  then have en: "represents sample_env en (object_db [3])" by (simp add: at_def)
  obtain en' resp where s: "serve Inr sample_env sample_lib ?r en = (en', resp)"
    by (cases "serve Inr sample_env sample_lib ?r en")
  have ce: "\<not> ClassExists en [] [0x62]" using ClassExists_iff [OF en] sample_request(5) by simp
  have "serve Inr sample_env sample_lib ?r en = withMiddleware (handleDeleteClass sample_env sample_lib ?r en)"
    by (rule serve_route [where mp = "(''DELETE'', [SLit (str ''v1''), SLit (str ''classes''), SVar])"])
      (simp_all add: routes_def Let_def route_matches_def sample_delete_class_def not_redirected [OF refl])
  then have st: "rs_status resp = 404"
    using s ce by (simp add: handleDeleteClass_def DropClass_def sample_request withMiddleware_def writeEngineError_def
        writeErrorOf_def errorStatus_def)
  with http_refused_no_effect [OF en sample_env_ok _ s] sample_delete_room [OF a [unfolded g]] st have "represents sample_env en' (object_db [3])" by auto
  with s st show ?thesis by blast
qed

text \<open>
  C11: an object comes back as it was sent. When a POST of a JSON object is answered with 201, the
  answer is the object with an id of the server's in place of the client's, and every later GET of
  that id, also after any number of restarts, answers the same.
\<close>

theorem http_create_then_get:
  assumes "represents ev en d" "ev_ok ev" "at_objects ''POST'' c r" "rq_body r = Inr body"
    "lb_json lb (take maxObjectBytes body) = Inr (MMap m)" "stored_law lb (Some (AList.delete (lit ''id'') m)) v"
    "has_room ev en (Cmd_Create (projectOf r) c v)"
    "serve name_of ev lb r en = (en1, resp)" "rs_status resp = 201" "(reboots ev)\<^sup>*\<^sup>* en1 en2"
  shows "\<exists>i. 0 < sint i \<and>
    rs_body resp = BObject (AList.update (lit ''id'') (MInt64 i) (AList.delete (lit ''id'') m)) \<and>
    (\<forall>g. at_object ''GET'' c g \<and> projectOf g = projectOf r \<and> parseID g = Some i \<longrightarrow>
      serve name_of ev lb g en2 = (en2, \<lparr>rs_status = 200, rs_body = rs_body resp\<rparr>))"
proof -
  let ?p = "projectOf r"
  have js: "jsonToStored lb (take maxObjectBytes body) = Inr v"
    using assms(5,6) by (simp add: jsonToStored_def stored_law_def)
  obtain x where x: "CreateObject ev ?p c v en = (en1, Inr x)"
    "resp = \<lparr>rs_status = 201, rs_body = BObject (AList.update (lit ''id'') (MInt64 x) (AList.delete (lit ''id'') m))\<rparr>"
    using assms(8,9) create_object [OF assms(3,4) js, of name_of ev en] storedToObject_law [OF assms(6)]
    by (auto simp: withMiddleware_def writeObject_def errorStatus_def split: prod.splits sum.splits if_splits)
  have run: "exec ev (Cmd_Create ?p c v) en = (en1, Inr (RId x))" using x(1) by simp
  have rep: "represents ev en d \<and> ev_ok ev" using assms(1,2) by simp
  from zdb.get_after_create [OF rep assms(7) run assms(10)] obtain i where
    "RId x = RId i" "0 < sint i" "exec ev (Cmd_Get ?p c i) en2 = (en2, Inr (RObject (Some v)))" .
  then have get: "GetObject ev en2 ?p c x = Inr (Some v)" "0 < sint x"
    by (auto simp: reply_with_iff)
  have "serve name_of ev lb g en2 = (en2, \<lparr>rs_status = 200, rs_body = rs_body resp\<rparr>)"
    if "at_object ''GET'' c g" "projectOf g = ?p" "parseID g = Some x" for g
    using get_object [OF that(1,3)] that(2) get(1) storedToObject_law [OF assms(6)] x(2) by simp
  with get(2) x(2) show ?thesis by auto
qed

definition sample_post :: request where
  "sample_post = \<lparr>rq_method = ''POST'', rq_path = [str ''v1'', str ''classes'', sample_class, str ''objects''],
     rq_query = [], rq_project = [], rq_body = Inr [0x7B]\<rparr>"

definition sample_lib2 :: lib where
  "sample_lib2 = sample_lib\<lparr>lb_marshal := (\<lambda>m. case m of None \<Rightarrow> Inr [4] | Some kvs \<Rightarrow> Inr [3]),
     lb_unmarshal := (\<lambda>b. if b = [4] then Inr None else Inr (Some [(lit ''a'', MStr (lit ''x''))]))\<rparr>"

lemma sample_post_simps [simp]:
  "at_objects ''POST'' sample_class sample_post" "rq_body sample_post = Inr [0x7B]" "projectOf sample_post = []"
  "take maxObjectBytes [b] = [b]"
  by (simp_all add: at_objects_def sample_post_def projectOf_def TrimSpaceUTF8_def TrimLeft.simps maxObjectBytes_def
      push_bit_eq_mult)

lemma sample_lib2_simps:
  "lb_json sample_lib2 [0x7B] = Inr (MMap [(lit ''a'', MStr (lit ''x'')), (lit ''id'', MBool True)])"
  "lb_json sample_lib2 [110] = Inr MNil"
  "stored_law sample_lib2 (Some (AList.delete (lit ''id'') [(lit ''a'', MStr (lit ''x'')), (lit ''id'', MBool True)])) [3]"
  "stored_law sample_lib2 None [4]"
  by (simp_all add: sample_lib2_def sample_lib_def stored_law_def lit_def)

lemma sample_create_room: "at en class_db tx gen_New \<Longrightarrow> unat tx + 1 < 2 ^ 64 \<Longrightarrow> v = [3] \<or> v = [4] \<or> v = [5] \<Longrightarrow>
  has_room sample_env en (Cmd_Create [] sample_class v)"
proof -
  assume a: "at en class_db tx gen_New" "unat tx + 1 < 2 ^ 64" "v = [3] \<or> v = [4] \<or> v = [5]"
  from sample_create [OF a] have ans: "snd (exec sample_env (Cmd_Create [] sample_class v) en) = Inr (RId 1)" by auto
  have "room en (Cmd_Create [] sample_class v)" using a(1,2) by (rule at_room) simp
  moreover have "db_ok 9 d'" if "represents sample_env en d" "spec (Cmd_Create [] sample_class v) d (Inr (RId 1)) d'" for d d'
  proof -
    have "d = class_db"
      using lookup_law [OF representsD(1) [OF that(1)]] lookup_law [of sample_env en class_db] a(1)
      by (simp add: fun_eq_iff at_def represents_def)
    then have "d' = object_db v" using that(2) by auto
    then show ?thesis using a(3) by auto
  qed
  ultimately show ?thesis unfolding has_room_def ans by simp
qed

theorem http_create_then_get_witness:
  "\<exists>en en1 resp. serve Inr sample_env sample_lib2 sample_post en = (en1, resp) \<and> rs_status resp = 201 \<and>
     (\<exists>i. rs_body resp = BObject [(lit ''a'', MStr (lit ''x'')), (lit ''id'', MInt64 i)])"
proof -
  from sample_boot sample_create_class obtain en where en: "at en class_db 1 gen_New" by blast
  then have rep: "represents sample_env en class_db" by (simp add: at_def)
  obtain en1 resp where s: "serve Inr sample_env sample_lib2 sample_post en = (en1, resp)"
    by (cases "serve Inr sample_env sample_lib2 sample_post en")
  have js: "jsonToStored sample_lib2 (take maxObjectBytes [0x7B]) = Inr [3]"
    using sample_lib2_simps(3) by (simp add: jsonToStored_def sample_lib2_simps(1) stored_law_def)
  obtain en' where "CreateObject sample_env [] sample_class [3] en = (en', Inr 1)"
    using sample_create [OF en, of "[3]"] by (auto simp: reply_with_iff)
  then have st: "rs_status resp = 201"
    using s create_object [OF sample_post_simps(1,2) js, of Inr sample_env en] storedToObject_law [OF sample_lib2_simps(3)]
    by (auto simp: withMiddleware_def writeObject_def)
  have "has_room sample_env en (Cmd_Create (projectOf sample_post) sample_class [3])"
    using sample_create_room [OF en] by simp
  from http_create_then_get [OF rep sample_env_ok sample_post_simps(1,2) _ sample_lib2_simps(3) this s st rtranclp.rtrancl_refl]
  show ?thesis using s st by (auto simp: sample_lib2_simps(1) lit_def)
qed

lemma storedToObjects_Inr:
  "storedToObjects lb objs = Inr out \<Longrightarrow> (i, v) \<in> set objs \<Longrightarrow> \<exists>ob. storedToObject lb v i = Inr ob"
  by (induction objs arbitrary: out) (auto simp: bindE_Inr_iff)

lemma storedToObjects_map:
  "\<forall>(i, v)\<in>set objs. storedToObject lb v i = Inr (f i v) \<Longrightarrow>
   storedToObjects lb objs = Inr (map (\<lambda>(i, v). f i v) objs)"
  by (induction objs) auto

lemma withMiddleware_500 [simp]:
  "withMiddleware (en, None) = (en, \<lparr>rs_status = 500, rs_body = BError ''internal error'' None\<rparr>)"
  "withMiddleware (en, Some r) = (en, r)"
  by (simp_all add: withMiddleware_def writeError_def)

definition rq_limit :: "request \<Rightarrow> int" where
  "rq_limit r = parseIntDefault (q_Get (rq_query r) (lit ''limit'')) 100"

definition rq_offset :: "request \<Rightarrow> int" where
  "rq_offset r = parseIntDefault (q_Get (rq_query r) (lit ''offset'')) 0"

lemma list_objects:
  assumes "at_objects ''GET'' c r" "parseFilters lb (rq_query r) = Inr m"
    "QueryObjects ev en (projectOf r) c (map_option (matcher_match lb) m) (rq_limit r) (rq_offset r) = Inr objs"
  shows "serve name_of ev lb r en = withMiddleware (en, case storedToObjects lb objs of
      Inl e \<Rightarrow> if e = Panic then None else writeErrorOf 500 '''' e
    | Inr out \<Rightarrow> writeJSON 200 (BObjects out (rq_limit r) (rq_offset r)))"
  using assms serve_objects(2) [OF assms(1)] serve_objects(4) [OF assms(1)]
  unfolding rq_limit_def rq_offset_def by (simp add: handleListObjects_def Let_def)



text \<open>
  C10: a listing is the query's answer. When every stored object of the class decodes to an object that
  is not nil (the body \<^verbatim>\<open>null\<close> stores one that does not, and the listing then fails, \<open>http_null_object\<close>), a
  GET of the class answers 200 with exactly the objects that satisfy every filter of the query, each with its id, in
  the order of the ids, from the offset on and at most the limit of them when it is positive.
\<close>

theorem http_list_correct:
  assumes "represents ev en d" "at_objects ''GET'' c r" "has_class (projectOf r) c d"
    "\<forall>i v. objects (projectOf r) c d i = Some v \<longrightarrow> v \<noteq> [] \<and> lb_unmarshal lb v = Inr (Some (ob i))"
  shows "\<exists>ids. sorted_wrt (\<lambda>i j. sint i < sint j) ids \<and>
    set ids = {i. objects (projectOf r) c d i \<noteq> None \<and> query_holds lb (rq_query r) (ob i)} \<and>
    serve name_of ev lb r en = (en, \<lparr>rs_status = 200, rs_body = BObjects
      (map (\<lambda>i. AList.update (lit ''id'') (MInt64 i) (ob i)) (paginate (rq_limit r) (rq_offset r) ids))
      (rq_limit r) (rq_offset r)\<rparr>)"
proof -
  let ?p = "projectOf r" and ?q = "rq_query r"
  let ?P = "\<lambda>v. case lb_unmarshal lb v of Inl _ \<Rightarrow> False | Inr m \<Rightarrow> query_holds lb ?q (case m of None \<Rightarrow> [] | Some m \<Rightarrow> m)"
  have dec: "v \<noteq> []" "lb_unmarshal lb v = Inr (Some (ob i))" if "objects ?p c d i = Some v" for i v
    using that assms(4) by simp_all
  obtain m where m: "parseFilters lb ?q = Inr m"
    using parse_filters_correct [of lb "q_Get ?q (lit ''ci'') \<noteq> lit ''false'' \<and> q_Get ?q (lit ''ci'') \<noteq> lit ''0''" ?q]
    by (auto simp: parseFilters_def)
  have match: "\<forall>i v. objects ?p c d i = Some v \<longrightarrow>
      (case map_option (matcher_match lb) m of None \<Rightarrow> ?P v | Some f \<Rightarrow> f v = Inr (?P v))"
    using parseFilters_law [OF dec(2), of _ _ ?q] m dec(2) by (auto split: option.split)
  have "ClassExists en ?p c" "no_sep ?p" "no_sep c"
    using ClassExists_iff [OF assms(1)] has_class_no_sep [OF assms(3)] assms(3) by simp_all
  from QueryObjects_law [OF representsD(1) [OF assms(1)] this match, of "rq_limit r" "rq_offset r"] obtain ids where
    ids: "id_sorted ids" "set ids = {i. \<exists>v. objects ?p c d i = Some v \<and> ?P v}"
      "QueryObjects ev en ?p c (map_option (matcher_match lb) m) (rq_limit r) (rq_offset r) =
        Inr (map (\<lambda>i. (i, the (objects ?p c d i))) (paginate (rq_limit r) (rq_offset r) ids))"
    by (auto simp: lists_def)
  let ?page = "paginate (rq_limit r) (rq_offset r) ids"
  have set: "set ids = {i. objects ?p c d i \<noteq> None \<and> query_holds lb ?q (ob i)}"
    unfolding ids(2) using dec(2) by auto
  have "storedToObject lb (the (objects ?p c d i)) i = Inr (AList.update (lit ''id'') (MInt64 i) (ob i))" if "i \<in> set ?page" for i
    using that paginate_subset [of "rq_limit r" "rq_offset r" ids] set dec by (auto simp: storedToObject_def)
  then have "storedToObjects lb (map (\<lambda>i. (i, the (objects ?p c d i))) ?page) =
      Inr (map (\<lambda>(i, v). AList.update (lit ''id'') (MInt64 i) (ob i)) (map (\<lambda>i. (i, the (objects ?p c d i))) ?page))"
    by (intro storedToObjects_map) auto
  then have "serve name_of ev lb r en = (en, \<lparr>rs_status = 200, rs_body = BObjects
      (map (\<lambda>i. AList.update (lit ''id'') (MInt64 i) (ob i)) ?page) (rq_limit r) (rq_offset r)\<rparr>)"
    using list_objects [OF assms(2) m ids(3), of name_of] by (simp add: comp_def)
  with ids(1) set show ?thesis by (auto simp: id_sorted_def)
qed

definition sample_list :: request where
  "sample_list = \<lparr>rq_method = ''GET'', rq_path = [str ''v1'', str ''classes'', sample_class, str ''objects''],
     rq_query = [], rq_project = [], rq_body = Inr []\<rparr>"

theorem http_list_correct_witness:
  "\<exists>en ids. set ids = {1} \<and> serve Inr sample_env sample_lib2 sample_list en = (en, \<lparr>rs_status = 200, rs_body = BObjects
      (map (\<lambda>i. AList.update (lit ''id'') (MInt64 i) [(lit ''a'', MStr (lit ''x''))]) (paginate 100 0 ids)) 100 0\<rparr>)"
proof -
  from sample_object obtain en where en: "represents sample_env en (object_db [3])" by (auto simp: at_def)
  have r: "at_objects ''GET'' sample_class sample_list" "projectOf sample_list = []" "rq_query sample_list = []"
    by (simp_all add: at_objects_def sample_list_def projectOf_def TrimSpaceUTF8_def TrimLeft.simps)
  have dec: "\<forall>i v. objects (projectOf sample_list) sample_class (object_db [3]) i = Some v \<longrightarrow>
      v \<noteq> [] \<and> lb_unmarshal sample_lib2 v = Inr (Some [(lit ''a'', MStr (lit ''x''))])"
    by (simp add: r(2) sample_lib2_def)
  have has: "has_class (projectOf sample_list) sample_class (object_db [3])" by (simp add: r(2))
  from http_list_correct [OF en r(1) has dec, of Inr] obtain ids where
    "set ids = {i. objects (projectOf sample_list) sample_class (object_db [3]) i \<noteq> None}"
    "serve Inr sample_env sample_lib2 sample_list en = (en, \<lparr>rs_status = 200, rs_body = BObjects
      (map (\<lambda>i. AList.update (lit ''id'') (MInt64 i) [(lit ''a'', MStr (lit ''x''))]) (paginate 100 0 ids)) 100 0\<rparr>)"
    by (auto simp del: AList.update.simps simp: r(3) rq_limit_def rq_offset_def parseIntDefault_def q_Get_def query_holds_def)
  moreover from this(1) have "set ids = {1}" unfolding r(2) by auto
  ultimately show ?thesis by (intro exI conjI)
qed

lemma ParseInt_bound:
  assumes "ParseInt s = Some n"
  shows "- (2 ^ 63) \<le> n \<and> n < 2 ^ 63"
proof -
  from assms obtain neg and un :: u64 where
    "if neg then n = - uint un \<and> \<not> uint un > 2 ^ 63 else n = uint un \<and> \<not> uint un \<ge> 2 ^ 63"
    by (fastforce simp: ParseInt_def Let_def split: list.splits option.splits if_splits)
  then obtain u :: int where "0 \<le> u" "if neg then n = - u \<and> \<not> u > 2 ^ 63 else n = u \<and> \<not> u \<ge> 2 ^ 63"
    using uint_ge_0 by blast
  then show ?thesis by (cases neg) auto
qed

lemma word_of_int_sint: "- (2 ^ 63) \<le> n \<Longrightarrow> n < 2 ^ 63 \<Longrightarrow> sint (word_of_int n :: u64) = n"
  using int_word_sint [where 'a = 64, of n] by simp

lemma uint_sint_pos:
  assumes "0 < sint (i :: u64)"
  shows "uint i = sint i"
proof -
  have s: "sint i = (uint i + 2 ^ 63) mod 2 ^ 64 - 2 ^ 63"
    using int_word_sint [where 'a = 64, of "uint i"] by simp
  have b: "0 \<le> uint i" "uint i < 2 ^ 64" using uint_lt2p [of i] by simp_all
  show ?thesis
  proof (cases "uint i < 2 ^ 63")
    case True
    then show ?thesis using s b by simp
  next
    case False
    have "(uint i - 2 ^ 63 + 2 ^ 64) mod 2 ^ 64 = (uint i - 2 ^ 63) mod 2 ^ 64" by (rule mod_add_self2)
    then have "(uint i + 2 ^ 63) mod 2 ^ 64 = uint i - 2 ^ 63" using False b by (simp add: add.commute)
    then show ?thesis using s assms b by simp
  qed
qed

lemma ParseInt_dec:
  assumes "0 < sint (i :: u64)"
  shows "ParseInt (dec (unat i)) = Some (sint i)"
proof -
  obtain b bs where b: "dec (unat i) = b # bs" using dec_nonempty by (cases "dec (unat i)") auto
  then have "48 \<le> b" using dec_digits [of "unat i"] by simp
  then have "b \<noteq> 43" "b \<noteq> 45" by (auto simp: word_le_nat_alt)
  moreover have "uint i = sint i" using assms by (rule uint_sint_pos)
  moreover have "sint i < 2 ^ 63" using sint_lt [of i] by simp
  ultimately show ?thesis using ParseUint_dec [of 0 i] by (simp add: ParseInt_def b Let_def)
qed

text \<open>
  The object ids of a path are the positive 64-bit integers. An id is accepted exactly when the
  segment is a decimal integer from 1 to 2^63 - 1, nothing wraps around, and every id the server has
  printed is read back.
\<close>

theorem parseID_bounds:
  "(parseID r = Some i \<longleftrightarrow> 0 < sint i \<and> ParseInt (PathId r) = Some (sint i)) \<and>
   (0 < sint i \<and> PathId r = dec (unat i) \<longrightarrow> parseID r = Some i)"
proof -
  have iff: "parseID r = Some i \<longleftrightarrow> 0 < sint i \<and> ParseInt (PathId r) = Some (sint i)"
  proof
    assume "parseID r = Some i"
    then obtain n where n: "ParseInt (PathId r) = Some n" "0 < n" "i = word_of_int n"
      by (auto simp: parseID_def split: option.splits if_splits)
    then have "sint i = n" using ParseInt_bound [OF n(1)] word_of_int_sint by simp
    with n show "0 < sint i \<and> ParseInt (PathId r) = Some (sint i)" by simp
  next
    assume "0 < sint i \<and> ParseInt (PathId r) = Some (sint i)"
    then show "parseID r = Some i" by (simp add: parseID_def)
  qed
  then show ?thesis using ParseInt_dec [of i] by simp
qed

theorem parseID_bounds_witness:
  "parseID (sample_list\<lparr>rq_path := [[], [], [], [], dec (unat (7 :: u64))]\<rparr>) = Some 7"
  using parseID_bounds [of "sample_list\<lparr>rq_path := [[], [], [], [], dec (unat (7 :: u64))]\<rparr>" 7] by (simp add: PathId_def dec.simps)

end
