(* ===== verification/HttpDoc.thy ===== *)
theory HttpDoc
  imports HttpProps
begin

text \<open>
  The answers of the REST interface as \<^verbatim>\<open>docs/api/rest-api.md\<close> lists them, route by route: which status a
  request gets, in terms of the database and of what the request holds, and which kind of body comes
  with it.
\<close>

section \<open>The documented answers\<close>

definition is_error :: "rbody \<Rightarrow> bool" where
  "is_error b \<longleftrightarrow> (\<exists>msg e. b = BError msg e)"

text \<open>What a request has to bring: a name for a class, a JSON object, a JSON array of objects.\<close>

definition names_class :: "(bytes \<Rightarrow> bytes res) \<Rightarrow> request \<Rightarrow> bytes \<Rightarrow> bool" where
  "names_class name_of r n \<longleftrightarrow> validName n \<and> validProject (projectOf r) \<and>
     (\<exists>body. ReadAll (push_bit 20 1) r = Inr body \<and> name_of body = Inr n)"

definition brings_object :: "lib \<Rightarrow> request \<Rightarrow> bool" where
  "brings_object lb r \<longleftrightarrow> (\<exists>body v. ReadAll maxObjectBytes r = Inr body \<and> jsonToStored lb body = Inr v)"

definition brings_items :: "lib \<Rightarrow> request \<Rightarrow> nat \<Rightarrow> bool" where
  "brings_items lb r n \<longleftrightarrow> n \<le> maxBulkObjects \<and>
     (\<exists>body items vs. ReadAll maxBulkBytes r = Inr body \<and> lb_json_items lb body = Inr items \<and>
        length items = n \<and> items_to_stored lb items = Inr vs)"

text \<open>The class of the path, and the object of its id.\<close>

definition class_there :: "db \<Rightarrow> request \<Rightarrow> bool" where
  "class_there d r \<longleftrightarrow> has_class (projectOf r) (PathClass r) d"

definition object_there :: "db \<Rightarrow> request \<Rightarrow> bool" where
  "object_there d r \<longleftrightarrow> class_there d r \<and>
     (\<exists>i. parseID r = Some i \<and> objects (projectOf r) (PathClass r) d i \<noteq> None)"

text \<open>
  One line for every route: the status and the body of a success, the condition of every error status.
  500 is for what the database and the request do not decide: an entry the log refuses, an object that
  does not decode, a panic.
\<close>

type_synonym doc = "nat \<Rightarrow> rbody \<Rightarrow> bool"

definition documented :: "(bytes \<Rightarrow> bytes res) \<Rightarrow> lib \<Rightarrow> db \<Rightarrow> request \<Rightarrow> ((string \<times> seg list) \<times> doc) list" where
  "documented name_of lb d r =
     (let v1 = SLit (str ''v1''); classes = SLit (str ''classes''); objs = SLit (str ''objects'');
          project = projectOf r; cls = class_there d r; ob = object_there d r; id = (parseID r \<noteq> None);
          named = names_class name_of r in
      [((''GET'', [v1, SLit (str ''health'')]), \<lambda>s b. s = 200 \<and> b = BHealth),
       ((''GET'', [v1, SLit (str ''stats'')]), \<lambda>s b. s = 200 \<and> (\<exists>st. b = BStats st)),
       ((''GET'', [v1, SLit (str ''projects'')]), \<lambda>s b. s = 200 \<and> (\<exists>ps. b = BProjects ps)),
       ((''POST'', [v1, classes]), \<lambda>s b.
          s = 201 \<and> (\<exists>n. named n \<and> \<not> has_class project n d \<and> b = BClass n project) \<or>
          is_error b \<and> (s = 400 \<and> \<not> (\<exists>n. named n) \<or> s = 409 \<and> (\<exists>n. named n \<and> has_class project n d) \<or>
            s = 500 \<and> (\<exists>n. named n \<and> \<not> has_class project n d))),
       ((''GET'', [v1, classes]), \<lambda>s b. s = 200 \<and> (\<exists>cs. b = BClasses cs project)),
       ((''GET'', [v1, classes, SVar]), \<lambda>s b.
          s = 200 \<and> cls \<and> b = BClass (PathClass r) project \<or> is_error b \<and> s = 404 \<and> \<not> cls),
       ((''DELETE'', [v1, classes, SVar]), \<lambda>s b.
          let empty = (objects project (PathClass r) d = Map.empty) in
          s = 204 \<and> cls \<and> empty \<and> b = BNone \<or>
          is_error b \<and> (s = 404 \<and> \<not> cls \<or> s = 409 \<and> cls \<and> \<not> empty \<or> s = 500 \<and> cls \<and> empty)),
       ((''POST'', [v1, classes, SVar, objs]), \<lambda>s b.
          s = 201 \<and> cls \<and> brings_object lb r \<and> (\<exists>x. b = BObject x) \<or>
          is_error b \<and> (s = 400 \<and> \<not> brings_object lb r \<or> s = 404 \<and> brings_object lb r \<and> \<not> cls \<or>
            s = 500 \<and> brings_object lb r \<and> cls)),
       ((''POST'', [v1, classes, SVar, objs, SLit (str ''bulk'')]), \<lambda>s b.
          s = 201 \<and> (\<exists>n. brings_items lb r n \<and> (cls \<or> n = 0) \<and> (\<exists>ids. b = BIds ids \<and> length ids = n)) \<or>
          is_error b \<and> (s = 400 \<and> \<not> (\<exists>n. brings_items lb r n) \<or>
            s = 404 \<and> (\<exists>n>0. brings_items lb r n) \<and> \<not> cls \<or> s = 500 \<and> (\<exists>n>0. brings_items lb r n) \<and> cls)),
       ((''GET'', [v1, classes, SVar, objs]), \<lambda>s b.
          s = 200 \<and> cls \<and> (\<exists>xs. b = BObjects xs (rq_limit r) (rq_offset r)) \<or>
          is_error b \<and> (s = 404 \<and> \<not> cls \<or> s = 500 \<and> cls)),
       ((''GET'', [v1, classes, SVar, objs, SVar]), \<lambda>s b.
          s = 200 \<and> ob \<and> (\<exists>x. b = BObject x) \<or>
          is_error b \<and> (s = 400 \<and> \<not> id \<or> s = 404 \<and> id \<and> \<not> ob \<or> s = 500 \<and> ob)),
       ((''PUT'', [v1, classes, SVar, objs, SVar]), \<lambda>s b.
          s = 200 \<and> brings_object lb r \<and> ob \<and> (\<exists>x. b = BObject x) \<or>
          is_error b \<and> (s = 400 \<and> (\<not> id \<or> \<not> brings_object lb r) \<or> s = 404 \<and> id \<and> brings_object lb r \<and> \<not> ob \<or>
            s = 500 \<and> brings_object lb r \<and> ob)),
       ((''DELETE'', [v1, classes, SVar, objs, SVar]), \<lambda>s b.
          s = 204 \<and> ob \<and> b = BNone \<or>
          is_error b \<and> (s = 400 \<and> \<not> id \<or> s = 404 \<and> id \<and> \<not> ob \<or> s = 500 \<and> ob))])"

text \<open>
  The whole answer: a redirect to the clean path, the line of the route, or plain text when there is no
  route; HEAD is answered as GET without the body.
\<close>

definition answers :: "(bytes \<Rightarrow> bytes res) \<Rightarrow> lib \<Rightarrow> db \<Rightarrow> request \<Rightarrow> doc" where
  "answers name_of lb d r s b \<longleftrightarrow>
     (if redirected r then s = 301 \<and> b = (if rq_method r = ''GET'' then BMoved (cleanPath (rq_path r)) else BNone)
      else case List.find (\<lambda>(mp, ok). route_matches r mp) (documented name_of lb d r) of
        Some (mp, ok) \<Rightarrow> ok s b
      | None \<Rightarrow> s = (if \<exists>(mp, ok)\<in>set (documented name_of lb d r). seg_matches (snd mp) (rq_path r) then 405 else 404) \<and>
          (\<exists>msg. b = BText msg))"

section \<open>The errors of the engine and of the libraries\<close>

text \<open>No error of the msgpack library is one of the errors the engine defines for its callers.\<close>

definition own_errors :: "env \<Rightarrow> lib \<Rightarrow> bool" where
  "own_errors ev lb \<longleftrightarrow>
     (\<forall>e err. cd_marshal (ev_codec ev) e = Inl err \<longrightarrow> errorStatus err = 500) \<and>
     (\<forall>v err. lb_unmarshal lb v = Inl err \<longrightarrow> errorStatus err = 500)"

lemma errorStatus_simps [simp]:
  "errorStatus ErrNoClass = 404" "errorStatus ErrNotFound = 404" "errorStatus ErrClassExists = 409"
  "errorStatus ErrClassNotEmpty = 409" "errorStatus ErrInvalidName = 400" "errorStatus ErrTooLarge = 500"
  by (simp_all add: errorStatus_def)

lemma is_error_simps [simp]:
  "is_error (BError msg e)" "\<not> is_error BNone" "\<not> is_error (BObject ob)" "\<not> is_error (BIds ids)"
  by (simp_all add: is_error_def)

lemma seq_Submit_error:
  "ev_ok ev \<Longrightarrow> en_open en \<Longrightarrow> seq_Submit ev p en = (en', Inl err) \<Longrightarrow> errorStatus err = 500"
  by (auto simp: seq_Submit_ok split: if_splits)

lemma submit_error:
  "ev_ok ev \<Longrightarrow> own_errors ev lb \<Longrightarrow> en_open en \<Longrightarrow> submit ev e del en = (en', Inl err) \<Longrightarrow> errorStatus err = 500"
  by (auto simp: submit_def submit_log_def own_errors_def split: sum.splits prod.splits dest: seq_Submit_error)

section \<open>Every handler keeps its line\<close>

definition meets :: "doc \<Rightarrow> engine \<times> response option \<Rightarrow> bool" where
  "meets ok x \<longleftrightarrow>
     (case snd x of None \<Rightarrow> ok 500 (BError ''internal error'' None) | Some resp \<Rightarrow> ok (rs_status resp) (rs_body resp))"

lemma meets_simps [simp]:
  "meets ok (en, None) \<longleftrightarrow> ok 500 (BError ''internal error'' None)"
  "meets ok (en, Some resp) \<longleftrightarrow> ok (rs_status resp) (rs_body resp)"
  "meets ok (en, writeError s msg) \<longleftrightarrow> ok s (BError msg None)"
  "meets ok (en, writeErrorOf s msg e) \<longleftrightarrow> ok s (BError msg (Some e))"
  "meets ok (en, writeEngineError e) \<longleftrightarrow> ok (errorStatus e) (BError [] (Some e))"
  by (simp_all add: meets_def writeError_def writeErrorOf_def writeEngineError_def)

lemma meets_writeObject:
  "(\<And>x. ok s (BObject x)) \<Longrightarrow> (\<And>msg e. ok 500 (BError msg e)) \<Longrightarrow> meets ok (en, writeObject s y)"
  by (auto simp: writeObject_def split: sum.split)

lemma meets_middleware:
  "withMiddleware x = (en, resp) \<Longrightarrow> meets ok x \<Longrightarrow> ok (rs_status resp) (rs_body resp)"
  by (cases x; cases "snd x") auto

lemma class_there_iff:
  "represents ev en d \<Longrightarrow> ClassExists en (projectOf r) (PathClass r) \<longleftrightarrow> class_there d r"
  using ClassExists_iff by (simp add: class_there_def)

text \<open>What a handler runs on: an engine for the database, a disk that works, libraries with errors of their own.\<close>

definition serving :: "env \<Rightarrow> lib \<Rightarrow> engine \<Rightarrow> db \<Rightarrow> bool" where
  "serving ev lb en d \<longleftrightarrow> represents ev en d \<and> ev_ok ev \<and> own_errors ev lb"

lemma serving_facts:
  assumes "serving ev lb en d"
  shows "ClassExists en p c \<longleftrightarrow> has_class p c d" "en_lookup ev en (ObjectKey p c i) = Inr (objects p c d i)"
    "submit ev e del en = (en', Inl err) \<Longrightarrow> errorStatus err = 500"
    "submit ev e del (en\<lparr>en_idgen := g\<rparr>) = (en', Inl err) \<Longrightarrow> errorStatus err = 500"
    "seq_Submit ev q (en\<lparr>en_idgen := g\<rparr>) = (en', Inl err) \<Longrightarrow> errorStatus err = 500"
    "cd_marshal (ev_codec ev) x = Inl err \<Longrightarrow> errorStatus err = 500"
proof -
  from assms have a: "represents ev en d" "ev_ok ev" "own_errors ev lb" by (simp_all add: serving_def)
  note op = represents_open [OF a(1)]
  show "ClassExists en p c \<longleftrightarrow> has_class p c d" using a(1) by (rule ClassExists_iff)
  show "en_lookup ev en (ObjectKey p c i) = Inr (objects p c d i)" using a(1) by (rule lookup_object)
  show "submit ev e del en = (en', Inl err) \<Longrightarrow> errorStatus err = 500"
    "submit ev e del (en\<lparr>en_idgen := g\<rparr>) = (en', Inl err) \<Longrightarrow> errorStatus err = 500"
    by (rule submit_error [OF a(2,3)]; simp add: op)+
  show "seq_Submit ev q (en\<lparr>en_idgen := g\<rparr>) = (en', Inl err) \<Longrightarrow> errorStatus err = 500"
    by (rule seq_Submit_error [OF a(2)]; simp add: op)
  show "cd_marshal (ev_codec ev) x = Inl err \<Longrightarrow> errorStatus err = 500" using a(3) by (simp add: own_errors_def)
qed

text \<open>\<open>engine_case\<close>: how a handler goes on from an operation that fails with 500 only.\<close>

lemma engine_case:
  assumes "\<And>en' err. x = (en', Inl err) \<Longrightarrow> errorStatus err = 500 \<and> ok 500 (BError [] (Some err))"
    "\<And>en' y. x = (en', Inr y) \<Longrightarrow> meets ok (en', good y)"
  shows "meets ok (case x of (en, Inl err) \<Rightarrow> (en, writeEngineError err) | (en, Inr y) \<Rightarrow> (en, good y))"
  using assms by (cases x; cases "snd x") auto

lemma CreateClass_meets:
  assumes "serving ev lb en d"
  shows "meets (\<lambda>s b.
      s = 201 \<and> (\<exists>n. names_class name_of r n \<and> \<not> has_class (projectOf r) n d \<and> b = BClass n (projectOf r)) \<or>
      is_error b \<and> (s = 400 \<and> \<not> (\<exists>n. names_class name_of r n) \<or>
        s = 409 \<and> (\<exists>n. names_class name_of r n \<and> has_class (projectOf r) n d) \<or>
        s = 500 \<and> (\<exists>n. names_class name_of r n \<and> \<not> has_class (projectOf r) n d)))
    (handleCreateClass name_of ev lb r en)" (is "meets ?ok _")
proof -
  note f = serving_facts [OF assms]
  consider (bad) "\<not> (\<exists>n body. ReadAll (push_bit 20 1) r = Inr body \<and> name_of body = Inr n \<and> n \<noteq> [])"
    | n body where "ReadAll (push_bit 20 1) r = Inr body" "name_of body = Inr n" "n \<noteq> []" by blast
  then show ?thesis
  proof cases
    case bad
    then have "\<not> (\<exists>n. names_class name_of r n)" by (auto simp: names_class_def validName_def)
    with bad show ?thesis by (auto simp: handleCreateClass_def split: sum.split)
  next
    case (2 n body)
    have names: "names_class name_of r m \<longleftrightarrow> m = n \<and> validName n \<and> validProject (projectOf r)" for m
      using 2 by (auto simp: names_class_def)
    have "meets ?ok (case CreateClass ev (projectOf r) n en of (en, Inl err) \<Rightarrow> (en, writeEngineError err)
        | (en, Inr _) \<Rightarrow> (en, writeJSON 201 (BClass n (projectOf r))))"
      using f(1,3) by (auto simp: CreateClass_def names split: prod.split sum.split)
    with 2 show ?thesis by (simp add: handleCreateClass_def)
  qed
qed

lemma GetClass_meets:
  assumes "serving ev lb en d"
  shows "meets (\<lambda>s b. s = 200 \<and> class_there d r \<and> b = BClass (PathClass r) (projectOf r) \<or>
      is_error b \<and> s = 404 \<and> \<not> class_there d r)
    (handleGetClass ev lb r en)"
  using serving_facts(1) [OF assms] by (auto simp: handleGetClass_def class_there_def Let_def)

lemma DeleteClass_meets:
  assumes "serving ev lb en d"
  shows "meets (\<lambda>s b. let empty = (objects (projectOf r) (PathClass r) d = Map.empty) in
      s = 204 \<and> class_there d r \<and> empty \<and> b = BNone \<or>
      is_error b \<and> (s = 404 \<and> \<not> class_there d r \<or> s = 409 \<and> class_there d r \<and> \<not> empty \<or>
        s = 500 \<and> class_there d r \<and> empty))
    (handleDeleteClass ev lb r en)"
proof (cases "class_there d r")
  case True
  then have "has_class (projectOf r) (PathClass r) d" by (simp add: class_there_def)
  from ListObjects_law [OF _ this] assms obtain out where
    "ListObjects ev en (projectOf r) (PathClass r) 1 0 = Inr out"
    "lists (objects (projectOf r) (PathClass r) d) (\<lambda>_. True) 1 0 out" unfolding serving_def by blast
  with lists_one True serving_facts [OF assms] show ?thesis
    by (auto simp: handleDeleteClass_def DropClass_def class_there_def Let_def split: prod.split sum.split)
next
  case False
  with serving_facts(1) [OF assms] show ?thesis
    by (auto simp: handleDeleteClass_def DropClass_def class_there_def Let_def)
qed

lemma CreateObject_meets:
  assumes "serving ev lb en d"
  shows "meets (\<lambda>s b. s = 201 \<and> class_there d r \<and> brings_object lb r \<and> (\<exists>x. b = BObject x) \<or>
      is_error b \<and> (s = 400 \<and> \<not> brings_object lb r \<or> s = 404 \<and> brings_object lb r \<and> \<not> class_there d r \<or>
        s = 500 \<and> brings_object lb r \<and> class_there d r))
    (handleCreateObject ev lb r en)" (is "meets ?ok _")
proof -
  note f = serving_facts [OF assms]
  consider (bad) "\<not> brings_object lb r" | body v where "ReadAll maxObjectBytes r = Inr body" "jsonToStored lb body = Inr v"
    unfolding brings_object_def by blast
  then show ?thesis
  proof cases
    case bad
    then show ?thesis by (auto simp: handleCreateObject_def brings_object_def split: sum.split)
  next
    case (2 body v)
    then have b: "brings_object lb r" by (auto simp: brings_object_def)
    have "meets ?ok (case CreateObject ev (projectOf r) (PathClass r) v en of (en, Inl err) \<Rightarrow> (en, writeEngineError err)
        | (en, Inr oid) \<Rightarrow> (en, writeObject 201 (storedToObject lb v oid)))"
    proof (cases "class_there d r")
      case True
      then show ?thesis using f(1,4) b
        by (intro engine_case meets_writeObject)
          (auto simp: CreateObject_def class_there_def split: prod.splits sum.splits)
    next
      case False
      then show ?thesis using f(1) b by (simp add: CreateObject_def class_there_def)
    qed
    with 2 show ?thesis by (simp add: handleCreateObject_def)
  qed
qed

lemma bulk_subs_length: "bulk_subs ts p c vs g = (subs, g') \<Longrightarrow> length subs = length vs"
  by (induction vs arbitrary: g subs g') (auto split: prod.splits)

lemma Bulk_meets:
  assumes "serving ev lb en d"
  shows "meets (\<lambda>s b.
      s = 201 \<and> (\<exists>n. brings_items lb r n \<and> (class_there d r \<or> n = 0) \<and> (\<exists>ids. b = BIds ids \<and> length ids = n)) \<or>
      is_error b \<and> (s = 400 \<and> \<not> (\<exists>n. brings_items lb r n) \<or>
        s = 404 \<and> (\<exists>n>0. brings_items lb r n) \<and> \<not> class_there d r \<or>
        s = 500 \<and> (\<exists>n>0. brings_items lb r n) \<and> class_there d r))
    (handleCreateObjectsBulk ev lb r en)" (is "meets ?ok _")
proof -
  note f = serving_facts [OF assms]
  consider (bad) "\<not> (\<exists>n. brings_items lb r n)"
    | body items vs where "ReadAll maxBulkBytes r = Inr body" "lb_json_items lb body = Inr items"
      "length items \<le> maxBulkObjects" "items_to_stored lb items = Inr vs"
    unfolding brings_items_def by blast
  then show ?thesis
  proof cases
    case bad
    then show ?thesis
      by (auto simp: handleCreateObjectsBulk_def brings_items_def not_le split: sum.split)
  next
    case (2 body items vs)
    then have b: "brings_items lb r (length items)" by (auto simp: brings_items_def)
    have len: "length vs = length items" using items_to_stored_length [OF 2(4)] .
    show ?thesis
    proof (cases "items = []")
      case True
      with 2 b show ?thesis by (auto simp: handleCreateObjectsBulk_def)
    next
      case False
      then have pos: "0 < length items" "vs \<noteq> []" using len by auto
      have "meets ?ok (case CreateObjectsBulk ev (projectOf r) (PathClass r) vs en of
          (en, Inl err) \<Rightarrow> (en, writeEngineError err) | (en, Inr ids) \<Rightarrow> (en, writeJSON 201 (BIds ids)))"
      proof (cases "class_there d r")
        case True
        have e: "errorStatus err = 500" if "CreateObjectsBulk ev (projectOf r) (PathClass r) vs en = (en', Inl err)" for en' err
          using that f(1,5,6) True pos(2)
          by (auto simp: CreateObjectsBulk_def class_there_def Let_def split: prod.splits sum.splits)
        have l: "length ids = length items" if "CreateObjectsBulk ev (projectOf r) (PathClass r) vs en = (en', Inr ids)" for en' ids
          using that True pos(2) len f(1)
          by (auto simp: CreateObjectsBulk_def class_there_def Let_def bulk_subs_length split: prod.splits sum.splits)
        show ?thesis
          using e l True b pos(1) by (intro engine_case) auto
      next
        case False
        then show ?thesis using f(1) b pos by (auto simp: CreateObjectsBulk_def class_there_def)
      qed
      with 2 False show ?thesis by (simp add: handleCreateObjectsBulk_def)
    qed
  qed
qed

lemma query_match_error: "query_match (Some g) m = Inl err \<Longrightarrow> \<exists>v. g v = Inl err"
  by (induction m) (auto simp: bindE_Inl_iff split: if_splits)

lemma ListObjects_meets:
  assumes "serving ev lb en d"
  shows "meets (\<lambda>s b. s = 200 \<and> class_there d r \<and> (\<exists>xs. b = BObjects xs (rq_limit r) (rq_offset r)) \<or>
      is_error b \<and> (s = 404 \<and> \<not> class_there d r \<or> s = 500 \<and> class_there d r))
    (handleListObjects ev lb r en)" (is "meets ?ok _")
proof -
  let ?p = "projectOf r" and ?c = "PathClass r"
  let ?ci = "q_Get (rq_query r) (lit ''ci'') \<noteq> lit ''false'' \<and> q_Get (rq_query r) (lit ''ci'') \<noteq> lit ''0''"
  obtain m where m: "parseFilters lb (rq_query r) = Inr m"
    using parse_filters_correct [of lb ?ci "rq_query r"] by (auto simp: parseFilters_def)
  define q where "q = QueryObjects ev en ?p ?c (map_option (matcher_match lb) m) (rq_limit r) (rq_offset r)"
  have h: "handleListObjects ev lb r en = (en, case q of Inl err \<Rightarrow> writeEngineError err
      | Inr objs \<Rightarrow> (case storedToObjects lb objs of
          Inl e \<Rightarrow> if e = Panic then None else writeErrorOf 500 '''' e
        | Inr out \<Rightarrow> writeJSON 200 (BObjects out (rq_limit r) (rq_offset r))))"
    unfolding handleListObjects_def Let_def m q_def rq_limit_def rq_offset_def by simp
  show ?thesis
  proof (cases "class_there d r")
    case True
    then have cls: "has_class ?p ?c d" by (simp add: class_there_def)
    have "errorStatus err = 500" if "q = Inl err" for err
    proof -
      from assms have st: "stores (ev_codec ev) (ev_fuel ev) en d" and own: "own_errors ev lb"
        by (auto simp: serving_def dest: representsD)
      from merged_law [OF st] has_class_no_sep [OF cls] obtain ms where
        "query_snapshot ev (en_snap en) ?p ?c = Inr ms" by blast
      with that cls serving_facts(1) [OF assms] obtain ms' where
        q: "query_match (map_option (matcher_match lb) m) ms' = Inl err"
        by (auto simp: q_def QueryObjects_def query_page_def bindE_Inl_iff)
      then obtain mt where "m = Some mt"
        using query_match_law [where m = ms' and match = None and P = "\<lambda>_. True"] by (cases m) auto
      with q obtain v where "matcher_match lb mt v = Inl err" using query_match_error by force
      then show ?thesis using own by (auto simp: matcher_match_def own_errors_def bindE_Inl_iff)
    qed
    with True show ?thesis unfolding h by (cases q) (auto split: sum.split)
  next
    case False
    then have "q = Inl ErrNoClass" using serving_facts(1) [OF assms] by (simp add: q_def QueryObjects_def class_there_def)
    with False show ?thesis unfolding h by simp
  qed
qed

lemma GetObject_meets:
  assumes "serving ev lb en d"
  shows "meets (\<lambda>s b. s = 200 \<and> object_there d r \<and> (\<exists>x. b = BObject x) \<or>
      is_error b \<and> (s = 400 \<and> parseID r = None \<or> s = 404 \<and> parseID r \<noteq> None \<and> \<not> object_there d r \<or>
        s = 500 \<and> object_there d r))
    (handleGetObject ev lb r en)" (is "meets ?ok _")
proof (cases "parseID r")
  case None
  then show ?thesis by (simp add: handleGetObject_def)
next
  case (Some i)
  note f = serving_facts(1,2) [OF assms]
  show ?thesis
  proof (cases "object_there d r")
    case True
    then obtain v where "GetObject ev en (projectOf r) (PathClass r) i = Inr (Some v)"
      using Some f by (auto simp: GetObject_def object_there_def class_there_def)
    with Some True show ?thesis by (auto simp: handleGetObject_def intro!: meets_writeObject)
  next
    case False
    then have "GetObject ev en (projectOf r) (PathClass r) i \<in> {Inl ErrNoClass, Inr None}"
      using Some f by (auto simp: GetObject_def object_there_def class_there_def)
    with Some False show ?thesis by (auto simp: handleGetObject_def)
  qed
qed

lemma PutObject_meets:
  assumes "serving ev lb en d"
  shows "meets (\<lambda>s b. s = 200 \<and> brings_object lb r \<and> object_there d r \<and> (\<exists>x. b = BObject x) \<or>
      is_error b \<and> (s = 400 \<and> (parseID r = None \<or> \<not> brings_object lb r) \<or>
        s = 404 \<and> parseID r \<noteq> None \<and> brings_object lb r \<and> \<not> object_there d r \<or>
        s = 500 \<and> brings_object lb r \<and> object_there d r))
    (handlePutObject ev lb r en)" (is "meets ?ok _")
proof -
  note f = serving_facts [OF assms]
  consider (bad) "parseID r = None \<or> \<not> brings_object lb r"
    | i body v where "parseID r = Some i" "ReadAll maxObjectBytes r = Inr body" "jsonToStored lb body = Inr v"
    unfolding brings_object_def by (cases "parseID r") blast+
  then show ?thesis
  proof cases
    case bad
    then show ?thesis by (auto simp: handlePutObject_def brings_object_def split: sum.split option.split)
  next
    case (2 i body v)
    then have b: "brings_object lb r" by (auto simp: brings_object_def)
    have "meets ?ok (case PutObject ev (projectOf r) (PathClass r) i v en of (en, Inl err) \<Rightarrow> (en, writeEngineError err)
        | (en, Inr _) \<Rightarrow> (en, writeObject 200 (storedToObject lb v i)))"
    proof (cases "object_there d r")
      case True
      then show ?thesis using f(1-3) b 2(1)
        by (intro engine_case meets_writeObject)
          (auto simp: PutObject_def object_there_def class_there_def split: prod.splits sum.splits)
    next
      case False
      then show ?thesis using f(1,2) b 2(1) by (auto simp: PutObject_def object_there_def class_there_def)
    qed
    with 2 show ?thesis by (simp add: handlePutObject_def)
  qed
qed

lemma DeleteObject_meets:
  assumes "serving ev lb en d"
  shows "meets (\<lambda>s b. s = 204 \<and> object_there d r \<and> b = BNone \<or>
      is_error b \<and> (s = 400 \<and> parseID r = None \<or> s = 404 \<and> parseID r \<noteq> None \<and> \<not> object_there d r \<or>
        s = 500 \<and> object_there d r))
    (handleDeleteObject ev lb r en)" (is "meets ?ok _")
proof (cases "parseID r")
  case None
  then show ?thesis by (simp add: handleDeleteObject_def)
next
  case (Some i)
  note f = serving_facts [OF assms]
  have "meets ?ok (case DeleteObject ev (projectOf r) (PathClass r) i en of (en, Inl err) \<Rightarrow> (en, writeEngineError err)
      | (en, Inr _) \<Rightarrow> (en, writeJSON 204 BNone))"
  proof (cases "object_there d r")
    case True
    then show ?thesis using f(1-3) Some
      by (intro engine_case)
        (auto simp: DeleteObject_def object_there_def class_there_def split: prod.splits sum.splits)
  next
    case False
    then show ?thesis using f(1,2) Some by (auto simp: DeleteObject_def object_there_def class_there_def)
  qed
  with Some show ?thesis by (simp add: handleDeleteObject_def)
qed

section \<open>Property\<close>

lemma routes_documented:
  assumes "serving ev lb en d"
  shows "list_all2 (\<lambda>(mp, h) (mp', ok). mp = mp' \<and> meets ok (h ev lb r en)) (routes name_of) (documented name_of lb d r)"
  unfolding routes_def documented_def Let_def
  using CreateClass_meets [OF assms, of name_of r] GetClass_meets [OF assms, of r] DeleteClass_meets [OF assms, of r]
    CreateObject_meets [OF assms, of r] Bulk_meets [OF assms, of r] ListObjects_meets [OF assms, of r]
    GetObject_meets [OF assms, of r] PutObject_meets [OF assms, of r] DeleteObject_meets [OF assms, of r]
  by (simp add: Let_def) (auto simp: handleHealth_def handleStats_def handleListProjects_def handleListClasses_def Let_def)

lemma find_list_all2:
  assumes "list_all2 (\<lambda>(k, x) (k', y). k = k' \<and> Q x y) xs ys"
  shows "case List.find (\<lambda>(k, x). P k) xs of None \<Rightarrow> List.find (\<lambda>(k, y). P k) ys = None
    | Some (k, x) \<Rightarrow> \<exists>y. List.find (\<lambda>(k, y). P k) ys = Some (k, y) \<and> Q x y"
  using assms by induction (auto split: option.splits)

lemma exists_list_all2:
  "list_all2 (\<lambda>(k, x) (k', y). k = k' \<and> Q x y) xs ys \<Longrightarrow> list_ex (\<lambda>(k, x). P k) xs \<longleftrightarrow> (\<exists>(k, y)\<in>set ys. P k)"
  by (induction rule: list_all2_induct) auto



end
