(* ===== verification/Loadgen.thy ===== *)
theory Loadgen
  imports HttpProps
begin

text \<open>
  \<^verbatim>\<open>internal/testutil/loadgen\<close>: the workers of the resilience tests, which post objects and bulks to a
  running server and record what it acknowledged, and the system they form with the server: their
  requests interleave in any order with each other, with checkpoints, with lost replies and with kills
  of the server. The contract of the database is that every recorded acknowledgement is still
  answered after a restart.
\<close>

section \<open>Workers\<close>

record Ack =
  ack_ID :: u64
  ack_N :: u64

record BulkAck =
  bulk_IDs :: "u64 list"
  bulk_Ns :: "u64 list"

text \<open>
  What the workers send: the encodings of a marker object and of an array of them, which the JSON
  library makes, and the url.
\<close>

record load_client =
  cl_class :: bytes
  cl_batch :: nat
  cl_body :: "u64 \<Rightarrow> bytes"
  cl_items :: "u64 list \<Rightarrow> bytes"

text \<open>
  Where a worker is: at the head of its loop, with a request under way, with the response to it, or
  stopped. A worker of \<^verbatim>\<open>RunBulk\<close> first draws the markers of its batch, one by one.
\<close>

datatype worker =
    Idle
  | Sent u64
  | Replied u64 response
  | Filling "u64 list"
  | BulkSent "u64 list"
  | BulkReplied "u64 list" response
  | Stopped

record load =
  ld_counter :: u64
  ld_acks :: "Ack list"
  ld_bulk_counter :: u64
  ld_bulks :: "BulkAck list"
  ld_workers :: "worker list"

definition load_record :: "Ack \<Rightarrow> load \<Rightarrow> load" where
  "load_record a ld = ld\<lparr>ld_acks := ld_acks ld @ [a]\<rparr>"

definition Acks :: "load \<Rightarrow> Ack list" where
  "Acks ld = ld_acks ld"

definition Bulks :: "load \<Rightarrow> BulkAck list" where
  "Bulks ld = ld_bulks ld"

abbreviation set_worker :: "nat \<Rightarrow> worker \<Rightarrow> load \<Rightarrow> load" where
  "set_worker w x ld \<equiv> ld\<lparr>ld_workers := (ld_workers ld)[w := x]\<rparr>"

text \<open>\<^verbatim>\<open>json.Decode\<close> into a struct with the one field the worker reads; a missing field leaves its zero.\<close>

definition decode_id :: "rbody \<Rightarrow> u64" where
  "decode_id b =
     (case b of
        BObject ob \<Rightarrow> (case map_of ob (lit ''id'') of Some (MInt64 i) \<Rightarrow> i | _ \<Rightarrow> 0)
      | _ \<Rightarrow> 0)"

definition decode_ids :: "rbody \<Rightarrow> u64 list" where
  "decode_ids b = (case b of BIds ids \<Rightarrow> ids | _ \<Rightarrow> [])"

text \<open>The head of the loop: a cancelled context stops the worker, else it sends the next marker.\<close>

definition Run_begin :: "bool \<Rightarrow> nat \<Rightarrow> load \<Rightarrow> load" where
  "Run_begin cancelled w ld =
     (if cancelled then set_worker w Stopped ld
      else
        let n = ld_counter ld + 1
        in set_worker w (Sent n) (ld\<lparr>ld_counter := n\<rparr>))"

text \<open>The rest of it, once the response is there.\<close>

definition Run_reply :: "nat \<Rightarrow> u64 \<Rightarrow> response \<Rightarrow> load \<Rightarrow> load" where
  "Run_reply w n resp ld =
     (if rs_status resp = 201
      then set_worker w Idle (load_record \<lparr>ack_ID = decode_id (rs_body resp), ack_N = n\<rparr> ld)
      else set_worker w Idle ld)"

text \<open>The same of \<^verbatim>\<open>RunBulk\<close>; the counter is drawn once for every item, and the context looked at once.\<close>

definition RunBulk_fill :: "load_client \<Rightarrow> bool \<Rightarrow> nat \<Rightarrow> u64 list \<Rightarrow> load \<Rightarrow> load" where
  "RunBulk_fill cl cancelled w ns ld =
     (if cancelled \<and> ns = [] then set_worker w Stopped ld
      else if length ns < cl_batch cl then
        let n = ld_bulk_counter ld + 1
        in set_worker w (Filling (ns @ [n])) (ld\<lparr>ld_bulk_counter := n\<rparr>)
      else set_worker w (BulkSent ns) ld)"

definition RunBulk_reply :: "load_client \<Rightarrow> nat \<Rightarrow> u64 list \<Rightarrow> response \<Rightarrow> load \<Rightarrow> load" where
  "RunBulk_reply cl w ns resp ld =
     (if rs_status resp = 201
      then
        let ids = decode_ids (rs_body resp) in
        if length ids = cl_batch cl
        then set_worker w (Filling []) (ld\<lparr>ld_bulks := ld_bulks ld @ [\<lparr>bulk_IDs = ids, bulk_Ns = ns\<rparr>]\<rparr>)
        else set_worker w (Filling []) ld
      else set_worker w (Filling []) ld)"

definition single_request :: "load_client \<Rightarrow> u64 \<Rightarrow> request" where
  "single_request cl n =
     \<lparr>rq_method = ''POST'', rq_path = [str ''v1'', str ''classes'', cl_class cl, str ''objects''],
      rq_query = [], rq_project = [], rq_body = Inr (cl_body cl n)\<rparr>"

definition bulk_request :: "load_client \<Rightarrow> u64 list \<Rightarrow> request" where
  "bulk_request cl ns =
     \<lparr>rq_method = ''POST'',
      rq_path = [str ''v1'', str ''classes'', cl_class cl, str ''objects'', str ''bulk''],
      rq_query = [], rq_project = [], rq_body = Inr (cl_items cl ns)\<rparr>"

fun worker_request :: "load_client \<Rightarrow> worker \<Rightarrow> request option" where
  "worker_request cl (Sent n) = Some (single_request cl n)"
| "worker_request cl (BulkSent ns) = Some (bulk_request cl ns)"
| "worker_request cl _ = None"

fun worker_got :: "worker \<Rightarrow> response \<Rightarrow> worker" where
  "worker_got (Sent n) resp = Replied n resp"
| "worker_got (BulkSent ns) resp = BulkReplied ns resp"
| "worker_got x resp = x"

fun worker_step :: "load_client \<Rightarrow> bool \<Rightarrow> nat \<Rightarrow> worker \<Rightarrow> load \<Rightarrow> load" where
  "worker_step cl cancelled w Idle ld = Run_begin cancelled w ld"
| "worker_step cl cancelled w (Replied n resp) ld = Run_reply w n resp ld"
| "worker_step cl cancelled w (Filling ns) ld = RunBulk_fill cl cancelled w ns ld"
| "worker_step cl cancelled w (BulkReplied ns resp) ld = RunBulk_reply cl w ns resp ld"
| "worker_step cl cancelled w _ ld = ld"

text \<open>\<^verbatim>\<open>Run\<close> and \<^verbatim>\<open>RunBulk\<close> launch their workers.\<close>

definition Run :: "nat \<Rightarrow> load" where
  "Run workers = \<lparr>ld_counter = 0, ld_acks = [], ld_bulk_counter = 0, ld_bulks = [],
     ld_workers = replicate workers Idle\<rparr>"

definition RunBulk :: "nat \<Rightarrow> load" where
  "RunBulk workers = \<lparr>ld_counter = 0, ld_acks = [], ld_bulk_counter = 0, ld_bulks = [],
     ld_workers = replicate workers (Filling [])\<rparr>"

section \<open>Workers and server\<close>

text \<open>
  The JSON library on what the workers send: the object \<open>ob_of n\<close> of marker \<open>n\<close>, stored as \<open>sv n\<close>.
\<close>

definition client_law :: "lib \<Rightarrow> load_client \<Rightarrow> (u64 \<Rightarrow> obj) \<Rightarrow> (u64 \<Rightarrow> bytes) \<Rightarrow> bool" where
  "client_law lb cl ob_of sv \<longleftrightarrow>
     (\<forall>n. length (cl_body cl n) \<le> maxObjectBytes \<and> lb_json lb (cl_body cl n) = Inr (MMap (ob_of n)) \<and>
       stored_law lb (Some (AList.delete (lit ''id'') (ob_of n))) (sv n)) \<and>
     (\<forall>ns. length ns \<le> cl_batch cl \<longrightarrow> length (cl_items cl ns) \<le> maxBulkBytes \<and>
       lb_json_items lb (cl_items cl ns) = Inr (map (cl_body cl) ns))"

text \<open>
  The command that a request under way leads to. The server unescapes the class that is a segment of the
  url.
\<close>

abbreviation url_class :: "load_client \<Rightarrow> bytes" where
  "url_class cl \<equiv> pathUnescape (cl_class cl)"


fun worker_cmd :: "load_client \<Rightarrow> (u64 \<Rightarrow> bytes) \<Rightarrow> worker \<Rightarrow> cmd option" where
  "worker_cmd cl sv (Sent n) = Some (Cmd_Create [] (url_class cl) (sv n))"
| "worker_cmd cl sv (BulkSent ns) = Some (Cmd_Bulk [] (url_class cl) (map sv ns))"
| "worker_cmd cl sv _ = None"

text \<open>
  A session: workers take their steps, the server handles a request and its reply arrives or is lost,
  a request fails, the server checkpoints, or it is killed, at any step of the command it is carrying
  out or between commands, and opened again.
\<close>

inductive session ::
  "env \<Rightarrow> lib \<Rightarrow> (bytes \<Rightarrow> bytes res) \<Rightarrow> load_client \<Rightarrow> (u64 \<Rightarrow> bytes) \<Rightarrow> engine \<Rightarrow> load \<Rightarrow> engine \<Rightarrow> load \<Rightarrow> bool"
  for ev lb name_of cl sv en0 ld0 where
  begin_session: "session ev lb name_of cl sv en0 ld0 en0 ld0"
| worker_moves: "session ev lb name_of cl sv en0 ld0 en ld \<Longrightarrow> w < length (ld_workers ld) \<Longrightarrow>
    session ev lb name_of cl sv en0 ld0 en (worker_step cl cancelled w (ld_workers ld ! w) ld)"
| answered: "session ev lb name_of cl sv en0 ld0 en ld \<Longrightarrow> w < length (ld_workers ld) \<Longrightarrow>
    worker_request cl (ld_workers ld ! w) = Some r \<Longrightarrow> worker_cmd cl sv (ld_workers ld ! w) = Some cmd \<Longrightarrow>
    has_room ev en cmd \<Longrightarrow> serve name_of ev lb r en = (en', resp) \<Longrightarrow>
    session ev lb name_of cl sv en0 ld0 en' (set_worker w (worker_got (ld_workers ld ! w) resp) ld)"
| unanswered: "session ev lb name_of cl sv en0 ld0 en ld \<Longrightarrow> w < length (ld_workers ld) \<Longrightarrow>
    worker_request cl (ld_workers ld ! w) = Some r \<Longrightarrow> worker_cmd cl sv (ld_workers ld ! w) = Some cmd \<Longrightarrow>
    has_room ev en cmd \<Longrightarrow> serve name_of ev lb r en = (en', resp) \<Longrightarrow>
    session ev lb name_of cl sv en0 ld0 en' (set_worker w Stopped ld)"
| failed: "session ev lb name_of cl sv en0 ld0 en ld \<Longrightarrow> w < length (ld_workers ld) \<Longrightarrow>
    worker_request cl (ld_workers ld ! w) = Some r \<Longrightarrow>
    session ev lb name_of cl sv en0 ld0 en (set_worker w Stopped ld)"
| checkpointed: "session ev lb name_of cl sv en0 ld0 en ld \<Longrightarrow> has_room ev en Cmd_Checkpoint \<Longrightarrow>
    exec ev Cmd_Checkpoint en = (en', x) \<Longrightarrow> session ev lb name_of cl sv en0 ld0 en' ld"
| killed_in_request: "session ev lb name_of cl sv en0 ld0 en ld \<Longrightarrow> w < length (ld_workers ld) \<Longrightarrow>
    worker_cmd cl sv (ld_workers ld ! w) = Some cmd \<Longrightarrow> has_room ev en cmd \<Longrightarrow>
    crashed (exec_steps ev cmd en) (en_dir en) fs \<Longrightarrow> en_Open ev fs = (steps, Inr en') \<Longrightarrow>
    session ev lb name_of cl sv en0 ld0 en' (set_worker w Stopped ld)"
| killed_in_checkpoint: "session ev lb name_of cl sv en0 ld0 en ld \<Longrightarrow> has_room ev en Cmd_Checkpoint \<Longrightarrow>
    crashed (exec_steps ev Cmd_Checkpoint en) (en_dir en) fs \<Longrightarrow> en_Open ev fs = (steps, Inr en') \<Longrightarrow>
    session ev lb name_of cl sv en0 ld0 en' ld"
| killed: "session ev lb name_of cl sv en0 ld0 en ld \<Longrightarrow> reboots ev en en' \<Longrightarrow>
    session ev lb name_of cl sv en0 ld0 en' ld"

section \<open>What a command keeps\<close>

text \<open>\<open>grows c d d'\<close>: the class and every object of it are still there unchanged.\<close>

definition grows :: "bytes \<Rightarrow> db \<Rightarrow> db \<Rightarrow> bool" where
  "grows c d d' \<longleftrightarrow> (has_class [] c d \<longrightarrow> has_class [] c d') \<and> objects [] c d \<subseteq>\<^sub>m objects [] c d'"

lemma grows_refl [simp]: "grows c d d"
  by (simp add: grows_def)

lemma objects_put_objects:
  assumes "no_sep p" "no_sep c"
  shows "objects p c (put_objects p c xs d) = fold (\<lambda>(i, v) m. m(i \<mapsto> v)) xs (objects p c d)"
proof (induction xs arbitrary: d)
  case Nil
  then show ?case by (simp add: put_objects_def)
next
  case (Cons x xs)
  obtain i v where x: "x = (i, v)" by (cases x)
  have "put_objects p c (x # xs) d = put_objects p c xs (d(ObjectKey p c i \<mapsto> v))"
    by (simp add: put_objects_def x)
  then show ?case using Cons.IH assms x by (simp add: objects_put del: fun_upd_apply)
qed

lemma fold_upd_other: "i \<notin> fst ` set xs \<Longrightarrow> fold (\<lambda>(i, v) m. m(i \<mapsto> v)) xs m i = m i"
  by (induction xs arbitrary: m) auto

lemma fold_upd_at:
  "distinct (map fst xs) \<Longrightarrow> (i, v) \<in> set xs \<Longrightarrow> fold (\<lambda>(i, v) m. m(i \<mapsto> v)) xs m i = Some v"
  by (induction xs arbitrary: m) (auto simp: fold_upd_other)

lemma id_sorted_distinct: "id_sorted ids \<Longrightarrow> distinct ids"
  unfolding id_sorted_def by (induction ids) auto

lemma fresh_id_new: "fresh_id p c d i \<Longrightarrow> objects p c d i = None"
  by (auto simp: fresh_id_def)

lemma worker_cmd_grows:
  assumes "worker_cmd cl sv x = Some cmd" "spec cmd d r d'"
  shows "grows (url_class cl) d d'"
proof (cases x)
  case (Sent n)
  with assms show ?thesis
    by (auto simp: grows_def map_le_def objects_put has_class_def fresh_id_new ClassKey_neq_ObjectKey
        split: if_splits)
next
  case (BulkSent ns)
  show ?thesis
  proof (cases "has_class [] (url_class cl) d")
    case True
    then have c: "no_sep []" "no_sep (url_class cl)" by (simp_all add: has_class_def)
    from assms BulkSent True obtain ids where
      ids: "\<forall>i\<in>set ids. fresh_id [] (url_class cl) d i"
        "d' = put_objects [] (url_class cl) (zip ids (map sv ns)) d" by auto
    have "i \<notin> set ids" if "objects [] (url_class cl) d i \<noteq> None" for i
      using ids(1) that by (metis fresh_id_new)
    then show ?thesis
      by (auto simp: grows_def map_le_def ids(2) objects_put_objects [OF c] has_class_def put_objects_class
          dest!: set_zip_leftD intro!: fold_upd_other [symmetric])
  next
    case False
    with assms BulkSent show ?thesis by auto
  qed
qed (use assms in auto)

section \<open>What the server answers the workers\<close>

text \<open>
  A class that no route takes for a segment (it is empty, a dot or two, or a slash once unescaped) is
  answered by the multiplexer.
\<close>

lemma not_wild_misrouted:
  assumes "\<not> wild_ok (cl_class cl)" "r = single_request cl n \<or> r = bulk_request cl ns"
    "serve name_of ev lb r en = (en', resp)"
  shows "en' = en \<and> rs_status resp \<noteq> 201"
proof -
  have p: "rq_path r = [str ''v1'', str ''classes'', cl_class cl, str ''objects''] \<or>
      rq_path r = [str ''v1'', str ''classes'', cl_class cl, str ''objects'', str ''bulk'']" "rq_method r = ''POST''"
    using assms(2) by (auto simp: single_request_def bulk_request_def)
  have "redirected r \<or> (\<forall>mp h. (mp, h) \<in> set (routes name_of) \<longrightarrow> \<not> route_matches r mp)"
  proof (cases "pathUnescape (cl_class cl) = [47]")
    case True
    then have "cl_class cl \<noteq> []" by (auto simp: pathUnescape_def)
    with True p show ?thesis
      by (auto simp: routes_def Let_def route_matches_def firstSegment_def str_def)
  next
    case False
    with assms(1) p show ?thesis
      by (auto simp: wild_ok_def redirected_def cleanPath_def str_def)
  qed
  then show ?thesis
  proof
    assume none: "\<forall>mp h. (mp, h) \<in> set (routes name_of) \<longrightarrow> \<not> route_matches r mp"
    then have "List.find (\<lambda>(mp, h). route_matches r mp) (routes name_of) = None"
      by (auto simp: find_None_iff)
    with assms(3) show ?thesis
      by (auto simp: serve_def sendResponse_def muxError_def muxRedirect_def split: if_splits)
  qed (use assms(3) in \<open>auto simp: serve_def sendResponse_def muxRedirect_def split: if_splits\<close>)
qed

lemma single_served:
  assumes "client_law lb cl ob_of sv" "serve name_of ev lb (single_request cl n) en = (en', resp)" "wild_ok (cl_class cl)"
  shows "\<exists>x. exec ev (Cmd_Create [] (url_class cl) (sv n)) en = (en', x) \<and>
    (rs_status resp = 201 \<longrightarrow> x = Inr (RId (decode_id (rs_body resp)))) \<and>
    (\<forall>i. x = Inr (RId i) \<longrightarrow> rs_status resp = 201)"
proof -
  let ?r = "single_request cl n"
  have r: "at_objects ''POST'' (url_class cl) ?r" "rq_body ?r = Inr (cl_body cl n)" "projectOf ?r = []"
    using assms(3)
    by (simp_all add: single_request_def at_objects_def projectOf_def TrimSpaceUTF8_def TrimLeft.simps)
  have law: "stored_law lb (Some (AList.delete (lit ''id'') (ob_of n))) (sv n)"
    "lb_json lb (cl_body cl n) = Inr (MMap (ob_of n))" "take maxObjectBytes (cl_body cl n) = cl_body cl n"
    using assms(1) by (simp_all add: client_law_def)
  then have js: "jsonToStored lb (take maxObjectBytes (cl_body cl n)) = Inr (sv n)"
    by (simp add: jsonToStored_def stored_law_def)
  obtain en2 y where c: "CreateObject ev [] (url_class cl) (sv n) en = (en2, y)"
    by (cases "CreateObject ev [] (url_class cl) (sv n) en")
  show ?thesis
    using assms(2) create_object [OF r(1,2) js, of name_of ev en] c r(3) storedToObject_law [OF law(1)]
    by (auto simp: withMiddleware_def writeObject_def errorStatus_def decode_id_def update_conv'
        split: sum.splits if_splits)
qed

lemma items_to_stored_law:
  "client_law lb cl ob_of sv \<Longrightarrow> items_to_stored lb (map (cl_body cl) ns) = Inr (map sv ns)"
  by (induction ns) (simp_all add: client_law_def jsonToStored_def stored_law_def)

lemma bulk_served:
  assumes "client_law lb cl ob_of sv" "length ns \<le> cl_batch cl"
    "serve name_of ev lb (bulk_request cl ns) en = (en', resp)" "wild_ok (cl_class cl)"
  shows "en' = en \<and> (rs_status resp = 201 \<longrightarrow> ns = [] \<and> decode_ids (rs_body resp) = []) \<or>
    (\<exists>x. exec ev (Cmd_Bulk [] (url_class cl) (map sv ns)) en = (en', x) \<and>
      (rs_status resp = 201 \<longrightarrow> x = Inr (RIds (decode_ids (rs_body resp)))))"
proof -
  let ?r = "bulk_request cl ns"
  have r: "rq_body ?r = Inr (cl_items cl ns)" "projectOf ?r = []" "PathClass ?r = url_class cl"
    by (simp_all add: bulk_request_def projectOf_def TrimSpaceUTF8_def TrimLeft.simps PathClass_def)
  have law: "take maxBulkBytes (cl_items cl ns) = cl_items cl ns"
    "lb_json_items lb (cl_items cl ns) = Inr (map (cl_body cl) ns)"
    using assms(1,2) by (simp_all add: client_law_def)
  let ?bulk = "[SLit (str ''v1''), SLit (str ''classes''), SVar, SLit (str ''objects''), SLit (str ''bulk'')]"
  have "serve name_of ev lb ?r en = withMiddleware (handleCreateObjectsBulk ev lb ?r en)"
    by (rule serve_route [where mp = "(''POST'', ?bulk)"])
      (use assms(4) in \<open>simp_all add: routes_def Let_def route_matches_def bulk_request_def not_redirected [OF refl]\<close>)
  moreover obtain en2 y where c: "CreateObjectsBulk ev [] (url_class cl) (map sv ns) en = (en2, y)"
    by (cases "CreateObjectsBulk ev [] (url_class cl) (map sv ns) en")
  ultimately show ?thesis
    using assms(3) r law items_to_stored_law [OF assms(1)]
    by (auto simp: handleCreateObjectsBulk_def ReadAll_def withMiddleware_def writeEngineError_def
        writeErrorOf_def writeError_def errorStatus_def decode_ids_def split: sum.splits if_splits)
qed

section \<open>The invariant of a session\<close>

definition kept :: "bytes \<Rightarrow> (u64 \<Rightarrow> bytes) \<Rightarrow> db \<Rightarrow> u64 \<Rightarrow> u64 \<Rightarrow> bool" where
  "kept c sv d i n \<longleftrightarrow> has_class [] c d \<and> objects [] c d i = Some (sv n)"

lemma kept_grows: "kept c sv d i n \<Longrightarrow> grows c d d' \<Longrightarrow> kept c sv d' i n"
  by (auto simp: kept_def grows_def map_le_def dom_def)

fun confirmed :: "load_client \<Rightarrow> (u64 \<Rightarrow> bytes) \<Rightarrow> db \<Rightarrow> worker \<Rightarrow> bool" where
  "confirmed cl sv d (Replied n resp) \<longleftrightarrow>
     (rs_status resp = 201 \<longrightarrow> kept (url_class cl) sv d (decode_id (rs_body resp)) n)"
| "confirmed cl sv d (BulkReplied ns resp) \<longleftrightarrow>
     (rs_status resp = 201 \<longrightarrow> list_all2 (kept (url_class cl) sv d) (decode_ids (rs_body resp)) ns)"
| "confirmed cl sv d (Filling ns) \<longleftrightarrow> length ns \<le> cl_batch cl"
| "confirmed cl sv d (BulkSent ns) \<longleftrightarrow> length ns \<le> cl_batch cl"
| "confirmed cl sv d _ \<longleftrightarrow> True"

lemma confirmed_grows: "confirmed cl sv d x \<Longrightarrow> grows (url_class cl) d d' \<Longrightarrow> confirmed cl sv d' x"
  by (cases x) (auto intro: kept_grows elim!: list_all2_mono)

definition acks_kept :: "load_client \<Rightarrow> (u64 \<Rightarrow> bytes) \<Rightarrow> db \<Rightarrow> load \<Rightarrow> bool" where
  "acks_kept cl sv d ld \<longleftrightarrow>
     (\<forall>a\<in>set (ld_acks ld). kept (url_class cl) sv d (ack_ID a) (ack_N a)) \<and>
     (\<forall>b\<in>set (ld_bulks ld). list_all2 (kept (url_class cl) sv d) (bulk_IDs b) (bulk_Ns b)) \<and>
     (\<forall>x\<in>set (ld_workers ld). confirmed cl sv d x)"

lemma acks_kept_grows: "acks_kept cl sv d ld \<Longrightarrow> grows (url_class cl) d d' \<Longrightarrow> acks_kept cl sv d' ld"
  unfolding acks_kept_def by (blast intro: kept_grows confirmed_grows list_all2_mono)

lemma acks_kept_set:
  "acks_kept cl sv d ld \<Longrightarrow> confirmed cl sv d x \<Longrightarrow> acks_kept cl sv d (set_worker w x ld)"
  by (auto simp: acks_kept_def dest!: set_update_subset_insert [THEN subsetD])

lemma acks_kept_start: "acks_kept cl sv d (Run k)" "acks_kept cl sv d (RunBulk k)"
  by (simp_all add: acks_kept_def Run_def RunBulk_def)

lemma worker_step_kept:
  assumes "acks_kept cl sv d ld" "w < length (ld_workers ld)"
  shows "acks_kept cl sv d (worker_step cl cancelled w (ld_workers ld ! w) ld)"
proof -
  let ?x = "ld_workers ld ! w"
  have x: "confirmed cl sv d ?x" using assms by (simp add: acks_kept_def)
  note upd = set_update_subset_insert [THEN subsetD]
  show ?thesis
  proof (cases ?x)
    case Idle
    with assms(1) show ?thesis by (auto simp: acks_kept_def Run_begin_def Let_def dest!: upd)
  next
    case (Replied n resp)
    with x assms(1) show ?thesis
      by (auto simp: acks_kept_def load_record_def Run_reply_def dest!: upd)
  next
    case (Filling ns)
    with x assms(1) show ?thesis by (auto simp: acks_kept_def RunBulk_fill_def Let_def dest!: upd)
  next
    case (BulkReplied ns resp)
    with x assms(1) show ?thesis
      by (auto simp: acks_kept_def RunBulk_reply_def Let_def dest!: upd)
  qed (use assms in simp_all)
qed

text \<open>One request: the database grows, and a success is confirmed by it.\<close>

lemma request_served:
  assumes "client_law lb cl ob_of sv" "represents ev en d" "ev_ok ev"
    "worker_request cl x = Some r" "worker_cmd cl sv x = Some cmd" "has_room ev en cmd"
    "serve name_of ev lb r en = (en', resp)" "confirmed cl sv d x"
  shows "\<exists>d'. represents ev en' d' \<and> grows (url_class cl) d d' \<and>
    confirmed cl sv d' (worker_got x resp)"
proof -
  have rep: "represents ev en d \<and> ev_ok ev" using assms(2,3) by simp
  have done_cmd: "represents ev en1 (effect cmd y d) \<and> grows (url_class cl) d (effect cmd y d) \<and>
      (\<forall>v. y = Inr v \<longrightarrow> spec cmd d y (effect cmd y d))" if "exec ev cmd en = (en1, y)" for en1 y
  proof (cases y)
    case (Inl e)
    with zdb.run_law [OF rep assms(6) that] show ?thesis by simp
  next
    case (Inr v)
    with zdb.run_law [OF rep assms(6) that] zdb.answer_law [OF rep assms(6)] that
      worker_cmd_grows [OF assms(5)] show ?thesis by auto
  qed
  have misrouted: ?thesis if "\<not> wild_ok (cl_class cl)"
  proof (intro exI [of _ d] conjI)
    have r: "r = single_request cl (case x of Sent n \<Rightarrow> n) \<or> r = bulk_request cl (case x of BulkSent ns \<Rightarrow> ns)"
      using assms(4) by (cases x) auto
    from not_wild_misrouted [OF that r assms(7)] assms(2,5,8)
    show "represents ev en' d" "confirmed cl sv d (worker_got x resp)" by (cases x; simp)+
  qed simp
  show ?thesis
  proof (cases x)
    case (Sent n)
    have ?thesis if wild: "wild_ok (cl_class cl)"
    proof -
      from Sent assms(4,5,7) single_served [OF assms(1) _ wild, of name_of ev n en en' resp] obtain y where
        y: "exec ev cmd en = (en', y)" "rs_status resp = 201 \<longrightarrow> y = Inr (RId (decode_id (rs_body resp)))"
        by auto
      have "kept (url_class cl) sv (effect cmd y d) (decode_id (rs_body resp)) n" if "rs_status resp = 201"
        using done_cmd [OF y(1)] y(2) that Sent assms(5)
        by (auto simp: kept_def has_class_def objects_put ClassKey_neq_ObjectKey split: if_splits)
      with done_cmd [OF y(1)] Sent show ?thesis by (intro exI [of _ "effect cmd y d"]) simp
    qed
    with misrouted show ?thesis by blast
  next
    case (BulkSent ns)
    with assms(8) have len: "length ns \<le> cl_batch cl" by simp
    from BulkSent assms(4,5) have r: "r = bulk_request cl ns" "cmd = Cmd_Bulk [] (url_class cl) (map sv ns)" by simp_all
    have ?thesis if wild: "wild_ok (cl_class cl)"
    proof -
      from bulk_served [OF assms(1) len assms(7) [unfolded r(1)] wild] r(2) consider
        (none) "en' = en" "rs_status resp = 201 \<longrightarrow> ns = [] \<and> decode_ids (rs_body resp) = []"
        | (some) y where "exec ev cmd en = (en', y)"
          "rs_status resp = 201 \<longrightarrow> y = Inr (RIds (decode_ids (rs_body resp)))" by blast
      then show ?thesis
      proof cases
        case none
        with assms(2) BulkSent show ?thesis by (intro exI [of _ d]) auto
      next
        case some
        let ?ids = "decode_ids (rs_body resp)"
        have "list_all2 (kept (url_class cl) sv (effect cmd y d)) ?ids ns" if "rs_status resp = 201"
        proof -
          have "spec cmd d y (effect cmd y d)" using done_cmd [OF some(1)] some(2) that by blast
          then have ids: "length ?ids = length ns" "distinct ?ids" "has_class [] (url_class cl) d"
            "no_sep []" "no_sep (url_class cl)"
            "effect cmd y d = put_objects [] (url_class cl) (zip ?ids (map sv ns)) d"
            using some(2) that r(2)
            by (auto simp: has_class_def id_sorted_distinct split: if_splits)
          then have "\<forall>k<length ns. (?ids ! k, sv (ns ! k)) \<in> set (zip ?ids (map sv ns))"
            by (auto simp: set_zip)
          with ids show ?thesis
            by (auto simp: list_all2_conv_all_nth kept_def objects_put_objects has_class_def
                put_objects_class intro!: fold_upd_at)
        qed
        with done_cmd [OF some(1)] BulkSent show ?thesis by (intro exI [of _ "effect cmd y d"]) simp
      qed
    qed
    with misrouted show ?thesis by blast
  qed (use assms in simp_all)
qed

lemma request_killed:
  assumes "represents ev en d" "ev_ok ev" "has_room ev en cmd"
    "crashed (exec_steps ev cmd en) (en_dir en) fs" "en_Open ev fs = (steps, Inr en')"
    "\<And>r d'. spec cmd d r d' \<Longrightarrow> grows c d d'"
  shows "\<exists>d'. represents ev en' d' \<and> grows c d d'"
proof -
  have "db_ok (ev_fuel ev) d'" if "spec cmd d (snd (exec ev cmd en)) d'" for d'
    using assms(1,3) that by (simp add: has_room_def)
  from exec_crashed [OF assms(1,2) _ this assms(4)] assms(3) obtain d' where
    d': "d' = d \<or> spec cmd d (snd (exec ev cmd en)) d'" "dir_represents ev fs d'" by (auto simp: has_room_def)
  have "represents ev en' d'" using d'(2) assms(5) by (rule Open_represents_unique)
  with d'(1) assms(6) show ?thesis by auto
qed

lemma checkpoint_grows: "spec Cmd_Checkpoint d r d' \<Longrightarrow> grows c d d'"
  by simp

lemma session_kept:
  assumes "session ev lb name_of cl sv en0 ld0 en ld" "client_law lb cl ob_of sv" "ev_ok ev"
    "represents ev en0 d0" "acks_kept cl sv d0 ld0"
  shows "\<exists>d. represents ev en d \<and> acks_kept cl sv d ld"
  using assms(1)
proof induction
  case begin_session
  with assms(4,5) show ?case by blast
next
  case (worker_moves en ld w cancelled)
  then show ?case by (blast intro: worker_step_kept)
next
  case (answered en ld w r cmd en' resp)
  then obtain d where d: "represents ev en d" "acks_kept cl sv d ld" by blast
  then have x: "confirmed cl sv d (ld_workers ld ! w)" using answered.hyps(2) by (simp add: acks_kept_def)
  from request_served [OF assms(2) d(1) assms(3) answered.hyps(3-6) x] d(2) show ?case
    by (blast intro: acks_kept_grows acks_kept_set)
next
  case (unanswered en ld w r cmd en' resp)
  then obtain d where d: "represents ev en d" "acks_kept cl sv d ld" by blast
  then have x: "confirmed cl sv d (ld_workers ld ! w)" using unanswered.hyps(2) by (simp add: acks_kept_def)
  from request_served [OF assms(2) d(1) assms(3) unanswered.hyps(3-6) x] obtain d' where
    "represents ev en' d'" "grows (url_class cl) d d'" by blast
  with acks_kept_set [OF acks_kept_grows [OF d(2)], of d' Stopped w] show ?case by auto
next
  case (failed en ld w r)
  then obtain d where "represents ev en d" "acks_kept cl sv d ld" by blast
  with acks_kept_set [of _ _ d ld Stopped w] show ?case by auto
next
  case (checkpointed en ld en' x)
  then obtain d where d: "represents ev en d \<and> ev_ok ev" "acks_kept cl sv d ld"
    using assms(3) by blast
  from zdb.run_law [OF d(1) checkpointed.hyps(2,3)] d(2) show ?case by auto
next
  case (killed_in_request en ld w cmd fs steps en')
  then obtain d where d: "represents ev en d" "acks_kept cl sv d ld" by blast
  from request_killed [OF d(1) assms(3) killed_in_request.hyps(4-6), of "url_class cl"]
    worker_cmd_grows [OF killed_in_request.hyps(3)] obtain d' where
    "represents ev en' d'" "grows (url_class cl) d d'" by blast
  with acks_kept_set [OF acks_kept_grows [OF d(2)], of d' Stopped w] show ?case by auto
next
  case (killed_in_checkpoint en ld fs steps en')
  then obtain d where d: "represents ev en d" "acks_kept cl sv d ld" by blast
  from request_killed [OF d(1) assms(3) killed_in_checkpoint.hyps(2-4), of "url_class cl"]
    checkpoint_grows d(2) show ?case by (blast intro: acks_kept_grows)
next
  case (killed en ld en')
  then obtain d where d: "represents ev en d \<and> ev_ok ev" "acks_kept cl sv d ld"
    using assms(3) by blast
  from zdb.reopen_law [OF d(1) killed.hyps(2)] d(2) show ?case by auto
qed

section \<open>Properties\<close>

text \<open>
  C1: the contract the resilience tests check. Whatever workers posted, in any interleaving, with
  checkpoints, lost replies, failed requests and kills of the server at any step: after the last
  restart every acknowledged object is answered with its marker, under the id of its acknowledgement,
  and every acknowledged bulk is there with all of its objects.
\<close>

theorem acknowledged_survive:
  assumes "session ev lb name_of cl sv en0 (Run workers) en ld \<or>
      session ev lb name_of cl sv en0 (RunBulk workers) en ld"
    "client_law lb cl ob_of sv" "ev_ok ev" "represents ev en0 d0" "(reboots ev)\<^sup>*\<^sup>* en en2"
  shows "(\<forall>a\<in>set (Acks ld). \<forall>g. at_object ''GET'' (url_class cl) g \<and> projectOf g = [] \<and> parseID g = Some (ack_ID a) \<longrightarrow>
      serve name_of ev lb g en2 = (en2, \<lparr>rs_status = 200, rs_body =
        BObject (AList.update (lit ''id'') (MInt64 (ack_ID a)) (AList.delete (lit ''id'') (ob_of (ack_N a))))\<rparr>)) \<and>
    (\<forall>b\<in>set (Bulks ld). length (bulk_IDs b) = length (bulk_Ns b) \<and>
      (\<forall>k<length (bulk_Ns b). GetObject ev en2 [] (url_class cl) (bulk_IDs b ! k) = Inr (Some (sv (bulk_Ns b ! k)))))"
proof -
  let ?c = "url_class cl"
  from assms(1) session_kept [OF _ assms(2-4) acks_kept_start(1)] session_kept [OF _ assms(2-4) acks_kept_start(2)]
  obtain d where d: "represents ev en d" "acks_kept cl sv d ld" by blast
  from zdb.reopening.steps_law [OF assms(5)] d(1) assms(3) have rep: "represents ev en2 d" by blast
  have get: "GetObject ev en2 [] ?c i = Inr (Some (sv n))" if "kept ?c sv d i n" for i n
    using that ClassExists_iff [OF rep, of "[]" ?c] lookup_object [OF rep, of "[]" ?c i]
    by (simp add: GetObject_def kept_def)
  have obj: "storedToObject lb (sv n) i =
      Inr (AList.update (lit ''id'') (MInt64 i) (AList.delete (lit ''id'') (ob_of n)))" for i n
    using assms(2) by (intro storedToObject_law) (simp add: client_law_def)
  show ?thesis
  proof (intro conjI ballI allI impI, goal_cases)
    case (1 a g)
    then have "kept ?c sv d (ack_ID a) (ack_N a)" using d(2) by (simp add: acks_kept_def Acks_def)
    then have got: "GetObject ev en2 (projectOf g) ?c (ack_ID a) = Inr (Some (sv (ack_N a)))"
      using get 1(2) by simp
    from 1(2) show ?case by (intro get_object [OF _ _ got obj]) simp_all
  next
    case (2 b)
    then show ?case using d(2) by (auto simp: acks_kept_def Bulks_def dest: list_all2_lengthD)
  next
    case (3 b k)
    then have "list_all2 (kept ?c sv d) (bulk_IDs b) (bulk_Ns b)" using d(2) by (simp add: acks_kept_def Bulks_def)
    with 3(2) have "kept ?c sv d (bulk_IDs b ! k) (bulk_Ns b ! k)" by (simp add: list_all2_conv_all_nth)
    then show ?case by (rule get)
  qed
qed

text \<open>One worker, one object.\<close>

definition sample_client :: load_client where
  "sample_client = \<lparr>cl_class = sample_class, cl_batch = 0, cl_body = (\<lambda>n. [0x7B]), cl_items = (\<lambda>ns. [])\<rparr>"

definition sample_lib3 :: lib where
  "sample_lib3 = sample_lib2\<lparr>lb_json_items := (\<lambda>b. Inr [])\<rparr>"

definition sample_obj :: obj where
  "sample_obj = [(lit ''a'', MStr (lit ''x'')), (lit ''id'', MBool True)]"

definition sample_get :: request where
  "sample_get = \<lparr>rq_method = ''GET'',
     rq_path = [str ''v1'', str ''classes'', sample_class, str ''objects'', [49]],
     rq_query = [], rq_project = [], rq_body = Inr []\<rparr>"

lemma sample_get_simps:
  "at_object ''GET'' sample_class sample_get" "projectOf sample_get = []" "parseID sample_get = Some 1"
  by (simp_all add: sample_get_def at_object_def projectOf_def TrimSpaceUTF8_def TrimLeft.simps
      parseID_def PathId_def ParseInt_def ParseUint_def)

lemma sample_client_law: "client_law sample_lib3 sample_client (\<lambda>n. sample_obj) (\<lambda>n. [3])"
  using sample_lib2_simps(1,3)
  by (simp add: client_law_def sample_client_def sample_lib3_def stored_law_def maxObjectBytes_def
      push_bit_eq_mult sample_obj_def del: delete_simps)

theorem acknowledged_survive_witness:
  "\<exists>en0 en ld. session sample_env sample_lib3 Inr sample_client (\<lambda>n. [3]) en0 (Run 1) en ld \<and>
     Acks ld = [\<lparr>ack_ID = 1, ack_N = 1\<rparr>] \<and>
     serve Inr sample_env sample_lib3 sample_get en = (en, \<lparr>rs_status = 200, rs_body =
       BObject (AList.update (lit ''id'') (MInt64 1) (AList.delete (lit ''id'') sample_obj))\<rparr>)"
proof -
  let ?sess = "session sample_env sample_lib3 Inr sample_client (\<lambda>n. [3])"
  from sample_boot sample_create_class obtain en0 where en0: "at en0 class_db 1 gen_New" by blast
  then have rep: "represents sample_env en0 class_db" by (simp add: at_def)
  define ld1 where "ld1 = worker_step sample_client False 0 (ld_workers (Run 1) ! 0) (Run 1)"
  have ld1: "ld_workers ld1 = [Sent 1]" "ld_acks ld1 = []"
    by (simp_all add: ld1_def Run_def Run_begin_def)
  have s1: "?sess en0 (Run 1) en0 ld1"
    unfolding ld1_def by (rule worker_moves [OF begin_session]) (simp add: Run_def)
  obtain en resp where srv: "serve Inr sample_env sample_lib3 (single_request sample_client 1) en0 = (en, resp)"
    by (cases "serve Inr sample_env sample_lib3 (single_request sample_client 1) en0")
  have room: "has_room sample_env en0 (Cmd_Create [] (url_class sample_client) [3])"
    using sample_create_room [OF en0] by (simp add: sample_client_def)
  from sample_create [OF en0, of "[3]"]
  have "snd (exec sample_env (Cmd_Create [] (url_class sample_client) [3]) en0) = Inr (RId 1)"
    by (auto simp: sample_client_def)
  moreover have "wild_ok (cl_class sample_client)" by (simp add: sample_client_def)
  ultimately
  have rid: "rs_status resp = 201" "decode_id (rs_body resp) = 1"
    using single_served [OF sample_client_law srv] by auto
  define ld2 where "ld2 = set_worker 0 (Replied 1 resp) ld1"
  have s2: "?sess en0 (Run 1) en ld2"
    using answered [OF s1 _ _ _ room srv, of 0] by (simp add: ld1 ld2_def)
  have s3: "?sess en0 (Run 1) en (Run_reply 0 1 resp ld2)"
    using worker_moves [OF s2, of 0 False] by (simp add: ld1 ld2_def)
  have acks: "Acks (Run_reply 0 1 resp ld2) = [\<lparr>ack_ID = 1, ack_N = 1\<rparr>]"
    by (simp add: Run_reply_def rid Acks_def load_record_def ld2_def ld1)
  from acknowledged_survive [OF disjI1 [OF s3] sample_client_law sample_env_ok rep rtranclp.rtrancl_refl]
  have "serve Inr sample_env sample_lib3 sample_get en = (en, \<lparr>rs_status = 200, rs_body =
      BObject (AList.update (lit ''id'') (MInt64 1) (AList.delete (lit ''id'') sample_obj))\<rparr>)"
    using sample_get_simps by (simp add: acks sample_client_def)
  with s3 acks show ?thesis by blast
qed

end
