(* ===== verification/Service.thy ===== *)
theory Service
  imports Config Loadgen
begin

text \<open>
  \<^verbatim>\<open>cmd/zadodb\<close> and \<^verbatim>\<open>internal/server/daemon\<close>: the command line, the settings a server runs with, what
  an installed service is started with, and the life of a server from opening the engine to closing
  it. Go's \<^verbatim>\<open>flag\<close> package is modelled for the string flags the program defines; the file system, the
  YAML decoder and the service managers are parameters or left out.
\<close>

section \<open>Flags\<close>

text \<open>\<^verbatim>\<open>FlagSet.parseOne\<close>: no more flags, a bad one, or one with its value and the arguments left.\<close>

datatype flag_step = FEnd | FBad | FSet string string "string list"

definition split_eq :: "string \<Rightarrow> string \<times> string option" where
  "split_eq name =
     (let nm = takeWhile (\<lambda>ch. ch \<noteq> CHR ''='') name in
      if length nm < length name then (nm, Some (drop (length nm + 1) name)) else (name, None))"

definition parseOne :: "string list \<Rightarrow> string list \<Rightarrow> flag_step" where
  "parseOne names args =
     (case args of
        [] \<Rightarrow> FEnd
      | s # rest \<Rightarrow>
          if length s < 2 \<or> hd s \<noteq> CHR ''-'' then FEnd
          else if s = ''--'' then FEnd
          else
            let name = drop (if s ! 1 = CHR ''-'' then 2 else 1) s in
            if name = [] \<or> hd name = CHR ''-'' \<or> hd name = CHR ''='' then FBad
            else
              case split_eq name of
                (nm, Some v) \<Rightarrow> if nm \<in> set names then FSet nm v rest else FBad
              | (nm, None) \<Rightarrow>
                  if nm \<notin> set names then FBad
                  else (case rest of [] \<Rightarrow> FBad | v # rest \<Rightarrow> FSet nm v rest))"

lemma parseOne_shortens: "parseOne names args = FSet nm v rest \<Longrightarrow> length rest < length args"
  by (auto simp: parseOne_def Let_def split: list.splits if_splits prod.splits option.splits)

text \<open>The values of the flags, empty where a flag is not given; later flags win.\<close>

type_synonym flags = "string \<Rightarrow> string"

function parse_flags :: "string list \<Rightarrow> string list \<Rightarrow> flags \<Rightarrow> flags res" where
  "parse_flags names args fl =
     (case parseOne names args of
        FEnd \<Rightarrow> Inr fl
      | FBad \<Rightarrow> Inl ErrBadFlag
      | FSet nm v rest \<Rightarrow> parse_flags names rest (fl(nm := v)))"
  by auto
termination
  by (relation "measure (\<lambda>(names, args, fl). length args)") (auto dest: parseOne_shortens)

declare parse_flags.simps [simp del]

section \<open>Commands\<close>

definition override :: "string \<Rightarrow> ((string \<Rightarrow> string) \<Rightarrow> server_config \<Rightarrow> server_config) \<Rightarrow> server_config \<Rightarrow> server_config" where
  "override v upd cfg = (if v \<noteq> '''' then upd (\<lambda>_. v) cfg else cfg)"

text \<open>The configuration that \<^verbatim>\<open>daemon.Serve\<close> is called with.\<close>

definition runServe ::
  "(bytes \<Rightarrow> server_config \<Rightarrow> server_config res) \<Rightarrow> (string \<Rightarrow> bytes res) \<Rightarrow> string list \<Rightarrow> server_config res" where
  "runServe yaml read_file args =
     bindE (parse_flags [''config'', ''data-dir'', ''http-addr'', ''fsync''] args (\<lambda>_. '''')) (\<lambda>fl.
     bindE (Load yaml read_file (fl ''config'')) (\<lambda>cfg.
       let cfg = override (fl ''data-dir'') sc_DataDir_update cfg;
           cfg = override (fl ''http-addr'') sc_HTTPAddr_update cfg;
           cfg = override (fl ''fsync'') sc_Fsync_update cfg
       in bindE (Validate cfg) (\<lambda>_. Inr cfg)))"

datatype service_call = SInstall server_config | SUninstall | SStart | SStop | SStatus

text \<open>\<^verbatim>\<open>filepath.Abs\<close> is a parameter: it asks for the working directory.\<close>

definition runService ::
  "(bytes \<Rightarrow> server_config \<Rightarrow> server_config res) \<Rightarrow> (string \<Rightarrow> bytes res) \<Rightarrow> (string \<Rightarrow> string res) \<Rightarrow>
   string list \<Rightarrow> service_call res" where
  "runService yaml read_file abs_path args =
     (case args of
        [] \<Rightarrow> Inl ErrBadFlag
      | action # args \<Rightarrow>
          bindE (parse_flags [''config'', ''data-dir'', ''http-addr''] args (\<lambda>_. '''')) (\<lambda>fl.
          bindE (Load yaml read_file (fl ''config'')) (\<lambda>cfg.
            let cfg = override (fl ''data-dir'') sc_DataDir_update cfg;
                cfg = override (fl ''http-addr'') sc_HTTPAddr_update cfg;
                cfg = (case abs_path (sc_DataDir cfg) of Inr p \<Rightarrow> cfg\<lparr>sc_DataDir := p\<rparr> | Inl _ \<Rightarrow> cfg)
            in if action = ''install'' then Inr (SInstall cfg)
               else if action = ''uninstall'' then Inr SUninstall
               else if action = ''start'' then Inr SStart
               else if action = ''stop'' then Inr SStop
               else if action = ''status'' then Inr SStatus
               else Inl ErrBadFlag)))"

text \<open>\<^verbatim>\<open>main\<close>: which command the arguments name, and the exit status for its error.\<close>

datatype command = CServe "string list" | CService "string list" | CVersion | CHelp | CUsage

definition main_command :: "string list \<Rightarrow> command" where
  "main_command args =
     (case args of
        _ # cmd # args \<Rightarrow>
          if cmd = ''serve'' then CServe args
          else if cmd = ''service'' then CService args
          else if cmd \<in> {''version'', ''-v'', ''--version''} then CVersion
          else if cmd \<in> {''help'', ''-h'', ''--help''} then CHelp
          else CUsage
      | _ \<Rightarrow> CUsage)"

definition main_exit :: "(string list \<Rightarrow> unit res) \<Rightarrow> (string list \<Rightarrow> unit res) \<Rightarrow> string list \<Rightarrow> nat" where
  "main_exit serve_cmd service_cmd args =
     (case main_command args of
        CUsage \<Rightarrow> 2
      | CVersion \<Rightarrow> 0
      | CHelp \<Rightarrow> 0
      | CServe rest \<Rightarrow> (case serve_cmd rest of Inl _ \<Rightarrow> 1 | Inr _ \<Rightarrow> 0)
      | CService rest \<Rightarrow> (case service_cmd rest of Inl _ \<Rightarrow> 1 | Inr _ \<Rightarrow> 0))"

section \<open>The installed service\<close>

text \<open>The arguments of the Windows service, and the systemd unit; \<open>quoted\<close> is the quoting of \<^verbatim>\<open>%q\<close>.\<close>

definition ServiceName :: string where
  "ServiceName = ''zadodb''"

definition ServiceDisplay :: string where
  "ServiceDisplay = ''ZadoDB Database Server''"

definition install_args :: "server_config \<Rightarrow> string list" where
  "install_args cfg = [''serve'', ''--data-dir'', sc_DataDir cfg, ''--http-addr'', sc_HTTPAddr cfg]"

definition unit_lines :: "(string \<Rightarrow> string) \<Rightarrow> string \<Rightarrow> server_config \<Rightarrow> string list" where
  "unit_lines quoted exe cfg =
     [''[Unit]'',
      ''Description='' @ ServiceDisplay,
      ''After=network.target'',
      '''',
      ''[Service]'',
      ''Type=simple'',
      ''ExecStart='' @ exe @ '' serve --data-dir '' @ quoted (sc_DataDir cfg) @ '' --http-addr '' @ quoted (sc_HTTPAddr cfg),
      ''Restart=on-failure'',
      ''RestartSec=2'',
      '''',
      ''[Install]'',
      ''WantedBy=multi-user.target'']"

subsection \<open>systemd\<close>

text \<open>
  The system that the service managers act on is a parameter: what it does for a call, and whether
  the call fails.
\<close>

datatype linux_call = WriteUnit "string list" | RemoveUnit | Systemctl "string list"

type_synonym ('s, 'c) sys = "'c \<Rightarrow> 's \<Rightarrow> 's \<times> unit res"

definition linux_Install ::
  "('s, linux_call) sys \<Rightarrow> (string \<Rightarrow> string) \<Rightarrow> string res \<Rightarrow> server_config \<Rightarrow> 's \<Rightarrow> 's \<times> unit res" where
  "linux_Install sys quoted exe cfg s =
     (case exe of
        Inl e \<Rightarrow> (s, Inl e)
      | Inr exe \<Rightarrow>
          case sys (WriteUnit (unit_lines quoted exe cfg)) s of
            (s, Inl e) \<Rightarrow> (s, Inl e)
          | (s, Inr _) \<Rightarrow> sys (Systemctl [''daemon-reload'']) s)"

definition linux_Uninstall :: "('s, linux_call) sys \<Rightarrow> 's \<Rightarrow> 's \<times> unit res" where
  "linux_Uninstall sys s =
     (let (s, _) = sys (Systemctl [''stop'', ServiceName]) s;
          (s, _) = sys (Systemctl [''disable'', ServiceName]) s
      in case sys RemoveUnit s of
           (s, Inl e) \<Rightarrow> if e \<noteq> ErrNotExist then (s, Inl e) else sys (Systemctl [''daemon-reload'']) s
         | (s, Inr _) \<Rightarrow> sys (Systemctl [''daemon-reload'']) s)"

definition linux_Start :: "('s, linux_call) sys \<Rightarrow> 's \<Rightarrow> 's \<times> unit res" where
  "linux_Start sys = sys (Systemctl [''start'', ServiceName])"

definition linux_Stop :: "('s, linux_call) sys \<Rightarrow> 's \<Rightarrow> 's \<times> unit res" where
  "linux_Stop sys = sys (Systemctl [''stop'', ServiceName])"

definition linux_Status :: "('s, linux_call) sys \<Rightarrow> 's \<Rightarrow> 's \<times> unit res" where
  "linux_Status sys = sys (Systemctl [''status'', ServiceName])"

subsection \<open>The Windows service manager\<close>

datatype scm_call =
    Connect | Disconnect | OpenService | CreateService string "string list" | CloseService
  | ControlStop | DeleteService | StartService | QueryService

text \<open>A call after which another is deferred.\<close>

definition deferring :: "('s, 'c) sys \<Rightarrow> 'c \<Rightarrow> ('s \<Rightarrow> 's \<times> unit res) \<Rightarrow> 's \<Rightarrow> 's \<times> unit res" where
  "deferring sys c f s = (let (s, r) = f s; (s, _) = sys c s in (s, r))"

definition windows_Install ::
  "('s, scm_call) sys \<Rightarrow> string res \<Rightarrow> server_config \<Rightarrow> 's \<Rightarrow> 's \<times> unit res" where
  "windows_Install sys exe cfg s =
     (case exe of
        Inl e \<Rightarrow> (s, Inl e)
      | Inr exe \<Rightarrow>
          case sys Connect s of
            (s, Inl e) \<Rightarrow> (s, Inl e)
          | (s, Inr _) \<Rightarrow>
              deferring sys Disconnect (\<lambda>s.
                case sys OpenService s of
                  (s, Inr _) \<Rightarrow> (let (s, _) = sys CloseService s in (s, Inl ErrService))
                | (s, Inl _) \<Rightarrow>
                    (case sys (CreateService exe (install_args cfg)) s of
                       (s, Inl e) \<Rightarrow> (s, Inl e)
                     | (s, Inr _) \<Rightarrow> deferring sys CloseService (\<lambda>s. (s, Inr ())) s)) s)"

definition withService :: "('s, scm_call) sys \<Rightarrow> ('s \<Rightarrow> 's \<times> unit res) \<Rightarrow> 's \<Rightarrow> 's \<times> unit res" where
  "withService sys f s =
     (case sys Connect s of
        (s, Inl e) \<Rightarrow> (s, Inl e)
      | (s, Inr _) \<Rightarrow>
          deferring sys Disconnect (\<lambda>s.
            case sys OpenService s of
              (s, Inl _) \<Rightarrow> (s, Inl ErrService)
            | (s, Inr _) \<Rightarrow> deferring sys CloseService f s) s)"

definition windows_Uninstall :: "('s, scm_call) sys \<Rightarrow> 's \<Rightarrow> 's \<times> unit res" where
  "windows_Uninstall sys s =
     (case sys Connect s of
        (s, Inl e) \<Rightarrow> (s, Inl e)
      | (s, Inr _) \<Rightarrow>
          deferring sys Disconnect (\<lambda>s.
            case sys OpenService s of
              (s, Inl _) \<Rightarrow> (s, Inl ErrService)
            | (s, Inr _) \<Rightarrow>
                deferring sys CloseService (\<lambda>s.
                  let (s, _) = sys ControlStop s
                  in case sys DeleteService s of (s, Inl e) \<Rightarrow> (s, Inl e) | (s, Inr _) \<Rightarrow> (s, Inr ())) s) s)"

definition windows_Start :: "('s, scm_call) sys \<Rightarrow> 's \<Rightarrow> 's \<times> unit res" where
  "windows_Start sys = withService sys (sys StartService)"

definition windows_Stop :: "('s, scm_call) sys \<Rightarrow> 's \<Rightarrow> 's \<times> unit res" where
  "windows_Stop sys = withService sys (sys ControlStop)"

definition windows_Status :: "('s, scm_call) sys \<Rightarrow> 's \<Rightarrow> 's \<times> unit res" where
  "windows_Status sys = withService sys (sys QueryService)"

section \<open>The life of a server\<close>

text \<open>\<^verbatim>\<open>Serve\<close> on Windows, by what the service manager says of the process; elsewhere it is the foreground.\<close>

datatype run_mode = AsService | InForeground

definition windows_Serve :: "bool res \<Rightarrow> run_mode res" where
  "windows_Serve is_service = bindE is_service (\<lambda>b. Inr (if b then AsService else InForeground))"

text \<open>
  \<^verbatim>\<open>Server.ListenAndServe\<close>, by what \<^verbatim>\<open>net/http\<close>'s returns: a server that was shut down is no error.
\<close>

datatype listen_end = ListenNil | ErrServerClosed | ListenError error

definition ListenAndServe :: "listen_end \<Rightarrow> error option" where
  "ListenAndServe x = (case x of ListenNil \<Rightarrow> None | ErrServerClosed \<Rightarrow> None | ListenError e \<Rightarrow> Some e)"

text \<open>
  \<^verbatim>\<open>RunForeground\<close>: what it ends with, by which of the two channels is ready; the error of
  \<^verbatim>\<open>Shutdown\<close> is only logged. \<open>serving\<close> is what the requests make of the engine meanwhile, and the
  deferred \<^verbatim>\<open>Close\<close> runs on every path behind a successful open.
\<close>

datatype ending = CtxDone "error option" | ServeExit listen_end

definition RunForeground ::
  "env \<Rightarrow> fs \<Rightarrow> (engine \<Rightarrow> engine) \<Rightarrow> ending \<Rightarrow> engine option \<times> unit res" where
  "RunForeground ev fs serving e =
     (case en_Open ev fs of
        (_, Inl err) \<Rightarrow> (None, Inl err)
      | (_, Inr en) \<Rightarrow>
          (Some (en_Close (serving en)),
           case e of
             CtxDone _ \<Rightarrow> Inr ()
           | ServeExit x \<Rightarrow> (case ListenAndServe x of None \<Rightarrow> Inr () | Some err \<Rightarrow> Inl err)))"

text \<open>
  The handler of the Windows service: change requests and the exit of \<^verbatim>\<open>RunForeground\<close> in the order
  they are received. It returns the states it reports and, once it ends, its exit code and whether
  \<^verbatim>\<open>RunForeground\<close> was cancelled.
\<close>

datatype svc_state = StartPending | Running | StopPending | CurrentStatus nat

datatype svc_cmd = Interrogate svc_state | Stop | Shutdown | OtherCmd

datatype svc_event = Change svc_cmd | Exited "error option"

fun Execute_loop :: "svc_event list \<Rightarrow> svc_state list \<times> (bool \<times> nat) option" where
  "Execute_loop [] = ([], None)"
| "Execute_loop (Change (Interrogate st) # es) = (let (sts, r) = Execute_loop es in (st # sts, r))"
| "Execute_loop (Change Stop # es) = ([StopPending], Some (False, 0))"
| "Execute_loop (Change Shutdown # es) = ([StopPending], Some (False, 0))"
| "Execute_loop (Change OtherCmd # es) = Execute_loop es"
| "Execute_loop (Exited (Some err) # es) = ([], Some (True, 1))"
| "Execute_loop (Exited None # es) = ([], Some (False, 0))"

definition Execute :: "svc_event list \<Rightarrow> svc_state list \<times> (bool \<times> nat) option" where
  "Execute es = (let (sts, r) = Execute_loop es in (StartPending # Running # sts, r))"

text \<open>The handler fails exactly when the server ended with an error before any stop was asked for.\<close>

lemma Execute_loop_exit:
  "Execute_loop es = (sts, Some (specific, code)) \<Longrightarrow>
   (specific \<longleftrightarrow> code \<noteq> 0) \<and> (code \<noteq> 0 \<longrightarrow> StopPending \<notin> set sts - {st. Change (Interrogate st) \<in> set es})"
  by (induction es arbitrary: sts rule: Execute_loop.induct) (auto split: prod.splits)

text \<open>The requests of a server, one after the other, and the room the engine has for each of them.\<close>

fun serve_all :: "(bytes \<Rightarrow> bytes res) \<Rightarrow> env \<Rightarrow> lib \<Rightarrow> request list \<Rightarrow> engine \<Rightarrow> engine" where
  "serve_all name_of ev lb [] en = en"
| "serve_all name_of ev lb (r # rs) en = serve_all name_of ev lb rs (fst (serve name_of ev lb r en))"

fun serve_room :: "(bytes \<Rightarrow> bytes res) \<Rightarrow> env \<Rightarrow> lib \<Rightarrow> request list \<Rightarrow> engine \<Rightarrow> bool" where
  "serve_room name_of ev lb [] en \<longleftrightarrow> True"
| "serve_room name_of ev lb (r # rs) en \<longleftrightarrow> (\<forall>cmd. issues name_of lb r cmd \<longrightarrow> has_room ev en cmd) \<and>
     serve_room name_of ev lb rs (fst (serve name_of ev lb r en))"

lemma serve_represents:
  assumes "represents ev en d" "ev_ok ev" "\<forall>cmd. issues name_of lb r cmd \<longrightarrow> has_room ev en cmd"
  shows "\<exists>d'. represents ev (fst (serve name_of ev lb r en)) d'"
proof -
  obtain en' resp where s: "serve name_of ev lb r en = (en', resp)" by (cases "serve name_of ev lb r en")
  from serve_does [OF s] consider "en' = en"
    | cmd where "issues name_of lb r cmd" "en' = fst (exec ev cmd en)" by blast
  then show ?thesis
  proof cases
    case 2
    with zdb.run_law [of ev en d cmd en' "snd (exec ev cmd en)"] assms show ?thesis by (auto simp: s)
  qed (use assms(1) s in auto)
qed

lemma serve_all_represents:
  "represents ev en d \<Longrightarrow> ev_ok ev \<Longrightarrow> serve_room name_of ev lb rs en \<Longrightarrow>
   \<exists>d'. represents ev (serve_all name_of ev lb rs en) d'"
  by (induction rs arbitrary: en d) (auto dest: serve_represents)

text \<open>A closed engine writes nothing, whatever is asked of it.\<close>

definition frozen :: "engine \<Rightarrow> engine \<Rightarrow> bool" where
  "frozen en en' \<longleftrightarrow> \<not> en_open en' \<and> en_dir en' = en_dir en"

lemma submit_log_closed: "\<not> en_open en \<Longrightarrow> \<exists>e. submit_log ev entry en = (en, Inl e)"
  by (auto simp: submit_log_def seq_Submit_def split: sum.split)

lemma submit_closed: "\<not> en_open en \<Longrightarrow> \<exists>e. submit ev entry deleted en = (en, Inl e)"
  using submit_log_closed [of en ev entry] by (auto simp: submit_def)

lemma exec_closed:
  assumes "\<not> en_open en"
  shows "frozen en (fst (exec ev cmd en))"
proof -
  have sub: "\<exists>e. submit ev entry deleted (en\<lparr>en_idgen := g\<rparr>) = (en\<lparr>en_idgen := g\<rparr>, Inl e)"
    and sub0: "\<exists>e. submit ev entry deleted en = (en, Inl e)" for entry deleted g
    using assms by (simp_all add: submit_closed)
  show ?thesis
  proof (cases cmd)
    case (Cmd_CreateClass p c)
    then show ?thesis
      using assms sub0 [of "class_entry OpCreateClass p c" False] by (auto simp: frozen_def CreateClass_def reply_with_def)
  next
    case (Cmd_DropClass p c)
    then show ?thesis
      using assms sub0 [of "class_entry OpDropClass p c" True]
      by (auto simp: frozen_def DropClass_def reply_with_def split: sum.split)
  next
    case (Cmd_Create p c v)
    obtain i g where "gen_Next (en_idgen en) (ScopeKey p c) = (i, g)" by fastforce
    then show ?thesis
      using Cmd_Create assms sub [of "object_entry OpPut p c i v" False g]
      by (auto simp: frozen_def CreateObject_def reply_with_def)
  next
    case (Cmd_Bulk p c vs)
    obtain subs g where "bulk_subs (ev_now ev) p c vs (en_idgen en) = (subs, g)" by fastforce
    then show ?thesis
      using Cmd_Bulk assms
      by (auto simp: frozen_def CreateObjectsBulk_def reply_with_def seq_Submit_def Let_def split: sum.split)
  next
    case (Cmd_Put p c i v)
    then show ?thesis
      using assms sub0 [of "object_entry OpPut p c i v" False]
      by (auto simp: frozen_def PutObject_def reply_with_def split: sum.split option.split)
  next
    case (Cmd_Delete p c i)
    then show ?thesis
      using assms sub0 [of "object_entry OpDelete p c i []" True]
      by (auto simp: frozen_def DeleteObject_def reply_with_def split: sum.split option.split)
  qed (use assms in \<open>simp_all add: frozen_def reply_with_def Checkpoint_def\<close>)
qed

lemma serve_all_closed: "\<not> en_open en \<Longrightarrow> frozen en (serve_all name_of ev lb rs en)"
proof (induction rs arbitrary: en)
  case (Cons r rs)
  obtain en' resp where s: "serve name_of ev lb r en = (en', resp)" by (cases "serve name_of ev lb r en")
  from serve_does [OF s] Cons.prems exec_closed [OF Cons.prems, of ev] have "frozen en en'" by (auto simp: frozen_def)
  with Cons.IH [of en'] s show ?case by (simp add: frozen_def)
qed (simp add: frozen_def)

section \<open>Properties\<close>

text \<open>
  C19: a graceful stop loses nothing. A server opens a directory, at its first start an empty one,
  handles requests and ends, by a signal or by an error of the listener: the next server on the
  directory opens it and has the database the last handled request left, also when requests were still
  under way behind the close of the engine, as they are once the time for the shutdown is over; these
  change nothing. The end is an error only when the listener failed, not by a signal, whatever the
  shutdown said.
\<close>

theorem shutdown_keeps:
  assumes "dir_represents ev fs d \<or> fs = [] \<and> 0 < ev_fuel ev" "ev_ok ev" "en_Open ev fs = (steps, Inr en0)"
    "serve_room name_of ev lb rs en0" "RunForeground ev fs (serve_all name_of ev lb rs) e = (Some en, out)"
  shows "\<exists>d' steps' en2. represents ev (serve_all name_of ev lb rs en0) d' \<and>
    en_Open ev (en_dir (serve_all name_of ev lb late en)) = (steps', Inr en2) \<and> represents ev en2 d' \<and>
    out = (case e of ServeExit (ListenError err) \<Rightarrow> Inl err | _ \<Rightarrow> Inr ())"
proof -
  let ?en = "serve_all name_of ev lb rs en0"
  have "\<exists>d. represents ev en0 d"
    using assms(1,3) Open_represents_unique [of ev fs d] Open_first [of ev] by fastforce
  with assms(2,4) obtain d' where d': "represents ev ?en d'" using serve_all_represents by blast
  have en: "en = en_Close ?en" "out = (case e of ServeExit (ListenError err) \<Rightarrow> Inl err | _ \<Rightarrow> Inr ())"
    using assms(3,5) by (auto simp: RunForeground_def ListenAndServe_def split: ending.splits listen_end.splits)
  from serve_all_closed [of en name_of ev lb late] have "en_dir (serve_all name_of ev lb late en) = en_dir ?en"
    by (simp add: en frozen_def en_Close_def)
  with Open_represents [OF represents_dir [OF d']] d' en(2) show ?thesis by auto
qed

text \<open>A first start, a class created, a signal, and requests behind the close.\<close>

definition sample_lib4 :: lib where
  "sample_lib4 = sample_lib\<lparr>lb_json := (\<lambda>_. Inl ErrUnmarshal), lb_json_items := (\<lambda>_. Inl ErrUnmarshal)\<rparr>"

definition sample_post_class :: request where
  "sample_post_class = \<lparr>rq_method = ''POST'', rq_path = [str ''v1'', str ''classes''], rq_query = [],
     rq_project = [], rq_body = Inr [0x7B]\<rparr>"

abbreviation sample_serve :: "request list \<Rightarrow> engine \<Rightarrow> engine" where
  "sample_serve \<equiv> serve_all (\<lambda>_. Inr sample_class) sample_env sample_lib4"

lemma sample_post_class_serves:
  assumes "at en Map.empty 0 gen_New"
  shows "serve_room (\<lambda>_. Inr sample_class) sample_env sample_lib4 [sample_post_class] en"
    "represents sample_env (sample_serve [sample_post_class] en) class_db"
proof -
  let ?cmd = "Cmd_CreateClass [] sample_class"
  from assms have rep: "represents sample_env en Map.empty" by (simp add: at_def)
  have simps: "projectOf sample_post_class = []" "rq_method sample_post_class = ''POST''" "rq_body sample_post_class = Inr [0x7B]"
    by (simp_all add: sample_post_class_def projectOf_def TrimSpaceUTF8_def TrimLeft.simps)
  from sample_create_class [OF assms] obtain en' where e: "exec sample_env ?cmd en = (en', Inr RUnit)" "at en' class_db 1 gen_New"
    by blast
  have room: "room en ?cmd" using assms by (rule at_room) simp_all
  have "db_ok 9 d'" if "represents sample_env en d" "spec ?cmd d (Inr RUnit) d'" for d d'
  proof -
    have "d = Map.empty"
      using lookup_law [OF representsD(1) [OF rep]] lookup_law [OF representsD(1) [OF that(1)]] by (simp add: fun_eq_iff)
    with that(2) show ?thesis by (auto split: if_splits)
  qed
  with room e(1) have "has_room sample_env en ?cmd" by (auto simp: has_room_def)
  moreover have "cmd = ?cmd" if "issues (\<lambda>_. Inr sample_class) sample_lib4 sample_post_class cmd" for cmd
    using that by (cases cmd) (auto simp: simps sample_lib4_def jsonToStored_def ReadAll_def)
  ultimately show "serve_room (\<lambda>_. Inr sample_class) sample_env sample_lib4 [sample_post_class] en" by auto
  have "serve (\<lambda>_. Inr sample_class) sample_env sample_lib4 sample_post_class en =
      withMiddleware (handleCreateClass (\<lambda>_. Inr sample_class) sample_env sample_lib4 sample_post_class en)"
    by (rule serve_route [where mp = "(''POST'', [SLit (str ''v1''), SLit (str ''classes'')])"])
      (simp_all add: routes_def Let_def route_matches_def sample_post_class_def not_redirected [OF refl])
  also have "fst \<dots> = en'"
    using e(1) by (auto simp: handleCreateClass_def simps ReadAll_def withMiddleware_def
        reply_with_def split: prod.splits sum.splits)
  finally show "represents sample_env (sample_serve [sample_post_class] en) class_db"
    using e(2) by (simp add: at_def)
qed

theorem shutdown_keeps_witness:
  "\<exists>en steps en2.
     RunForeground sample_env [] (sample_serve [sample_post_class]) (CtxDone (Some ErrIO)) = (Some en, Inr ()) \<and>
     en_Open sample_env (en_dir (sample_serve [sample_delete_class, sample_post_class] en)) = (steps, Inr en2) \<and>
     represents sample_env en2 class_db"
proof -
  let ?serving = "sample_serve [sample_post_class]"
  from sample_boot obtain steps0 en0 where o: "en_Open sample_env [] = (steps0, Inr en0)" "at en0 Map.empty 0 gen_New" by blast
  define en where "en = en_Close (?serving en0)"
  have run: "RunForeground sample_env [] ?serving (CtxDone (Some ErrIO)) = (Some en, Inr ())"
    using o(1) by (simp add: RunForeground_def en_def)
  have "[] = ([] :: fs) \<and> 0 < ev_fuel sample_env" by simp
  from shutdown_keeps [OF disjI2 [OF this] sample_env_ok o(1) sample_post_class_serves(1) [OF o(2)] run,
      of "[sample_delete_class, sample_post_class]"] obtain d' steps' en2 where
    d': "represents sample_env (?serving en0) d'" "represents sample_env en2 d'"
    "en_Open sample_env (en_dir (sample_serve [sample_delete_class, sample_post_class] en)) = (steps', Inr en2)" by blast
  have "d' = class_db"
    using lookup_law [OF representsD(1) [OF d'(1)]] lookup_law [OF representsD(1) [OF sample_post_class_serves(2) [OF o(2)]]]
    by (simp add: fun_eq_iff)
  with d' run show ?thesis by blast
qed

text \<open>
  C35: a service installed on Windows runs with two of the settings it was installed with. The command
  line that \<^verbatim>\<open>Install\<close> of daemon_windows.go registers, the executable and its arguments, is one of \<^verbatim>\<open>serve\<close>, and
  the server it starts has the data directory and the address of \<^verbatim>\<open>service install\<close>, and every other setting
  at its default, whatever the configuration file given to \<^verbatim>\<open>service install\<close> says. The unit that Linux
  gets is another text, which systemd parses; the property is not about it.
\<close>

theorem installed_service_settings:
  assumes "runService yaml read_file abs_path args = Inr (SInstall cfg)" "\<And>p. abs_path p \<noteq> Inr ''''"
  shows "\<exists>rest. main_command (exe # install_args cfg) = CServe rest \<and>
    runServe yaml2 read_file2 rest = Inr (Default\<lparr>sc_DataDir := sc_DataDir cfg, sc_HTTPAddr := sc_HTTPAddr cfg\<rparr>)"
proof -
  have cfg: "sc_DataDir cfg \<noteq> ''''" "sc_HTTPAddr cfg \<noteq> ''''"
    using assms by (auto simp: runService_def bindE_Inr_iff override_def Let_def Validate_def dest!: Load_valid
        split: list.splits if_splits sum.splits)
  have "parse_flags [''config'', ''data-dir'', ''http-addr'', ''fsync''] (tl (install_args cfg)) (\<lambda>_. '''') =
      Inr ((\<lambda>_. '''')(''data-dir'' := sc_DataDir cfg, ''http-addr'' := sc_HTTPAddr cfg))"
    by (simp add: install_args_def parse_flags.simps parseOne_def split_eq_def)
  with cfg show ?thesis
    by (simp add: main_command_def install_args_def runServe_def Load_def override_def Validate_def Default_def Let_def)
qed

theorem installed_service_settings_witness:
  "\<exists>cfg rest run_cfg.
     runService (\<lambda>_ c. Inr (c\<lparr>sc_Fsync := ''group-commit''\<rparr>)) (\<lambda>_. Inr []) (\<lambda>p. Inr (CHR ''/'' # p))
       [''install'', ''-config=zadodb.yaml'', ''--data-dir'', ''srv''] = Inr (SInstall cfg) \<and>
     main_command (''zadodb'' # install_args cfg) = CServe rest \<and>
     runServe (\<lambda>_ c. Inr (c\<lparr>sc_Fsync := ''group-commit''\<rparr>)) (\<lambda>_. Inr []) rest = Inr run_cfg \<and>
     sc_DataDir run_cfg = ''/srv'' \<and> sc_Fsync cfg = ''group-commit'' \<and> sc_Fsync run_cfg = ''per-commit''"
proof -
  let ?yaml = "\<lambda>_ c. Inr (c\<lparr>sc_Fsync := ''group-commit''\<rparr>)"
  let ?cfg = "Default\<lparr>sc_Fsync := ''group-commit'', sc_DataDir := ''/srv''\<rparr>"
  have run: "runService ?yaml (\<lambda>_. Inr []) (\<lambda>p. Inr (CHR ''/'' # p))
      [''install'', ''-config=zadodb.yaml'', ''--data-dir'', ''srv''] = Inr (SInstall ?cfg)"
    by (simp add: runService_def parse_flags.simps parseOne_def split_eq_def Load_def Validate_def Default_def override_def)
  have "\<And>p. Inr (CHR ''/'' # p) \<noteq> (Inr '''' :: string res)" by simp
  from installed_service_settings [OF run this, of "''zadodb''" ?yaml "\<lambda>_. Inr []"] obtain rest where
    "main_command (''zadodb'' # install_args ?cfg) = CServe rest"
    "runServe ?yaml (\<lambda>_. Inr []) rest = Inr (Default\<lparr>sc_DataDir := ''/srv'', sc_HTTPAddr := sc_HTTPAddr Default\<rparr>)"
    by auto
  with run show ?thesis by (intro exI [of _ ?cfg] exI conjI) (assumption | simp add: Default_def)+
qed

end
