(* ===== verification/Writer.thy ===== *)
theory Writer
  imports Sequencer Checkpoint
begin

text \<open>
  \<^verbatim>\<open>internal/storage/wal/writer.go\<close> with the state a \<^verbatim>\<open>Writer\<close> keeps: the path of the log, the offset it
  counts, and whether its file is open; and the goroutine of \<^verbatim>\<open>sequencer.go\<close> working on it. \<open>Sequencer\<close>
  speaks of the bytes of the log; the lemmas show that the two agree, and what the
  offset says of the file, on which the checkpoint loop relies.
\<close>

section \<open>The writer\<close>

record writer =
  w_path :: path
  w_offset :: u64
  w_open :: bool

text \<open>Opening: whether the system opens the file, creating it, and whether it tells its size.\<close>

definition OpenWriter :: "bool \<Rightarrow> bool \<Rightarrow> path \<Rightarrow> fs \<Rightarrow> fs_step list \<times> writer res" where
  "OpenWriter open_ok stat_ok path fs =
     (if \<not> open_ok then ([], Inl ErrIO)
      else if \<not> stat_ok then ([FCreate path], Inl ErrIO)
      else ([FCreate path], Inr \<lparr>w_path = path, w_offset = word_of_nat (length (fs_contents fs path)), w_open = True\<rparr>))"

text \<open>
  \<^verbatim>\<open>Append\<close>: the one write succeeds, or fails with some bytes written; a write to a closed file writes
  nothing. The offset counts whole records.
\<close>

definition w_Append :: "nat option \<Rightarrow> u64 \<Rightarrow> bytes \<Rightarrow> writer \<Rightarrow> fs_step list \<times> writer \<times> unit res" where
  "w_Append io txID payload w =
     (if length payload > MaxRecordLen then ([], w, Inl ErrTooLarge)
      else
        let rec_bytes = wal_record txID payload in
        case (if w_open w then io else Some 0) of
          None \<Rightarrow> ([FAppend (w_path w) rec_bytes], w\<lparr>w_offset := w_offset w + word_of_nat (length rec_bytes)\<rparr>, Inr ())
        | Some n \<Rightarrow> ([FAppend (w_path w) (take n rec_bytes)], w, Inl ErrIO))"

definition w_Sync :: "bool \<Rightarrow> writer \<Rightarrow> unit res" where
  "w_Sync sync_ok w = (if w_open w \<and> sync_ok then Inr () else Inl ErrIO)"

definition w_Offset :: "writer \<Rightarrow> int" where
  "w_Offset w = sint (w_offset w)"

definition w_Close :: "bool \<Rightarrow> writer \<Rightarrow> writer \<times> unit res" where
  "w_Close close_ok w = (w\<lparr>w_open := False\<rparr>, if w_open w \<and> close_ok then Inr () else Inl ErrIO)"

section \<open>The goroutine on its writer\<close>

text \<open>The sequencer: its writer, its counter, and the directory.\<close>

record seq_log =
  sl_w :: writer
  sl_nextTx :: u64
  sl_dir :: fs

text \<open>The loop of \<^verbatim>\<open>run\<close> over a batch, up to the first error; and the sync and the answers behind it.\<close>

fun run_appends :: "(nat \<Rightarrow> nat option) \<Rightarrow> nat \<Rightarrow> u64 \<Rightarrow> bytes list \<Rightarrow> writer \<Rightarrow> fs \<Rightarrow> writer \<times> fs \<times> unit res" where
  "run_appends ios i tx [] w fs = (w, fs, Inr ())"
| "run_appends ios i tx (p # ps) w fs =
     (case w_Append (ios i) (tx + 1) p w of
        (steps, w, Inl e) \<Rightarrow> (w, fs_run steps fs, Inl e)
      | (steps, w, Inr _) \<Rightarrow> run_appends ios (Suc i) (tx + 1) ps w (fs_run steps fs))"

definition run_once :: "(nat \<Rightarrow> nat option) \<Rightarrow> bool \<Rightarrow> bytes list \<Rightarrow> seq_log \<Rightarrow> seq_log \<times> u64 res list" where
  "run_once ios sync_ok ps s =
     (let (w, fs, r) = run_appends ios 0 (sl_nextTx s) ps (sl_w s) (sl_dir s);
          err = (case r of Inl e \<Rightarrow> Inl e | Inr _ \<Rightarrow> w_Sync sync_ok w)
      in (\<lparr>sl_w = w, sl_nextTx = sl_nextTx s + word_of_nat (length ps), sl_dir = fs\<rparr>,
          map (\<lambda>i. case err of Inl e \<Rightarrow> Inl e | Inr _ \<Rightarrow> Inr (sl_nextTx s + word_of_nat (Suc i))) [0..<length ps]))"

text \<open>\<^verbatim>\<open>doRotate\<close>, with the writer it leaves behind on every branch. An opening fails as a whole.\<close>

definition rotate_log :: "rotate_io \<Rightarrow> path \<Rightarrow> seq_log \<Rightarrow> seq_log \<times> unit res" where
  "rotate_log io retired s =
     (let cur = sl_w s; active = w_path cur in
      case w_Sync (ri_sync io) cur of
        Inl e \<Rightarrow> (s, Inl e)
      | Inr _ \<Rightarrow>
          (case w_Close (ri_close io) cur of
             (cur, Inl e) \<Rightarrow> (s\<lparr>sl_w := cur\<rparr>, Inl e)
           | (cur, Inr _) \<Rightarrow>
               if \<not> ri_rename io then (s\<lparr>sl_w := cur\<rparr>, Inl ErrIO)
               else
                 let fs = fs_do (FRename active retired) (sl_dir s) in
                 case OpenWriter (ri_open io) True active fs of
                   (steps, Inr nw) \<Rightarrow> (s\<lparr>sl_w := nw, sl_dir := fs_run steps fs\<rparr>, Inr ())
                 | (steps, Inl e) \<Rightarrow>
                     if ri_back io then
                       let fs = fs_do (FRename retired active) (fs_run steps fs) in
                       case OpenWriter (ri_reopen io) True active fs of
                         (steps, Inr restored) \<Rightarrow> (s\<lparr>sl_w := restored, sl_dir := fs_run steps fs\<rparr>, Inl e)
                       | (steps, Inl _) \<Rightarrow> (s\<lparr>sl_w := cur, sl_dir := fs_run steps fs\<rparr>, Inl e)
                     else (s\<lparr>sl_w := cur, sl_dir := fs_run steps fs\<rparr>, Inl e)))"

definition seq_LastTxID :: "seq_log \<Rightarrow> u64" where
  "seq_LastTxID s = sl_nextTx s"

definition seq_Offset :: "seq_log \<Rightarrow> int" where
  "seq_Offset s = w_Offset (sl_w s)"

section \<open>Agreement with the bytes of the log\<close>

declare fs_contents_put [simp]

lemma w_Append_is_wal_Append:
  "w_Append io tx p w = (steps, w', r) \<Longrightarrow>
   (fs_contents (fs_run steps fs) (w_path w), r) =
     wal_Append (if w_open w then io else Some 0) (fs_contents fs (w_path w)) tx p \<and>
   w_path w' = w_path w \<and> w_open w' = w_open w"
  by (auto simp: w_Append_def wal_Append_def Let_def split: if_splits option.splits)

lemma w_Append_frame:
  "w_Append io tx p w = (steps, w', r) \<Longrightarrow> q \<noteq> w_path w \<Longrightarrow> fs_get (fs_run steps fs) q = fs_get fs q"
  by (auto simp: w_Append_def Let_def split: if_splits option.splits)

lemma run_appends_is_append_batch:
  "run_appends ios i tx ps w fs = (w', fs', r) \<Longrightarrow>
   (fs_contents fs' (w_path w), r) = append_batch (w_open w) ios i tx (fs_contents fs (w_path w)) ps \<and>
   w_path w' = w_path w \<and> w_open w' = w_open w \<and> (\<forall>q. q \<noteq> w_path w \<longrightarrow> fs_get fs' q = fs_get fs q)"
proof (induction ps arbitrary: i tx w fs)
  case (Cons p ps)
  obtain steps w1 r1 where a: "w_Append (ios i) (tx + 1) p w = (steps, w1, r1)" by (cases "w_Append (ios i) (tx + 1) p w")
  note step = w_Append_is_wal_Append [OF a, of fs] w_Append_frame [OF a, of _ fs]
  show ?case
  proof (cases r1)
    case (Inl e)
    with a step Cons.prems show ?thesis by (auto split: prod.splits)
  next
    case (Inr u)
    with a Cons.prems have "run_appends ios (Suc i) (tx + 1) ps w1 (fs_run steps fs) = (w', fs', r)" by simp
    from Cons.IH [OF this] step Inr show ?thesis by (auto split: prod.splits)
  qed
qed simp

lemma run_once_is_run_batch:
  assumes "run_once ios sync_ok ps s = (s', rs)"
  shows "run_batch (w_open (sl_w s)) ios sync_ok (sl_nextTx s) (fs_contents (sl_dir s) (w_path (sl_w s))) ps =
      (sl_nextTx s', fs_contents (sl_dir s') (w_path (sl_w s)), rs)"
    "w_path (sl_w s') = w_path (sl_w s)" "w_open (sl_w s') = w_open (sl_w s)"
proof -
  obtain w fs r where a: "run_appends ios 0 (sl_nextTx s) ps (sl_w s) (sl_dir s) = (w, fs, r)"
    by (cases "run_appends ios 0 (sl_nextTx s) ps (sl_w s) (sl_dir s)")
  note b = run_appends_is_append_batch [OF a]
  show "w_path (sl_w s') = w_path (sl_w s)" "w_open (sl_w s') = w_open (sl_w s)"
    using assms a b by (auto simp: run_once_def)
  have e: "append_batch (w_open (sl_w s)) ios 0 (sl_nextTx s) (fs_contents (sl_dir s) (w_path (sl_w s))) ps =
      (fs_contents fs (w_path (sl_w s)), r)"
    using b by simp
  show "run_batch (w_open (sl_w s)) ios sync_ok (sl_nextTx s) (fs_contents (sl_dir s) (w_path (sl_w s))) ps =
      (sl_nextTx s', fs_contents (sl_dir s') (w_path (sl_w s)), rs)"
    unfolding run_batch_def e using assms a b [THEN conjunct2] by (cases r) (auto simp: run_once_def w_Sync_def)
qed

lemma rotate_log_is_doRotate:
  assumes "rotate_log io retired s = (s', r)"
  shows "doRotate io (w_path (sl_w s)) retired (w_open (sl_w s)) = (steps, opn, r') \<Longrightarrow>
      w_open (sl_w s') = opn \<and> r = r' \<and> (\<forall>q. fs_contents (sl_dir s') q = fs_contents (fs_run steps (sl_dir s)) q)"
    "w_path (sl_w s') = w_path (sl_w s)" "sl_nextTx s' = sl_nextTx s"
  using assms
  by (auto simp: rotate_log_def doRotate_def w_Sync_def w_Close_def OpenWriter_def Let_def fs_contents_def
      split: if_splits)

section \<open>What the offset counts\<close>

datatype log_op =
    LBatch "nat \<Rightarrow> nat option" bool "bytes list"
  | LRotate rotate_io path

fun log_do :: "log_op \<Rightarrow> seq_log \<Rightarrow> seq_log" where
  "log_do (LBatch ios sync_ok ps) s = fst (run_once ios sync_ok ps s)"
| "log_do (LRotate io retired) s = fst (rotate_log io retired s)"

text \<open>No write of the operation fails half-way; and it does not rename the log to itself.\<close>

fun whole :: "log_op \<Rightarrow> bool" where
  "whole (LBatch ios sync_ok ps) \<longleftrightarrow> (\<forall>i. ios i = None \<or> ios i = Some 0)"
| "whole (LRotate io retired) \<longleftrightarrow> True"

fun cuts :: "path \<Rightarrow> log_op \<Rightarrow> bool" where
  "cuts path (LRotate io retired) \<longleftrightarrow> retired \<noteq> path"
| "cuts path _ \<longleftrightarrow> True"

text \<open>The offset of an open writer is a length the file has had; when nothing was torn, the length it has.\<close>

definition counts :: "bool \<Rightarrow> writer \<Rightarrow> fs \<Rightarrow> bool" where
  "counts exact w fs \<longleftrightarrow> (w_open w \<longrightarrow>
     (\<exists>n\<le>length (fs_contents fs (w_path w)). w_offset w = word_of_nat n \<and>
       (exact \<longrightarrow> n = length (fs_contents fs (w_path w)))))"

lemma countsI:
  "n \<le> length (fs_contents fs (w_path w)) \<Longrightarrow> w_offset w = word_of_nat n \<Longrightarrow>
   (exact \<Longrightarrow> n = length (fs_contents fs (w_path w))) \<Longrightarrow> counts exact w fs"
  unfolding counts_def by blast

lemma counts_OpenWriter:
  "OpenWriter open_ok stat_ok path fs = (steps, Inr w) \<Longrightarrow> counts exact w (fs_run steps fs) \<and> w_path w = path \<and> w_open w"
  by (auto simp: OpenWriter_def counts_def fs_contents_def split: if_splits)

lemma counts_Append:
  assumes "w_Append io tx p w = (steps, w', r)" "counts exact w fs" "exact \<Longrightarrow> io = None \<or> io = Some 0"
  shows "counts exact w' (fs_run steps fs)"
proof (cases "w_open w \<and> length p \<le> MaxRecordLen")
  case True
  then obtain n where n: "n \<le> length (fs_contents fs (w_path w))" "w_offset w = word_of_nat n"
    "exact \<longrightarrow> n = length (fs_contents fs (w_path w))" using assms(2) by (auto simp: counts_def)
  show ?thesis
  proof (cases io)
    case None
    with True assms(1) have w': "steps = [FAppend (w_path w) (wal_record tx p)]"
      "w' = w\<lparr>w_offset := w_offset w + word_of_nat (length (wal_record tx p))\<rparr>"
      by (auto simp: w_Append_def Let_def)
    show ?thesis unfolding w'
      by (rule countsI [of "n + length (wal_record tx p)"]) (use n in simp_all)
  next
    case (Some k)
    with True assms(1) have w': "steps = [FAppend (w_path w) (take k (wal_record tx p))]" "w' = w"
      by (auto simp: w_Append_def Let_def)
    show ?thesis unfolding w' by (rule countsI [of n]) (use n assms(3) Some in auto)
  qed
qed (use assms in \<open>auto simp: w_Append_def counts_def Let_def split: if_splits option.splits\<close>)

lemma counts_appends:
  assumes "run_appends ios i tx ps w fs = (w', fs', r)" "counts exact w fs" "exact \<Longrightarrow> \<forall>i. ios i = None \<or> ios i = Some 0"
  shows "counts exact w' fs'"
  using assms
proof (induction ps arbitrary: i tx w fs)
  case (Cons p ps)
  obtain steps w1 r1 where a: "w_Append (ios i) (tx + 1) p w = (steps, w1, r1)" by (cases "w_Append (ios i) (tx + 1) p w")
  have "counts exact w1 (fs_run steps fs)" by (rule counts_Append [OF a Cons.prems(2)]) (use Cons.prems(3) in blast)
  with Cons.IH [OF _ this Cons.prems(3)] Cons.prems(1) a show ?case by (cases r1) auto
qed simp

lemma counts_rotate:
  assumes "counts exact (sl_w s) (sl_dir s)" "retired \<noteq> w_path (sl_w s)" "rotate_log io retired s = (s', r)"
  shows "counts exact (sl_w s') (sl_dir s')"
  using assms
  by (auto simp: rotate_log_def w_Sync_def w_Close_def OpenWriter_def Let_def counts_def split: if_splits)

lemma log_do_counts:
  assumes "counts exact (sl_w s) (sl_dir s)" "exact \<Longrightarrow> whole op" "cuts (w_path (sl_w s)) op"
  shows "counts exact (sl_w (log_do op s)) (sl_dir (log_do op s))" "w_path (sl_w (log_do op s)) = w_path (sl_w s)"
proof -
  have "counts exact (sl_w (log_do op s)) (sl_dir (log_do op s)) \<and> w_path (sl_w (log_do op s)) = w_path (sl_w s)"
  proof (cases op)
    case (LBatch ios ok ps)
    obtain w fs r where a: "run_appends ios 0 (sl_nextTx s) ps (sl_w s) (sl_dir s) = (w, fs, r)"
      by (cases "run_appends ios 0 (sl_nextTx s) ps (sl_w s) (sl_dir s)")
    have "counts exact w fs" by (rule counts_appends [OF a assms(1)]) (use assms(2) LBatch in auto)
    with a run_appends_is_append_batch [OF a] LBatch show ?thesis by (simp add: run_once_def)
  next
    case (LRotate io retired)
    obtain s' r where r: "rotate_log io retired s = (s', r)" by (cases "rotate_log io retired s")
    from counts_rotate [OF assms(1) _ r] rotate_log_is_doRotate(2) [OF r] assms(3) LRotate r show ?thesis by auto
  qed
  then show "counts exact (sl_w (log_do op s)) (sl_dir (log_do op s))" "w_path (sl_w (log_do op s)) = w_path (sl_w s)"
    by simp_all
qed

lemma log_run_counts:
  assumes "counts exact (sl_w s) (sl_dir s)" "\<forall>op\<in>set ops. (exact \<longrightarrow> whole op) \<and> cuts (w_path (sl_w s)) op"
  shows "counts exact (sl_w (fold log_do ops s)) (sl_dir (fold log_do ops s)) \<and>
    w_path (sl_w (fold log_do ops s)) = w_path (sl_w s)"
  using assms
proof (induction ops arbitrary: s)
  case (Cons op ops)
  then have "exact \<Longrightarrow> whole op" "cuts (w_path (sl_w s)) op" by simp_all
  with log_do_counts [OF Cons.prems(1)] Cons.IH [of "log_do op s"] Cons.prems(2) show ?case by simp
qed simp

text \<open>
  C30: the checkpoint loop sees how long the log is. The offset the writer counts on its own is never more than the
  length of the file, through any batches and rotations, with any failures of the system, as long as the sequencer has
  an open writer; and it is that length when no write of a record failed half-way.
\<close>

theorem offset_counts_log:
  assumes "OpenWriter True True path fs = (steps, Inr w)"
    "s = fold log_do ops \<lparr>sl_w = w, sl_nextTx = tx, sl_dir = fs_run steps fs\<rparr>" "\<forall>op\<in>set ops. cuts path op"
    "w_open (sl_w s)" "length (fs_contents (sl_dir s) path) < 2 ^ 63"
  shows "0 \<le> seq_Offset s \<and> seq_Offset s \<le> int (length (fs_contents (sl_dir s) path)) \<and>
    ((\<forall>op\<in>set ops. whole op) \<longrightarrow> seq_Offset s = int (length (fs_contents (sl_dir s) path)))"
proof -
  let ?s0 = "\<lparr>sl_w = w, sl_nextTx = tx, sl_dir = fs_run steps fs\<rparr>"
  have start: "counts exact (sl_w ?s0) (sl_dir ?s0)" "w_path (sl_w ?s0) = path" for exact
    using counts_OpenWriter [OF assms(1)] by simp_all
  have at: "counts exact (sl_w s) (sl_dir s)" "w_path (sl_w s) = path" if "exact \<Longrightarrow> \<forall>op\<in>set ops. whole op" for exact
    using log_run_counts [OF start(1), of ops exact] start(2) assms(3) that unfolding assms(2) by simp_all
  have n: "seq_Offset s = int n" if "w_offset (sl_w s) = word_of_nat n" "n \<le> length (fs_contents (sl_dir s) path)" for n
    using that assms(5) by (simp add: seq_Offset_def w_Offset_def sint_word_of_nat)
  from at [of False] assms(4) n obtain k where "seq_Offset s = int k" "k \<le> length (fs_contents (sl_dir s) path)"
    by (auto simp: counts_def)
  moreover have "seq_Offset s = int (length (fs_contents (sl_dir s) path))" if "\<forall>op\<in>set ops. whole op"
    using at [of True] that assms(4) n by (auto simp: counts_def)
  ultimately show ?thesis by auto
qed

text \<open>A record in a fresh log, a rotation, another record.\<close>

abbreviation sample_ops :: "log_op list" where
  "sample_ops \<equiv> [LBatch (\<lambda>_. None) True [[7]],
     LRotate \<lparr>ri_sync = True, ri_close = True, ri_rename = True, ri_open = True, ri_back = True, ri_reopen = True\<rparr> RetiredWALName,
     LBatch (\<lambda>_. None) True [[8, 9]]]"

theorem offset_counts_log_witness:
  "seq_Offset (fold log_do sample_ops \<lparr>sl_w = \<lparr>w_path = walName, w_offset = 0, w_open = True\<rparr>, sl_nextTx = 0,
     sl_dir = fs_run [FCreate walName] []\<rparr>) = 26"
proof -
  let ?w = "\<lparr>w_path = walName, w_offset = 0, w_open = True\<rparr>"
  let ?s = "fold log_do sample_ops \<lparr>sl_w = ?w, sl_nextTx = 0, sl_dir = fs_run [FCreate walName] []\<rparr>"
  have small: "length [7 :: byte] \<le> MaxRecordLen" "length [8, 9 :: byte] \<le> MaxRecordLen"
    by (simp_all add: MaxRecordLen_def push_bit_eq_mult)
  have names: "RetiredWALName \<noteq> walName" by simp
  have s: "sl_w ?s = \<lparr>w_path = walName, w_offset = 26, w_open = True\<rparr> \<and> length (fs_contents (sl_dir ?s) walName) = 26"
    using small names
    by (simp add: run_once_def w_Append_def rotate_log_def w_Sync_def w_Close_def OpenWriter_def Let_def recHeaderLen_def
        fs_contents_def)
  then have "w_open (sl_w ?s)" "length (fs_contents (sl_dir ?s) walName) < 2 ^ 63" by simp_all
  moreover have "OpenWriter True True walName [] = ([FCreate walName], Inr ?w)" by (simp add: OpenWriter_def fs_contents_def)
  ultimately show ?thesis using offset_counts_log [of walName "[]" "[FCreate walName]" ?w ?s sample_ops 0] names s by simp
qed

end
