(* ===== verification/SequencerLive.thy ===== *)
theory SequencerLive
  imports Sequencer
begin

text \<open>
  That \<^verbatim>\<open>Submit\<close> of \<^verbatim>\<open>internal/storage/wal/sequencer.go\<close> can always come back. Whatever the clients, the goroutine
  and the closer have done, the goroutine and the caller alone can bring a call to its end: the queue is emptied batch by
  batch, every request of a batch is answered, and a request that nobody will answer finds the sequencer closed.
\<close>

section \<open>Where a request can be\<close>

abbreviation seq_moves :: "FsyncMode \<Rightarrow> nat \<Rightarrow> seq_sys \<Rightarrow> seq_sys \<Rightarrow> bool" where
  "seq_moves mode cap s s' \<equiv> \<exists>k. seq_step mode cap k s s'"

text \<open>
  Moves of the goroutine in its loop, and those moves together with the ones of the caller \<open>c\<close>: no other
  client moves, nothing is closed and nothing is rotated.
\<close>

abbreviation run_moves :: "FsyncMode \<Rightarrow> nat \<Rightarrow> seq_sys \<Rightarrow> seq_sys \<Rightarrow> bool" where
  "run_moves mode cap s s' \<equiv> \<exists>k. seq_step mode cap k s s' \<and> sy_client s' = sy_client s \<and>
     sy_done s' = sy_done s \<and> sy_retired s' = sy_retired s"

abbreviation own_moves :: "FsyncMode \<Rightarrow> nat \<Rightarrow> nat \<Rightarrow> seq_sys \<Rightarrow> seq_sys \<Rightarrow> bool" where
  "own_moves mode cap c s s' \<equiv> \<exists>k. seq_step mode cap k s s' \<and> (\<forall>c'. c' \<noteq> c \<longrightarrow> sy_client s' c' = sy_client s c') \<and>
     sy_done s' = sy_done s \<and> sy_retired s' = sy_retired s"

lemma run_own: "(run_moves mode cap)\<^sup>*\<^sup>* s s' \<Longrightarrow> (own_moves mode cap c)\<^sup>*\<^sup>* s s'"
  by (erule rtranclp_mono [THEN predicate2D, rotated]) force

lemma own_seq: "(own_moves mode cap c)\<^sup>*\<^sup>* s s' \<Longrightarrow> (seq_moves mode cap)\<^sup>*\<^sup>* s s'"
  by (erule rtranclp_mono [THEN predicate2D, rotated]) blast

lemma own_step:
  "seq_step mode cap k s t \<Longrightarrow> \<forall>c'. c' \<noteq> c \<longrightarrow> sy_client t c' = sy_client s c' \<Longrightarrow> sy_done t = sy_done s \<Longrightarrow>
   sy_retired t = sy_retired s \<Longrightarrow> (own_moves mode cap c)\<^sup>*\<^sup>* s t"
  by (rule r_into_rtranclp) blast

lemma own_done: "(own_moves mode cap c)\<^sup>*\<^sup>* s s' \<Longrightarrow> sy_done s' = sy_done s"
  by (induction rule: rtranclp_induct) auto

fun awaits :: "client \<Rightarrow> bool" where
  "awaits (CSent p) \<longleftrightarrow> True"
| "awaits (CWaiting p) \<longleftrightarrow> True"
| "awaits _ \<longleftrightarrow> False"

definition replies :: "seq_sys \<Rightarrow> (nat \<times> u64 res) list" where
  "replies s = (case sy_run s of RunReply q \<Rightarrow> q | _ \<Rightarrow> [])"

text \<open>
  A client that waits has its answer, or the goroutine has its request or its answer, or the sequencer is
  closed. While it is open, no answer says that it is closed, and the goroutine has not left its loop.
\<close>

definition pending :: "seq_sys \<Rightarrow> bool" where
  "pending s \<longleftrightarrow>
     (\<forall>c. awaits (sy_client s c) \<longrightarrow>
        sy_resp s c \<noteq> None \<or> c \<in> fst ` set (in_flight s) \<or> c \<in> fst ` set (replies s) \<or> sy_done s) \<and>
     (\<not> sy_done s \<longrightarrow> sy_run s \<noteq> RunDrain \<and> sy_run s \<noteq> RunExit \<and>
        (\<forall>c. sy_resp s c \<noteq> Some (Inl ErrClosed)) \<and> Inl ErrClosed \<notin> snd ` set (replies s))"

lemma run_batch_answers:
  assumes "run_batch True (\<lambda>_. None) True tx f ps = (tx', f', rs)"
  shows "length rs = length ps" "Inl ErrClosed \<notin> set rs"
  using assms by (auto simp: run_batch_ok)

lemma fst_zip_answers:
  assumes "run_batch True (\<lambda>_. None) True tx f (map snd b) = (tx', f', rs)"
  shows "fst ` set (zip (map fst b) rs) = fst ` set b" "Inl ErrClosed \<notin> snd ` set (zip (map fst b) rs)"
proof -
  note rs = run_batch_answers [OF assms]
  have "map fst (zip (map fst b) rs) = map fst b" using rs(1) by simp
  then have "set (map fst (zip (map fst b) rs)) = set (map fst b)" by (rule arg_cong)
  then show "fst ` set (zip (map fst b) rs) = fst ` set b" by simp
  show "Inl ErrClosed \<notin> snd ` set (zip (map fst b) rs)" using rs(2) by (auto dest: set_zip_rightD)
qed

lemma pending_step:
  assumes "seq_step mode cap k s s'" "pending s"
  shows "pending s'"
  using assms
proof (induction rule: seq_step.induct)
  case (run_commit s b tx f rs)
  with fst_zip_answers [OF run_commit(2)] show ?case
    by (auto simp: pending_def sy_defs in_flight_def replies_def image_Un)
next
  case (submit_default s c p)
  have "awaits (sy_client s c)" using submit_default(1) by simp
  with submit_default(3) show ?case
    unfolding pending_def in_flight_def replies_def by (simp add: sy_defs del: not_None_eq)
qed (auto simp: pending_def sy_defs in_flight_def replies_def image_Un split: if_splits)

interpretation queue: step_invariant "seq_moves mode cap" pending
  by unfold_locales (blast intro: pending_step)

lemma pending_start: "pending (NewSequencer f init)"
  by (simp add: pending_def NewSequencer_def replies_def)

lemma reachable_pending: "seq_reachable mode cap f init n s \<Longrightarrow> pending s"
  by (induction rule: seq_reachable.induct) (rule pending_start, rule pending_step)

section \<open>The goroutine goes on\<close>

text \<open>
  \<open>onward mode cap s s'\<close>: from \<open>s\<close> the goroutine can come to \<open>s'\<close>, where every client is where it was and no
  answer has been lost.
\<close>

definition onward :: "FsyncMode \<Rightarrow> nat \<Rightarrow> seq_sys \<Rightarrow> seq_sys \<Rightarrow> bool" where
  "onward mode cap s s' \<longleftrightarrow> (run_moves mode cap)\<^sup>*\<^sup>* s s' \<and> sy_client s' = sy_client s \<and> sy_done s' = sy_done s \<and>
     (\<forall>c. sy_resp s c \<noteq> None \<longrightarrow> sy_resp s' c \<noteq> None)"

lemma onward_refl: "onward mode cap s s"
  by (simp add: onward_def)

lemma onward_trans: "onward mode cap s t \<Longrightarrow> onward mode cap t u \<Longrightarrow> onward mode cap s u"
  by (auto simp: onward_def elim: rtranclp_trans)

lemma onward_step:
  assumes "seq_step mode cap k s t" "sy_client t = sy_client s" "sy_done t = sy_done s" "sy_retired t = sy_retired s"
    "\<And>c. sy_resp s c \<noteq> None \<Longrightarrow> sy_resp t c \<noteq> None" "onward mode cap t u"
  shows "onward mode cap s u"
proof (rule onward_trans [OF _ assms(6)])
  have "(run_moves mode cap)\<^sup>*\<^sup>* s t" using assms(1-4) by blast
  with assms(2,3,5) show "onward mode cap s t" unfolding onward_def by blast
qed

lemma replies_onward:
  assumes "sy_run s = RunReply q"
  shows "\<exists>t. onward mode cap s t \<and> sy_run t = RunSelect \<and> sy_reqs t = sy_reqs s \<and> (\<forall>c\<in>fst ` set q. sy_resp t c \<noteq> None)"
  using assms
proof (induction q arbitrary: s)
  case Nil
  have "onward mode cap s (run_goto RunSelect s)"
    by (rule onward_step [OF run_again [OF Nil]]) (simp_all add: sy_defs onward_refl)
  then show ?case by (intro exI [of _ "run_goto RunSelect s"]) (simp add: sy_defs)
next
  case (Cons cr q)
  obtain c r where cr: "cr = (c, r)" by (cases cr)
  let ?s = "run_goto (RunReply q) (answer c r s)"
  have step: "seq_step mode cap 0 s ?s" using run_reply Cons.prems cr by simp
  have "sy_run ?s = RunReply q" by (simp add: sy_defs)
  from Cons.IH [OF this] obtain t where t: "onward mode cap ?s t" "sy_run t = RunSelect" "sy_reqs t = sy_reqs ?s"
    "\<forall>c\<in>fst ` set q. sy_resp t c \<noteq> None" by blast
  have "onward mode cap s t" by (rule onward_step [OF step _ _ _ _ t(1)]) (simp_all add: sy_defs)
  moreover have "sy_resp t c \<noteq> None" using t(1) by (auto simp: onward_def sy_defs)
  ultimately show ?case using t(2-4) cr by (auto simp: sy_defs)
qed

lemma batch_onward:
  assumes "sy_run s = RunBatch b"
  shows "\<exists>t. onward mode cap s t \<and> sy_run t = RunSelect \<and> sy_reqs t = sy_reqs s \<and> (\<forall>c\<in>fst ` set b. sy_resp t c \<noteq> None)"
proof -
  obtain tx f rs where b: "run_batch True (\<lambda>_. None) True (sy_nextTx s) (sy_file s) (map snd b) = (tx, f, rs)"
    by (cases "run_batch True (\<lambda>_. None) True (sy_nextTx s) (sy_file s) (map snd b)")
  let ?s = "run_goto (RunReply (zip (map fst b) rs)) (s\<lparr>sy_nextTx := tx, sy_file := f\<rparr>)"
  from replies_onward [of ?s "zip (map fst b) rs" mode cap] obtain t where
    t: "onward mode cap ?s t" "sy_run t = RunSelect" "sy_reqs t = sy_reqs s" "\<forall>c\<in>fst ` set b. sy_resp t c \<noteq> None"
    unfolding fst_zip_answers(1) [OF b] by (auto simp: sy_defs)
  have "onward mode cap s t" by (rule onward_step [OF run_commit [OF assms b] _ _ _ _ t(1)]) (simp_all add: sy_defs)
  with t show ?thesis by blast
qed

lemma collected_onward:
  assumes "sy_run s = RunCollect b"
  shows "\<exists>t. onward mode cap s t \<and> sy_run t = RunSelect \<and> sy_reqs t = sy_reqs s \<and> (\<forall>c\<in>fst ` set b. sy_resp t c \<noteq> None)"
proof -
  let ?s = "run_goto (RunBatch b) s"
  from batch_onward [of ?s b mode cap] obtain t where
    t: "onward mode cap ?s t" "sy_run t = RunSelect" "sy_reqs t = sy_reqs s" "\<forall>c\<in>fst ` set b. sy_resp t c \<noteq> None"
    by (auto simp: sy_defs)
  have "onward mode cap s t" by (rule onward_step [OF collect_end [OF assms] _ _ _ _ t(1)]) (simp_all add: sy_defs)
  with t show ?thesis by blast
qed

text \<open>The first request of the queue is taken and answered.\<close>

lemma take_onward:
  assumes "sy_run s = RunSelect" "sy_reqs s = r # q"
  shows "\<exists>t. onward mode cap s t \<and> sy_run t = RunSelect \<and> sy_reqs t = q \<and> sy_resp t (fst r) \<noteq> None"
proof -
  let ?s = "run_goto (if fm_Policy mode = FsyncGroupCommit then RunCollect [r] else RunBatch [r]) (s\<lparr>sy_reqs := q\<rparr>)"
  have "\<exists>t. onward mode cap ?s t \<and> sy_run t = RunSelect \<and> sy_reqs t = sy_reqs ?s \<and> (\<forall>c\<in>fst ` set [r]. sy_resp t c \<noteq> None)"
    by (cases "fm_Policy mode = FsyncGroupCommit") (rule collected_onward batch_onward; simp add: sy_defs)+
  then obtain t where t: "onward mode cap ?s t" "sy_run t = RunSelect" "sy_reqs t = q" "sy_resp t (fst r) \<noteq> None"
    by (auto simp: sy_defs)
  have "onward mode cap s t" by (rule onward_step [OF run_take [OF assms] _ _ _ _ t(1)]) (simp_all add: sy_defs)
  with t show ?thesis by blast
qed

lemma queue_onward:
  assumes "sy_run s = RunSelect"
  shows "\<exists>t. onward mode cap s t \<and> sy_run t = RunSelect \<and> sy_reqs t = [] \<and> (\<forall>c\<in>fst ` set (sy_reqs s). sy_resp t c \<noteq> None)"
  using assms
proof (induction "sy_reqs s" arbitrary: s)
  case Nil
  then show ?case using onward_refl [of mode cap s] by (intro exI [of _ s]) simp
next
  case (Cons r q)
  from take_onward [OF Cons.prems Cons.hyps(2) [symmetric]] obtain t where
    t: "onward mode cap s t" "sy_run t = RunSelect" "sy_reqs t = q" "sy_resp t (fst r) \<noteq> None" by blast
  from Cons.hyps(1) [OF t(3) [symmetric] t(2)] obtain u where
    u: "onward mode cap t u" "sy_run u = RunSelect" "sy_reqs u = []" "\<forall>c\<in>fst ` set q. sy_resp u c \<noteq> None"
    using t(3) by auto
  have "sy_resp u (fst r) \<noteq> None" using u(1) t(4) unfolding onward_def by blast
  with onward_trans [OF t(1) u(1)] u(2-4) Cons.hyps(2) [symmetric] show ?case by auto
qed

text \<open>From wherever it is in its loop, the goroutine can answer all there is to answer.\<close>

lemma pendingD:
  assumes "pending s" "awaits (sy_client s c)"
  shows "sy_resp s c \<noteq> None \<or> c \<in> fst ` set (in_flight s) \<or> c \<in> fst ` set (replies s) \<or> sy_done s"
  using assms(1) [unfolded pending_def, THEN conjunct1, rule_format, OF assms(2)] .

lemma answers_pending:
  assumes "pending s" "onward mode cap s t" "\<And>c. c \<in> B \<Longrightarrow> sy_resp t c \<noteq> None"
    "fst ` set (in_flight s) \<subseteq> B \<union> fst ` set (sy_reqs s)" "fst ` set (replies s) \<subseteq> B" "awaits (sy_client s c)"
  shows "sy_resp t c \<noteq> None \<or> c \<in> fst ` set (sy_reqs s) \<or> sy_done s"
proof -
  have "sy_resp s c \<noteq> None \<Longrightarrow> sy_resp t c \<noteq> None" using assms(2) by (simp add: onward_def)
  then show ?thesis using pendingD [OF assms(1,6)] assms(3) subsetD [OF assms(4), of c] subsetD [OF assms(5), of c] by auto
qed

lemma drained:
  assumes "pending s" "sy_run s \<noteq> RunDrain" "sy_run s \<noteq> RunExit"
  shows "\<exists>t. onward mode cap s t \<and> sy_run t = RunSelect \<and> sy_reqs t = [] \<and>
    (\<forall>c. awaits (sy_client s c) \<longrightarrow> sy_resp t c \<noteq> None \<or> sy_done s)"
proof -
  have "\<exists>B t. onward mode cap s t \<and> sy_run t = RunSelect \<and> sy_reqs t = sy_reqs s \<and> (\<forall>c\<in>B. sy_resp t c \<noteq> None) \<and>
      fst ` set (in_flight s) \<subseteq> B \<union> fst ` set (sy_reqs s) \<and> fst ` set (replies s) \<subseteq> B"
  proof (cases "sy_run s")
    case RunSelect
    then show ?thesis by (intro exI [of _ "{}"] exI [of _ s]) (simp add: in_flight_def replies_def onward_refl)
  next
    case (RunCollect b)
    from collected_onward [OF this, of mode cap] obtain t where "onward mode cap s t \<and> sy_run t = RunSelect \<and>
      sy_reqs t = sy_reqs s \<and> (\<forall>c\<in>fst ` set b. sy_resp t c \<noteq> None)" ..
    with RunCollect show ?thesis by (intro exI [of _ "fst ` set b"] exI [of _ t]) (simp add: in_flight_def replies_def image_Un)
  next
    case (RunBatch b)
    from batch_onward [OF this, of mode cap] obtain t where "onward mode cap s t \<and> sy_run t = RunSelect \<and>
      sy_reqs t = sy_reqs s \<and> (\<forall>c\<in>fst ` set b. sy_resp t c \<noteq> None)" ..
    with RunBatch show ?thesis by (intro exI [of _ "fst ` set b"] exI [of _ t]) (simp add: in_flight_def replies_def image_Un)
  next
    case (RunReply q)
    from replies_onward [OF this, of mode cap] obtain t where "onward mode cap s t \<and> sy_run t = RunSelect \<and>
      sy_reqs t = sy_reqs s \<and> (\<forall>c\<in>fst ` set q. sy_resp t c \<noteq> None)" ..
    with RunReply show ?thesis by (intro exI [of _ "fst ` set q"] exI [of _ t]) (simp add: in_flight_def replies_def image_Un)
  qed (use assms(2,3) in simp_all)
  then obtain B t where B: "onward mode cap s t" "sy_run t = RunSelect" "sy_reqs t = sy_reqs s" "\<forall>c\<in>B. sy_resp t c \<noteq> None"
    "fst ` set (in_flight s) \<subseteq> B \<union> fst ` set (sy_reqs s)" "fst ` set (replies s) \<subseteq> B" by (elim exE conjE)
  from queue_onward [OF B(2), of mode cap] obtain u where u0: "onward mode cap t u \<and> sy_run u = RunSelect \<and> sy_reqs u = [] \<and>
    (\<forall>c\<in>fst ` set (sy_reqs t). sy_resp u c \<noteq> None)" ..
  have "sy_resp u c \<noteq> None \<or> sy_done s" if "awaits (sy_client s c)" for c
  proof -
    have "sy_resp t c \<noteq> None \<or> c \<in> fst ` set (sy_reqs s) \<or> sy_done s"
      by (rule answers_pending [OF assms(1) B(1) _ B(5,6) that]) (use B(4) in blast)
    moreover have "sy_resp t c \<noteq> None \<Longrightarrow> sy_resp u c \<noteq> None" using u0 by (simp add: onward_def)
    ultimately show ?thesis using u0 B(3) by auto
  qed
  with onward_trans [OF B(1)] u0 show ?thesis by (intro exI [of _ u]) simp
qed

section \<open>A call of Submit comes back\<close>

text \<open>\<open>comes_back mode cap c p s\<close>: the call can end by the moves of the goroutine and the caller.\<close>

definition comes_back :: "FsyncMode \<Rightarrow> nat \<Rightarrow> nat \<Rightarrow> bytes \<Rightarrow> seq_sys \<Rightarrow> bool" where
  "comes_back mode cap c p s \<longleftrightarrow> (\<exists>s' r. (own_moves mode cap c)\<^sup>*\<^sup>* s s' \<and> sy_client s' = (sy_client s)(c := CReturned p r) \<and>
     (\<not> sy_done s \<longrightarrow> r \<noteq> Inl ErrClosed))"

lemma comes_backI:
  assumes "seq_step mode cap k s t" "sy_client t = (sy_client s)(c := CReturned p r)" "sy_done t = sy_done s"
    "sy_retired t = sy_retired s" "\<not> sy_done s \<Longrightarrow> r \<noteq> Inl ErrClosed"
  shows "comes_back mode cap c p s"
proof -
  have "(own_moves mode cap c)\<^sup>*\<^sup>* s t" using own_step [OF assms(1) _ assms(3,4)] assms(2) by simp
  with assms(2,5) show ?thesis unfolding comes_back_def by blast
qed

lemma comes_back_after:
  assumes "(own_moves mode cap c)\<^sup>*\<^sup>* s t" "sy_client t = (sy_client s)(c := x)" "sy_done t = sy_done s" "comes_back mode cap c p t"
  shows "comes_back mode cap c p s"
proof -
  from assms(4) obtain s' r where r: "(own_moves mode cap c)\<^sup>*\<^sup>* t s'" "sy_client s' = (sy_client t)(c := CReturned p r)"
    "\<not> sy_done t \<longrightarrow> r \<noteq> Inl ErrClosed" unfolding comes_back_def by blast
  have "sy_client s' = (sy_client s)(c := CReturned p r)" using r(2) assms(2) by simp
  with rtranclp_trans [OF assms(1) r(1)] r(3) assms(3) show ?thesis unfolding comes_back_def by auto
qed

lemma closed_comes_back:
  assumes "sy_done s" "sy_client s c = CSending p \<or> sy_client s c = CSent p \<or> sy_client s c = CWaiting p"
  shows "comes_back mode cap c p s"
proof -
  have waiting: "comes_back mode cap c p t" if "sy_client t c = CWaiting p" "sy_done t" for t
    by (rule comes_backI [OF submit_abandoned [OF that]]) (simp_all add: sy_defs that)
  consider "sy_client s c = CSending p" | r where "sy_client s c = CSent p" "sy_resp s c = Some r"
    | "sy_client s c = CSent p" "sy_resp s c = None" | "sy_client s c = CWaiting p" using assms(2) by (cases "sy_resp s c") auto
  then show ?thesis
  proof cases
    case 1
    show ?thesis by (rule comes_backI [OF submit_closed [OF 1 assms(1)]]) (simp_all add: sy_defs assms(1))
  next
    case 2
    show ?thesis by (rule comes_backI [OF submit_ready [OF 2]]) (simp_all add: sy_defs assms(1))
  next
    case 3
    let ?t = "call_goto c (CWaiting p) s"
    have "(own_moves mode cap c)\<^sup>*\<^sup>* s ?t" by (rule own_step [OF submit_default [OF 3]]) (simp_all add: sy_defs)
    then show ?thesis by (rule comes_back_after) (simp_all add: sy_defs waiting assms(1))
  qed (use waiting assms(1) in blast)
qed

lemma open_comes_back:
  assumes "pending s" "\<not> sy_done s" "sy_client s c = CSent p \<or> sy_client s c = CWaiting p"
  shows "comes_back mode cap c p s"
proof -
  have "sy_run s \<noteq> RunDrain" "sy_run s \<noteq> RunExit" using assms(1,2) by (simp_all add: pending_def)
  from drained [OF assms(1) this, of mode cap] obtain t where
    t: "onward mode cap s t" "\<forall>c. awaits (sy_client s c) \<longrightarrow> sy_resp t c \<noteq> None \<or> sy_done s" by blast
  then have same: "(own_moves mode cap c)\<^sup>*\<^sup>* s t" "sy_client t = sy_client s" "sy_done t = sy_done s"
    unfolding onward_def by (blast intro: run_own)+
  have "awaits (sy_client s c)" using assms(3) by auto
  with t(2) assms(2) obtain r where r: "sy_resp t c = Some r" by blast
  have "pending t" using queue.steps_law [OF own_seq [OF same(1)] assms(1)] .
  then have nr: "r \<noteq> Inl ErrClosed" using r same(3) assms(2) by (auto simp: pending_def)
  have "comes_back mode cap c p t"
  proof (cases "sy_client t c = CSent p")
    case True
    show ?thesis by (rule comes_backI [OF submit_ready [OF True r]]) (use nr in \<open>simp_all add: sy_defs\<close>)
  next
    case False
    then have "sy_client t c = CWaiting p" using assms(3) same(2) by simp
    then show ?thesis by (intro comes_backI [OF submit_answered [OF _ r]]) (use nr in \<open>simp_all add: sy_defs\<close>)
  qed
  from comes_back_after [OF same(1) _ same(3) this, of "sy_client s c"] show ?thesis by (simp add: same(2))
qed

text \<open>
  C9: no caller of \<^verbatim>\<open>Submit\<close> is stuck. From every state that any clients, batches, rotations and a close can lead to,
  a call that is under way can be brought to its end by steps of the goroutine's loop and of the caller alone: no
  other client moves, the sequencer is not closed on the way and nothing is rotated. As long as the sequencer is
  not closed the call ends with an answer of the goroutine.
\<close>

theorem submit_returns:
  assumes "seq_reachable mode cap f init n s" "0 < cap"
    "sy_client s c = CSending p \<or> sy_client s c = CSent p \<or> sy_client s c = CWaiting p"
  shows "\<exists>s' r. (\<lambda>s s'. \<exists>k. seq_step mode cap k s s' \<and> (\<forall>c'. c' \<noteq> c \<longrightarrow> sy_client s' c' = sy_client s c') \<and>
      sy_done s' = sy_done s \<and> sy_retired s' = sy_retired s)\<^sup>*\<^sup>* s s' \<and> sy_client s' = (sy_client s)(c := CReturned p r) \<and>
    (\<not> sy_done s \<longrightarrow> r \<noteq> Inl ErrClosed)"
  unfolding comes_back_def [symmetric]
proof (cases "sy_done s \<or> sy_client s c \<noteq> CSending p")
  case True
  then show "comes_back mode cap c p s"
    using closed_comes_back open_comes_back [OF reachable_pending [OF assms(1)]] assms(3) by blast
next
  case False
  have pend: "pending s" using reachable_pending [OF assms(1)] .
  then have "sy_run s \<noteq> RunDrain" "sy_run s \<noteq> RunExit" using False by (simp_all add: pending_def)
  from drained [OF pend this, of mode cap] obtain t where t: "onward mode cap s t" "sy_reqs t = []" by blast
  then have same: "(own_moves mode cap c)\<^sup>*\<^sup>* s t" "sy_client t = sy_client s" "sy_done t = sy_done s"
    unfolding onward_def by (blast intro: run_own)+
  let ?u = "call_goto c (CSent p) (t\<lparr>sy_reqs := sy_reqs t @ [(c, p)]\<rparr>)"
  have "sy_client t c = CSending p" "length (sy_reqs t) < cap" using False assms(2) t(2) same(2) by simp_all
  then have u: "seq_step mode cap 0 t ?u" by (rule submit_enqueue)
  have "pending ?u" using pending_step [OF u queue.steps_law [OF own_seq [OF same(1)] pend]] .
  then have "comes_back mode cap c p ?u" by (rule open_comes_back) (use same(3) False in \<open>simp_all add: sy_defs\<close>)
  moreover have "(own_moves mode cap c)\<^sup>*\<^sup>* s ?u"
    by (rule rtranclp_trans [OF same(1) own_step [OF u]]) (simp_all add: sy_defs)
  ultimately show "comes_back mode cap c p s" by (intro comes_back_after [of mode cap c s ?u "CSent p"]) (simp_all add: sy_defs same)
qed

text \<open>A client that has just begun to send.\<close>

theorem submit_returns_witness:
  "\<exists>s s' r. seq_reachable DefaultFsyncMode 1 (wal_log []) 0 0 s \<and> sy_client s 7 = CSending [5] \<and>
     (\<lambda>s s'. \<exists>k. seq_step DefaultFsyncMode 1 k s s' \<and> (\<forall>c'. c' \<noteq> 7 \<longrightarrow> sy_client s' c' = sy_client s c') \<and>
       sy_done s' = sy_done s \<and> sy_retired s' = sy_retired s)\<^sup>*\<^sup>* s s' \<and> sy_client s' 7 = CReturned [5] r \<and> r \<noteq> Inl ErrClosed"
proof -
  let ?s = "call_goto 7 (CSending [5]) (NewSequencer (wal_log []) 0)"
  have "seq_step DefaultFsyncMode 1 0 (NewSequencer (wal_log []) 0) ?s"
    by (rule submit_call) (simp add: NewSequencer_def)
  from seq_reachable.step [OF seq_reachable.start this] have s: "seq_reachable DefaultFsyncMode 1 (wal_log []) 0 0 ?s" by simp
  have at: "sy_client ?s 7 = CSending [5]" "\<not> sy_done ?s" by (simp_all add: sy_defs NewSequencer_def)
  from submit_returns [OF s, of 7 "[5]"] at obtain s' r where
    "(\<lambda>s s'. \<exists>k. seq_step DefaultFsyncMode 1 k s s' \<and> (\<forall>c'. c' \<noteq> 7 \<longrightarrow> sy_client s' c' = sy_client s c') \<and>
       sy_done s' = sy_done s \<and> sy_retired s' = sy_retired s)\<^sup>*\<^sup>* ?s s'" "sy_client s' = (sy_client ?s)(7 := CReturned [5] r)"
    "r \<noteq> Inl ErrClosed" by auto
  with s at(1) show ?thesis by (intro exI [of _ ?s] exI [of _ s'] exI [of _ r]) simp
qed

end
