(* ===== verification/CheckpointLoop.thy ===== *)
theory CheckpointLoop
  imports EngineHistory
begin

text \<open>
  Runs of \<^verbatim>\<open>checkpointLoop\<close>: the goroutine that takes checkpoints, from the moment it starts, with the
  ticks of its timer among the calls of the clients. Every event carries its time. What a run keeps is
  stated over the age of the writes that wait in the overlay. A tick is one step here, as no command
  answered during it makes its decision different; the steps of a checkpoint among those of calls are
  in \<^verbatim>\<open>EngineConc\<close>.
\<close>

section \<open>Runs\<close>

text \<open>
  A call is answered at its time. A tick has the time at which it looks at the clock and, when it
  takes a checkpoint, the time at which that has finished.
\<close>

datatype loop_event = Called int cmd | Ticked int int

fun event_time :: "loop_event \<Rightarrow> int" where
  "event_time (Called t cmd) = t"
| "event_time (Ticked now finished) = finished"

text \<open>The state is the loop's \<open>lastRun\<close> and the engine.\<close>

inductive loop_run :: "env \<Rightarrow> config \<Rightarrow> int \<times> engine \<Rightarrow> loop_event list \<Rightarrow> int \<times> engine \<Rightarrow> bool" for ev cfg st0 where
  started: "loop_run ev cfg st0 [] st0"
| called: "loop_run ev cfg st0 evs (lastRun, en) \<Longrightarrow> has_room ev en cmd \<Longrightarrow> exec ev cmd en = (en', r) \<Longrightarrow>
    loop_run ev cfg st0 (evs @ [Called t cmd]) (lastRun, en')"
| ticked: "loop_run ev cfg st0 evs st \<Longrightarrow>
    loop_run ev cfg st0 (evs @ [Ticked now finished]) (checkpointLoop_tick ev cfg now finished st)"

text \<open>The loop starts with \<open>lastRun := time.Now()\<close>, beside the engine that was opened.\<close>

definition checkpointLoop :: "env \<Rightarrow> config \<Rightarrow> int \<Rightarrow> engine \<Rightarrow> loop_event list \<Rightarrow> int \<times> engine \<Rightarrow> bool" where
  "checkpointLoop ev cfg now en evs st \<longleftrightarrow> loop_run ev cfg (now, en) evs st"

section \<open>What a command adds to the overlay\<close>

text \<open>Everything new in the overlay has a transaction of its own.\<close>

definition adds :: "engine \<Rightarrow> engine \<Rightarrow> bool" where
  "adds en en' \<longleftrightarrow> en_nextTx en \<le> en_nextTx en' \<and>
     (\<forall>kv\<in>set (en_overlay en'). kv \<in> set (en_overlay en) \<or> en_nextTx en < ov_txID (snd kv))"

lemma adds_refl [simp]: "adds en en"
  by (simp add: adds_def)

lemma adds_fields:
  "adds en en' \<Longrightarrow> en_nextTx en1 = en_nextTx en' \<Longrightarrow> set (en_overlay en1) \<subseteq> set (en_overlay en') \<Longrightarrow> adds en en1"
  by (auto simp: adds_def)

lemma adds_update [simp]:
  "adds en (en'\<lparr>en_classes := cs\<rparr>) \<longleftrightarrow> adds en en'" "adds en (en'\<lparr>en_idgen := g\<rparr>) \<longleftrightarrow> adds en en'"
  "adds (en\<lparr>en_idgen := g\<rparr>) en' \<longleftrightarrow> adds en en'"
  by (simp_all add: adds_def)

lemma set_update_subset: "set (AList.update k v al) \<subseteq> insert (k, v) (set al)"
  by (induction al) auto

lemma adds_publish:
  assumes "adds en en'" "en_nextTx en < tx"
  shows "adds en (publish e b tx en')"
  using assms set_update_subset [of "e_Key e" "\<lparr>ov_txID = tx, ov_data = e_Data e, ov_deleted = b\<rparr>" "en_overlay en'"]
  by (fastforce simp: adds_def publish_def)

lemma adds_publish_fold:
  "adds en en' \<Longrightarrow> en_nextTx en < tx \<Longrightarrow> adds en (fold (\<lambda>s. publish s b tx) subs en')"
  by (induction subs arbitrary: en') (simp_all add: adds_publish)

lemma seq_Submit_adds:
  assumes "ev_ok ev" "en_open en" "tx_left en" "seq_Submit ev p en = (en', r)"
  shows "adds en en' \<and> (\<forall>tx. r = Inr tx \<longrightarrow> en_nextTx en < tx)"
proof -
  from tx_left_less [OF assms(3)] have "en_nextTx en < en_nextTx en + 1" .
  then show ?thesis using assms(4) by (auto simp: seq_Submit_ok [OF assms(1,2)] adds_def split: if_splits)
qed

lemma submit_adds:
  assumes "ev_ok ev" "en_open en" "tx_left en" "submit ev e del en = (en', r)"
  shows "adds en en'"
proof (cases "cd_marshal (ev_codec ev) (with_timestamp e (ev_now ev))")
  case (Inr p)
  obtain en1 r1 where s: "seq_Submit ev p en = (en1, r1)" by (cases "seq_Submit ev p en")
  from seq_Submit_adds [OF assms(1-3) s] assms(4) Inr s show ?thesis
    by (auto simp: submit_def submit_log_def adds_publish split: sum.splits)
qed (use assms(4) in \<open>simp add: submit_def submit_log_def\<close>)

lemma Checkpoint_adds: "Checkpoint ev en = (en', r) \<Longrightarrow> adds en en'"
  by (auto simp: Checkpoint_def adds_def prune_def Let_def split: if_splits prod.splits sum.splits)

lemma Bulk_adds:
  assumes "ev_ok ev" "en_open en" "tx_left en" "CreateObjectsBulk ev p c vs en = (en', r)"
  shows "adds en en'"
proof -
  obtain subs g where b: "bulk_subs (ev_now ev) p c vs (en_idgen en) = (subs, g)"
    by (cases "bulk_subs (ev_now ev) p c vs (en_idgen en)")
  let ?en = "en\<lparr>en_idgen := g\<rparr>"
  have seq: "adds en en1 \<and> (\<forall>tx. r1 = Inr tx \<longrightarrow> en_nextTx en < tx)" if "seq_Submit ev q ?en = (en1, r1)" for q en1 r1
    using seq_Submit_adds [OF assms(1) _ _ that] assms(2,3) by (simp add: tx_left_def)
  show ?thesis
    using assms(4) b seq by (auto simp: CreateObjectsBulk_def Let_def adds_publish_fold split: if_splits prod.splits sum.splits)
qed

lemma exec_adds:
  assumes "ev_ok ev" "en_open en" "tx_left en" "exec ev cmd en = (en', r)"
  shows "adds en en'"
proof -
  have sub: "adds en en1" if "submit ev e del en = (en1, r1)" for e del en1 r1
    using submit_adds [OF assms(1-3) that] .
  have sub': "adds en en1" if "submit ev e del (en\<lparr>en_idgen := g\<rparr>) = (en1, r1)" for e del g en1 r1
    using submit_adds [OF assms(1) _ _ that] assms(2,3) by (simp add: tx_left_def)
  show ?thesis
  proof (cases cmd)
    case (Cmd_Create p c v)
    with assms(4) sub' show ?thesis
      by (auto simp: reply_with_def CreateObject_def split: if_splits prod.splits sum.splits)
  next
    case (Cmd_Bulk p c vs)
    obtain en1 r1 where "CreateObjectsBulk ev p c vs en = (en1, r1)" by (cases "CreateObjectsBulk ev p c vs en")
    with Bulk_adds [OF assms(1-3) this] assms(4) Cmd_Bulk show ?thesis by (simp add: reply_with_def)
  next
    case Cmd_Checkpoint
    obtain en1 r1 where "Checkpoint ev en = (en1, r1)" by (cases "Checkpoint ev en")
    with Checkpoint_adds [OF this] assms(4) Cmd_Checkpoint show ?thesis by (simp add: reply_with_def)
  qed (use assms(4) sub in \<open>auto simp: reply_with_def CreateClass_def DropClass_def PutObject_def DeleteObject_def
      split: if_splits prod.splits sum.splits option.splits list.splits\<close>)
qed

lemma exec_grows_represents:
  assumes "represents ev en d" "ev_ok ev" "has_room ev en cmd" "exec ev cmd en = (en', r)"
  shows "adds en en'"
  using assms exec_adds by (auto simp: represents_def stores_def stores_st_def has_room_def room_def)

section \<open>What every run keeps\<close>

lemma run_represents:
  assumes "loop_run ev cfg st0 evs st" "represents ev (snd st0) d0" "ev_ok ev"
  shows "\<exists>d. represents ev (snd st) d"
  using assms(1)
proof induction
  case (called evs lastRun en cmd en' r t)
  then obtain d where d: "represents ev en d" by auto
  then have "refines ev cmd d (exec ev cmd en)"
    using called.hyps(2) assms(3) by (intro exec_refines) (auto simp: has_room_def)
  with called.hyps(3) show ?case by (auto simp: refines_def)
next
  case (ticked evs st now finished)
  then obtain d where d: "represents ev (snd st) d" by blast
  from Checkpoint_represents [OF d] obtain en1 where
    "Checkpoint ev (snd st) = (en1, Inr ())" "represents ev en1 d" by blast
  with d show ?case by (cases st) (auto simp: checkpointLoop_tick_def)
qed (use assms(2) in blast)

text \<open>The tick, with a disk that does not fail.\<close>

lemma tick_law:
  assumes "represents ev en d" "checkpointLoop_tick ev cfg now finished (lastRun, en) = (lastRun', en')"
  shows "represents ev en' d \<and>
    (if checkpoint_due cfg (now - lastRun) en
     then lastRun' = finished \<and> en_overlay en' = [] \<and> fs_get (en_dir en') walName = Some []
     else lastRun' = lastRun \<and> en' = en)"
proof -
  from Checkpoint_represents [OF assms(1)] obtain en1 where
    "Checkpoint ev en = (en1, Inr ())" "represents ev en1 d" "en_overlay en1 = []" "fs_get (en_dir en1) walName = Some []"
    by blast
  with assms show ?thesis by (auto simp: checkpointLoop_tick_def)
qed

text \<open>\<open>lastRun\<close> is the start or the end of an earlier tick.\<close>

lemma run_lastRun:
  assumes "loop_run ev cfg st0 evs st" "fst st0 \<le> b" "\<forall>e\<in>set evs. event_time e \<le> b"
  shows "fst st \<le> b"
  using assms
proof (induction)
  case (ticked evs st now finished)
  then show ?case
    by (cases st) (auto simp: checkpointLoop_tick_def split: prod.split sum.split)
qed auto

text \<open>As long as no checkpoint has been taken since \<open>b\<close>, \<open>lastRun\<close> says so; one that has been taken has
  emptied the overlay of what was there.\<close>

definition flushed_since :: "int \<Rightarrow> u64 \<Rightarrow> int \<times> engine \<Rightarrow> bool" where
  "flushed_since b tx st \<longleftrightarrow> tx \<le> en_nextTx (snd st) \<and>
     (fst st \<le> b \<or> (\<forall>kv\<in>set (en_overlay (snd st)). tx < ov_txID (snd kv)))"

lemma flushed_adds: "flushed_since b tx (lr, en) \<Longrightarrow> adds en en' \<Longrightarrow> flushed_since b tx (lr, en')"
  unfolding flushed_since_def adds_def by (auto intro: order_trans dest: le_less_trans)

lemma run_flushed:
  assumes "loop_run ev cfg st0 evs st" "represents ev (snd st0) d0" "ev_ok ev" "fst st0 \<le> b"
  shows "flushed_since b (en_nextTx (snd st0)) st"
  using assms(1)
proof (induction)
  case started
  with assms(4) show ?case by (simp add: flushed_since_def)
next
  case (called evs lastRun en cmd en' r t)
  from run_represents [OF called.hyps(1) assms(2,3)] obtain d where "represents ev en d" by auto
  from exec_grows_represents [OF this assms(3) called.hyps(2,3)] called.IH show ?case by (rule flushed_adds [rotated])
next
  case (ticked evs st now finished)
  from run_represents [OF ticked.hyps(1) assms(2,3)] obtain d where d: "represents ev (snd st) d" by blast
  obtain lr en lr' en' where e: "st = (lr, en)" "checkpointLoop_tick ev cfg now finished st = (lr', en')"
    by (metis surj_pair)
  from Checkpoint_represents [OF d] obtain en1 where
    c: "Checkpoint ev en = (en1, Inr ())" "en_overlay en1 = []" unfolding e(1) by auto
  from Checkpoint_adds [OF c(1)] c e ticked.IH show ?case
    by (auto simp: checkpointLoop_tick_def flushed_since_def adds_def split: if_splits)
qed

text \<open>
  C20: the loop bounds what a recovery has to replay and how long a write waits for the data file. In
  every run of the loop from its start at \<open>start\<close>, after every tick: the log is shorter than the threshold
  of the configuration, as the engine completes it; and when the events up to some state of the run,
  and the start, are an interval or more before the tick, nothing that was acknowledged, or replayed at
  the start, by then is still in the overlay: every transaction left there is a later one. The tick
  leaves the database as it is.
\<close>

theorem checkpoint_loop_bounds:
  fixes cfg :: config
  defines "c \<equiv> withDefaults cfg"
  assumes "represents ev en0 d0" "ev_ok ev"
    and "checkpointLoop ev c start en0 evs1 (lastRun1, en1)" "loop_run ev c (lastRun1, en1) evs2 (lastRun, en)"
    and "checkpointLoop_tick ev c now finished (lastRun, en) = (lastRun', en')"
  shows "(\<forall>d. represents ev en d \<longrightarrow> represents ev en' d) \<and>
    int (length (fs_contents (en_dir en') walName)) < cf_CheckpointWALBytes c \<and>
    (start \<le> now - cf_CheckpointInterval c \<and> (\<forall>e\<in>set evs1. event_time e \<le> now - cf_CheckpointInterval c) \<longrightarrow>
      (\<forall>(k, ov)\<in>set (en_overlay en'). en_nextTx en1 < ov_txID ov))"
proof (intro conjI impI)
  from run_represents [OF assms(4) [unfolded checkpointLoop_def]] assms(2,3) obtain d1 where d1: "represents ev en1 d1" by auto
  with run_represents [OF assms(5) _ assms(3)] obtain d where d: "represents ev en d" by auto
  note tick = tick_law [OF _ assms(6)]
  have pos: "0 < cf_CheckpointWALBytes c" by (simp add: c_def withDefaults_def Let_def)
  show "\<forall>d. represents ev en d \<longrightarrow> represents ev en' d" using tick by blast
  show "int (length (fs_contents (en_dir en') walName)) < cf_CheckpointWALBytes c"
    using tick [OF d] pos by (auto simp: checkpoint_due_def Let_def fs_contents_def split: if_splits)
  assume b: "start \<le> now - cf_CheckpointInterval c \<and> (\<forall>e\<in>set evs1. event_time e \<le> now - cf_CheckpointInterval c)"
  with run_lastRun [OF assms(4) [unfolded checkpointLoop_def]] have "lastRun1 \<le> now - cf_CheckpointInterval c" by simp
  with run_flushed [OF assms(5) _ assms(3), of d1] d1 have
    "flushed_since (now - cf_CheckpointInterval c) (en_nextTx en1) (lastRun, en)" by simp
  with tick [OF d] show "\<forall>(k, ov)\<in>set (en_overlay en'). en_nextTx en1 < ov_txID ov"
    by (auto simp: flushed_since_def checkpoint_due_def Let_def split: if_splits)
qed

theorem checkpoint_loop_bounds_witness:
  "\<exists>en0 en lastRun' en'. let c = withDefaults \<lparr>cf_CheckpointWALBytes = 0, cf_CheckpointInterval = 5, cf_QueueDepth = 0\<rparr> in
     checkpointLoop sample_env c 0 en0
       [Called 1 (Cmd_CreateClass [] sample_class), Called 2 (Cmd_Create [] sample_class [3])] (0, en) \<and>
     en_overlay en \<noteq> [] \<and> checkpointLoop_tick sample_env c 9 10 (0, en) = (lastRun', en') \<and>
     represents sample_env en' (object_db [3]) \<and>
     int (length (fs_contents (en_dir en') walName)) < 67108864 \<and> (\<forall>(k, ov)\<in>set (en_overlay en'). 2 < ov_txID ov)"
proof -
  let ?cfg = "\<lparr>cf_CheckpointWALBytes = 0, cf_CheckpointInterval = 5, cf_QueueDepth = 0\<rparr>"
  let ?c = "withDefaults ?cfg" and ?c1 = "Cmd_CreateClass [] sample_class" and ?c2 = "Cmd_Create [] sample_class [3]"
  have c: "cf_CheckpointWALBytes ?c = 67108864" "cf_CheckpointInterval ?c = 5" by (simp_all add: withDefaults_def Let_def)
  from sample_boot obtain en0 where b: "at en0 Map.empty 0 gen_New" by blast
  from sample_create_class [OF b] obtain en1 where
    e1: "exec sample_env ?c1 en0 = (en1, Inr RUnit)" "at en1 class_db 1 gen_New" by blast
  from sample_create [OF e1(2), of "[3]"] obtain en2 where
    e2: "exec sample_env ?c2 en1 = (en2, Inr (RId 1))" "at en2 (object_db [3]) 2 (gen_New(ScopeKey [] sample_class \<mapsto> 1))"
    by auto
  from e2(2) have rep: "represents sample_env en2 (object_db [3])" "en_nextTx en2 = 2" "snap_holds 9 (en_snap en2) []"
    by (simp_all add: at_def)
  have some: "en_overlay en2 \<noteq> []"
  proof
    assume "en_overlay en2 = []"
    then have "en_lookup sample_env en2 (ObjectKey [] sample_class 1) = Inr None"
      using snap_holds_Get [OF rep(3)] by (simp add: en_lookup_def)
    with lookup_law [OF representsD(1) [OF rep(1)]] show False by (simp add: object_db_def ClassKey_neq_ObjectKey split: if_splits)
  qed
  have "loop_run sample_env ?c (0, en0) ([] @ [Called 1 ?c1]) (0, en1)"
    by (rule loop_run.called [OF loop_run.started sample_has_room(1) [OF b] e1(1)])
  from loop_run.called [OF this sample_has_room(2) [OF e1(2)] e2(1)]
  have run: "checkpointLoop sample_env ?c 0 en0 [Called 1 ?c1, Called 2 ?c2] (0, en2)"
    by (simp add: checkpointLoop_def)
  obtain lastRun' en' where t: "checkpointLoop_tick sample_env ?c 9 10 (0, en2) = (lastRun', en')"
    by (cases "checkpointLoop_tick sample_env ?c 9 10 (0, en2)")
  have "represents sample_env en0 Map.empty" using b by (simp add: at_def)
  from checkpoint_loop_bounds [OF this sample_env_ok run loop_run.started t] rep(1,2) c
  have "represents sample_env en' (object_db [3])" "int (length (fs_contents (en_dir en') walName)) < 67108864"
    "\<forall>(k, ov)\<in>set (en_overlay en'). 2 < ov_txID ov" by simp_all
  with run some t show ?thesis unfolding Let_def by blast
qed

end
