(* ===== verification/EngineConc.thy ===== *)
theory EngineConc
  imports EngineHistory
begin

text \<open>
  The engine with its callers and its checkpoint at work at the same time. A write is two steps, the
  sequencer's and the overlay's; a checkpoint is five; a read looks at the overlay and, later, at a
  snapshot. Steps of any number of writers, of readers and of a checkpoint interleave. As long as writes
  to one key do not overlap, a read of a key that is not being written gives the last write to it in the
  log. Where they do overlap it need not (\<open>publish_race\<close>).
\<close>

section \<open>The checkpoint in its steps\<close>

text \<open>
  Where the one checkpoint is, with the generation it builds and the highest transaction that is
  folded in: none is running; the log is rotated; the generation is published; readers have been
  pointed at it; the retired log and the old files are gone.
\<close>

datatype ck_pc = CkIdle | CkRotated u64 | CkBuilt u64 u64 | CkSwapped u64 u64 | CkDropped u64 u64

text \<open>The steps on the directory that come next, and what else changes.\<close>

fun ck_step :: "env \<Rightarrow> ck_pc \<Rightarrow> engine \<Rightarrow> ck_pc \<times> fs_step list \<times> engine" where
  "ck_step ev CkIdle en =
     (if \<not> en_open en then (CkIdle, [], en)
      else case ReadCurrent (en_dir en) of
        Inl e \<Rightarrow> (CkIdle, [], en)
      | Inr g \<Rightarrow> (CkRotated g, rotate_steps walName RetiredWALName, en))"
| "ck_step ev (CkRotated g) en =
     (case BuildGeneration (ev_codec ev) (ev_fuel ev) (en_dir en) g (g + 1) RetiredWALName of
        (steps, Inl e) \<Rightarrow> (CkIdle, steps, en)
      | (steps, Inr folded) \<Rightarrow> (CkBuilt (g + 1) folded, steps, en))"
| "ck_step ev (CkBuilt g folded) en =
     (case openSnapshot (fs_contents (en_dir en) (DataFile g)) of
        Inl e \<Rightarrow> (CkIdle, [], en)
      | Inr snap \<Rightarrow> (CkSwapped g folded, [], en\<lparr>en_snap := snap\<rparr>))"
| "ck_step ev (CkSwapped g folded) en =
     (case cleanupOldGenerations (fs_del RetiredWALName (en_dir en)) g of
        Inl e \<Rightarrow> (CkIdle, [FRemove RetiredWALName], en)
      | Inr steps \<Rightarrow> (CkDropped g folded, FRemove RetiredWALName # steps, en))"
| "ck_step ev (CkDropped g folded) en =
     (let en = prune g folded en in (CkIdle, [], en\<lparr>en_checkpoints := en_checkpoints en + 1\<rparr>))"

definition ck_do :: "env \<Rightarrow> ck_pc \<times> engine \<Rightarrow> ck_pc \<times> engine" where
  "ck_do ev x =
     (case x of (pc, en) \<Rightarrow>
        case ck_step ev pc en of (pc, steps, en') \<Rightarrow> (pc, en'\<lparr>en_dir := fs_run steps (en_dir en)\<rparr>))"

text \<open>Its five steps on end are \<^verbatim>\<open>Checkpoint\<close>.\<close>

lemma checkpoint_steps:
  assumes "Checkpoint ev en = (en', Inr ())"
  shows "(ck_do ev ^^ 5) (CkIdle, en) = (CkIdle, en')"
proof -
  let ?s1 = "rotate_steps walName RetiredWALName"
  from assms obtain g s2 folded snap s4 where
    c: "en_open en" "ReadCurrent (en_dir en) = Inr g"
      "BuildGeneration (ev_codec ev) (ev_fuel ev) (fs_run ?s1 (en_dir en)) g (g + 1) RetiredWALName = (s2, Inr folded)"
      "openSnapshot (fs_contents (fs_run (?s1 @ s2) (en_dir en)) (DataFile (g + 1))) = Inr snap"
      "cleanupOldGenerations (fs_run (?s1 @ s2 @ [FRemove RetiredWALName]) (en_dir en)) (g + 1) = Inr s4"
    and en': "en' = (let en = prune (g + 1) folded (en\<lparr>en_dir :=
        fs_run (?s1 @ s2 @ [FRemove RetiredWALName] @ s4) (en_dir en), en_snap := snap\<rparr>)
      in en\<lparr>en_checkpoints := en_checkpoints en + 1\<rparr>)"
    by (auto simp: Checkpoint_def checkpoint_Run_def Let_def split: if_splits sum.splits prod.splits)
  from c(3-5) show ?thesis
    by (simp add: eval_nat_numeral ck_do_def c(1,2) en' Let_def prune_def fs_run_append)
qed

section \<open>Writers\<close>

text \<open>
  The engine, its checkpoint, the writers between their log record and the overlay, each with the
  mutations of its record and their transaction, and the entries of the log so far.
\<close>

record conc =
  cn_en :: engine
  cn_ck :: ck_pc
  cn_writers :: "nat \<Rightarrow> (WALEntry list \<times> u64) option"
  cn_log :: "WALEntry list"

abbreviation keys_of :: "WALEntry list \<Rightarrow> bytes set" where
  "keys_of subs \<equiv> e_Key ` set subs"

definition busy :: "conc \<Rightarrow> bytes \<Rightarrow> bool" where
  "busy s k \<longleftrightarrow> (\<exists>w subs tx. cn_writers s w = Some (subs, tx) \<and> k \<in> keys_of subs)"

text \<open>There is room for the entry, and nobody is writing one of its keys.\<close>

definition can_log :: "env \<Rightarrow> conc \<Rightarrow> WALEntry \<Rightarrow> bool" where
  "can_log ev s e \<longleftrightarrow> tx_left (cn_en s) \<and> (\<forall>x\<in>set (e_Flatten e). sub_ok x \<and> \<not> busy s (e_Key x)) \<and>
     (\<forall>d. dir_db_of ds_ok (ev_codec ev) (ev_fuel ev) (en_dir (cn_en s)) d \<longrightarrow> db_ok (ev_fuel ev) (entry_apply e d))"

inductive conc_step :: "env \<Rightarrow> conc \<Rightarrow> conc \<Rightarrow> bool" for ev where
  logged: "cn_writers s w = None \<Longrightarrow> can_log ev s e \<Longrightarrow> cd_marshal (ev_codec ev) e = Inr p \<Longrightarrow>
    seq_Submit ev p (cn_en s) = (en, Inr tx) \<Longrightarrow>
    conc_step ev s (s\<lparr>cn_en := en, cn_writers := (cn_writers s)(w \<mapsto> (e_Flatten e, tx)), cn_log := cn_log s @ [e]\<rparr>)"
| refused: "tx_left (cn_en s) \<Longrightarrow> seq_Submit ev p (cn_en s) = (en, Inl err) \<Longrightarrow> conc_step ev s (s\<lparr>cn_en := en\<rparr>)"
| published: "cn_writers s w = Some (subs, tx) \<Longrightarrow>
    conc_step ev s (s\<lparr>cn_en := publish_all subs tx (cn_en s), cn_writers := (cn_writers s)(w := None)\<rparr>)"
| ck_moves: "ck_do ev (cn_ck s, cn_en s) = (pc, en) \<Longrightarrow> conc_step ev s (s\<lparr>cn_en := en, cn_ck := pc\<rparr>)"

inductive_cases conc_stepE: "conc_step ev s s'"

definition conc_start :: "engine \<Rightarrow> conc" where
  "conc_start en = \<lparr>cn_en = en, cn_ck = CkIdle, cn_writers = (\<lambda>_. None), cn_log = []\<rparr>"

text \<open>The two steps of a writer are what the handlers' calls do.\<close>

lemma submit_publish:
  "submit_log ev e en = (en1, Inr tx) \<Longrightarrow> submit ev e (deletes e) en = (publish_all [e] tx en1, Inr tx)"
  by (simp add: submit_def)

lemma bulk_publish:
  "\<forall>s\<in>set subs. e_Op s = OpPut \<Longrightarrow> fold (\<lambda>s. publish s False tx) subs en = publish_all subs tx en"
  by (induction subs arbitrary: en) (auto simp: deletes_def op_defs)

text \<open>A read that looks at the overlay in one state and takes its snapshot in another.\<close>

definition lookup_split :: "env \<Rightarrow> engine \<Rightarrow> engine \<Rightarrow> bytes \<Rightarrow> bytes option res" where
  "lookup_split ev en1 en2 key =
     (case map_of (en_overlay en1) key of
        Some ov \<Rightarrow> if ov_deleted ov then Inr None else Inr (Some (ov_data ov))
      | None \<Rightarrow> snap_Get (ev_fuel ev) (en_snap en2) key)"

lemma lookup_split_same: "en_lookup ev en k = lookup_split ev en en k"
  by (simp add: en_lookup_def lookup_split_def)

section \<open>The invariant\<close>

lemma fold_sub_other: "k \<notin> keys_of subs \<Longrightarrow> fold sub_apply subs d k = d k"
  by (induction subs arbitrary: d) (auto simp: sub_apply_def)

text \<open>What a list of mutations leaves in a key it writes does not depend on what was there.\<close>

lemma fold_sub_same: "k \<in> keys_of subs \<Longrightarrow> fold sub_apply subs d k = fold sub_apply subs d' k"
proof (induction subs arbitrary: d d')
  case (Cons s subs)
  show ?case
  proof (cases "k \<in> keys_of subs")
    case True
    then show ?thesis using Cons.IH [of "sub_apply s d" "sub_apply s d'"] by simp
  next
    case False
    with Cons.prems have "k = e_Key s" by auto
    with False show ?thesis by (simp add: fold_sub_other) (simp add: sub_apply_def)
  qed
qed simp

lemma publish_all_other: "k \<notin> keys_of subs \<Longrightarrow> map_of (en_overlay (publish_all subs tx en)) k = map_of (en_overlay en) k"
  by (induction subs arbitrary: en) (auto simp: publish_def update_conv')

lemma publish_all_tx:
  "k \<in> keys_of subs \<Longrightarrow> \<exists>v. map_of (en_overlay (publish_all subs tx en)) k = Some v \<and> ov_txID v = tx"
proof (induction subs arbitrary: en)
  case (Cons s subs)
  show ?case
  proof (cases "k \<in> keys_of subs")
    case False
    with Cons.prems have "k = e_Key s" by auto
    with publish_all_other [OF False] show ?thesis by (simp add: publish_def update_conv')
  qed (use Cons.IH in simp)
qed simp

lemma publish_all_distinct:
  "distinct (map fst (en_overlay en)) \<Longrightarrow> distinct (map fst (en_overlay (publish_all subs tx en)))"
  by (induction subs arbitrary: en) (simp_all add: publish_def distinct_update)

text \<open>What the directory and the snapshot, with the contents \<open>base\<close>, are at each point of a checkpoint.\<close>

fun ck_ok :: "ck_pc \<Rightarrow> fs \<Rightarrow> dir_state \<Rightarrow> db \<Rightarrow> bool" where
  "ck_ok CkIdle fs st base \<longleftrightarrow> fs_get fs RetiredWALName = None"
| "ck_ok (CkRotated g) fs st base \<longleftrightarrow> g = ds_gen st \<and> fs_get fs RetiredWALName \<noteq> None"
| "ck_ok (CkBuilt g folded) fs st base \<longleftrightarrow>
     g = ds_gen st \<and> folded = ds_mid st \<and> ds_retired st = [] \<and> ds_mid st = ds_applied st"
| "ck_ok (CkSwapped g folded) fs st base \<longleftrightarrow>
     g = ds_gen st \<and> folded = ds_mid st \<and> ds_retired st = [] \<and> ds_mid st = ds_applied st \<and> base = map_of (ds_kvs st)"
| "ck_ok (CkDropped g folded) fs st base \<longleftrightarrow>
     g = ds_gen st \<and> folded = ds_mid st \<and> ds_retired st = [] \<and> base = map_of (ds_kvs st) \<and>
     fs_get fs RetiredWALName = None"

text \<open>
  The value of a key is settled below a transaction: with the transaction folded in, the value in the
  database is the one that is folded in.
\<close>

definition settled :: "dir_state \<Rightarrow> u64 \<Rightarrow> bytes \<Rightarrow> bool" where
  "settled st tx k \<longleftrightarrow> (tx \<le> ds_mid st \<longrightarrow> ds_db st k = ds_folded st k)"

definition key_seen :: "dir_state \<Rightarrow> overlay \<Rightarrow> db \<Rightarrow> bytes \<Rightarrow> bool" where
  "key_seen st ov base k \<longleftrightarrow> overlay_view ov base k = ds_db st k \<and>
     settled st (case map_of ov k of None \<Rightarrow> 0 | Some v \<Rightarrow> ov_txID v) k"

definition writer_ok :: "dir_state \<Rightarrow> WALEntry list \<times> u64 \<Rightarrow> bool" where
  "writer_ok st x \<longleftrightarrow> (\<forall>k\<in>keys_of (fst x). ds_db st k = fold sub_apply (fst x) Map.empty k \<and> settled st (snd x) k)"

definition engine_at :: "env \<Rightarrow> engine \<Rightarrow> dir_state \<Rightarrow> bytes \<Rightarrow> (bytes \<times> bytes) list \<Rightarrow> bool" where
  "engine_at ev en st wl kvs \<longleftrightarrow>
     dir_has (ev_codec ev) (ev_fuel ev) (en_dir en) st \<and> ds_ok st \<and> fs_get (en_dir en) walName = Some wl \<and>
     clean_log wl \<and> ds_last st \<le> en_nextTx en \<and> en_open en \<and> snap_holds (ev_fuel ev) (en_snap en) kvs \<and>
     distinct (map fst (en_overlay en))"

definition conc_inv :: "env \<Rightarrow> db \<Rightarrow> conc \<Rightarrow> bool" where
  "conc_inv ev d0 s \<longleftrightarrow> (\<exists>st wl kvs.
     engine_at ev (cn_en s) st wl kvs \<and> ck_ok (cn_ck s) (en_dir (cn_en s)) st (map_of kvs) \<and>
     ds_db st = fold entry_apply (cn_log s) d0 \<and>
     (\<forall>k. \<not> busy s k \<longrightarrow> key_seen st (en_overlay (cn_en s)) (map_of kvs) k) \<and>
     (\<forall>w x. cn_writers s w = Some x \<longrightarrow> writer_ok st x))"

lemma conc_invI:
  assumes "engine_at ev (cn_en s) st wl kvs" "ck_ok (cn_ck s) (en_dir (cn_en s)) st (map_of kvs)"
    "ds_db st = fold entry_apply (cn_log s) d0"
    "\<And>k. \<not> busy s k \<Longrightarrow> key_seen st (en_overlay (cn_en s)) (map_of kvs) k"
    "\<And>w x. cn_writers s w = Some x \<Longrightarrow> writer_ok st x"
  shows "conc_inv ev d0 s"
  unfolding conc_inv_def using assms by blast

lemma conc_invE:
  assumes "conc_inv ev d0 s"
  obtains st wl kvs where "engine_at ev (cn_en s) st wl kvs" "ck_ok (cn_ck s) (en_dir (cn_en s)) st (map_of kvs)"
    "ds_db st = fold entry_apply (cn_log s) d0"
    "\<And>k. \<not> busy s k \<Longrightarrow> key_seen st (en_overlay (cn_en s)) (map_of kvs) k"
    "\<And>w x. cn_writers s w = Some x \<Longrightarrow> writer_ok st x"
  using assms unfolding conc_inv_def by blast

text \<open>A state of the directory that agrees on the database and on what is folded in, and is not behind.\<close>

lemma settled_cong:
  "settled st tx k \<Longrightarrow> ds_db st' k = ds_db st k \<Longrightarrow> ds_folded st' k = ds_folded st k \<Longrightarrow> ds_mid st' = ds_mid st \<Longrightarrow>
   settled st' tx k"
  by (simp add: settled_def)

lemma busyI: "cn_writers s w = Some x \<Longrightarrow> k \<in> keys_of (fst x) \<Longrightarrow> busy s k"
  by (cases x) (auto simp: busy_def)

lemma busy_log:
  assumes "cn_writers s w = None" "cn_writers s' = (cn_writers s)(w \<mapsto> x)"
  shows "busy s' k \<longleftrightarrow> k \<in> keys_of (fst x) \<or> busy s k"
proof
  assume "k \<in> keys_of (fst x) \<or> busy s k"
  then show "busy s' k"
  proof
    assume "k \<in> keys_of (fst x)"
    then have "cn_writers s' w = Some (fst x, snd x) \<and> k \<in> keys_of (fst x)" by (simp add: assms(2))
    then show ?thesis unfolding busy_def by blast
  next
    assume "busy s k"
    then obtain v subs tx where v: "cn_writers s v = Some (subs, tx)" "k \<in> keys_of subs" by (auto simp: busy_def)
    with assms have "cn_writers s' v = Some (subs, tx)" by auto
    with v(2) show ?thesis unfolding busy_def by blast
  qed
qed (auto simp: busy_def assms(2) split: if_splits)

lemma start_inv:
  assumes "represents ev en d0"
  shows "conc_inv ev d0 (conc_start en)"
proof -
  from assms obtain st wl where st: "stores_st (ev_codec ev) (ev_fuel ev) en st wl" "ds_db st = d0"
    by (auto simp: represents_def stores_def)
  then have s: "dir_has (ev_codec ev) (ev_fuel ev) (en_dir en) st" "fs_get (en_dir en) RetiredWALName = None"
    "overlay_view (en_overlay en) (map_of (ds_kvs st)) = ds_db st"
    "overlay_ok (ds_applied st) (ds_last st) (en_overlay en)" by (simp_all add: stores_st_def)
  note nr = dir_has_no_retired [OF s(1,2)]
  have folded: "ds_folded st = map_of (ds_kvs st)" using nr by (simp add: ds_folded_def)
  have "key_seen st (en_overlay en) (map_of (ds_kvs st)) k" for k
  proof (cases "map_of (en_overlay en) k")
    case None
    then show ?thesis using fun_cong [OF s(3), of k] folded by (simp add: key_seen_def settled_def overlay_view_def)
  next
    case (Some v)
    then have "ds_mid st < ov_txID v" using s(4) nr map_of_SomeD [OF Some] by (auto simp: overlay_ok_def)
    then show ?thesis using s(3) Some by (auto simp: key_seen_def settled_def)
  qed
  then show ?thesis
    using st s(2) by (intro conc_invI [where st = st and wl = wl and kvs = "ds_kvs st"])
      (simp_all add: conc_start_def engine_at_def stores_st_def overlay_ok_def)
qed

lemma logged_inv:
  assumes "conc_inv ev d0 s" "ev_ok ev" "cn_writers s w = None" "can_log ev s e"
    "cd_marshal (ev_codec ev) e = Inr p" "seq_Submit ev p (cn_en s) = (en, Inr tx)"
  shows "conc_inv ev d0
    (s\<lparr>cn_en := en, cn_writers := (cn_writers s)(w \<mapsto> (e_Flatten e, tx)), cn_log := cn_log s @ [e]\<rparr>)" (is "conc_inv ev d0 ?s")
proof -
  from assms(1) obtain st wl kvs where
    at: "engine_at ev (cn_en s) st wl kvs" and ck: "ck_ok (cn_ck s) (en_dir (cn_en s)) st (map_of kvs)"
    and db: "ds_db st = fold entry_apply (cn_log s) d0"
    and seen: "\<And>k. \<not> busy s k \<Longrightarrow> key_seen st (en_overlay (cn_en s)) (map_of kvs) k"
    and ws: "\<And>w x. cn_writers s w = Some x \<Longrightarrow> writer_ok st x"
    by (elim conc_invE) blast
  from assms(4) have e: "tx_left (cn_en s)" "\<forall>x\<in>set (e_Flatten e). sub_ok x \<and> \<not> busy s (e_Key x)"
    by (simp_all add: can_log_def)
  then have idle: "\<forall>k\<in>keys_of (e_Flatten e). \<not> busy s k" by simp
  have st: "dir_has (ev_codec ev) (ev_fuel ev) (en_dir (cn_en s)) st" "ds_ok st" "fs_get (en_dir (cn_en s)) walName = Some wl"
    "clean_log wl" "ds_last st \<le> en_nextTx (cn_en s)" "en_open (cn_en s)" using at by (simp_all add: engine_at_def)
  have room: "db_ok (ev_fuel ev) (entry_apply e (ds_db st))"
    using assms(4) st(1,2) by (auto simp: can_log_def dir_db_of_def)
  have len: "length p \<le> MaxRecordLen" and tx: "tx = en_nextTx (cn_en s) + 1"
    and en: "en = (cn_en s)\<lparr>en_nextTx := tx, en_dir := fs_put walName (wl @ wal_record tx p) (en_dir (cn_en s))\<rparr>"
    using assms(6) seq_Submit_ok [OF assms(2) st(6), of p] st(3) by (auto simp: fs_contents_def split: if_splits)
  have less: "ds_last st < tx" using st(5) tx_left_less [OF e(1)] by (simp add: tx)
  then have mid: "ds_mid st < tx" using dir_has_le [OF st(1)] by (auto intro: order_le_less_trans)
  have dec: "cd_unmarshal (ev_codec ev) p = Inr e" using assms(2,5) by (auto simp: ev_ok_def codec_law_def split: sum.splits)
  let ?st = "ds_commit st tx e"
  from append_law [OF st(1,3,4) len dec less room] have
    app: "dir_has (ev_codec ev) (ev_fuel ev) (en_dir en) ?st" "clean_log (wl @ wal_record tx p)"
    using st(3) by (simp_all add: en fs_contents_def)
  have mid': "ds_mid ?st = ds_mid st" by (simp add: ds_commit_def)
  have other: "ds_db ?st k = ds_db st k" if "k \<notin> keys_of (e_Flatten e)" for k
    using that by (simp add: entry_apply_def fold_sub_other)
  have same: "settled ?st t k" if "settled st t k" "k \<notin> keys_of (e_Flatten e)" for t k
    using that(1) by (rule settled_cong) (simp_all add: other [OF that(2)] mid' del: ds_commit_db(1))
  have "ds_ok ?st" using st(2) e(2) by (auto simp: ds_ok_def ds_commit_def)
  then have "engine_at ev en ?st (wl @ wal_record tx p) kvs"
    using at app by (simp add: engine_at_def en) (simp add: ds_commit_def)
  moreover have "ck_ok (cn_ck s) (en_dir en) ?st (map_of kvs)" using ck by (cases "cn_ck s") (auto simp: en ds_commit_def)
  moreover have "key_seen ?st (en_overlay (cn_en s)) (map_of kvs) k" if "\<not> busy ?s k" for k
  proof -
    have k: "k \<notin> keys_of (e_Flatten e)" "\<not> busy s k"
      using that busy_log [OF assms(3), of ?s "(e_Flatten e, tx)"] by simp_all
    show ?thesis using seen [OF k(2)] same [OF _ k(1)] other [OF k(1)] by (simp add: key_seen_def)
  qed
  moreover have "writer_ok ?st (e_Flatten e, tx)"
    using mid mid' fold_sub_same [of _ "e_Flatten e" "ds_db st" Map.empty]
    by (auto simp: writer_ok_def settled_def entry_apply_def)
  moreover have "writer_ok ?st x" if "cn_writers s v = Some x" for v x
  proof -
    have "k \<notin> keys_of (e_Flatten e)" if "k \<in> keys_of (fst x)" for k
      using idle busyI [OF \<open>cn_writers s v = Some x\<close> that] by blast
    then show ?thesis using ws [OF that] same other by (auto simp: writer_ok_def)
  qed
  ultimately show ?thesis
    using db by (intro conc_invI [where st = ?st and wl = "wl @ wal_record tx p" and kvs = kvs])
      (auto simp: en split: if_splits)
qed

lemma refused_inv:
  assumes "conc_inv ev d0 s" "ev_ok ev" "tx_left (cn_en s)" "seq_Submit ev p (cn_en s) = (en, Inl err)"
  shows "conc_inv ev d0 (s\<lparr>cn_en := en\<rparr>)"
proof -
  from assms(1) obtain st wl kvs where
    at: "engine_at ev (cn_en s) st wl kvs" and ck: "ck_ok (cn_ck s) (en_dir (cn_en s)) st (map_of kvs)"
    and rest: "ds_db st = fold entry_apply (cn_log s) d0"
      "\<And>k. \<not> busy s k \<Longrightarrow> key_seen st (en_overlay (cn_en s)) (map_of kvs) k"
      "\<And>w x. cn_writers s w = Some x \<Longrightarrow> writer_ok st x"
    by (elim conc_invE) blast
  have st: "dir_has (ev_codec ev) (ev_fuel ev) (en_dir (cn_en s)) st" "fs_get (en_dir (cn_en s)) walName = Some wl"
    "ds_last st \<le> en_nextTx (cn_en s)" "en_open (cn_en s)" using at by (simp_all add: engine_at_def)
  have en: "en = (cn_en s)\<lparr>en_nextTx := en_nextTx (cn_en s) + 1, en_dir := fs_put walName wl (en_dir (cn_en s))\<rparr>"
    using assms(4) seq_Submit_ok [OF assms(2) st(4), of p] st(2) by (auto simp: fs_contents_def split: if_splits)
  have "dir_has (ev_codec ev) (ev_fuel ev) (en_dir en) st"
    by (rule dir_has_frame [OF st(1)]) (use st(1,2) dir_has_names in \<open>auto simp: en split: if_splits\<close>)
  moreover have "ds_last st \<le> en_nextTx en"
    using st(3) tx_left_less [OF assms(3)] by (auto simp: en intro: order_trans less_imp_le)
  ultimately have "engine_at ev en st wl kvs" using at by (simp add: engine_at_def en)
  moreover have "ck_ok (cn_ck s) (en_dir en) st (map_of kvs)" using ck by (cases "cn_ck s") (auto simp: en)
  moreover have "busy (s\<lparr>cn_en := en\<rparr>) = busy s" by (simp add: busy_def fun_eq_iff)
  ultimately show ?thesis
    using rest by (intro conc_invI [where st = st and wl = wl and kvs = kvs]) (simp_all add: en)
qed

lemma published_inv:
  assumes "conc_inv ev d0 s" "cn_writers s w = Some (subs, tx)"
  shows "conc_inv ev d0 (s\<lparr>cn_en := publish_all subs tx (cn_en s), cn_writers := (cn_writers s)(w := None)\<rparr>)"
    (is "conc_inv ev d0 ?s")
proof -
  from assms(1) obtain st wl kvs where
    at: "engine_at ev (cn_en s) st wl kvs" and ck: "ck_ok (cn_ck s) (en_dir (cn_en s)) st (map_of kvs)"
    and db: "ds_db st = fold entry_apply (cn_log s) d0"
    and seen: "\<And>k. \<not> busy s k \<Longrightarrow> key_seen st (en_overlay (cn_en s)) (map_of kvs) k"
    and ws: "\<And>w x. cn_writers s w = Some x \<Longrightarrow> writer_ok st x"
    by (elim conc_invE) blast
  let ?en = "publish_all subs tx (cn_en s)"
  have "engine_at ev ?en st wl kvs" using at by (simp add: engine_at_def publish_all_distinct)
  moreover have "key_seen st (en_overlay ?en) (map_of kvs) k" if "\<not> busy ?s k" for k
  proof (cases "k \<in> keys_of subs")
    case True
    from publish_all_tx [OF True] obtain v where v: "map_of (en_overlay ?en) k = Some v" "ov_txID v = tx" by blast
    have "overlay_view (en_overlay ?en) (map_of kvs) k = fold sub_apply subs Map.empty k"
      using fold_sub_same [OF True] by (simp add: publish_all_view)
    with ws [OF assms(2)] True v show ?thesis by (auto simp: writer_ok_def key_seen_def)
  next
    case False
    have "\<not> busy s k"
    proof
      assume "busy s k"
      then obtain v x where v: "cn_writers s v = Some x" "k \<in> keys_of (fst x)" by (force simp: busy_def)
      with assms(2) False have "v \<noteq> w" by auto
      with v busyI [of ?s v x k] that show False by simp
    qed
    then show ?thesis
      using seen publish_all_other [OF False] by (simp add: key_seen_def overlay_view_def)
  qed
  ultimately show ?thesis
    using ck db ws by (intro conc_invI [where st = st and wl = wl and kvs = kvs])
      (auto split: if_splits)
qed

text \<open>A step of the checkpoint changes neither the database nor what the readers see.\<close>

lemma key_seen_cong:
  "key_seen st ov base k \<Longrightarrow> ds_db st' = ds_db st \<Longrightarrow> ds_folded st' = ds_folded st \<Longrightarrow> ds_mid st' = ds_mid st \<Longrightarrow>
   key_seen st' ov base k"
  by (simp add: key_seen_def settled_def)

lemma writer_ok_cong:
  "writer_ok st x \<Longrightarrow> ds_db st' = ds_db st \<Longrightarrow> ds_folded st' = ds_folded st \<Longrightarrow> ds_mid st' = ds_mid st \<Longrightarrow>
   writer_ok st' x"
  by (auto simp: writer_ok_def settled_def)

lemma rotated_settled:
  assumes "ds_retired st = []"
  shows "settled (ds_rotated st) tx k" "writer_ok st x \<Longrightarrow> writer_ok (ds_rotated st) x"
    "overlay_view ov base k = ds_db st k \<Longrightarrow> key_seen (ds_rotated st) ov base k"
  using ds_rotated_db [OF assms] by (simp_all add: settled_def writer_ok_def key_seen_def)

lemma busy_ck [simp]: "busy (s\<lparr>cn_en := en, cn_ck := pc\<rparr>) k = busy s k"
  by (simp add: busy_def)

lemma rotate_inv:
  assumes "conc_inv ev d0 s" "cn_ck s = CkIdle" "ck_do ev (CkIdle, cn_en s) = (pc, en)"
  shows "conc_inv ev d0 (s\<lparr>cn_en := en, cn_ck := pc\<rparr>)"
proof -
  from assms(1,2) obtain st wl kvs where
    at: "engine_at ev (cn_en s) st wl kvs" and ck: "fs_get (en_dir (cn_en s)) RetiredWALName = None"
    and db: "ds_db st = fold entry_apply (cn_log s) d0"
    and seen: "\<And>k. \<not> busy s k \<Longrightarrow> key_seen st (en_overlay (cn_en s)) (map_of kvs) k"
    and ws: "\<And>w x. cn_writers s w = Some x \<Longrightarrow> writer_ok st x"
    by (elim conc_invE) auto
  let ?fs = "fs_run (rotate_steps walName RetiredWALName) (en_dir (cn_en s))"
  have st: "dir_has (ev_codec ev) (ev_fuel ev) (en_dir (cn_en s)) st" "fs_get (en_dir (cn_en s)) walName = Some wl"
    "ds_ok st" using at by (simp_all add: engine_at_def)
  have nr: "ds_retired st = []" using dir_has_no_retired [OF st(1) ck] by simp
  have "ReadCurrent (en_dir (cn_en s)) = Inr (ds_gen st)" using st(1) by (simp add: dir_has_def)
  then have en: "pc = CkRotated (ds_gen st)" "en = (cn_en s)\<lparr>en_dir := ?fs\<rparr>"
    using assms(3) at by (auto simp: ck_do_def engine_at_def)
  have "dir_has (ev_codec ev) (ev_fuel ev) ?fs (ds_rotated st)" using rotate_run [OF st(1) ck st(2)] by blast
  moreover have get: "fs_get ?fs walName = Some []" "fs_get ?fs RetiredWALName = Some wl"
    using st(2) by (simp_all add: rotate_steps_def fs_contents_def)
  moreover have "ds_ok (ds_rotated st)" using st(3) nr by (rule eng.rotated)
  ultimately have "engine_at ev en (ds_rotated st) [] kvs"
    using at clean_log_empty by (simp add: engine_at_def en) (simp add: ds_rotated_def)
  moreover have "key_seen (ds_rotated st) (en_overlay (cn_en s)) (map_of kvs) k" if "\<not> busy s k" for k
    using seen [OF that] by (intro rotated_settled(3) [OF nr]) (simp add: key_seen_def)
  moreover have "ds_gen (ds_rotated st) = ds_gen st" by (simp add: ds_rotated_def)
  ultimately show ?thesis
    using db ws get rotated_settled(2) [OF nr] ds_rotated_db [OF nr]
    by (intro conc_invI [where st = "ds_rotated st" and wl = "[]" and kvs = kvs]) (auto simp: en)
qed

lemma build_inv:
  assumes "conc_inv ev d0 s" "cn_ck s = CkRotated g" "ck_do ev (CkRotated g, cn_en s) = (pc, en)"
  shows "conc_inv ev d0 (s\<lparr>cn_en := en, cn_ck := pc\<rparr>)"
proof -
  from assms(1,2) obtain st wl kvs rf where
    at: "engine_at ev (cn_en s) st wl kvs" and ck: "g = ds_gen st" "fs_get (en_dir (cn_en s)) RetiredWALName = Some rf"
    and db: "ds_db st = fold entry_apply (cn_log s) d0"
    and seen: "\<And>k. \<not> busy s k \<Longrightarrow> key_seen st (en_overlay (cn_en s)) (map_of kvs) k"
    and ws: "\<And>w x. cn_writers s w = Some x \<Longrightarrow> writer_ok st x"
    by (elim conc_invE) auto
  have st: "dir_has (ev_codec ev) (ev_fuel ev) (en_dir (cn_en s)) st" "fs_get (en_dir (cn_en s)) walName = Some wl"
    "ds_ok st" using at by (simp_all add: engine_at_def)
  from dir_has_build [OF st(1) ck(2)] obtain nf ms where
    b: "BuildGeneration (ev_codec ev) (ev_fuel ev) (en_dir (cn_en s)) (ds_gen st) (ds_gen st + 1) RetiredWALName =
      (build_steps (ds_gen st + 1) nf, Inr (ds_mid st))" "data_holds nf (ds_mid st) ms" "kvs_ok (ev_fuel ev) ms"
      "map_of ms = ds_folded st" by blast
  let ?fs = "fs_run (build_steps (ds_gen st + 1) nf) (en_dir (cn_en s))" and ?st = "ds_built st ms"
  have en: "pc = CkBuilt (ds_gen st + 1) (ds_mid st)" "en = (cn_en s)\<lparr>en_dir := ?fs\<rparr>"
    using assms(3) ck(1) by (simp_all add: ck_do_def b(1))
  note run = build_run [OF st(1) b(2-4)]
  have get: "fs_get ?fs walName = Some wl" using run(2) st(2) by simp
  have "engine_at ev en ?st wl kvs"
    using at run(1) get eng.built [OF st(3) b(4)] by (simp add: engine_at_def en) (simp add: ds_built_def)
  moreover have eq: "ds_db ?st = ds_db st" "ds_folded ?st = ds_folded st" "ds_mid ?st = ds_mid st"
    using ds_built_db [OF b(4)] b(4) by (simp_all add: ds_folded_def) (simp_all add: ds_built_def)
  moreover have "ck_ok pc (en_dir en) ?st (map_of kvs)" by (simp add: en ds_built_def)
  ultimately show ?thesis
    using db key_seen_cong [OF seen eq] writer_ok_cong [OF ws eq]
    by (intro conc_invI [where st = ?st and wl = wl and kvs = kvs]) (simp_all add: en)
qed

lemma swap_inv:
  assumes "conc_inv ev d0 s" "cn_ck s = CkBuilt g folded" "ck_do ev (CkBuilt g folded, cn_en s) = (pc, en)"
  shows "conc_inv ev d0 (s\<lparr>cn_en := en, cn_ck := pc\<rparr>)"
proof -
  from assms(1,2) obtain st wl kvs where
    at: "engine_at ev (cn_en s) st wl kvs" and ck: "g = ds_gen st" "folded = ds_mid st" "ds_retired st = []" "ds_mid st = ds_applied st"
    and db: "ds_db st = fold entry_apply (cn_log s) d0"
    and seen: "\<And>k. \<not> busy s k \<Longrightarrow> key_seen st (en_overlay (cn_en s)) (map_of kvs) k"
    and ws: "\<And>w x. cn_writers s w = Some x \<Longrightarrow> writer_ok st x"
    by (elim conc_invE) auto
  from at obtain bf where bf: "fs_get (en_dir (cn_en s)) (DataFile g) = Some bf"
    "data_holds bf (ds_applied st) (ds_kvs st)" "kvs_ok (ev_fuel ev) (ds_kvs st)"
    by (auto simp: engine_at_def dir_has_def ck(1))
  from data_holds_snapshot [OF bf(2)] obtain snap h D where snap: "openSnapshot bf = Inr snap" "h \<le> length (ds_kvs st)"
    "tree_of (snap_ReadPage (sn_data snap)) D h (sn_root snap) (ds_kvs st)" by blast
  have en: "pc = CkSwapped g folded" "en = (cn_en s)\<lparr>en_snap := snap\<rparr>"
    using assms(3) by (simp_all add: ck_do_def fs_contents_def bf(1) snap(1))
  have "snap_holds (ev_fuel ev) snap (ds_kvs st)" using snap(2) bf(3) snap(3) by (rule snap_holdsI)
  then have "engine_at ev en st wl (ds_kvs st)" using at by (simp add: engine_at_def en)
  moreover have "key_seen st (en_overlay en) (map_of (ds_kvs st)) k" if "\<not> busy s k" for k
    using seen [OF that] ck(3) by (auto simp: en key_seen_def overlay_view_def settled_def ds_folded_def split: option.splits)
  ultimately show ?thesis
    using db ws ck by (intro conc_invI [where st = st and wl = wl and kvs = "ds_kvs st"]) (auto simp: en)
qed

lemma drop_inv:
  assumes "conc_inv ev d0 s" "cn_ck s = CkSwapped g folded" "ck_do ev (CkSwapped g folded, cn_en s) = (pc, en)"
  shows "conc_inv ev d0 (s\<lparr>cn_en := en, cn_ck := pc\<rparr>)"
proof -
  from assms(1,2) obtain st wl kvs where
    at: "engine_at ev (cn_en s) st wl kvs" and ck: "g = ds_gen st" "folded = ds_mid st" "ds_retired st = []"
      "ds_mid st = ds_applied st" "map_of kvs = map_of (ds_kvs st)"
    and rest: "ds_db st = fold entry_apply (cn_log s) d0"
      "\<And>k. \<not> busy s k \<Longrightarrow> key_seen st (en_overlay (cn_en s)) (map_of kvs) k"
      "\<And>w x. cn_writers s w = Some x \<Longrightarrow> writer_ok st x"
    by (elim conc_invE) auto
  let ?fs = "fs_del RetiredWALName (en_dir (cn_en s))"
  define gs where "gs = filter (\<lambda>h. h < g) (sort (gens_of (fs_names ?fs)))"
  define steps where "steps = map (\<lambda>g. FRemove (DataFile g)) gs"
  have "dir_has (ev_codec ev) (ev_fuel ev) (en_dir (cn_en s)) st" using at by (simp add: engine_at_def)
  from remove_retired [OF this ck(3,4)] have has: "dir_has (ev_codec ev) (ev_fuel ev) ?fs st" .
  have clean: "cleanupOldGenerations ?fs g = Inr steps"
    by (simp add: cleanupOldGenerations_def dir_has_gens [OF has] steps_def gs_def)
  then have en: "pc = CkDropped g folded" "en = (cn_en s)\<lparr>en_dir := fs_run steps ?fs\<rparr>"
    using assms(3) by (simp_all add: ck_do_def)
  have "ds_gen st \<notin> set gs" by (simp add: gs_def ck(1))
  from remove_gens [OF has this, of "fs_run steps ?fs"] have
    has': "dir_has (ev_codec ev) (ev_fuel ev) (fs_run steps ?fs) st" by (simp add: steps_def)
  have get: "fs_get (fs_run steps ?fs) p = fs_get ?fs p" if "\<forall>g. p \<noteq> DataFile g" for p
    using that fs_get_run_removes [of "map DataFile gs" ?fs p] by (auto simp: steps_def comp_def)
  have "engine_at ev en st wl kvs" using at has' get by (simp add: engine_at_def en)
  then show ?thesis
    using rest ck get by (intro conc_invI [where st = st and wl = wl and kvs = kvs]) (auto simp: en)
qed

lemma map_of_filter_distinct:
  "distinct (map fst xs) \<Longrightarrow> map_of (filter (\<lambda>(k, v). P v) xs) k =
     (case map_of xs k of None \<Rightarrow> None | Some v \<Rightarrow> if P v then Some v else None)"
proof (induction xs)
  case (Cons x xs)
  have "map_of (filter (\<lambda>(k, v). P v) xs) (fst x) = None" using Cons.prems by (auto simp: map_of_eq_None_iff)
  with Cons show ?case by (cases x) auto
qed simp

lemma prune_inv:
  assumes "conc_inv ev d0 s" "cn_ck s = CkDropped g folded" "ck_do ev (CkDropped g folded, cn_en s) = (pc, en)"
  shows "conc_inv ev d0 (s\<lparr>cn_en := en, cn_ck := pc\<rparr>)"
proof -
  from assms(1,2) obtain st wl kvs where
    at: "engine_at ev (cn_en s) st wl kvs" and ck: "folded = ds_mid st" "ds_retired st = []" "map_of kvs = map_of (ds_kvs st)"
      "fs_get (en_dir (cn_en s)) RetiredWALName = None"
    and db: "ds_db st = fold entry_apply (cn_log s) d0"
    and seen: "\<And>k. \<not> busy s k \<Longrightarrow> key_seen st (en_overlay (cn_en s)) (map_of kvs) k"
    and ws: "\<And>w x. cn_writers s w = Some x \<Longrightarrow> writer_ok st x"
    by (elim conc_invE) auto
  let ?ov = "en_overlay (cn_en s)"
  have en: "pc = CkIdle" "en_dir en = en_dir (cn_en s)" "en_snap en = en_snap (cn_en s)" "en_open en = en_open (cn_en s)"
    "en_nextTx en = en_nextTx (cn_en s)" "en_overlay en = filter (\<lambda>(k, ov). \<not> ov_txID ov \<le> folded) ?ov"
    using assms(3) by (auto simp: ck_do_def prune_def Let_def)
  have dist: "distinct (map fst ?ov)" using at by (simp add: engine_at_def)
  have "engine_at ev en st wl kvs" using at by (simp add: engine_at_def en distinct_map_filter)
  moreover have "key_seen st (en_overlay en) (map_of kvs) k" if "\<not> busy s k" for k
  proof (cases "map_of ?ov k")
    case None
    with seen [OF that] show ?thesis by (simp add: en(6) map_of_filter_distinct [OF dist] key_seen_def overlay_view_def)
  next
    case (Some v)
    have ov: "map_of (en_overlay en) k = (if ov_txID v \<le> folded then None else Some v)"
      by (simp add: en(6) map_of_filter_distinct [OF dist] Some)
    show ?thesis
    proof (cases "ov_txID v \<le> folded")
      case True
      with seen [OF that] Some ck(1) have "ds_db st k = ds_folded st k" by (simp add: key_seen_def settled_def)
      with ck(2,3) ov True show ?thesis by (simp add: key_seen_def overlay_view_def settled_def ds_folded_def)
    next
      case False
      with seen [OF that] Some ov show ?thesis by (simp add: key_seen_def overlay_view_def)
    qed
  qed
  ultimately show ?thesis
    using db ws ck by (intro conc_invI [where st = st and wl = wl and kvs = kvs]) (auto simp: en)
qed

lemma conc_inv_step:
  assumes "conc_step ev s s'" "conc_inv ev d0 s" "ev_ok ev"
  shows "conc_inv ev d0 s'"
  using assms(1)
proof cases
  case (ck_moves pc en)
  then show ?thesis
    using assms(2) rotate_inv build_inv swap_inv drop_inv prune_inv by (cases "cn_ck s") auto
qed (use assms(2,3) logged_inv refused_inv published_inv in blast)+

interpretation conc: step_invariant "conc_step ev" "\<lambda>s. conc_inv ev d0 s \<and> ev_ok ev"
  by unfold_locales (blast intro: conc_inv_step)

lemma conc_inv_steps: "(conc_step ev)\<^sup>*\<^sup>* s s' \<Longrightarrow> conc_inv ev d0 s \<Longrightarrow> ev_ok ev \<Longrightarrow> conc_inv ev d0 s'"
  using conc.steps_law by blast

section \<open>Reads and kills\<close>

lemma conc_log_grows: "conc_step ev s s' \<Longrightarrow> \<exists>es. cn_log s' = cn_log s @ es"
  by (elim conc_stepE) auto

lemma rtranclp_log_grows: "(conc_step ev)\<^sup>*\<^sup>* s s' \<Longrightarrow> \<exists>es. cn_log s' = cn_log s @ es"
  by (induction rule: rtranclp_induct) (auto dest!: conc_log_grows)

lemma ck_do_overlay:
  assumes "ck_do ev (pc, en) = (pc', en')" "distinct (map fst (en_overlay en))"
  shows "map_of (en_overlay en') k \<in> {map_of (en_overlay en) k, None}"
  using assms
  by (cases pc) (auto simp: ck_do_def prune_def Let_def map_of_filter_distinct split: sum.splits prod.splits if_splits option.splits)

lemma engine_at_overlay: "conc_inv ev d0 s \<Longrightarrow> distinct (map fst (en_overlay (cn_en s))) \<and> en_open (cn_en s)"
  by (elim conc_invE) (simp add: engine_at_def)

text \<open>While a key is not written, nobody gets busy with it, and its overlay entry stays or goes.\<close>

definition unwritten :: "bytes \<Rightarrow> conc \<Rightarrow> conc \<Rightarrow> bool" where
  "unwritten k s s' \<longleftrightarrow> (\<exists>es. cn_log s' = cn_log s @ es \<and> (\<forall>e\<in>set es. k \<notin> keys_of (e_Flatten e)))"

lemma unwritten_step:
  assumes "conc_step ev s s'" "unwritten k s s'" "conc_inv ev d0 s" "ev_ok ev" "\<not> busy s k"
  shows "\<not> busy s' k \<and> map_of (en_overlay (cn_en s')) k \<in> {map_of (en_overlay (cn_en s)) k, None}"
  using assms(1)
proof cases
  case (logged w e p en tx)
  have "en_overlay en = en_overlay (cn_en s)"
    using logged(5) seq_Submit_ok [OF assms(4), of "cn_en s" p] engine_at_overlay [OF assms(3)] by (auto split: if_splits)
  moreover have "k \<notin> keys_of (e_Flatten e)" using assms(2) logged(1) by (auto simp: unwritten_def)
  ultimately show ?thesis using assms(5) busy_log [OF logged(2), of s' "(e_Flatten e, tx)"] by (simp add: logged(1))
next
  case (refused p en err)
  then show ?thesis
    using seq_Submit_ok [OF assms(4), of "cn_en s" p] engine_at_overlay [OF assms(3)] assms(5)
    by (auto simp: busy_def split: if_splits)
next
  case (published w subs tx)
  have "k \<notin> keys_of subs" using assms(5) busyI [OF published(2)] by auto
  moreover have "busy s' k \<Longrightarrow> busy s k" by (auto simp: busy_def published(1) split: if_splits)
  ultimately show ?thesis using assms(5) publish_all_other by (auto simp: published(1))
next
  case (ck_moves pc en)
  then show ?thesis
    using ck_do_overlay [OF ck_moves(2)] engine_at_overlay [OF assms(3)] assms(5) by (auto simp: busy_def)
qed

lemma unwritten_steps:
  assumes "(conc_step ev)\<^sup>*\<^sup>* s s'" "unwritten k s s'" "conc_inv ev d0 s" "ev_ok ev" "\<not> busy s k"
  shows "\<not> busy s' k \<and> map_of (en_overlay (cn_en s')) k \<in> {map_of (en_overlay (cn_en s)) k, None}"
  using assms(1,2)
proof (induction rule: rtranclp_induct)
  case base
  with assms(5) show ?case by simp
next
  case (step t s')
  from rtranclp_log_grows [OF step.hyps(1)] conc_log_grows [OF step.hyps(2)] obtain es es' where
    l: "cn_log t = cn_log s @ es" "cn_log s' = cn_log t @ es'" by blast
  with step.prems have u: "unwritten k s t" "unwritten k t s'" by (auto simp: unwritten_def)
  note mid = step.IH [OF u(1)]
  from unwritten_step [OF step.hyps(2) u(2) conc_inv_steps [OF step.hyps(1) assms(3,4)] assms(4)] mid
  have "\<not> busy s' k \<and> map_of (en_overlay (cn_en s')) k \<in> {map_of (en_overlay (cn_en t)) k, None}" by blast
  with mid show ?case by auto
qed

text \<open>What a kill leaves while the checkpoint takes its steps on the directory.\<close>

lemma conc_killed:
  assumes "conc_inv ev d0 s" "crashed (fst (snd (ck_step ev (cn_ck s) (cn_en s)))) (en_dir (cn_en s)) fs'"
  shows "dir_db_of ds_ok (ev_codec ev) (ev_fuel ev) fs' (fold entry_apply (cn_log s) d0)"
proof -
  from assms(1) obtain st wl kvs where
    at: "engine_at ev (cn_en s) st wl kvs" and ck: "ck_ok (cn_ck s) (en_dir (cn_en s)) st (map_of kvs)"
    and db: "ds_db st = fold entry_apply (cn_log s) d0" by (elim conc_invE) blast
  have st: "dir_has (ev_codec ev) (ev_fuel ev) (en_dir (cn_en s)) st" "fs_get (en_dir (cn_en s)) walName = Some wl"
    "ds_ok st" using at by (simp_all add: engine_at_def)
  then have now: "dir_db_of ds_ok (ev_codec ev) (ev_fuel ev) (en_dir (cn_en s)) (ds_db st)" by (auto simp: dir_db_of_def)
  show ?thesis
    unfolding db [symmetric]
  proof (cases "cn_ck s")
    case CkIdle
    with ck have none: "fs_get (en_dir (cn_en s)) RetiredWALName = None" by simp
    have nr: "ds_retired st = []" using dir_has_no_retired [OF st(1) none] by simp
    have "ReadCurrent (en_dir (cn_en s)) = Inr (ds_gen st)" using st(1) by (simp add: dir_has_def)
    with assms(2) CkIdle at have "fs' = en_dir (cn_en s) \<or> fs' = fs_do (FRename walName RetiredWALName) (en_dir (cn_en s)) \<or>
        fs' = fs_run (rotate_steps walName RetiredWALName) (en_dir (cn_en s))"
      by (auto simp: engine_at_def rotate_steps_def)
    then show "dir_db_of ds_ok (ev_codec ev) (ev_fuel ev) fs' (ds_db st)"
      using now rotate_run [OF st(1) none st(2)] eng.rotated [OF st(3) nr] ds_rotated_db [OF nr] by (auto simp: dir_db_of_def)
  next
    case (CkRotated g)
    with ck obtain rf where g: "g = ds_gen st" "fs_get (en_dir (cn_en s)) RetiredWALName = Some rf" by auto
    from dir_has_build [OF st(1) g(2)] obtain nf ms where
      b: "BuildGeneration (ev_codec ev) (ev_fuel ev) (en_dir (cn_en s)) (ds_gen st) (ds_gen st + 1) RetiredWALName =
        (build_steps (ds_gen st + 1) nf, Inr (ds_mid st))" "data_holds nf (ds_mid st) ms" "kvs_ok (ev_fuel ev) ms"
        "map_of ms = ds_folded st" by blast
    from assms(2) have "crashed (build_steps (ds_gen st + 1) nf) (en_dir (cn_en s)) fs'" by (simp add: CkRotated g(1) b(1))
    from eng.build_crashed [OF st(1) b(2-4) this st(3)]
    show "dir_db_of ds_ok (ev_codec ev) (ev_fuel ev) fs' (ds_db st)" .
  next
    case (CkBuilt g folded)
    with assms(2) now show "dir_db_of ds_ok (ev_codec ev) (ev_fuel ev) fs' (ds_db st)" by (auto split: sum.splits)
  next
    case (CkSwapped g folded)
    let ?fs = "fs_del RetiredWALName (en_dir (cn_en s))"
    from ck CkSwapped have r: "g = ds_gen st" "ds_retired st = []" "ds_mid st = ds_applied st" by simp_all
    from remove_retired [OF st(1) r(2,3)] have has: "dir_has (ev_codec ev) (ev_fuel ev) ?fs st" .
    let ?gs = "filter (\<lambda>h. h < g) (sort (gens_of (fs_names ?fs)))"
    have "crashed (map (\<lambda>g. FRemove (DataFile g)) ?gs) ?fs fs' \<or> fs' = en_dir (cn_en s)"
      using assms(2) by (auto simp: CkSwapped cleanupOldGenerations_def dir_has_gens [OF has])
    then show "dir_db_of ds_ok (ev_codec ev) (ev_fuel ev) fs' (ds_db st)"
      using crashed_remove_gens [OF has, of ?gs] now st(3) by (auto simp: r(1) dir_db_of_def)
  next
    case (CkDropped g folded)
    with assms(2) now show "dir_db_of ds_ok (ev_codec ev) (ev_fuel ev) fs' (ds_db st)" by (simp add: Let_def)
  qed
qed

lemma open_reads:
  assumes "dir_db_of ds_ok (ev_codec ev) (ev_fuel ev) fs d"
  shows "\<exists>steps en. en_Open ev fs = (steps, Inr en) \<and> (\<forall>k. en_lookup ev en k = Inr (d k))"
proof -
  from assms obtain st where "dir_has (ev_codec ev) (ev_fuel ev) fs st" "ds_ok st" "ds_db st = d" by (auto simp: dir_db_of_def)
  with Open_law [of ev fs st] lookup_law show ?thesis unfolding safe_def by blast
qed

section \<open>Properties\<close>

text \<open>
  Reads are up to date although everything runs at once. Writers, single or in batches and one at a
  time for a key, log and publish, a checkpoint takes its steps and its callers theirs, in any interleaving; a read looks
  at the overlay in one state and at the snapshot in a later one. If the key is not being written in the first and is not
  written in between, it reads what the log of all writes leaves in the key.
\<close>

theorem concurrent_reads_latest:
  assumes "represents ev en0 d0" "ev_ok ev" "(conc_step ev)\<^sup>*\<^sup>* (conc_start en0) s1" "(conc_step ev)\<^sup>*\<^sup>* s1 s2"
    "\<not> busy s1 k" "cn_log s2 = cn_log s1 @ es" "\<forall>e\<in>set es. k \<notin> keys_of (e_Flatten e)"
  shows "lookup_split ev (cn_en s1) (cn_en s2) k = Inr (fold entry_apply (cn_log s1) d0 k)"
proof -
  have inv: "conc_inv ev d0 s1" using conc_inv_steps [OF assms(3) start_inv [OF assms(1)] assms(2)] .
  have un: "unwritten k s1 s2" using assms(6,7) by (auto simp: unwritten_def)
  from unwritten_steps [OF assms(4) un inv assms(2,5)] have
    later: "\<not> busy s2 k" "map_of (en_overlay (cn_en s2)) k \<in> {map_of (en_overlay (cn_en s1)) k, None}" by simp_all
  have same: "fold entry_apply (cn_log s2) d0 k = fold entry_apply (cn_log s1) d0 k"
  proof -
    have "k \<notin> keys_of (concat (map e_Flatten es))" using assms(7) by auto
    then show ?thesis by (simp add: assms(6) fold_entry_apply fold_sub_other)
  qed
  show ?thesis
  proof (cases "map_of (en_overlay (cn_en s1)) k")
    case None
    from conc_inv_steps [OF assms(4) inv assms(2)] obtain st wl kvs where
      "engine_at ev (cn_en s2) st wl kvs" "ds_db st = fold entry_apply (cn_log s2) d0"
      "key_seen st (en_overlay (cn_en s2)) (map_of kvs) k" using later(1) by (elim conc_invE) blast
    with None later(2) same snap_holds_Get show ?thesis
      by (auto simp: lookup_split_def engine_at_def key_seen_def overlay_view_def)
  next
    case (Some v)
    from inv obtain st wl kvs where "ds_db st = fold entry_apply (cn_log s1) d0"
      "key_seen st (en_overlay (cn_en s1)) (map_of kvs) k" using assms(5) by (elim conc_invE) blast
    with Some show ?thesis by (auto simp: lookup_split_def key_seen_def overlay_view_def)
  qed
qed

text \<open>A writer's two steps, and a rotation that comes before the reader takes its snapshot.\<close>

abbreviation sample_entry :: WALEntry where
  "sample_entry \<equiv> object_entry OpPut [] sample_class 1 [3]"

lemma sample_flatten [simp]: "e_Flatten sample_entry = [sample_entry]" "e_Key sample_entry = ObjectKey [] sample_class 1"
  by (simp_all add: e_Flatten_def e_Key_def object_entry_def op_defs)

lemma sample_entry_apply: "entry_apply sample_entry class_db = object_db [3]"
  by (simp add: entry_apply_def sub_apply_def) (simp add: object_entry_def op_defs)

lemma sample_entry_value: "entry_apply sample_entry class_db (ObjectKey [] sample_class 1) = Some [3]"
  by (simp add: sample_entry_apply object_db_def ClassKey_neq_ObjectKey [symmetric])

lemma dir_db_unique:
  fixes ev :: env
  assumes "dir_db_of ds_ok (ev_codec ev) (ev_fuel ev) fs d" "dir_db_of ds_ok (ev_codec ev) (ev_fuel ev) fs d'"
  shows "d = d'"
  using open_reads [OF assms(1)] open_reads [OF assms(2)] by (auto simp: fun_eq_iff)

lemma sample_logged:
  assumes "at en class_db 1 gen_New"
  obtains s where "conc_step sample_env (conc_start en) s" "cn_writers s = [0 \<mapsto> ([sample_entry], 2)]"
    "cn_log s = [sample_entry]" "cn_ck s = CkIdle"
proof -
  from assms have rep: "represents sample_env en class_db" and tx1: "en_nextTx en = 1" by (simp_all add: at_def)
  then have op: "en_open en" by (auto simp: represents_def stores_def stores_st_def)
  have m: "cd_marshal (ev_codec sample_env) sample_entry = Inr [2]" by simp
  have dir: "dir_db_of ds_ok (ev_codec sample_env) (ev_fuel sample_env) (en_dir en) class_db"
    using represents_dir [OF rep] by (simp add: dir_represents_def)
  have "db_ok (ev_fuel sample_env) (entry_apply sample_entry d)"
    if "dir_db_of ds_ok (ev_codec sample_env) (ev_fuel sample_env) (en_dir en) d" for d
    using dir_db_unique [OF that dir] by (simp add: sample_entry_apply)
  then have can: "can_log sample_env (conc_start en) sample_entry"
    by (simp add: can_log_def conc_start_def tx_left_def tx1 busy_def)
      (simp add: sub_ok_def object_entry_def op_defs keySep_def)
  obtain en1 where sub: "seq_Submit sample_env [2] en = (en1, Inr 2)"
    using seq_Submit_ok [OF sample_env_ok op, of "[2]"] by (auto simp: tx1 MaxRecordLen_def push_bit_eq_mult)
  from logged [of "conc_start en" 0, OF _ can m] sub show thesis by (intro that) (auto simp: conc_start_def)
qed

theorem concurrent_reads_latest_witness:
  "\<exists>en0 s1 s2. (conc_step sample_env)\<^sup>*\<^sup>* (conc_start en0) s1 \<and> (conc_step sample_env)\<^sup>*\<^sup>* s1 s2 \<and> cn_ck s2 \<noteq> CkIdle \<and>
     lookup_split sample_env (cn_en s1) (cn_en s2) (ObjectKey [] sample_class 1) = Inr (Some [3])"
proof -
  from sample_boot sample_create_class obtain en0 where at: "at en0 class_db 1 gen_New" by blast
  then have rep: "represents sample_env en0 class_db" by (simp add: at_def)
  from sample_logged [OF at] obtain s where s: "conc_step sample_env (conc_start en0) s"
    "cn_writers s = [0 \<mapsto> ([sample_entry], 2)]" "cn_log s = [sample_entry]" "cn_ck s = CkIdle" .
  define s1 where "s1 = s\<lparr>cn_en := publish_all [sample_entry] 2 (cn_en s), cn_writers := (cn_writers s)(0 := None)\<rparr>"
  have "conc_step sample_env s s1" unfolding s1_def by (rule published) (simp add: s(2))
  with s(1) have r1: "(conc_step sample_env)\<^sup>*\<^sup>* (conc_start en0) s1" by simp
  obtain pc en where ck: "ck_do sample_env (cn_ck s1, cn_en s1) = (pc, en)" by fastforce
  define s2 where "s2 = s1\<lparr>cn_en := en, cn_ck := pc\<rparr>"
  have r2: "(conc_step sample_env)\<^sup>*\<^sup>* s1 s2" unfolding s2_def using ck_moves [OF ck] by simp
  have "conc_inv sample_env class_db s1" using conc_inv_steps [OF r1 start_inv [OF rep]] by simp
  then obtain st wl kvs where "engine_at sample_env (cn_en s1) st wl kvs" by (elim conc_invE)
  then have "en_open (cn_en s1)" "ReadCurrent (en_dir (cn_en s1)) = Inr (ds_gen st)" by (simp_all add: engine_at_def dir_has_def)
  then have pc: "pc \<noteq> CkIdle" using ck by (auto simp: ck_do_def s1_def s(4))
  have idle: "\<not> busy s1 k" for k by (simp add: busy_def s1_def s(2))
  have log: "cn_log s1 = [sample_entry]" "cn_log s2 = cn_log s1 @ []" by (simp_all add: s1_def s2_def s(3))
  have "lookup_split sample_env (cn_en s1) (cn_en s2) (ObjectKey [] sample_class 1) =
      Inr (fold entry_apply (cn_log s1) class_db (ObjectKey [] sample_class 1))"
    using concurrent_reads_latest [OF rep sample_env_ok r1 r2 idle log(2)] by simp
  then have "lookup_split sample_env (cn_en s1) (cn_en s2) (ObjectKey [] sample_class 1) = Inr (Some [3])"
    by (simp add: log(1) sample_entry_value)
  with r1 r2 pc show ?thesis by (intro exI [of _ en0] exI [of _ s1] exI [of _ s2]) (simp add: s2_def)
qed

text \<open>
  A kill in the middle of all that loses nothing. Wherever the writers are, also between their log
  record and the overlay, and whatever step of the checkpoint is cut short, the engine opens again, and
  every read gives what the log of all writes leaves in the key.
\<close>

theorem concurrent_kill_recovers:
  assumes "represents ev en0 d0" "ev_ok ev" "(conc_step ev)\<^sup>*\<^sup>* (conc_start en0) s"
    "crashed (fst (snd (ck_step ev (cn_ck s) (cn_en s)))) (en_dir (cn_en s)) fs'"
  shows "\<exists>steps en. en_Open ev fs' = (steps, Inr en) \<and> (\<forall>k. en_lookup ev en k = Inr (fold entry_apply (cn_log s) d0 k))"
  using open_reads [OF conc_killed [OF conc_inv_steps [OF assms(3) start_inv [OF assms(1)] assms(2)] assms(4)]] .

theorem concurrent_kill_recovers_witness:
  "\<exists>en0 s steps en. (conc_step sample_env)\<^sup>*\<^sup>* (conc_start en0) s \<and> cn_writers s 0 \<noteq> None \<and>
     en_Open sample_env (fs_do (FRename walName RetiredWALName) (en_dir (cn_en s))) = (steps, Inr en) \<and>
     en_lookup sample_env en (ObjectKey [] sample_class 1) = Inr (Some [3])"
proof -
  from sample_boot sample_create_class obtain en0 where at: "at en0 class_db 1 gen_New" by blast
  then have rep: "represents sample_env en0 class_db" by (simp add: at_def)
  from sample_logged [OF at] obtain s where s: "conc_step sample_env (conc_start en0) s"
    "cn_writers s = [0 \<mapsto> ([sample_entry], 2)]" "cn_log s = [sample_entry]" "cn_ck s = CkIdle" .
  from s(1) have r: "(conc_step sample_env)\<^sup>*\<^sup>* (conc_start en0) s" by simp
  have "conc_inv sample_env class_db s" using conc_inv_steps [OF r start_inv [OF rep]] by simp
  then obtain st wl kvs where "engine_at sample_env (cn_en s) st wl kvs" by (elim conc_invE)
  then have "en_open (cn_en s)" "ReadCurrent (en_dir (cn_en s)) = Inr (ds_gen st)" by (simp_all add: engine_at_def dir_has_def)
  then have "crashed (fst (snd (ck_step sample_env (cn_ck s) (cn_en s)))) (en_dir (cn_en s))
      (fs_do (FRename walName RetiredWALName) (en_dir (cn_en s)))" by (simp add: s(4) rotate_steps_def)
  from concurrent_kill_recovers [OF rep sample_env_ok r this] obtain steps en where
    "en_Open sample_env (fs_do (FRename walName RetiredWALName) (en_dir (cn_en s))) = (steps, Inr en)"
    "en_lookup sample_env en (ObjectKey [] sample_class 1) = Inr (Some [3])"
    by (auto simp: s(3) sample_entry_value simp del: fs_do.simps)
  with r s(2) show ?thesis by (intro exI [of _ en0] exI [of _ s]) simp
qed

end
