(* ===== verification/EngineCalls.thy ===== *)
theory EngineCalls
  imports EngineConc
begin

text \<open>
  The calls of \<^verbatim>\<open>internal/storage/engine.go\<close> cut where another goroutine may run: at every lock that
  is taken and released, at the sequencer's answer, and at the acquisition of a snapshot. A call is a
  command and a program counter; \<open>call_step\<close> is its next step. Left alone, a call does what the
  function of \<open>Engine\<close> does (\<open>calls_run_alone\<close>).
\<close>

section \<open>Program counters\<close>

text \<open>
  Where a call is: before it looks for the class; after \<^verbatim>\<open>DropClass\<close> has, before its query does;
  before the scan of the snapshot; with the objects scanned, before the overlay; before the overlay and before the
  snapshot of a lookup; with the ids it has been given; with an entry to be logged; with a logged entry, before
  the overlay; before the change of the classes; before the ids of the class are dropped; with an answer.
\<close>

datatype call_pc =
    PcStart
  | PcChecked
  | PcScan
  | PcMerge "(u64 \<times> bytes) list"
  | PcOverlay
  | PcSnapshot
  | PcIds "u64 list"
  | PcReady WALEntry
  | PcLogged WALEntry u64
  | PcClasses
  | PcDropIds
  | PcDone "reply res"

section \<open>Steps\<close>

fun cmd_scope :: "cmd \<Rightarrow> bytes \<times> bytes" where
  "cmd_scope (Cmd_CreateClass p c) = (p, c)"
| "cmd_scope (Cmd_DropClass p c) = (p, c)"
| "cmd_scope (Cmd_Create p c data) = (p, c)"
| "cmd_scope (Cmd_Bulk p c datas) = (p, c)"
| "cmd_scope (Cmd_Put p c i data) = (p, c)"
| "cmd_scope (Cmd_Delete p c i) = (p, c)"
| "cmd_scope (Cmd_Get p c i) = (p, c)"
| "cmd_scope (Cmd_List p c limit offset) = (p, c)"
| "cmd_scope Cmd_Checkpoint = ([], [])"

text \<open>The object a lookup is for, and the page a query is for.\<close>

fun cmd_object :: "cmd \<Rightarrow> u64 option" where
  "cmd_object (Cmd_Put p c i data) = Some i"
| "cmd_object (Cmd_Delete p c i) = Some i"
| "cmd_object (Cmd_Get p c i) = Some i"
| "cmd_object _ = None"

abbreviation cmd_key :: "cmd \<Rightarrow> bytes" where
  "cmd_key cmd \<equiv> ObjectKey (fst (cmd_scope cmd)) (snd (cmd_scope cmd)) (the (cmd_object cmd))"

fun cmd_page :: "cmd \<Rightarrow> int \<times> int" where
  "cmd_page (Cmd_List p c limit offset) = (limit, offset)"
| "cmd_page _ = (1, 0)"

text \<open>The entry that is logged, with the ids given to new objects.\<close>

fun cmd_entry :: "env \<Rightarrow> cmd \<Rightarrow> u64 list \<Rightarrow> WALEntry" where
  "cmd_entry ev (Cmd_CreateClass p c) ids = class_entry OpCreateClass p c"
| "cmd_entry ev (Cmd_DropClass p c) ids = class_entry OpDropClass p c"
| "cmd_entry ev (Cmd_Create p c data) ids = object_entry OpPut p c (hd ids) data"
| "cmd_entry ev (Cmd_Bulk p c datas) ids =
     WALEntry OpBatch [] [] 0 [] (ev_now ev) (map2 (\<lambda>i d. WALEntry OpPut p c i d (ev_now ev) []) ids datas)"
| "cmd_entry ev (Cmd_Put p c i data) ids = object_entry OpPut p c i data"
| "cmd_entry ev (Cmd_Delete p c i) ids = object_entry OpDelete p c i []"
| "cmd_entry ev cmd ids = class_entry 0 [] []"

definition ready :: "env \<Rightarrow> cmd \<Rightarrow> u64 list \<Rightarrow> call_pc" where
  "ready ev cmd ids = PcReady (with_timestamp (cmd_entry ev cmd ids) (ev_now ev))"

text \<open>The first look at the set of classes.\<close>

fun call_start :: "env \<Rightarrow> cmd \<Rightarrow> engine \<Rightarrow> call_pc" where
  "call_start ev (Cmd_CreateClass p c) en =
     (if \<not> validName c \<or> \<not> validProject p then PcDone (Inl ErrInvalidName)
      else if ClassExists en p c then PcDone (Inl ErrClassExists)
      else ready ev (Cmd_CreateClass p c) [])"
| "call_start ev (Cmd_DropClass p c) en = (if \<not> ClassExists en p c then PcDone (Inl ErrNoClass) else PcChecked)"
| "call_start ev (Cmd_Create p c data) en = (if \<not> ClassExists en p c then PcDone (Inl ErrNoClass) else PcIds [])"
| "call_start ev (Cmd_Bulk p c datas) en =
     (if \<not> ClassExists en p c then PcDone (Inl ErrNoClass)
      else if datas = [] then PcDone (Inr (RIds []))
      else PcIds [])"
| "call_start ev (Cmd_List p c limit offset) en = (if \<not> ClassExists en p c then PcDone (Inl ErrNoClass) else PcScan)"
| "call_start ev Cmd_Checkpoint en = PcStart"
| "call_start ev cmd en =
     (if \<not> ClassExists en (fst (cmd_scope cmd)) (snd (cmd_scope cmd)) then PcDone (Inl ErrNoClass) else PcOverlay)"

text \<open>What follows a lookup, and what follows a query.\<close>

fun call_found :: "env \<Rightarrow> cmd \<Rightarrow> bytes option res \<Rightarrow> call_pc" where
  "call_found ev cmd (Inl e) = PcDone (Inl e)"
| "call_found ev (Cmd_Get p c i) (Inr v) = PcDone (Inr (RObject v))"
| "call_found ev cmd (Inr None) = PcDone (Inl ErrNotFound)"
| "call_found ev cmd (Inr (Some v)) = ready ev cmd []"

fun call_listed :: "env \<Rightarrow> cmd \<Rightarrow> (u64 \<times> bytes) list res \<Rightarrow> call_pc" where
  "call_listed ev cmd (Inl e) = PcDone (Inl e)"
| "call_listed ev (Cmd_DropClass p c) (Inr objs) =
     (if objs \<noteq> [] then PcDone (Inl ErrClassNotEmpty) else ready ev (Cmd_DropClass p c) [])"
| "call_listed ev cmd (Inr objs) = PcDone (Inr (RObjects objs))"

text \<open>The answer of a write that has been logged.\<close>

fun cmd_reply :: "cmd \<Rightarrow> WALEntry \<Rightarrow> reply" where
  "cmd_reply (Cmd_Create p c data) e = RId (e_ObjectID e)"
| "cmd_reply (Cmd_Bulk p c datas) e = RIds (map e_ObjectID (e_Flatten e))"
| "cmd_reply cmd e = RUnit"

fun call_published :: "cmd \<Rightarrow> WALEntry \<Rightarrow> call_pc" where
  "call_published (Cmd_CreateClass p c) e = PcClasses"
| "call_published (Cmd_DropClass p c) e = PcClasses"
| "call_published cmd e = PcDone (Inr (cmd_reply cmd e))"

fun call_classes :: "cmd \<Rightarrow> engine \<Rightarrow> engine \<times> call_pc" where
  "call_classes (Cmd_DropClass p c) en = (en\<lparr>en_classes := removeAll (ScopeKey p c) (en_classes en)\<rparr>, PcDropIds)"
| "call_classes cmd en =
     (en\<lparr>en_classes := List.insert (ScopeKey (fst (cmd_scope cmd)) (snd (cmd_scope cmd))) (en_classes en)\<rparr>, PcDone (Inr RUnit))"

fun call_step :: "env \<Rightarrow> cmd \<Rightarrow> call_pc \<Rightarrow> engine \<Rightarrow> engine \<times> call_pc" where
  "call_step ev cmd PcStart en = (en, call_start ev cmd en)"
| "call_step ev cmd PcChecked en =
     (en, if \<not> ClassExists en (fst (cmd_scope cmd)) (snd (cmd_scope cmd)) then PcDone (Inl ErrNoClass) else PcScan)"
| "call_step ev cmd PcScan en =
     (case query_snapshot ev (en_snap en) (fst (cmd_scope cmd)) (snd (cmd_scope cmd)) of
        Inl e \<Rightarrow> (en, PcDone (Inl e))
      | Inr merged \<Rightarrow> (en, PcMerge merged))"
| "call_step ev cmd (PcMerge merged) en =
     (en, call_listed ev cmd (query_page None (fst (cmd_page cmd)) (snd (cmd_page cmd))
        (query_overlay (fst (cmd_scope cmd)) (snd (cmd_scope cmd)) (en_overlay en) merged)))"
| "call_step ev cmd PcOverlay en =
     (case map_of (en_overlay en) (cmd_key cmd) of
        Some ov \<Rightarrow> (en, call_found ev cmd (Inr (if ov_deleted ov then None else Some (ov_data ov))))
      | None \<Rightarrow> (en, PcSnapshot))"
| "call_step ev cmd PcSnapshot en = (en, call_found ev cmd (snap_Get (ev_fuel ev) (en_snap en) (cmd_key cmd)))"
| "call_step ev cmd (PcIds ids) en =
     (if length ids < ids_needed cmd then
        let (i, g) = gen_Next (en_idgen en) (ScopeKey (fst (cmd_scope cmd)) (snd (cmd_scope cmd)))
        in (en\<lparr>en_idgen := g\<rparr>, PcIds (ids @ [i]))
      else (en, ready ev cmd ids))"
| "call_step ev cmd (PcReady e) en =
     (case cd_marshal (ev_codec ev) e of
        Inl err \<Rightarrow> (en, PcDone (Inl err))
      | Inr payload \<Rightarrow>
          (case seq_Submit ev payload en of
             (en, Inl err) \<Rightarrow> (en, PcDone (Inl err))
           | (en, Inr tx) \<Rightarrow> (en, PcLogged e tx)))"
| "call_step ev cmd (PcLogged e tx) en = (publish_all (e_Flatten e) tx en, call_published cmd e)"
| "call_step ev cmd PcClasses en = call_classes cmd en"
| "call_step ev cmd PcDropIds en =
     (en\<lparr>en_idgen := gen_Drop (en_idgen en) (ScopeKey (fst (cmd_scope cmd)) (snd (cmd_scope cmd)))\<rparr>, PcDone (Inr RUnit))"
| "call_step ev cmd (PcDone r) en = (en, PcDone r)"

section \<open>A call that is left alone\<close>

text \<open>The steps of one call on end.\<close>

definition alone :: "env \<Rightarrow> cmd \<Rightarrow> engine \<times> call_pc \<Rightarrow> engine \<times> call_pc \<Rightarrow> bool" where
  "alone ev cmd x y \<longleftrightarrow> call_step ev cmd (snd x) (fst x) = y"

lemma alone_step:
  "(alone ev cmd)\<^sup>*\<^sup>* (call_step ev cmd pc en) y \<Longrightarrow> (alone ev cmd)\<^sup>*\<^sup>* (en, pc) y"
  by (rule converse_rtranclp_into_rtranclp) (simp_all add: alone_def)

lemma alone_done: "x = (en, pc) \<Longrightarrow> (alone ev cmd)\<^sup>*\<^sup>* (en, pc) x"
  by simp

lemma flatten_single: "e_Op e \<noteq> OpBatch \<Longrightarrow> e_Flatten e = [e]"
  by (simp add: e_Flatten_def)

lemma alone_single:
  assumes "e_Op (cmd_entry ev cmd ids) \<noteq> OpBatch"
    "submit ev (cmd_entry ev cmd ids) (deletes (cmd_entry ev cmd ids)) en = (en', r)"
  shows "(alone ev cmd)\<^sup>*\<^sup>* (en, ready ev cmd ids) (en', case r of Inl err \<Rightarrow> PcDone (Inl err)
    | Inr tx \<Rightarrow> call_published cmd (with_timestamp (cmd_entry ev cmd ids) (ev_now ev)))"
proof -
  let ?e = "with_timestamp (cmd_entry ev cmd ids) (ev_now ev)"
  have fl: "e_Flatten ?e = [?e]" using assms(1) by (simp add: flatten_single)
  show ?thesis
  proof (cases "submit_log ev (cmd_entry ev cmd ids) en")
    case (Pair en1 l)
    show ?thesis
    proof (cases l)
      case (Inl err)
      then show ?thesis
        using assms(2) Pair unfolding ready_def
        by (intro alone_step) (auto simp: submit_def submit_log_def intro!: alone_done split: sum.splits prod.splits)
    next
      case (Inr tx)
      then have r: "r = Inr tx" "en' = publish_all [?e] tx en1"
        using assms(2) Pair by (simp_all add: submit_def)
      have "call_step ev cmd (PcReady ?e) en = (en1, PcLogged ?e tx)"
        using Pair Inr by (auto simp: submit_log_def split: sum.splits)
      then show ?thesis
        unfolding ready_def r by (intro alone_step) (simp, intro alone_step, simp add: fl)
    qed
  qed
qed

text \<open>The ids of new objects, one after the other.\<close>

lemma alone_ids:
  assumes "gen_Nexts (en_idgen en) (ScopeKey p c) n = (is, g)" "cmd_scope cmd = (p, c)"
    "length ids + n = ids_needed cmd"
  shows "(alone ev cmd)\<^sup>*\<^sup>* (en, PcIds ids) (en\<lparr>en_idgen := g\<rparr>, ready ev cmd (ids @ is))"
  using assms
proof (induction n arbitrary: en ids "is")
  case 0
  have "en\<lparr>en_idgen := en_idgen en\<rparr> = en" by simp
  with 0 show ?case by (intro alone_step) auto
next
  case (Suc n)
  obtain i g1 where i: "gen_Next (en_idgen en) (ScopeKey p c) = (i, g1)" by (cases "gen_Next (en_idgen en) (ScopeKey p c)")
  obtain js g2 where js: "gen_Nexts g1 (ScopeKey p c) n = (js, g2)" by (cases "gen_Nexts g1 (ScopeKey p c) n")
  from i js Suc.prems(1) have "is": "is = i # js" "g = g2" by simp_all
  have "(alone ev cmd)\<^sup>*\<^sup>* (en\<lparr>en_idgen := g1\<rparr>, PcIds (ids @ [i])) (en\<lparr>en_idgen := g\<rparr>, ready ev cmd (ids @ is))"
    using Suc.IH [of "en\<lparr>en_idgen := g1\<rparr>" js "ids @ [i]"] js Suc.prems "is" by simp
  then show ?case using i "is" Suc.prems by (intro alone_step) simp
qed

lemma alone_lookup:
  "(alone ev cmd)\<^sup>*\<^sup>* (en, PcOverlay) (en, call_found ev cmd (en_lookup ev en (cmd_key cmd)))"
  by (cases "map_of (en_overlay en) (cmd_key cmd)")
    (intro alone_step, simp add: en_lookup_def, (intro alone_step, simp add: en_lookup_def)?)+

text \<open>
  The calls end with the reply and the engine of \<open>exec\<close>, whatever the engine and the disk are like; only a
  checkpoint is not a call.
\<close>

lemma alone_trans: "(alone ev cmd)\<^sup>*\<^sup>* x y \<Longrightarrow> (alone ev cmd)\<^sup>*\<^sup>* y z \<Longrightarrow> (alone ev cmd)\<^sup>*\<^sup>* x z"
  by (rule rtranclp_trans)

lemma alone_write:
  assumes "x = (case submit ev (cmd_entry ev cmd ids) del en of
      (en, Inl err) \<Rightarrow> (en, Inl err) | (en, Inr tx) \<Rightarrow> (fin en, Inr v))"
    "del = deletes (cmd_entry ev cmd ids)" "e_Op (cmd_entry ev cmd ids) \<noteq> OpBatch"
    "\<And>en e. e_ObjectID e = e_ObjectID (cmd_entry ev cmd ids) \<Longrightarrow>
      (alone ev cmd)\<^sup>*\<^sup>* (en, call_published cmd e) (fin en, PcDone (Inr v))"
  shows "(alone ev cmd)\<^sup>*\<^sup>* (en, ready ev cmd ids) (fst x, PcDone (snd x))"
proof -
  obtain en' r where s: "submit ev (cmd_entry ev cmd ids) del en = (en', r)" by fastforce
  from alone_single [OF assms(3) s [unfolded assms(2)]] show ?thesis
    using assms(1,4) s by (cases r) (auto elim!: alone_trans)
qed

lemma single_ops [simp]:
  "OpCreateClass \<noteq> OpBatch" "OpDropClass \<noteq> OpBatch" "OpPut \<noteq> OpBatch" "OpDelete \<noteq> OpBatch"
  by (simp_all add: op_defs)

definition runs_as_exec :: "env \<Rightarrow> cmd \<Rightarrow> engine \<Rightarrow> bool" where
  "runs_as_exec ev cmd en \<longleftrightarrow>
     (alone ev cmd)\<^sup>*\<^sup>* (en, PcStart) (fst (exec ev cmd en), PcDone (snd (exec ev cmd en)))"

lemma runsI:
  assumes "(alone ev cmd)\<^sup>*\<^sup>* (en, call_start ev cmd en) (fst (exec ev cmd en), PcDone (snd (exec ev cmd en)))"
  shows "runs_as_exec ev cmd en"
  unfolding runs_as_exec_def by (rule alone_step) (simp add: assms)

lemma CreateClass_alone: "runs_as_exec ev (Cmd_CreateClass p c) en"
proof (rule runsI, cases "validName c \<and> validProject p \<and> \<not> ClassExists en p c")
  case True
  let ?cmd = "Cmd_CreateClass p c"
  have "exec ev ?cmd en = (case submit ev (cmd_entry ev ?cmd []) False en of (en, Inl err) \<Rightarrow> (en, Inl err)
      | (en, Inr tx) \<Rightarrow> (en\<lparr>en_classes := List.insert (ScopeKey p c) (en_classes en)\<rparr>, Inr RUnit))"
    using True by (auto simp: CreateClass_def split: prod.split sum.split)
  from alone_write [OF this] True
  show "(alone ev ?cmd)\<^sup>*\<^sup>* (en, call_start ev ?cmd en) (fst (exec ev ?cmd en), PcDone (snd (exec ev ?cmd en)))"
    by (simp add: alone_step)
qed (auto simp: CreateClass_def)

lemma DropClass_alone: "runs_as_exec ev (Cmd_DropClass p c) en"
proof (rule runsI, cases "ClassExists en p c")
  case True
  let ?cmd = "Cmd_DropClass p c"
  let ?fin = "(fst (exec ev ?cmd en), PcDone (snd (exec ev ?cmd en)))"
  have "(alone ev ?cmd)\<^sup>*\<^sup>* (en, PcScan) ?fin"
  proof (cases "ListObjects ev en p c 1 0")
    case (Inl e)
    with True show ?thesis
      by (cases "query_snapshot ev (en_snap en) p c") 
        (intro alone_step; auto simp: DropClass_def ListObjects_def QueryObjects_def intro: alone_step)+
  next
    case (Inr objs)
    then obtain m where m: "query_snapshot ev (en_snap en) p c = Inr m"
      "query_page None 1 0 (query_overlay p c (en_overlay en) m) = Inr objs"
      using True by (cases "query_snapshot ev (en_snap en) p c") (auto simp: ListObjects_def QueryObjects_def)
    have "(alone ev ?cmd)\<^sup>*\<^sup>* (en, call_listed ev ?cmd (Inr objs)) ?fin"
    proof (cases "objs = []")
      case True
      have "exec ev ?cmd en = (case submit ev (cmd_entry ev ?cmd []) True en of (en, Inl err) \<Rightarrow> (en, Inl err)
          | (en, Inr tx) \<Rightarrow> (en\<lparr>en_classes := removeAll (ScopeKey p c) (en_classes en),
              en_idgen := gen_Drop (en_idgen en) (ScopeKey p c)\<rparr>, Inr RUnit))"
        using \<open>ClassExists en p c\<close> True Inr by (auto simp: DropClass_def split: prod.split sum.split)
      from alone_write [OF this] True show ?thesis by (simp add: alone_step)
    qed (use True Inr in \<open>simp add: DropClass_def\<close>)
    with m show ?thesis by (intro alone_step) (simp, intro alone_step, simp)
  qed
  then show "(alone ev ?cmd)\<^sup>*\<^sup>* (en, call_start ev ?cmd en) ?fin" using True by (simp add: alone_step)
qed (auto simp: DropClass_def)

lemma Create_alone: "runs_as_exec ev (Cmd_Create p c data) en"
proof (rule runsI, cases "ClassExists en p c")
  case True
  let ?cmd = "Cmd_Create p c data"
  obtain i g where g: "gen_Next (en_idgen en) (ScopeKey p c) = (i, g)" by (cases "gen_Next (en_idgen en) (ScopeKey p c)")
  then have ids: "(alone ev ?cmd)\<^sup>*\<^sup>* (en, PcIds []) (en\<lparr>en_idgen := g\<rparr>, ready ev ?cmd [i])"
    using alone_ids [of en p c 1 "[i]" g ?cmd "[]"] by simp
  have "exec ev ?cmd en = (case submit ev (cmd_entry ev ?cmd [i]) False (en\<lparr>en_idgen := g\<rparr>) of
      (en, Inl err) \<Rightarrow> (en, Inl err) | (en, Inr tx) \<Rightarrow> (en, Inr (RId i)))"
    using True g by (simp add: CreateObject_def split: prod.split sum.split)
  from alone_write [OF this] have "(alone ev ?cmd)\<^sup>*\<^sup>* (en\<lparr>en_idgen := g\<rparr>, ready ev ?cmd [i])
      (fst (exec ev ?cmd en), PcDone (snd (exec ev ?cmd en)))" by simp
  with ids True show "(alone ev ?cmd)\<^sup>*\<^sup>* (en, call_start ev ?cmd en) (fst (exec ev ?cmd en), PcDone (snd (exec ev ?cmd en)))"
    by (simp add: alone_trans)
qed (simp add: CreateObject_def)

lemma Bulk_alone: "runs_as_exec ev (Cmd_Bulk p c datas) en"
proof (rule runsI, cases "ClassExists en p c \<and> datas \<noteq> []")
  case True
  let ?cmd = "Cmd_Bulk p c datas"
  obtain ids g where g: "gen_Nexts (en_idgen en) (ScopeKey p c) (length datas) = (ids, g)"
    by (cases "gen_Nexts (en_idgen en) (ScopeKey p c) (length datas)")
  let ?subs = "map2 (\<lambda>i d. WALEntry OpPut p c i d (ev_now ev) []) ids datas"
  let ?batch = "WALEntry OpBatch [] [] 0 [] (ev_now ev) ?subs"
  let ?en = "en\<lparr>en_idgen := g\<rparr>"
  have ids: "(alone ev ?cmd)\<^sup>*\<^sup>* (en, PcIds []) (?en, PcReady ?batch)"
    using alone_ids [OF g, of ?cmd "[]"] by (simp add: ready_def with_timestamp_def)
  have run: "exec ev ?cmd en = (case cd_marshal (ev_codec ev) ?batch of
      Inl e \<Rightarrow> (?en, Inl e)
    | Inr payload \<Rightarrow> (case seq_Submit ev payload ?en of
        (en, Inl e) \<Rightarrow> (en, Inl e)
      | (en, Inr txID) \<Rightarrow> (fold (\<lambda>s. publish s False txID) ?subs en, Inr (RIds (map e_ObjectID ?subs)))))"
    using True by (simp add: CreateObjectsBulk_def bulk_subs_Nexts g split: sum.split prod.split)
  have fl: "e_Flatten ?batch = ?subs" by (simp add: e_Flatten_def)
  have "\<forall>s\<in>set ?subs. e_Op s = OpPut" by (auto simp: set_zip)
  note pub = bulk_publish [OF this]
  have "(alone ev ?cmd)\<^sup>*\<^sup>* (?en, PcReady ?batch) (fst (exec ev ?cmd en), PcDone (snd (exec ev ?cmd en)))"
  proof (cases "cd_marshal (ev_codec ev) ?batch")
    case (Inr payload)
    obtain en' r where s: "seq_Submit ev payload ?en = (en', r)" by fastforce
    show ?thesis
    proof (cases r)
      case (Inr tx)
      have "call_step ev ?cmd (PcReady ?batch) ?en = (en', PcLogged ?batch tx)"
        using \<open>cd_marshal (ev_codec ev) ?batch = Inr payload\<close> s Inr by simp
      then show ?thesis
        unfolding run using \<open>cd_marshal (ev_codec ev) ?batch = Inr payload\<close> s Inr
        by (intro alone_step) (simp only:, intro alone_step, simp add: fl pub comp_def)
    qed (unfold run, use s \<open>cd_marshal (ev_codec ev) ?batch = Inr payload\<close> in \<open>intro alone_step, simp\<close>)
  qed (unfold run, intro alone_step, simp)
  with ids True show "(alone ev ?cmd)\<^sup>*\<^sup>* (en, call_start ev ?cmd en) (fst (exec ev ?cmd en), PcDone (snd (exec ev ?cmd en)))"
    by (simp add: alone_trans)
qed (auto simp: CreateObjectsBulk_def)

lemma lookup_alone:
  assumes "ClassExists en p c" "cmd_scope cmd = (p, c)" "cmd_object cmd = Some i"
    "(alone ev cmd)\<^sup>*\<^sup>* (en, call_found ev cmd (en_lookup ev en (ObjectKey p c i))) y"
  shows "(alone ev cmd)\<^sup>*\<^sup>* (en, call_start ev cmd en) y"
proof -
  have "call_start ev cmd en = PcOverlay" using assms(1-3) by (cases cmd) simp_all
  with alone_lookup [of ev cmd en] assms show ?thesis by (simp add: alone_trans)
qed

lemma Put_alone: "runs_as_exec ev (Cmd_Put p c i data) en"
proof (rule runsI, cases "ClassExists en p c")
  case True
  let ?cmd = "Cmd_Put p c i data"
  let ?fin = "(fst (exec ev ?cmd en), PcDone (snd (exec ev ?cmd en)))"
  have "(alone ev ?cmd)\<^sup>*\<^sup>* (en, call_found ev ?cmd (en_lookup ev en (ObjectKey p c i))) ?fin"
  proof (cases "\<exists>v. en_lookup ev en (ObjectKey p c i) = Inr (Some v)")
    case found: True
    then have "exec ev ?cmd en = (case submit ev (cmd_entry ev ?cmd []) False en of
        (en, Inl err) \<Rightarrow> (en, Inl err) | (en, Inr tx) \<Rightarrow> (en, Inr RUnit))"
      using True by (auto simp: PutObject_def split: prod.split sum.split)
    from alone_write [OF this] found show ?thesis by auto
  next
    case False
    then have "en_lookup ev en (ObjectKey p c i) = Inr None \<or> (\<exists>e. en_lookup ev en (ObjectKey p c i) = Inl e)"
      by (cases "en_lookup ev en (ObjectKey p c i)") auto
    then show ?thesis using True by (auto simp: PutObject_def)
  qed
  with True show "(alone ev ?cmd)\<^sup>*\<^sup>* (en, call_start ev ?cmd en) ?fin" by (intro lookup_alone) simp_all
qed (simp add: PutObject_def)

lemma Delete_alone: "runs_as_exec ev (Cmd_Delete p c i) en"
proof (rule runsI, cases "ClassExists en p c")
  case True
  let ?cmd = "Cmd_Delete p c i"
  let ?fin = "(fst (exec ev ?cmd en), PcDone (snd (exec ev ?cmd en)))"
  have "(alone ev ?cmd)\<^sup>*\<^sup>* (en, call_found ev ?cmd (en_lookup ev en (ObjectKey p c i))) ?fin"
  proof (cases "\<exists>v. en_lookup ev en (ObjectKey p c i) = Inr (Some v)")
    case found: True
    then have "exec ev ?cmd en = (case submit ev (cmd_entry ev ?cmd []) True en of
        (en, Inl err) \<Rightarrow> (en, Inl err) | (en, Inr tx) \<Rightarrow> (en, Inr RUnit))"
      using True by (auto simp: DeleteObject_def split: prod.split sum.split)
    from alone_write [OF this] found show ?thesis by auto
  next
    case False
    then have "en_lookup ev en (ObjectKey p c i) = Inr None \<or> (\<exists>e. en_lookup ev en (ObjectKey p c i) = Inl e)"
      by (cases "en_lookup ev en (ObjectKey p c i)") auto
    then show ?thesis using True by (auto simp: DeleteObject_def)
  qed
  with True show "(alone ev ?cmd)\<^sup>*\<^sup>* (en, call_start ev ?cmd en) ?fin" by (intro lookup_alone) simp_all
qed (simp add: DeleteObject_def)

lemma Get_alone: "runs_as_exec ev (Cmd_Get p c i) en"
proof (rule runsI, cases "ClassExists en p c")
  case True
  let ?cmd = "Cmd_Get p c i"
  have "(alone ev ?cmd)\<^sup>*\<^sup>* (en, call_found ev ?cmd (en_lookup ev en (ObjectKey p c i)))
      (fst (exec ev ?cmd en), PcDone (snd (exec ev ?cmd en)))"
    using True by (cases "en_lookup ev en (ObjectKey p c i)") (simp_all add: GetObject_def)
  with True show "(alone ev ?cmd)\<^sup>*\<^sup>* (en, call_start ev ?cmd en) (fst (exec ev ?cmd en), PcDone (snd (exec ev ?cmd en)))"
    by (intro lookup_alone) simp_all
qed (simp add: GetObject_def)

lemma List_alone: "runs_as_exec ev (Cmd_List p c limit offset) en"
proof (rule runsI, cases "ClassExists en p c")
  case True
  let ?cmd = "Cmd_List p c limit offset"
  let ?fin = "(fst (exec ev ?cmd en), PcDone (snd (exec ev ?cmd en)))"
  have "(alone ev ?cmd)\<^sup>*\<^sup>* (en, PcScan) ?fin"
  proof (cases "query_snapshot ev (en_snap en) p c")
    case (Inr m)
    then show ?thesis
      using True by (cases "query_page None limit offset (query_overlay p c (en_overlay en) m)")
        (intro alone_step, simp, intro alone_step, simp add: ListObjects_def QueryObjects_def)+
  qed (use True in \<open>intro alone_step, simp add: ListObjects_def QueryObjects_def\<close>)
  with True show "(alone ev ?cmd)\<^sup>*\<^sup>* (en, call_start ev ?cmd en) ?fin" by simp
qed (simp add: ListObjects_def QueryObjects_def)

text \<open>
  The program points cut the calls where they are, and nothing else. The steps of a call that no
  other goroutine comes between lead from its first point to the engine and the answer of the function of the same
  name, whatever the engine, its directory and the disk are like.
\<close>

theorem calls_run_alone:
  assumes "cmd \<noteq> Cmd_Checkpoint"
  shows "(alone ev cmd)\<^sup>*\<^sup>* (en, PcStart) (fst (exec ev cmd en), PcDone (snd (exec ev cmd en)))"
  using assms unfolding runs_as_exec_def [symmetric]
  by (cases cmd)
    (simp_all add: CreateClass_alone DropClass_alone Create_alone Bulk_alone Put_alone Delete_alone Get_alone List_alone)

theorem calls_run_alone_witness:
  "\<exists>en en'. (alone sample_env (Cmd_Create [] sample_class [3]))\<^sup>*\<^sup>* (en, PcStart) (en', PcDone (Inr (RId 1))) \<and>
     represents sample_env en class_db \<and> represents sample_env en' (object_db [3])"
proof -
  from sample_boot sample_create_class obtain en where en: "at en class_db 1 gen_New" by blast
  from sample_create [OF en, of "[3]"] obtain en' where
    "exec sample_env (Cmd_Create [] sample_class [3]) en = (en', Inr (RId 1))" "represents sample_env en' (object_db [3])"
    by (auto simp: at_def)
  with en calls_run_alone [of "Cmd_Create [] sample_class [3]" sample_env en] show ?thesis by (auto simp: at_def)
qed

end
