(* ===== verification/EngineLin.thy ===== *)
theory EngineLin
  imports EngineCalls
begin

text \<open>
  Any number of calls overlapping, with the checkpoint at work. As long as no call writes what another
  one that overlaps it reads, and a query does not span the end of a checkpoint, the calls are linearizable: they
  answer as if each happened at one moment between its invocation and its return. What goes wrong otherwise is
  in \<open>EngineRaces\<close>.
\<close>

section \<open>Histories of overlapping calls\<close>

text \<open>
  A history has the invocations and the returns, by worker. Between the two of a call, \<open>Effected\<close> is the moment at
  which it happens; it is not part of the history that is observed.
\<close>

datatype call_event = Invoked nat cmd | Effected nat cmd "reply res" | Returned nat "reply res"

fun observed :: "call_event \<Rightarrow> bool" where
  "observed (Effected w cmd r) = False"
| "observed x = True"

datatype phase = Away | Calling cmd | Answering cmd "reply res"

text \<open>Each worker invokes, is effective once, and returns the answer of that moment.\<close>

fun in_order :: "nat \<Rightarrow> phase \<Rightarrow> call_event list \<Rightarrow> phase option" where
  "in_order w ph [] = Some ph"
| "in_order w ph (Invoked v cmd # es) =
     (if v \<noteq> w then in_order w ph es else if ph = Away then in_order w (Calling cmd) es else None)"
| "in_order w ph (Effected v cmd r # es) =
     (if v \<noteq> w then in_order w ph es else if ph = Calling cmd then in_order w (Answering cmd r) es else None)"
| "in_order w ph (Returned v r # es) =
     (if v \<noteq> w then in_order w ph es
      else case ph of Answering cmd r' \<Rightarrow> if r' = r then in_order w Away es else None | _ \<Rightarrow> None)"

fun effects :: "call_event list \<Rightarrow> (cmd \<times> reply res) list" where
  "effects [] = []"
| "effects (Effected w cmd r # es) = (cmd, r) # effects es"
| "effects (x # es) = effects es"

text \<open>
  The specification of a sequence of commands. The state is the database and the ids that were given out since the class
  was last dropped. It is that of \<open>EngineSpec\<close>, but for the ids of new objects: a new id was not given out before, though
  it need not be above all others.
\<close>

type_synonym given = "bytes \<Rightarrow> u64 set"

definition new_ids :: "bytes \<Rightarrow> bytes \<Rightarrow> db \<times> given \<Rightarrow> u64 list \<Rightarrow> bool" where
  "new_ids p c x ids \<longleftrightarrow> distinct ids \<and>
     (\<forall>i\<in>set ids. 0 < sint i \<and> objects p c (fst x) i = None \<and> i \<notin> snd x (ScopeKey p c))"

definition give :: "bytes \<Rightarrow> bytes \<Rightarrow> u64 list \<Rightarrow> given \<Rightarrow> given" where
  "give p c ids U = U(ScopeKey p c := U (ScopeKey p c) \<union> set ids)"

fun call_spec :: "cmd \<Rightarrow> db \<times> given \<Rightarrow> reply res \<Rightarrow> db \<times> given \<Rightarrow> bool" where
  "call_spec (Cmd_Create p c v) x r x' \<longleftrightarrow>
     (if \<not> has_class p c (fst x) then r = Inl ErrNoClass \<and> x' = x
      else \<exists>i. new_ids p c x [i] \<and> r = Inr (RId i) \<and> x' = ((fst x)(ObjectKey p c i \<mapsto> v), give p c [i] (snd x)))"
| "call_spec (Cmd_Bulk p c vs) x r x' \<longleftrightarrow>
     (if \<not> has_class p c (fst x) then r = Inl ErrNoClass \<and> x' = x
      else \<exists>ids. length ids = length vs \<and> new_ids p c x ids \<and> r = Inr (RIds ids) \<and>
        x' = (put_objects p c (zip ids vs) (fst x), give p c ids (snd x)))"
| "call_spec (Cmd_DropClass p c) x r x' \<longleftrightarrow>
     spec (Cmd_DropClass p c) (fst x) r (fst x') \<and>
     snd x' = (if r = Inr RUnit then (snd x)(ScopeKey p c := {}) else snd x)"
| "call_spec cmd x r x' \<longleftrightarrow> spec cmd (fst x) r (fst x') \<and> snd x' = snd x"

fun legal :: "env \<Rightarrow> db \<times> given \<Rightarrow> (cmd \<times> reply res) list \<Rightarrow> db \<times> given \<Rightarrow> bool" where
  "legal ev x [] x' \<longleftrightarrow> x' = x"
| "legal ev x ((cmd, r) # xs) x'' \<longleftrightarrow>
     (\<exists>x'. (call_spec cmd x r x' \<or> refused ev r \<and> x' = x) \<and> legal ev x' xs x'')"

definition linearizes :: "env \<Rightarrow> db \<Rightarrow> call_event list \<Rightarrow> db \<Rightarrow> bool" where
  "linearizes ev d0 h d \<longleftrightarrow> (\<exists>tr U. filter observed tr = h \<and> (\<forall>w. in_order w Away tr \<noteq> None) \<and>
     legal ev (d0, \<lambda>_. {}) (effects tr) (d, U))"

section \<open>The system\<close>

record callers =
  sy_en :: engine
  sy_ck :: ck_pc
  sy_calls :: "nat \<Rightarrow> (cmd \<times> call_pc) option"
  sy_hist :: "call_event list"

definition sys_start :: "engine \<Rightarrow> callers" where
  "sys_start en = \<lparr>sy_en = en, sy_ck = CkIdle, sy_calls = (\<lambda>_. None), sy_hist = []\<rparr>"

text \<open>The keys that a call reads, and those it writes; new objects have the ids the call has so far.\<close>

fun reads :: "cmd \<Rightarrow> bytes set" where
  "reads (Cmd_CreateClass p c) = {ClassKey p c}"
| "reads (Cmd_DropClass p c) = insert (ClassKey p c) (range (ObjectKey p c))"
| "reads (Cmd_Create p c v) = {ClassKey p c}"
| "reads (Cmd_Bulk p c vs) = {ClassKey p c}"
| "reads (Cmd_Put p c i v) = {ClassKey p c, ObjectKey p c i}"
| "reads (Cmd_Delete p c i) = {ClassKey p c, ObjectKey p c i}"
| "reads (Cmd_Get p c i) = {ClassKey p c, ObjectKey p c i}"
| "reads (Cmd_List p c limit offset) = insert (ClassKey p c) (range (ObjectKey p c))"
| "reads Cmd_Checkpoint = {}"

fun pc_ids :: "call_pc \<Rightarrow> u64 list" where
  "pc_ids (PcIds ids) = ids"
| "pc_ids (PcReady e) = map e_ObjectID (e_Flatten e)"
| "pc_ids (PcLogged e tx) = map e_ObjectID (e_Flatten e)"
| "pc_ids _ = []"

fun writes :: "cmd \<Rightarrow> call_pc \<Rightarrow> bytes set" where
  "writes (Cmd_CreateClass p c) pc = {ClassKey p c}"
| "writes (Cmd_DropClass p c) pc = {ClassKey p c}"
| "writes (Cmd_Create p c v) pc = ObjectKey p c ` set (pc_ids pc)"
| "writes (Cmd_Bulk p c vs) pc = ObjectKey p c ` set (pc_ids pc)"
| "writes (Cmd_Put p c i v) pc = {ObjectKey p c i}"
| "writes (Cmd_Delete p c i) pc = {ObjectKey p c i}"
| "writes _ pc = {}"

fun answered :: "call_pc \<Rightarrow> bool" where
  "answered (PcDone r) = True"
| "answered _ = False"

definition apart :: "(nat \<Rightarrow> (cmd \<times> call_pc) option) \<Rightarrow> bool" where
  "apart calls \<longleftrightarrow> (\<forall>w cmd pc w' cmd' pc'. w \<noteq> w' \<longrightarrow> calls w = Some (cmd, pc) \<longrightarrow> calls w' = Some (cmd', pc') \<longrightarrow>
     \<not> answered pc \<longrightarrow> \<not> answered pc' \<longrightarrow> writes cmd pc \<inter> reads cmd' = {})"

text \<open>Room for one more id, and for one more entry.\<close>

fun call_room :: "env \<Rightarrow> engine \<Rightarrow> cmd \<Rightarrow> call_pc \<Rightarrow> bool" where
  "call_room ev en cmd (PcIds ids) \<longleftrightarrow>
     sint (gen_Current (en_idgen en) (ScopeKey (fst (cmd_scope cmd)) (snd (cmd_scope cmd)))) + 1 < 2 ^ 63"
| "call_room ev en cmd (PcReady e) \<longleftrightarrow> tx_left en \<and>
     (\<forall>d. dir_db_of ds_ok (ev_codec ev) (ev_fuel ev) (en_dir en) d \<longrightarrow> db_ok (ev_fuel ev) (entry_apply e d))"
| "call_room ev en cmd _ \<longleftrightarrow> True"

text \<open>The end of a checkpoint prunes the overlay.\<close>

definition prunes :: "ck_pc \<Rightarrow> bool" where
  "prunes pc \<longleftrightarrow> (\<exists>g folded. pc = CkDropped g folded)"

inductive sys_step :: "env \<Rightarrow> callers \<Rightarrow> callers \<Rightarrow> bool" for ev where
  invoke: "sy_calls s w = None \<Longrightarrow> cmd \<noteq> Cmd_Checkpoint \<Longrightarrow> apart ((sy_calls s)(w \<mapsto> (cmd, PcStart))) \<Longrightarrow>
    sys_step ev s (s\<lparr>sy_calls := (sy_calls s)(w \<mapsto> (cmd, PcStart)), sy_hist := sy_hist s @ [Invoked w cmd]\<rparr>)"
| move: "sy_calls s w = Some (cmd, pc) \<Longrightarrow> call_room ev (sy_en s) cmd pc \<Longrightarrow>
    call_step ev cmd pc (sy_en s) = (en, pc') \<Longrightarrow> apart ((sy_calls s)(w \<mapsto> (cmd, pc'))) \<Longrightarrow>
    sys_step ev s (s\<lparr>sy_en := en, sy_calls := (sy_calls s)(w \<mapsto> (cmd, pc'))\<rparr>)"
| return: "sy_calls s w = Some (cmd, PcDone r) \<Longrightarrow>
    sys_step ev s (s\<lparr>sy_calls := (sy_calls s)(w := None), sy_hist := sy_hist s @ [Returned w r]\<rparr>)"
| checkpoint: "ck_do ev (sy_ck s, sy_en s) = (pc, en) \<Longrightarrow>
    \<not> (prunes (sy_ck s) \<and> (\<exists>w cmd m. sy_calls s w = Some (cmd, PcMerge m))) \<Longrightarrow>
    sys_step ev s (s\<lparr>sy_en := en, sy_ck := pc\<rparr>)"

section \<open>The invariant\<close>

fun phase_of :: "(cmd \<times> call_pc) option \<Rightarrow> phase" where
  "phase_of None = Away"
| "phase_of (Some (cmd, PcLogged e tx)) = Answering cmd (Inr (cmd_reply cmd e))"
| "phase_of (Some (cmd, PcClasses)) = Answering cmd (Inr RUnit)"
| "phase_of (Some (cmd, PcDropIds)) = Answering cmd (Inr RUnit)"
| "phase_of (Some (cmd, PcDone r)) = Answering cmd r"
| "phase_of (Some (cmd, _)) = Calling cmd"

text \<open>The writers of \<open>EngineConc\<close>.\<close>

definition writers_of :: "(nat \<Rightarrow> (cmd \<times> call_pc) option) \<Rightarrow> nat \<Rightarrow> (WALEntry list \<times> u64) option" where
  "writers_of calls w = (case calls w of Some (cmd, PcLogged e tx) \<Rightarrow> Some (e_Flatten e, tx) | _ \<Rightarrow> None)"

definition conc_of :: "callers \<Rightarrow> WALEntry list \<Rightarrow> conc" where
  "conc_of s log = \<lparr>cn_en = sy_en s, cn_ck = sy_ck s, cn_writers = writers_of (sy_calls s), cn_log = log\<rparr>"

text \<open>Ids that a call has for objects that are not in the database yet.\<close>

definition free_ids :: "db \<times> given \<Rightarrow> generator \<Rightarrow> bytes \<Rightarrow> bytes \<Rightarrow> u64 list \<Rightarrow> bool" where
  "free_ids x g p c ids \<longleftrightarrow> new_ids p c x ids \<and> (\<forall>i\<in>set ids. sint i \<le> sint (gen_Current g (ScopeKey p c)))"

text \<open>What holds when the entry of a command is ready to be logged, and when it has been.\<close>

fun ready_ok :: "cmd \<Rightarrow> db \<times> given \<Rightarrow> generator \<Rightarrow> u64 list \<Rightarrow> bool" where
  "ready_ok (Cmd_CreateClass p c) x g ids \<longleftrightarrow> validName c \<and> validProject p \<and> \<not> has_class p c (fst x)"
| "ready_ok (Cmd_DropClass p c) x g ids \<longleftrightarrow> has_class p c (fst x) \<and> objects p c (fst x) = Map.empty"
| "ready_ok (Cmd_Create p c v) x g ids \<longleftrightarrow> has_class p c (fst x) \<and> length ids = 1 \<and> free_ids x g p c ids"
| "ready_ok (Cmd_Bulk p c vs) x g ids \<longleftrightarrow> has_class p c (fst x) \<and> length ids = length vs \<and> free_ids x g p c ids"
| "ready_ok (Cmd_Put p c i v) x g ids \<longleftrightarrow> has_class p c (fst x) \<and> objects p c (fst x) i \<noteq> None"
| "ready_ok (Cmd_Delete p c i) x g ids \<longleftrightarrow> has_class p c (fst x) \<and> objects p c (fst x) i \<noteq> None"
| "ready_ok cmd x g ids \<longleftrightarrow> False"

fun logged_ok :: "cmd \<Rightarrow> db \<times> given \<Rightarrow> bool" where
  "logged_ok (Cmd_CreateClass p c) x \<longleftrightarrow> has_class p c (fst x)"
| "logged_ok (Cmd_DropClass p c) x \<longleftrightarrow> no_sep p \<and> no_sep c \<and> fst x (ClassKey p c) = None \<and>
     snd x (ScopeKey p c) = {}"
| "logged_ok (Cmd_Get p c i) x \<longleftrightarrow> False"
| "logged_ok (Cmd_List p c l f) x \<longleftrightarrow> False"
| "logged_ok Cmd_Checkpoint x \<longleftrightarrow> False"
| "logged_ok cmd x \<longleftrightarrow> has_class (fst (cmd_scope cmd)) (snd (cmd_scope cmd)) (fst x)"

fun class_cmd :: "cmd \<Rightarrow> bool" where
  "class_cmd (Cmd_CreateClass p c) = True"
| "class_cmd (Cmd_DropClass p c) = True"
| "class_cmd _ = False"

fun drop_cmd :: "cmd \<Rightarrow> bool" where
  "drop_cmd (Cmd_DropClass p c) = True"
| "drop_cmd _ = False"

fun query_cmd :: "cmd \<Rightarrow> bool" where
  "query_cmd (Cmd_DropClass p c) = True"
| "query_cmd (Cmd_List p c l f) = True"
| "query_cmd _ = False"

fun create_cmd :: "cmd \<Rightarrow> bool" where
  "create_cmd (Cmd_Create p c v) = True"
| "create_cmd (Cmd_Bulk p c vs) = True"
| "create_cmd _ = False"

abbreviation has_scope :: "cmd \<Rightarrow> db \<Rightarrow> bool" where
  "has_scope cmd d \<equiv> has_class (fst (cmd_scope cmd)) (snd (cmd_scope cmd)) d"

text \<open>The ids a call has were given out.\<close>

definition ids_low :: "generator \<Rightarrow> cmd \<Rightarrow> call_pc \<Rightarrow> bool" where
  "ids_low g cmd pc \<longleftrightarrow> (create_cmd cmd \<longrightarrow>
     (\<forall>i\<in>set (pc_ids pc). sint i \<le> sint (gen_Current g (ScopeKey (fst (cmd_scope cmd)) (snd (cmd_scope cmd))))))"

text \<open>What a call knows, by its program counter.\<close>

fun call_ok :: "env \<Rightarrow> db \<times> given \<Rightarrow> engine \<Rightarrow> cmd \<Rightarrow> call_pc \<Rightarrow> bool" where
  "call_ok ev x en cmd PcStart \<longleftrightarrow> cmd \<noteq> Cmd_Checkpoint"
| "call_ok ev x en cmd PcChecked \<longleftrightarrow> drop_cmd cmd \<and> has_scope cmd (fst x)"
| "call_ok ev x en cmd PcScan \<longleftrightarrow> query_cmd cmd \<and> has_scope cmd (fst x)"
| "call_ok ev x en cmd (PcMerge m) \<longleftrightarrow> query_cmd cmd \<and> has_scope cmd (fst x) \<and> distinct (map fst m) \<and>
     (\<forall>i. map_of (en_overlay en) (ObjectKey (fst (cmd_scope cmd)) (snd (cmd_scope cmd)) i) = None \<longrightarrow>
        map_of m i = objects (fst (cmd_scope cmd)) (snd (cmd_scope cmd)) (fst x) i)"
| "call_ok ev x en cmd PcOverlay \<longleftrightarrow> cmd_object cmd \<noteq> None \<and> has_scope cmd (fst x)"
| "call_ok ev x en cmd PcSnapshot \<longleftrightarrow> cmd_object cmd \<noteq> None \<and> has_scope cmd (fst x) \<and>
     map_of (en_overlay en) (cmd_key cmd) = None"
| "call_ok ev x en cmd (PcIds ids) \<longleftrightarrow> create_cmd cmd \<and> has_scope cmd (fst x) \<and> length ids \<le> ids_needed cmd \<and>
     free_ids x (en_idgen en) (fst (cmd_scope cmd)) (snd (cmd_scope cmd)) ids"
| "call_ok ev x en cmd (PcReady e) \<longleftrightarrow>
     (\<exists>ids. PcReady e = ready ev cmd ids \<and> ready_ok cmd x (en_idgen en) ids)"
| "call_ok ev x en cmd (PcLogged e tx) \<longleftrightarrow> logged_ok cmd x \<and> ids_low (en_idgen en) cmd (PcLogged e tx) \<and>
     keys_of (e_Flatten e) = writes cmd (PcLogged e tx) \<and> (\<forall>s\<in>set (e_Flatten e). sub_ok s)"
| "call_ok ev x en cmd PcClasses \<longleftrightarrow> class_cmd cmd \<and> logged_ok cmd x"
| "call_ok ev x en cmd PcDropIds \<longleftrightarrow> drop_cmd cmd \<and> logged_ok cmd x"
| "call_ok ev x en cmd (PcDone r) \<longleftrightarrow> True"

text \<open>A class command between its log record and the map of classes.\<close>

definition class_moving :: "(nat \<Rightarrow> (cmd \<times> call_pc) option) \<Rightarrow> bytes \<Rightarrow> bytes \<Rightarrow> bool" where
  "class_moving calls p c \<longleftrightarrow> (\<exists>w cmd pc. calls w = Some (cmd, pc) \<and> class_cmd cmd \<and> cmd_scope cmd = (p, c) \<and>
     (pc = PcClasses \<or> (\<exists>e tx. pc = PcLogged e tx)))"

definition classes_seen :: "callers \<Rightarrow> db \<Rightarrow> bool" where
  "classes_seen s d \<longleftrightarrow> distinct (en_classes (sy_en s)) \<and>
     set (en_classes (sy_en s)) \<subseteq> {ScopeKey p c |p c. no_sep p \<and> no_sep c} \<and>
     (\<forall>p c. no_sep p \<longrightarrow> no_sep c \<longrightarrow> \<not> class_moving (sy_calls s) p c \<longrightarrow>
        (ScopeKey p c \<in> set (en_classes (sy_en s)) \<longleftrightarrow> d (ClassKey p c) \<noteq> None))"

definition given_ok :: "generator \<Rightarrow> given \<Rightarrow> bool" where
  "given_ok g U \<longleftrightarrow> (\<forall>cls. \<forall>i\<in>U cls. sint i \<le> sint (gen_Current g cls))"

text \<open>Calls that create objects in one class have different ids.\<close>

definition ids_apart :: "(nat \<Rightarrow> (cmd \<times> call_pc) option) \<Rightarrow> bool" where
  "ids_apart calls \<longleftrightarrow> (\<forall>w cmd pc w' cmd' pc'. w \<noteq> w' \<longrightarrow> calls w = Some (cmd, pc) \<longrightarrow> calls w' = Some (cmd', pc') \<longrightarrow>
     create_cmd cmd \<longrightarrow> create_cmd cmd' \<longrightarrow> cmd_scope cmd = cmd_scope cmd' \<longrightarrow>
     set (pc_ids pc) \<inter> set (pc_ids pc') = {})"

definition store_keys_ok :: "env \<Rightarrow> engine \<Rightarrow> bool" where
  "store_keys_ok ev en \<longleftrightarrow> (\<forall>(k, v)\<in>set (en_overlay en). key_ok k) \<and>
     (\<forall>k v. snap_Get (ev_fuel ev) (en_snap en) k = Inr (Some v) \<longrightarrow> key_ok k)"

text \<open>All of it, for a log and the database and ids it stands for.\<close>

definition shared_ok :: "env \<Rightarrow> callers \<Rightarrow> db \<times> given \<Rightarrow> bool" where
  "shared_ok ev s x \<longleftrightarrow> classes_seen s (fst x) \<and> objects_ok (en_idgen (sy_en s)) (fst x) \<and>
     given_ok (en_idgen (sy_en s)) (snd x) \<and> store_keys_ok ev (sy_en s)"

definition calls_ok :: "env \<Rightarrow> callers \<Rightarrow> db \<times> given \<Rightarrow> bool" where
  "calls_ok ev s x \<longleftrightarrow> apart (sy_calls s) \<and> ids_apart (sy_calls s) \<and>
     (\<forall>w cmd pc. sy_calls s w = Some (cmd, pc) \<longrightarrow> call_ok ev x (sy_en s) cmd pc)"

definition traced :: "env \<Rightarrow> db \<Rightarrow> callers \<Rightarrow> db \<times> given \<Rightarrow> bool" where
  "traced ev d0 s x \<longleftrightarrow> (\<exists>tr. filter observed tr = sy_hist s \<and>
     (\<forall>w. in_order w Away tr = Some (phase_of (sy_calls s w))) \<and> legal ev (d0, \<lambda>_. {}) (effects tr) x)"

definition sys_inv :: "env \<Rightarrow> db \<Rightarrow> callers \<Rightarrow> bool" where
  "sys_inv ev d0 s \<longleftrightarrow> (\<exists>log U. let x = (fold entry_apply log d0, U) in
     conc_inv ev d0 (conc_of s log) \<and> shared_ok ev s x \<and> calls_ok ev s x \<and> traced ev d0 s x)"

section \<open>Traces\<close>

lemma in_order_append:
  "in_order w ph (xs @ ys) = (case in_order w ph xs of None \<Rightarrow> None | Some ph' \<Rightarrow> in_order w ph' ys)"
proof (induction xs arbitrary: ph)
  case (Cons x xs)
  then show ?case by (cases x; cases ph) simp_all
qed simp

lemma effects_append [simp]: "effects (xs @ ys) = effects xs @ effects ys"
proof (induction xs)
  case (Cons x xs)
  then show ?case by (cases x) simp_all
qed simp

lemma legal_snoc:
  "legal ev x0 xs x \<Longrightarrow> call_spec cmd x r x' \<or> refused ev r \<and> x' = x \<Longrightarrow> legal ev x0 (xs @ [(cmd, r)]) x'"
proof (induction xs arbitrary: x0)
  case (Cons a xs)
  then show ?case by (cases a) fastforce
qed (cases x'; auto)

lemma traced_same:
  "traced ev d0 s x \<Longrightarrow> sy_hist s' = sy_hist s \<Longrightarrow> (\<And>v. phase_of (sy_calls s' v) = phase_of (sy_calls s v)) \<Longrightarrow>
   traced ev d0 s' x"
  by (simp add: traced_def)

lemma traced_effect:
  assumes "traced ev d0 s x" "sy_hist s' = sy_hist s" "sy_calls s' = (sy_calls s)(w \<mapsto> y)"
    "phase_of (sy_calls s w) = Calling cmd" "phase_of (Some y) = Answering cmd r"
    "call_spec cmd x r x' \<or> refused ev r \<and> x' = x"
  shows "traced ev d0 s' x'"
proof -
  from assms(1) obtain tr where tr: "filter observed tr = sy_hist s"
    "\<And>w. in_order w Away tr = Some (phase_of (sy_calls s w))" "legal ev (d0, \<lambda>_. {}) (effects tr) x"
    by (auto simp: traced_def)
  then show ?thesis
    unfolding traced_def using assms(2-) legal_snoc [OF tr(3)]
    by (intro exI [of _ "tr @ [Effected w cmd r]"]) (simp add: in_order_append)
qed

lemma traced_invoke:
  assumes "traced ev d0 s x" "sy_calls s w = None"
  shows "traced ev d0 (s\<lparr>sy_calls := (sy_calls s)(w \<mapsto> (cmd, PcStart)), sy_hist := sy_hist s @ [Invoked w cmd]\<rparr>) x"
proof -
  from assms(1) obtain tr where tr: "filter observed tr = sy_hist s"
    "\<And>w. in_order w Away tr = Some (phase_of (sy_calls s w))" "legal ev (d0, \<lambda>_. {}) (effects tr) x"
    by (auto simp: traced_def)
  then show ?thesis
    unfolding traced_def using assms(2) by (intro exI [of _ "tr @ [Invoked w cmd]"]) (simp add: in_order_append)
qed

lemma traced_return:
  assumes "traced ev d0 s x" "sy_calls s w = Some (cmd, PcDone r)"
  shows "traced ev d0 (s\<lparr>sy_calls := (sy_calls s)(w := None), sy_hist := sy_hist s @ [Returned w r]\<rparr>) x"
proof -
  from assms(1) obtain tr where tr: "filter observed tr = sy_hist s"
    "\<And>w. in_order w Away tr = Some (phase_of (sy_calls s w))" "legal ev (d0, \<lambda>_. {}) (effects tr) x"
    by (auto simp: traced_def)
  then show ?thesis
    unfolding traced_def using assms(2) by (intro exI [of _ "tr @ [Returned w r]"]) (simp add: in_order_append)
qed

section \<open>What other calls do not change\<close>

lemma has_class_cong: "d' (ClassKey p c) = d (ClassKey p c) \<Longrightarrow> has_class p c d' = has_class p c d"
  by (simp add: has_class_def)

lemma reads_class: "cmd \<noteq> Cmd_Checkpoint \<Longrightarrow> ClassKey (fst (cmd_scope cmd)) (snd (cmd_scope cmd)) \<in> reads cmd"
  by (cases cmd) simp_all

lemma reads_query: "query_cmd cmd \<Longrightarrow> ObjectKey (fst (cmd_scope cmd)) (snd (cmd_scope cmd)) i \<in> reads cmd"
  by (cases cmd) simp_all

lemma reads_object: "cmd_object cmd \<noteq> None \<Longrightarrow> cmd_key cmd \<in> reads cmd"
  by (cases cmd) simp_all

text \<open>The ids a call has are still its own.\<close>

definition ids_kept :: "db \<times> given \<Rightarrow> generator \<Rightarrow> cmd \<Rightarrow> call_pc \<Rightarrow> bool" where
  "ids_kept x g cmd pc \<longleftrightarrow> (\<forall>i\<in>set (pc_ids pc).
     objects (fst (cmd_scope cmd)) (snd (cmd_scope cmd)) (fst x) i = None \<and>
     i \<notin> snd x (ScopeKey (fst (cmd_scope cmd)) (snd (cmd_scope cmd))) \<and>
     sint i \<le> sint (gen_Current g (ScopeKey (fst (cmd_scope cmd)) (snd (cmd_scope cmd)))))"

lemma ready_ids: "create_cmd cmd \<Longrightarrow> ready_ok cmd x g ids \<Longrightarrow> PcReady e = ready ev cmd ids \<Longrightarrow> pc_ids (PcReady e) = ids"
proof (cases cmd)
  case (Cmd_Create p c v)
  then show "create_cmd cmd \<Longrightarrow> ready_ok cmd x g ids \<Longrightarrow> PcReady e = ready ev cmd ids \<Longrightarrow> pc_ids (PcReady e) = ids"
    by (cases ids) (auto simp: ready_def e_Flatten_def)
next
  case (Cmd_Bulk p c vs)
  then show "create_cmd cmd \<Longrightarrow> ready_ok cmd x g ids \<Longrightarrow> PcReady e = ready ev cmd ids \<Longrightarrow> pc_ids (PcReady e) = ids"
    by (auto simp: ready_def e_Flatten_def with_timestamp_def list_eq_iff_nth_eq)
qed simp_all

lemma free_ids_kept:
  "free_ids x g (fst (cmd_scope cmd)) (snd (cmd_scope cmd)) (pc_ids pc) \<Longrightarrow> ids_kept x' g' cmd pc \<Longrightarrow>
   free_ids x' g' (fst (cmd_scope cmd)) (snd (cmd_scope cmd)) (pc_ids pc)"
  by (auto simp: free_ids_def new_ids_def ids_kept_def)

lemma ready_frame:
  assumes "ready_ok cmd x g ids" "\<And>k. k \<in> reads cmd \<Longrightarrow> fst x' k = fst x k"
    "create_cmd cmd \<Longrightarrow> ids_kept x' g' cmd (PcIds ids)"
  shows "ready_ok cmd x' g' ids"
proof -
  have c: "has_scope cmd (fst x') = has_scope cmd (fst x)"
    using assms(1,2) reads_class [of cmd] by (intro has_class_cong) (cases cmd; simp)
  show ?thesis
  proof (cases cmd)
    case (Cmd_Create p q v)
    then show ?thesis using assms(1,3) c free_ids_kept [of x g cmd "PcIds ids" x' g'] by simp
  next
    case (Cmd_Bulk p q v)
    then show ?thesis using assms(1,3) c free_ids_kept [of x g cmd "PcIds ids" x' g'] by simp
  qed (use assms(1,2) c in \<open>auto simp: objects_def fun_eq_iff\<close>)
qed

definition given_kept :: "db \<times> given \<Rightarrow> db \<times> given \<Rightarrow> cmd \<Rightarrow> bool" where
  "given_kept x x' cmd \<longleftrightarrow> (drop_cmd cmd \<longrightarrow> logged_ok cmd x \<longrightarrow>
     snd x' (ScopeKey (fst (cmd_scope cmd)) (snd (cmd_scope cmd))) \<subseteq> snd x (ScopeKey (fst (cmd_scope cmd)) (snd (cmd_scope cmd))))"

lemma logged_frame:
  "logged_ok cmd x \<Longrightarrow> (\<And>k. k \<in> reads cmd \<Longrightarrow> fst x' k = fst x k) \<Longrightarrow> given_kept x x' cmd \<Longrightarrow> logged_ok cmd x'"
  by (cases cmd) (auto simp: has_class_def given_kept_def)

lemma call_frame:
  assumes "call_ok ev x en cmd pc" "\<And>k. k \<in> reads cmd \<Longrightarrow> fst x' k = fst x k"
    "\<And>k. k \<in> reads cmd \<Longrightarrow> map_of (en_overlay en') k = map_of (en_overlay en) k"
    "create_cmd cmd \<Longrightarrow> (\<forall>e tx. pc \<noteq> PcLogged e tx) \<Longrightarrow> ids_kept x' (en_idgen en') cmd pc" "given_kept x x' cmd"
    "ids_low (en_idgen en) cmd pc \<Longrightarrow> ids_low (en_idgen en') cmd pc"
  shows "call_ok ev x' en' cmd pc"
proof -
  have c: "has_scope cmd (fst x') = has_scope cmd (fst x)"
    if "drop_cmd cmd \<or> query_cmd cmd \<or> create_cmd cmd \<or> cmd_object cmd \<noteq> None"
    using assms(2) reads_class [of cmd] that by (intro has_class_cong) (cases cmd; simp)
  show ?thesis
  proof (cases pc)
    case (PcMerge m)
    then have "query_cmd cmd" using assms(1) by auto
    with assms(2,3) reads_query have "fst x' (ObjectKey (fst (cmd_scope cmd)) (snd (cmd_scope cmd)) i) =
        fst x (ObjectKey (fst (cmd_scope cmd)) (snd (cmd_scope cmd)) i)"
      "map_of (en_overlay en') (ObjectKey (fst (cmd_scope cmd)) (snd (cmd_scope cmd)) i) =
        map_of (en_overlay en) (ObjectKey (fst (cmd_scope cmd)) (snd (cmd_scope cmd)) i)" for i by blast+
    with PcMerge assms(1) c show ?thesis by (simp add: objects_def)
  next
    case (PcReady e)
    with assms(1) obtain ids where ids: "PcReady e = ready ev cmd ids" "ready_ok cmd x (en_idgen en) ids" by auto
    have "create_cmd cmd \<Longrightarrow> ids_kept x' (en_idgen en') cmd (PcIds ids)"
      using assms(4) ready_ids [OF _ ids(2,1)] unfolding PcReady by (auto simp: ids_kept_def)
    with ready_frame [OF ids(2) assms(2)] have "ready_ok cmd x' (en_idgen en') ids" by blast
    with ids(1) show ?thesis unfolding PcReady call_ok.simps by blast
  next
    case (PcIds ids)
    then have "create_cmd cmd" using assms(1) by auto
    with PcIds assms(1,4) c free_ids_kept [of x "en_idgen en" cmd pc x' "en_idgen en'"] show ?thesis by simp
  qed (use assms(1-3,6) c reads_object [of cmd] logged_frame [OF _ assms(2,5)] in \<open>auto\<close>)
qed

section \<open>What a call sees\<close>

lemma conc_of_simps [simp]:
  "cn_en (conc_of s log) = sy_en s" "cn_ck (conc_of s log) = sy_ck s" "cn_log (conc_of s log) = log"
  "cn_writers (conc_of s log) = writers_of (sy_calls s)"
  by (simp_all add: conc_of_def)

lemma busy_conc:
  "busy (conc_of s log) k \<longleftrightarrow> (\<exists>w cmd e tx. sy_calls s w = Some (cmd, PcLogged e tx) \<and> k \<in> keys_of (e_Flatten e))"
proof -
  have "writers_of calls w = Some (subs, tx) \<longleftrightarrow> (\<exists>cmd e. calls w = Some (cmd, PcLogged e tx) \<and> subs = e_Flatten e)" for calls w subs tx
    by (auto simp: writers_of_def split: option.split call_pc.split)
  then show ?thesis by (simp add: busy_def) blast
qed

lemma apartD:
  "apart calls \<Longrightarrow> calls w = Some (cmd, pc) \<Longrightarrow> calls w' = Some (cmd', pc') \<Longrightarrow> w \<noteq> w' \<Longrightarrow> \<not> answered pc \<Longrightarrow>
   \<not> answered pc' \<Longrightarrow> writes cmd pc \<inter> reads cmd' = {}"
  unfolding apart_def by blast

lemma calls_okD:
  assumes "calls_ok ev s x"
  shows "apart (sy_calls s)" "ids_apart (sy_calls s)"
    "sy_calls s w = Some (cmd, pc) \<Longrightarrow> call_ok ev x (sy_en s) cmd pc"
  using assms unfolding calls_ok_def by blast+

lemma read_not_busy:
  assumes "calls_ok ev s x" "sy_calls s w = Some (cmd, pc)" "\<not> answered pc" "\<forall>e tx. pc \<noteq> PcLogged e tx" "k \<in> reads cmd"
  shows "\<not> busy (conc_of s log) k"
proof
  assume "busy (conc_of s log) k"
  then obtain v cmd' e tx where v: "sy_calls s v = Some (cmd', PcLogged e tx)" "k \<in> keys_of (e_Flatten e)"
    by (auto simp: busy_conc)
  then have "k \<in> writes cmd' (PcLogged e tx)" using calls_okD(3) [OF assms(1) v(1)] by simp
  moreover have "v \<noteq> w" using v(1) assms(2,4) by auto
  ultimately show False using apartD [OF calls_okD(1) [OF assms(1)] v(1) assms(2)] assms(3,5) by auto
qed

lemma conc_read:
  assumes "conc_inv ev d0 s" "\<not> busy s k"
  shows "map_of (en_overlay (cn_en s)) k = Some v \<Longrightarrow>
      fold entry_apply (cn_log s) d0 k = (if ov_deleted v then None else Some (ov_data v))"
    "map_of (en_overlay (cn_en s)) k = None \<Longrightarrow>
      snap_Get (ev_fuel ev) (en_snap (cn_en s)) k = Inr (fold entry_apply (cn_log s) d0 k)"
proof -
  from assms obtain st wl kvs where "engine_at ev (cn_en s) st wl kvs" "ds_db st = fold entry_apply (cn_log s) d0"
    "key_seen st (en_overlay (cn_en s)) (map_of kvs) k" by (elim conc_invE) blast
  then show "map_of (en_overlay (cn_en s)) k = Some v \<Longrightarrow>
      fold entry_apply (cn_log s) d0 k = (if ov_deleted v then None else Some (ov_data v))"
    "map_of (en_overlay (cn_en s)) k = None \<Longrightarrow>
      snap_Get (ev_fuel ev) (en_snap (cn_en s)) k = Inr (fold entry_apply (cn_log s) d0 k)"
    using snap_holds_Get by (auto simp: engine_at_def key_seen_def overlay_view_def)
qed

lemma conc_scan:
  assumes "conc_inv ev d0 s" "store_keys_ok ev (cn_en s)" "no_sep p" "no_sep c"
  obtains m where "query_snapshot ev (en_snap (cn_en s)) p c = Inr m" "distinct (map fst m)"
    "\<And>i. snap_Get (ev_fuel ev) (en_snap (cn_en s)) (ObjectKey p c i) = Inr (map_of m i)"
proof -
  from assms(1) obtain st wl kvs where "engine_at ev (cn_en s) st wl kvs" by (elim conc_invE)
  then have h: "snap_holds (ev_fuel ev) (en_snap (cn_en s)) kvs" by (simp add: engine_at_def)
  have "\<forall>k. map_of kvs k \<noteq> None \<longrightarrow> key_ok k" using assms(2) snap_holds_Get [OF h] by (auto simp: store_keys_ok_def)
  from query_snapshot_law [OF h this assms(3,4)] snap_holds_Get [OF h] that show thesis by (auto simp: objects_def)
qed

lemma class_seen:
  assumes "classes_seen s d" "\<not> class_moving (sy_calls s) p c"
  shows "ClassExists (sy_en s) p c \<longleftrightarrow> has_class p c d"
proof (cases "no_sep p \<and> no_sep c")
  case True
  then show ?thesis using assms by (auto simp: classes_seen_def ClassExists_def has_class_def)
next
  case False
  have "ScopeKey p c \<notin> set (en_classes (sy_en s))"
  proof
    assume "ScopeKey p c \<in> set (en_classes (sy_en s))"
    then obtain q d where "no_sep q" "no_sep d" "ScopeKey p c = ScopeKey q d" using assms(1) by (auto simp: classes_seen_def)
    with ScopeKey_split False show False by blast
  qed
  with False show ?thesis by (auto simp: ClassExists_def has_class_def)
qed

lemma not_moving:
  assumes "calls_ok ev s x" "sy_calls s w = Some (cmd, pc)" "\<not> answered pc" "cmd \<noteq> Cmd_Checkpoint"
    "class_cmd cmd \<Longrightarrow> pc \<noteq> PcClasses \<and> (\<forall>e tx. pc \<noteq> PcLogged e tx)"
  shows "\<not> class_moving (sy_calls s) (fst (cmd_scope cmd)) (snd (cmd_scope cmd))"
proof
  assume "class_moving (sy_calls s) (fst (cmd_scope cmd)) (snd (cmd_scope cmd))"
  then obtain v cmd' pc' where v: "sy_calls s v = Some (cmd', pc')" "class_cmd cmd'" "cmd_scope cmd' = cmd_scope cmd"
    "pc' = PcClasses \<or> (\<exists>e tx. pc' = PcLogged e tx)" unfolding class_moving_def by auto
  have "v \<noteq> w" using v assms(2,5) by auto
  moreover have "ClassKey (fst (cmd_scope cmd)) (snd (cmd_scope cmd)) \<in> writes cmd' pc'"
    using v(2,3) by (cases cmd'; cases "cmd_scope cmd") simp_all
  moreover have "\<not> answered pc'" using v(4) by auto
  ultimately show False
    using apartD [OF calls_okD(1) [OF assms(1)] v(1) assms(2)] assms(3) reads_class [OF assms(4)] by auto
qed

section \<open>Steps that change nothing\<close>

definition next_ok :: "env \<Rightarrow> db \<times> given \<Rightarrow> engine \<Rightarrow> cmd \<Rightarrow> call_pc \<Rightarrow> bool" where
  "next_ok ev x en cmd pc \<longleftrightarrow>
     (case pc of PcDone r \<Rightarrow> call_spec cmd x r x
      | _ \<Rightarrow> call_ok ev x en cmd pc \<and> phase_of (Some (cmd, pc)) = Calling cmd)"

lemma next_ready: "ready_ok cmd x (en_idgen en) ids \<Longrightarrow> next_ok ev x en cmd (ready ev cmd ids)"
  by (auto simp: next_ok_def ready_def)

lemma start_next:
  assumes "ClassExists en (fst (cmd_scope cmd)) (snd (cmd_scope cmd)) \<longleftrightarrow> has_scope cmd (fst x)" "cmd \<noteq> Cmd_Checkpoint"
    "call_start ev cmd en = pc'"
  shows "next_ok ev x en cmd pc'"
proof (cases cmd)
  case (Cmd_CreateClass p c)
  then show ?thesis using assms next_ready [of cmd x en "[]" ev] by (auto simp: next_ok_def)
next
  case (Cmd_Bulk p c vs)
  then show ?thesis using assms
    by (auto simp: next_ok_def new_ids_def free_ids_def put_objects_def give_def split: if_splits)
qed (use assms in \<open>auto simp: next_ok_def new_ids_def free_ids_def\<close>)

lemma found_next:
  assumes "has_scope cmd (fst x)" "cmd_object cmd = Some i" "v = fst x (cmd_key cmd)"
  shows "next_ok ev x en cmd (call_found ev cmd (Inr v))"
proof (cases "v = None \<or> (\<exists>p c i. cmd = Cmd_Get p c i)")
  case True
  then show ?thesis using assms by (cases cmd; cases v) (auto simp: next_ok_def objects_def)
next
  case False
  then obtain a where a: "v = Some a" by auto
  then have "ready_ok cmd x (en_idgen en) []" "call_found ev cmd (Inr v) = ready ev cmd []"
    using False assms by (cases cmd; auto simp: objects_def dest: sym)+
  with next_ready show ?thesis by simp
qed

lemma listed_next:
  assumes "has_scope cmd (fst x)" "query_cmd cmd"
    "lists (objects (fst (cmd_scope cmd)) (snd (cmd_scope cmd)) (fst x)) (\<lambda>_. True) (fst (cmd_page cmd)) (snd (cmd_page cmd)) out"
  shows "next_ok ev x en cmd (call_listed ev cmd (Inr out))"
proof (cases cmd)
  case (Cmd_DropClass p c)
  then have "out = [] \<longleftrightarrow> objects p c (fst x) = Map.empty" using assms(3) by (simp add: lists_one)
  with Cmd_DropClass assms(1) next_ready [of cmd x en "[]" ev] show ?thesis by (auto simp: next_ok_def)
qed (use assms in \<open>auto simp: next_ok_def\<close>)

fun silent :: "cmd \<Rightarrow> call_pc \<Rightarrow> bool" where
  "silent cmd (PcIds ids) \<longleftrightarrow> \<not> length ids < ids_needed cmd"
| "silent cmd (PcReady e) \<longleftrightarrow> False"
| "silent cmd (PcLogged e tx) \<longleftrightarrow> False"
| "silent cmd PcClasses \<longleftrightarrow> False"
| "silent cmd PcDropIds \<longleftrightarrow> False"
| "silent cmd (PcDone r) \<longleftrightarrow> False"
| "silent cmd _ \<longleftrightarrow> True"

lemma silent_next:
  assumes "conc_inv ev d0 (conc_of s log)" "shared_ok ev s x" "calls_ok ev s x" "fst x = fold entry_apply log d0"
    "sy_calls s w = Some (cmd, pc)" "silent cmd pc" "call_step ev cmd pc (sy_en s) = (en', pc')"
  shows "en' = sy_en s" "next_ok ev x (sy_en s) cmd pc'"
proof -
  let ?en = "sy_en s"
  have ok: "call_ok ev x ?en cmd pc" using calls_okD(3) [OF assms(3,5)] .
  have pc: "\<not> answered pc" "\<forall>e tx. pc \<noteq> PcLogged e tx" "pc \<noteq> PcClasses" using assms(6) by (cases pc; auto)+
  have chk: "cmd \<noteq> Cmd_Checkpoint" using ok assms(6) by (cases pc) auto
  have cls: "ClassExists ?en (fst (cmd_scope cmd)) (snd (cmd_scope cmd)) \<longleftrightarrow> has_scope cmd (fst x)"
    using class_seen not_moving [OF assms(3,5) pc(1) chk] assms(2) pc by (simp add: shared_ok_def)
  have idle: "\<not> busy (conc_of s log) k" if "k \<in> reads cmd" for k
    using read_not_busy [OF assms(3,5) pc(1,2) that] .
  note read = conc_read [OF assms(1) idle, unfolded conc_of_simps assms(4) [symmetric]]
  have keys: "store_keys_ok ev ?en" using assms(2) by (simp add: shared_ok_def)
  have "en' = ?en \<and> next_ok ev x ?en cmd pc'"
  proof (cases pc)
    case PcStart
    then show ?thesis using start_next [OF cls chk] assms(7) by auto
  next
    case PcChecked
    then show ?thesis using cls ok assms(7) by (cases cmd) (auto simp: next_ok_def)
  next
    case PcScan
    with ok have c: "query_cmd cmd" "has_scope cmd (fst x)" by simp_all
    from has_class_no_sep [OF c(2)] obtain m where
      m: "query_snapshot ev (en_snap ?en) (fst (cmd_scope cmd)) (snd (cmd_scope cmd)) = Inr m" "distinct (map fst m)"
      "\<And>i. snap_Get (ev_fuel ev) (en_snap ?en) (ObjectKey (fst (cmd_scope cmd)) (snd (cmd_scope cmd)) i) = Inr (map_of m i)"
      using conc_scan [OF assms(1), unfolded conc_of_simps, OF keys] by metis
    have "map_of m i = objects (fst (cmd_scope cmd)) (snd (cmd_scope cmd)) (fst x) i"
      if "map_of (en_overlay ?en) (ObjectKey (fst (cmd_scope cmd)) (snd (cmd_scope cmd)) i) = None" for i
      using read(2) [OF reads_query [OF c(1)] that] m(3) [of i] by (simp add: objects_def)
    then show ?thesis using PcScan assms(7) m c by (auto simp: next_ok_def)
  next
    case (PcMerge m)
    with ok have c: "query_cmd cmd" "has_scope cmd (fst x)" "distinct (map fst m)"
      "\<And>i. map_of (en_overlay ?en) (ObjectKey (fst (cmd_scope cmd)) (snd (cmd_scope cmd)) i) = None \<Longrightarrow>
        map_of m i = objects (fst (cmd_scope cmd)) (snd (cmd_scope cmd)) (fst x) i" by simp_all
    let ?p = "fst (cmd_scope cmd)" and ?c = "snd (cmd_scope cmd)"
    let ?m = "query_overlay ?p ?c (en_overlay ?en) m"
    have ov: "distinct (map fst (en_overlay ?en))" "\<forall>(k, v)\<in>set (en_overlay ?en). key_ok k"
      using engine_at_overlay [OF assms(1)] keys by (simp_all add: store_keys_ok_def)
    note law = query_overlay_law [OF ov, of ?p ?c m]
    have "map_of ?m i = objects ?p ?c (fst x) i" for i
      using law c(3) c(4) [of i] has_class_no_sep [OF c(2)] read(1) [OF reads_query [OF c(1), of i]]
      by (cases "map_of (en_overlay ?en) (ObjectKey ?p ?c i)") (auto simp: objects_def)
    then have m: "map_of ?m = objects ?p ?c (fst x)" by auto
    have "distinct (map fst ?m)" using law c(3) has_class_no_sep [OF c(2)] by blast
    then obtain out where "query_page None (fst (cmd_page cmd)) (snd (cmd_page cmd)) ?m = Inr out"
      "lists (objects ?p ?c (fst x)) (\<lambda>_. True) (fst (cmd_page cmd)) (snd (cmd_page cmd)) out"
      using query_page_law [OF m, where match = None and P = "\<lambda>_. True"] by auto
    with listed_next [OF c(2,1)] show ?thesis using PcMerge assms(7) by auto
  next
    case PcOverlay
    with ok obtain i where c: "cmd_object cmd = Some i" "has_scope cmd (fst x)" by auto
    then have k: "cmd_key cmd \<in> reads cmd" by (intro reads_object) simp
    show ?thesis
    proof (cases "map_of (en_overlay ?en) (cmd_key cmd)")
      case None
      then show ?thesis using PcOverlay assms(7) c by (auto simp: next_ok_def)
    next
      case (Some v)
      then show ?thesis
        using PcOverlay assms(7) found_next [OF c(2,1) refl] read(1) [OF k Some] by (auto split: if_splits)
    qed
  next
    case PcSnapshot
    with ok obtain i where c: "cmd_object cmd = Some i" "has_scope cmd (fst x)"
      "map_of (en_overlay ?en) (cmd_key cmd) = None" by auto
    then have "cmd_key cmd \<in> reads cmd" by (intro reads_object) simp
    with read(2) [OF this c(3)] show ?thesis using PcSnapshot assms(7) found_next [OF c(2,1) refl] by auto
  next
    case (PcIds ids)
    with ok assms(6) have "create_cmd cmd" "has_scope cmd (fst x)" "length ids = ids_needed cmd"
      "free_ids x (en_idgen ?en) (fst (cmd_scope cmd)) (snd (cmd_scope cmd)) ids" by simp_all
    then have "ready_ok cmd x (en_idgen ?en) ids" by (cases cmd) simp_all
    from next_ready [OF this] show ?thesis using PcIds assms(6,7) by auto
  qed (use assms(6) in simp_all)
  then show "en' = ?en" "next_ok ev x ?en cmd pc'" by simp_all
qed

end
