(* ===== verification/EngineLinSteps.thy ===== *)
theory EngineLinSteps
  imports EngineLin
begin

text \<open>
  Every step of the calls and of the checkpoint keeps the invariant of \<open>EngineLin\<close>, and what follows from
  it: overlapping calls are linearizable, and a kill keeps what they did.
\<close>

section \<open>Updating the state\<close>

abbreviation moved :: "callers \<Rightarrow> nat \<Rightarrow> cmd \<Rightarrow> call_pc \<Rightarrow> engine \<Rightarrow> callers" where
  "moved s w cmd pc en \<equiv> s\<lparr>sy_en := en, sy_calls := (sy_calls s)(w \<mapsto> (cmd, pc))\<rparr>"

lemma sys_invI:
  "conc_inv ev d0 (conc_of s log) \<Longrightarrow> x = (fold entry_apply log d0, U) \<Longrightarrow> shared_ok ev s x \<Longrightarrow> calls_ok ev s x \<Longrightarrow>
   traced ev d0 s x \<Longrightarrow> sys_inv ev d0 s"
  unfolding sys_inv_def Let_def by blast

lemma sys_invE:
  assumes "sys_inv ev d0 s"
  obtains log x U where "conc_inv ev d0 (conc_of s log)" "x = (fold entry_apply log d0, U)" "shared_ok ev s x"
    "calls_ok ev s x" "traced ev d0 s x"
  using assms unfolding sys_inv_def Let_def by blast

fun logged_of :: "call_pc \<Rightarrow> (WALEntry list \<times> u64) option" where
  "logged_of (PcLogged e tx) = Some (e_Flatten e, tx)"
| "logged_of _ = None"

lemma writers_of_alt: "writers_of calls w = (case calls w of None \<Rightarrow> None | Some (cmd, pc) \<Rightarrow> logged_of pc)"
  by (auto simp: writers_of_def split: option.split call_pc.split)

lemma writers_moved [simp]: "writers_of (calls(w \<mapsto> (cmd, pc))) = (writers_of calls)(w := logged_of pc)"
  by (rule ext) (simp add: writers_of_alt)

lemma conc_moved:
  "conc_of (moved s w cmd pc en) log = (conc_of s log)\<lparr>cn_en := en, cn_writers := (writers_of (sy_calls s))(w := logged_of pc)\<rparr>"
  by (simp add: conc_of_def)

lemma conc_moved_same:
  assumes "sy_calls s w = Some (cmd, pc)" "logged_of pc' = logged_of pc"
  shows "conc_of (moved s w cmd pc' en) log = (conc_of s log)\<lparr>cn_en := en\<rparr>"
proof -
  have "writers_of (sy_calls s) w = logged_of pc" using assms(1) by (simp add: writers_of_alt)
  then have "(writers_of (sy_calls s))(w := logged_of pc') = writers_of (sy_calls s)" using assms(2) by auto
  then show ?thesis by (simp add: conc_of_def)
qed

lemma conc_inv_fields:
  "conc_inv ev d0 (s\<lparr>cn_en := (cn_en s)\<lparr>en_classes := cs\<rparr>\<rparr>) = conc_inv ev d0 s"
  "conc_inv ev d0 (s\<lparr>cn_en := (cn_en s)\<lparr>en_idgen := g\<rparr>\<rparr>) = conc_inv ev d0 s"
  by (simp_all add: conc_inv_def engine_at_def busy_def)

lemma ids_apartI:
  assumes "ids_apart calls"
    "\<And>v cmd' pc''. v \<noteq> w \<Longrightarrow> calls v = Some (cmd', pc'') \<Longrightarrow> create_cmd cmd \<Longrightarrow> create_cmd cmd' \<Longrightarrow>
      cmd_scope cmd' = cmd_scope cmd \<Longrightarrow> set (pc_ids pc') \<inter> set (pc_ids pc'') = {}"
  shows "ids_apart (calls(w \<mapsto> (cmd, pc')))"
  unfolding ids_apart_def
proof (intro allI impI)
  fix u c1 p1 v c2 p2
  assume a: "u \<noteq> v" "(calls(w \<mapsto> (cmd, pc'))) u = Some (c1, p1)" "(calls(w \<mapsto> (cmd, pc'))) v = Some (c2, p2)"
    "create_cmd c1" "create_cmd c2" "cmd_scope c1 = cmd_scope c2"
  consider "u = w" | "v = w" | "u \<noteq> w" "v \<noteq> w" by blast
  then show "set (pc_ids p1) \<inter> set (pc_ids p2) = {}"
  proof cases
    case 1
    with a assms(2) [of v c2 p2] show ?thesis by simp
  next
    case 2
    with a assms(2) [of u c1 p1] show ?thesis by (simp add: Int_commute)
  next
    case 3
    with a have "calls u = Some (c1, p1)" "calls v = Some (c2, p2)" by simp_all
    with assms(1) a show ?thesis unfolding ids_apart_def by blast
  qed
qed

lemma ids_apartD:
  "ids_apart calls \<Longrightarrow> calls w = Some (cmd, pc) \<Longrightarrow> calls v = Some (cmd', pc') \<Longrightarrow> v \<noteq> w \<Longrightarrow> create_cmd cmd \<Longrightarrow>
   create_cmd cmd' \<Longrightarrow> cmd_scope cmd' = cmd_scope cmd \<Longrightarrow> set (pc_ids pc) \<inter> set (pc_ids pc') = {}"
  unfolding ids_apart_def by (metis (no_types))

lemma ids_apart_moved:
  assumes "ids_apart calls" "calls w = Some (cmd, pc)" "create_cmd cmd \<Longrightarrow> set (pc_ids pc') \<subseteq> set (pc_ids pc)"
  shows "ids_apart (calls(w \<mapsto> (cmd, pc')))"
  using assms(3) by (intro ids_apartI [OF assms(1)]) (use ids_apartD [OF assms(1,2)] in blast)

lemma calls_ok_moved:
  assumes "calls_ok ev s x" "apart ((sy_calls s)(w \<mapsto> (cmd, pc')))" "ids_apart ((sy_calls s)(w \<mapsto> (cmd, pc')))"
    "call_ok ev x' en cmd pc'"
    "\<And>v cmd' pc''. v \<noteq> w \<Longrightarrow> sy_calls s v = Some (cmd', pc'') \<Longrightarrow> call_ok ev x (sy_en s) cmd' pc'' \<Longrightarrow>
      call_ok ev x' en cmd' pc''"
  shows "calls_ok ev (moved s w cmd pc' en) x'"
  using assms by (auto simp: calls_ok_def split: if_splits)

definition moving :: "call_pc \<Rightarrow> bool" where
  "moving pc \<longleftrightarrow> pc = PcClasses \<or> logged_of pc \<noteq> None"

lemma moving_simps [simp]:
  "moving PcClasses" "moving (PcLogged e tx)" "\<not> moving PcStart" "\<not> moving PcChecked" "\<not> moving PcScan" "\<not> moving (PcMerge m)"
  "\<not> moving PcOverlay" "\<not> moving PcSnapshot" "\<not> moving (PcIds ids)" "\<not> moving (PcReady e)" "\<not> moving PcDropIds" "\<not> moving (PcDone r)"
  by (simp_all add: moving_def)

lemma class_moving_alt:
  "class_moving calls p c \<longleftrightarrow>
     (\<exists>w cmd pc. calls w = Some (cmd, pc) \<and> class_cmd cmd \<and> cmd_scope cmd = (p, c) \<and> moving pc)"
proof -
  have "(pc = PcClasses \<or> (\<exists>e tx. pc = PcLogged e tx)) \<longleftrightarrow> moving pc" for pc by (cases pc) simp_all
  then show ?thesis by (simp add: class_moving_def)
qed

lemma class_moving_moved:
  assumes "calls w = Some (cmd, pc)" "class_cmd cmd \<Longrightarrow> moving pc' = moving pc"
  shows "class_moving (calls(w \<mapsto> (cmd, pc'))) p c = class_moving calls p c"
proof -
  have "(\<exists>cmd' pc''. (calls(w \<mapsto> (cmd, pc'))) v = Some (cmd', pc'') \<and> class_cmd cmd' \<and> cmd_scope cmd' = (p, c) \<and> moving pc'') \<longleftrightarrow>
      (\<exists>cmd' pc''. calls v = Some (cmd', pc'') \<and> class_cmd cmd' \<and> cmd_scope cmd' = (p, c) \<and> moving pc'')" for v
    using assms by auto
  then show ?thesis unfolding class_moving_alt by blast
qed

lemma class_moving_idle:
  assumes "\<And>cmd pc. calls w = Some (cmd, pc) \<Longrightarrow> \<not> moving pc" "\<And>cmd pc. y = Some (cmd, pc) \<Longrightarrow> \<not> moving pc"
  shows "class_moving (calls(w := y)) p c = class_moving calls p c"
proof -
  have "(\<exists>cmd pc. (calls(w := y)) v = Some (cmd, pc) \<and> class_cmd cmd \<and> cmd_scope cmd = (p, c) \<and> moving pc) \<longleftrightarrow>
      (\<exists>cmd pc. calls v = Some (cmd, pc) \<and> class_cmd cmd \<and> cmd_scope cmd = (p, c) \<and> moving pc)" for v
    using assms by (cases "v = w") auto
  then show ?thesis unfolding class_moving_alt by blast
qed

lemma class_moving_keep:
  assumes "class_moving calls p c" "calls w = Some (cmd, pc)" "cmd_scope cmd = (p, c) \<Longrightarrow> moving pc \<Longrightarrow> moving pc'"
  shows "class_moving (calls(w \<mapsto> (cmd, pc'))) p c"
proof -
  from assms(1) obtain v cmd' pc'' where v: "calls v = Some (cmd', pc'')" "class_cmd cmd'" "cmd_scope cmd' = (p, c)" "moving pc''"
    unfolding class_moving_alt by blast
  then show ?thesis
    unfolding class_moving_alt using assms(2,3) by (intro exI [of _ v]) (cases "v = w"; simp)
qed

lemma shared_moved:
  assumes "shared_ok ev s x" "sy_calls s w = Some (cmd, pc)" "class_cmd cmd \<Longrightarrow> moving pc' = moving pc"
  shows "shared_ok ev (moved s w cmd pc' (sy_en s)) x"
  using assms(1) class_moving_moved [where calls = "sy_calls s" and w = w and cmd = cmd and pc = pc and pc' = pc', OF assms(2,3)]
  by (simp add: shared_ok_def classes_seen_def)

lemma call_ids_kept:
  assumes "call_ok ev x en cmd pc" "create_cmd cmd" "\<forall>e tx. pc \<noteq> PcLogged e tx"
  shows "ids_kept x (en_idgen en) cmd pc"
proof (cases pc)
  case (PcReady e)
  with assms(1) obtain ids where ids: "PcReady e = ready ev cmd ids" "ready_ok cmd x (en_idgen en) ids" by auto
  have "pc_ids pc = ids" using ready_ids [OF assms(2) ids(2,1)] PcReady by simp
  moreover have "free_ids x (en_idgen en) (fst (cmd_scope cmd)) (snd (cmd_scope cmd)) ids"
    using ids(2) assms(2) by (cases cmd) simp_all
  ultimately show ?thesis by (simp add: ids_kept_def free_ids_def new_ids_def)
qed (use assms in \<open>auto simp: ids_kept_def free_ids_def new_ids_def\<close>)

text \<open>A step that leaves the engine as it is.\<close>

lemma quiet_inv:
  assumes "conc_inv ev d0 (conc_of s log)" "x = (fold entry_apply log d0, U)" "shared_ok ev s x" "calls_ok ev s x"
    "traced ev d0 s x" "sy_calls s w = Some (cmd, pc)" "apart ((sy_calls s)(w \<mapsto> (cmd, pc')))"
    "logged_of pc' = logged_of pc" "class_cmd cmd \<Longrightarrow> moving pc' = moving pc"
    "create_cmd cmd \<Longrightarrow> set (pc_ids pc') \<subseteq> set (pc_ids pc)" "call_ok ev x (sy_en s) cmd pc'"
    "traced ev d0 (moved s w cmd pc' (sy_en s)) x"
  shows "sys_inv ev d0 (moved s w cmd pc' (sy_en s))"
proof (rule sys_invI)
  have "conc_of (moved s w cmd pc' (sy_en s)) log = conc_of s log"
    unfolding conc_moved_same [OF assms(6,8)] by (simp add: conc_of_def)
  then show "conc_inv ev d0 (conc_of (moved s w cmd pc' (sy_en s)) log)" using assms(1) by (simp only:)
qed (use assms shared_moved [OF assms(3,6,9)]
    calls_ok_moved [OF assms(4,7) ids_apart_moved [OF calls_okD(2) [OF assms(4)] assms(6,10)] assms(11)] in simp_all)

lemma silent_ids:
  assumes "call_ok ev x en cmd pc" "create_cmd cmd" "silent cmd pc" "call_step ev cmd pc en = (en', pc')"
  shows "set (pc_ids pc') \<subseteq> set (pc_ids pc)"
proof -
  have no: "\<not> drop_cmd cmd" "\<not> query_cmd cmd" "cmd_object cmd = None" using assms(2) by (cases cmd; simp)+
  show ?thesis
  proof (cases pc)
    case (PcIds ids)
    with assms(1,3) have "length ids = ids_needed cmd" by simp
    with assms(1,2) PcIds have "ready_ok cmd x (en_idgen en) ids" by (cases cmd) simp_all
    moreover obtain e where "PcReady e = ready ev cmd ids" by (simp add: ready_def)
    ultimately have "pc_ids (ready ev cmd ids) = ids" using ready_ids [OF assms(2), of x "en_idgen en" ids e ev] by simp
    then show ?thesis using PcIds assms(3,4) by auto
  next
    case PcStart
    then show ?thesis using assms(2,4) by (cases cmd) (auto split: if_splits)
  qed (use assms no in simp_all)
qed

lemma next_okD:
  assumes "next_ok ev x en cmd pc"
  shows "logged_of pc = None" "\<not> moving pc" "call_ok ev x en cmd pc"
    "(\<exists>r. pc = PcDone r \<and> call_spec cmd x r x) \<or> phase_of (Some (cmd, pc)) = Calling cmd"
  using assms by (cases pc; simp add: next_ok_def)+

lemma silentD:
  assumes "silent cmd pc"
  shows "logged_of pc = None" "\<not> moving pc" "phase_of (Some (cmd, pc)) = Calling cmd"
  using assms by (cases pc; simp)+

lemma silent_inv:
  assumes "sys_inv ev d0 s" "sy_calls s w = Some (cmd, pc)" "silent cmd pc" "call_step ev cmd pc (sy_en s) = (en, pc')"
    "apart ((sy_calls s)(w \<mapsto> (cmd, pc')))"
  shows "sys_inv ev d0 (moved s w cmd pc' en)"
proof -
  from assms(1) obtain log x U where inv: "conc_inv ev d0 (conc_of s log)" "x = (fold entry_apply log d0, U)"
    "shared_ok ev s x" "calls_ok ev s x" "traced ev d0 s x" by (elim sys_invE)
  have "fst x = fold entry_apply log d0" by (simp add: inv(2))
  note nxt = silent_next [OF inv(1,3,4) this assms(2-4)]
  note nx = next_okD [OF nxt(2)] and si = silentD [OF assms(3)]
  note ids = silent_ids [OF calls_okD(3) [OF inv(4) assms(2)] _ assms(3,4)]
  have ph: "phase_of (sy_calls s w) = Calling cmd" using assms(2) si(3) by simp
  have tr: "traced ev d0 (moved s w cmd pc' (sy_en s)) x"
    using nx(4)
  proof (elim disjE exE conjE)
    fix r
    assume "pc' = PcDone r" "call_spec cmd x r x"
    then show ?thesis by (intro traced_effect [OF inv(5) _ _ ph, where y = "(cmd, pc')" and r = r]) simp_all
  next
    assume "phase_of (Some (cmd, pc')) = Calling cmd"
    then show ?thesis by (intro traced_same [OF inv(5)]) (simp_all add: ph)
  qed
  show ?thesis
    unfolding nxt(1)
    by (rule quiet_inv [OF inv assms(2,5) _ _ ids nx(3) tr]) (simp_all only: nx si)
qed

section \<open>A new id\<close>

lemma given_kept_refl [simp]: "given_kept x x cmd"
  by (simp add: given_kept_def)

lemma ids_kept_mono:
  "ids_kept x g cmd pc \<Longrightarrow> (\<And>cls. sint (gen_Current g cls) \<le> sint (gen_Current g' cls)) \<Longrightarrow> ids_kept x g' cmd pc"
  unfolding ids_kept_def by (meson order_trans)

lemma ids_low_mono:
  "ids_low g cmd pc \<Longrightarrow> (\<And>cls. sint (gen_Current g cls) \<le> sint (gen_Current g' cls)) \<Longrightarrow> ids_low g' cmd pc"
  unfolding ids_low_def by (meson order_trans)

lemma call_ids_low: "call_ok ev x en cmd pc \<Longrightarrow> ids_low (en_idgen en) cmd pc"
proof (cases "\<exists>e tx. pc = PcLogged e tx")
  case False
  then show "call_ok ev x en cmd pc \<Longrightarrow> ids_low (en_idgen en) cmd pc"
    using call_ids_kept [of ev x en cmd pc] by (auto simp: ids_kept_def ids_low_def)
qed auto

lemma next_id_inv:
  assumes "sys_inv ev d0 s" "sy_calls s w = Some (cmd, PcIds ids)" "length ids < ids_needed cmd"
    "call_room ev (sy_en s) cmd (PcIds ids)" "call_step ev cmd (PcIds ids) (sy_en s) = (en, pc')"
    "apart ((sy_calls s)(w \<mapsto> (cmd, pc')))"
  shows "sys_inv ev d0 (moved s w cmd pc' en)"
proof -
  from assms(1) obtain log x U where inv: "conc_inv ev d0 (conc_of s log)" "x = (fold entry_apply log d0, U)"
    "shared_ok ev s x" "calls_ok ev s x" "traced ev d0 s x" by (elim sys_invE)
  obtain p c where sc: "cmd_scope cmd = (p, c)" by fastforce
  obtain i g where g: "gen_Next (en_idgen (sy_en s)) (ScopeKey p c) = (i, g)" by fastforce
  have en: "en = (sy_en s)\<lparr>en_idgen := g\<rparr>" "pc' = PcIds (ids @ [i])" using assms(3,5) g by (simp_all add: sc)
  from calls_okD(3) [OF inv(4) assms(2)] have own: "create_cmd cmd" "has_class p c (fst x)"
    "free_ids x (en_idgen (sy_en s)) p c ids" by (simp_all add: sc)
  have sh: "objects_ok (en_idgen (sy_en s)) (fst x)" "given_ok (en_idgen (sy_en s)) (snd x)"
    using inv(3) by (simp_all add: shared_ok_def)
  have "sint (gen_Current (en_idgen (sy_en s)) (ScopeKey p c)) + 1 < 2 ^ 63" using assms(4) by (simp add: sc)
  note n = gen_Next_law [OF sh(1) g _ _ this]
  have ns: "no_sep p" "no_sep c" using own(2) by (simp_all add: has_class_def)
  note n = n [OF ns]
  have above: "j \<noteq> i" if "sint j \<le> sint (gen_Current (en_idgen (sy_en s)) (ScopeKey p c))" for j
    using n(1) that by auto
  have "i \<notin> set ids" using own(3) above by (auto simp: free_ids_def)
  moreover have "i \<notin> snd x (ScopeKey p c)" using sh(2) above by (auto simp: given_ok_def)
  moreover have "0 < sint i" "objects p c (fst x) i = None" using n(4) by (auto simp: fresh_id_def)
  moreover have "sint j \<le> sint i" if "j \<in> set ids" for j
    using that own(3) n(1) by (auto simp: free_ids_def)
  ultimately have free: "free_ids x g p c (ids @ [i])" using own(3) n(2) by (auto simp: free_ids_def new_ids_def)
  have apart_ids: "ids_apart ((sy_calls s)(w \<mapsto> (cmd, PcIds (ids @ [i]))))"
  proof (rule ids_apartI [OF calls_okD(2) [OF inv(4)]])
    fix v cmd' pc''
    assume v: "v \<noteq> w" "sy_calls s v = Some (cmd', pc'')" "create_cmd cmd" "create_cmd cmd'" "cmd_scope cmd' = cmd_scope cmd"
    from ids_apartD [OF calls_okD(2) [OF inv(4)] assms(2) v(2,1,3-5)] have "set ids \<inter> set (pc_ids pc'') = {}" by simp
    moreover have "i \<notin> set (pc_ids pc'')"
      using call_ids_low [OF calls_okD(3) [OF inv(4) v(2)]] above v(4,5) sc by (auto simp: ids_low_def)
    ultimately show "set (pc_ids (PcIds (ids @ [i]))) \<inter> set (pc_ids pc'') = {}" by simp
  qed
  show ?thesis
  proof (rule sys_invI [OF _ inv(2)])
    show "conc_inv ev d0 (conc_of (moved s w cmd pc' en) log)"
      using inv(1) conc_moved_same [OF assms(2), of pc' en log] conc_inv_fields(2) [where s = "conc_of s log" and g = g]
      by (simp add: en)
    have "objects_ok g (fst x)" using sh(1) n(3) by (rule objects_ok_less)
    moreover have "given_ok g (snd x)" using sh(2) n(3) unfolding given_ok_def by (meson order_trans)
    ultimately show "shared_ok ev (moved s w cmd pc' en) x"
      using shared_moved [OF inv(3) assms(2), of pc'] by (simp add: shared_ok_def classes_seen_def store_keys_ok_def en)
    show "calls_ok ev (moved s w cmd pc' en) x"
    proof (rule calls_ok_moved [OF inv(4) assms(6)])
      show "ids_apart ((sy_calls s)(w \<mapsto> (cmd, pc')))" using apart_ids by (simp add: en)
      show "call_ok ev x en cmd pc'" using own free assms(3) by (simp add: en sc)
      fix v cmd' pc''
      assume v: "sy_calls s v = Some (cmd', pc'')" "call_ok ev x (sy_en s) cmd' pc''"
      show "call_ok ev x en cmd' pc''"
        using call_ids_kept [OF v(2)] n(3) by (intro call_frame [OF v(2)])
          (auto simp: en intro: ids_kept_mono ids_low_mono)
    qed
    show "traced ev d0 (moved s w cmd pc' en) x" by (rule traced_same [OF inv(5)]) (simp_all add: en assms(2))
  qed
qed

section \<open>Logging\<close>

fun logged_given :: "cmd \<Rightarrow> u64 list \<Rightarrow> given \<Rightarrow> given" where
  "logged_given (Cmd_DropClass p c) ids U = U(ScopeKey p c := {})"
| "logged_given (Cmd_Create p c v) ids U = give p c ids U"
| "logged_given (Cmd_Bulk p c vs) ids U = give p c ids U"
| "logged_given cmd ids U = U"

lemma entry_apply_single [simp]:
  "entry_apply (with_timestamp (class_entry OpCreateClass p c) t) d = d(ClassKey p c \<mapsto> [])"
  "entry_apply (with_timestamp (class_entry OpDropClass p c) t) d = d(ClassKey p c := None)"
  "entry_apply (with_timestamp (object_entry OpPut p c i v) t) d = d(ObjectKey p c i \<mapsto> v)"
  "entry_apply (with_timestamp (object_entry OpDelete p c i v) t) d = d(ObjectKey p c i := None)"
  by (simp_all add: entry_apply_def flatten_single)

lemma bulk_entry:
  assumes "length ids = length vs" "e = with_timestamp (cmd_entry ev (Cmd_Bulk p c vs) ids) (ev_now ev)"
  shows "e_Flatten e = map2 (\<lambda>i v. WALEntry OpPut p c i v (ev_now ev) []) ids vs" "map e_ObjectID (e_Flatten e) = ids"
    "entry_apply e d = put_objects p c (zip ids vs) d" "keys_of (e_Flatten e) = ObjectKey p c ` set ids"
proof -
  show fl: "e_Flatten e = map2 (\<lambda>i v. WALEntry OpPut p c i v (ev_now ev) []) ids vs"
    by (simp add: assms(2) e_Flatten_def with_timestamp_def)
  show ids: "map e_ObjectID (e_Flatten e) = ids" unfolding fl using assms(1) by (simp add: list_eq_iff_nth_eq)
  show "entry_apply e d = put_objects p c (zip ids vs) d"
    unfolding entry_apply_def fl by (rule put_objects_subs [OF assms(1)])
  have "e_Key s = ObjectKey p c (e_ObjectID s)" if "s \<in> set (e_Flatten e)" for s
    using that unfolding fl by (auto simp: set_zip e_Key_def op_defs)
  then have "keys_of (e_Flatten e) = ObjectKey p c ` set (map e_ObjectID (e_Flatten e))" by (force simp: image_image)
  then show "keys_of (e_Flatten e) = ObjectKey p c ` set ids" unfolding ids .
qed

lemma entry_keys [simp]:
  "e_Key (class_entry OpCreateClass p c) = ClassKey p c" "e_Key (class_entry OpDropClass p c) = ClassKey p c"
  "e_Key (object_entry OpPut p c i v) = ObjectKey p c i" "e_Key (object_entry OpDelete p c i v) = ObjectKey p c i"
  by (simp_all add: e_Key_def) (simp_all add: op_defs)

lemma objects_ok_undefined:
  assumes "objects_ok g d" "no_sep p" "no_sep c" "objects p c d = Map.empty"
  shows "objects_ok g (d(ClassKey p c := None))"
proof (rule objects_okI)
  fix p' c' i
  assume a: "no_sep p'" "no_sep c'" "objects p' c' (d(ClassKey p c := None)) i \<noteq> None"
  then have "p' \<noteq> p \<or> c' \<noteq> c" using assms(4) by auto
  then show "(d(ClassKey p c := None)) (ClassKey p' c') \<noteq> None \<and> 0 < sint i \<and> sint i \<le> sint (gen_Current g (ScopeKey p' c'))"
    using objects_okD(2) [OF assms(1) a(1,2), of i] a assms(2,3) by (simp add: ClassKey_inject)
qed (rule objects_okD(1) [OF assms(1)])

definition log_effect :: "cmd \<Rightarrow> u64 list \<Rightarrow> WALEntry \<Rightarrow> db \<times> given \<Rightarrow> db \<times> given" where
  "log_effect cmd ids e x = (entry_apply e (fst x), logged_given cmd ids (snd x))"

definition logs_as :: "cmd \<Rightarrow> u64 list \<Rightarrow> WALEntry \<Rightarrow> generator \<Rightarrow> db \<times> given \<Rightarrow> bool" where
  "logs_as cmd ids e g x \<longleftrightarrow>
     keys_of (e_Flatten e) = writes cmd (PcReady e) \<and> (\<forall>s\<in>set (e_Flatten e). sub_ok s) \<and>
     call_spec cmd x (Inr (cmd_reply cmd e)) (log_effect cmd ids e x) \<and> logged_ok cmd (log_effect cmd ids e x) \<and>
     objects_ok g (entry_apply e (fst x)) \<and> given_ok g (logged_given cmd ids (snd x))"

lemma give_ok:
  "given_ok g U \<Longrightarrow> \<forall>i\<in>set ids. sint i \<le> sint (gen_Current g (ScopeKey p c)) \<Longrightarrow> given_ok g (give p c ids U)"
  by (auto simp: given_ok_def give_def)

lemma logs_asI:
  assumes "e_Flatten e = subs" "keys_of subs = writes cmd (PcReady e)" "\<And>s. s \<in> set subs \<Longrightarrow> sub_ok s"
    "entry_apply e (fst x) = d'" "call_spec cmd x (Inr (cmd_reply cmd e)) (d', logged_given cmd ids (snd x))"
    "logged_ok cmd (d', logged_given cmd ids (snd x))" "objects_ok g d'" "given_ok g (logged_given cmd ids (snd x))"
  shows "logs_as cmd ids e g x"
  using assms by (auto simp: logs_as_def log_effect_def)

lemma ready_logs:
  assumes "ready_ok cmd x g ids" "PcReady e = ready ev cmd ids" "objects_ok g (fst x)" "given_ok g (snd x)"
  shows "logs_as cmd ids e g x"
proof -
  have e: "e = with_timestamp (cmd_entry ev cmd ids) (ev_now ev)" using assms(2) by (simp add: ready_def)
  show ?thesis
  proof (cases cmd)
    case (Cmd_CreateClass p c)
    then have "no_sep p" "no_sep c" using assms(1) validName_no_sep validProject_no_sep by auto
    then show ?thesis using assms(1,3,4) Cmd_CreateClass e
      by (intro logs_asI [where subs = "[e]" and d' = "(fst x)(ClassKey p c \<mapsto> [])"])
        (simp_all add: flatten_single objects_ok_class, simp_all add: has_class_def)
  next
    case (Cmd_DropClass p c)
    then have "has_class p c (fst x)" "objects p c (fst x) = Map.empty" using assms(1) by simp_all
    then show ?thesis using assms(3,4) Cmd_DropClass e has_class_no_sep [of p c "fst x"]
      by (intro logs_asI [where subs = "[e]" and d' = "(fst x)(ClassKey p c := None)"])
        (simp_all add: flatten_single objects_ok_undefined, simp_all add: given_ok_def)
  next
    case (Cmd_Create p c v)
    with assms(1) obtain i where i: "ids = [i]" "has_class p c (fst x)" "free_ids x g p c [i]"
      by (auto simp: length_Suc_conv)
    then have "objects_ok g ((fst x)(ObjectKey p c i \<mapsto> v))"
      by (intro objects_ok_put assms(3)) (simp_all add: free_ids_def new_ids_def)
    moreover have "given_ok g (give p c [i] (snd x))" using i(3) by (intro give_ok assms(4)) (simp add: free_ids_def)
    ultimately show ?thesis using Cmd_Create i e has_class_no_sep [OF i(2)]
      by (intro logs_asI [where subs = "[e]" and d' = "(fst x)(ObjectKey p c i \<mapsto> v)"])
        (simp_all add: flatten_single free_ids_def, simp_all add: has_class_def ClassKey_neq_ObjectKey)
  next
    case (Cmd_Bulk p c vs)
    with assms(1) have b: "has_class p c (fst x)" "length ids = length vs" "free_ids x g p c ids" by simp_all
    note be = bulk_entry [OF b(2) e [unfolded Cmd_Bulk]]
    show ?thesis
    proof (rule logs_asI [OF refl _ _ be(3)])
      have "set (map e_ObjectID (e_Flatten e)) = set ids" unfolding be(2) ..
      then show "keys_of (e_Flatten e) = writes cmd (PcReady e)" unfolding be(4) Cmd_Bulk by simp
      show "sub_ok s" if "s \<in> set (e_Flatten e)" for s
        using that b(1) unfolding be(1) by (auto simp: sub_ok_def set_zip has_class_def)
      show "call_spec cmd x (Inr (cmd_reply cmd e)) (put_objects p c (zip ids vs) (fst x), logged_given cmd ids (snd x))"
        using b unfolding Cmd_Bulk by (auto simp: be(2) free_ids_def simp del: map_eq_conv)
      show "logged_ok cmd (put_objects p c (zip ids vs) (fst x), logged_given cmd ids (snd x))"
        using b(1) unfolding Cmd_Bulk by (simp add: has_class_def put_objects_class)
      show "objects_ok g (put_objects p c (zip ids vs) (fst x))"
      proof (rule put_objects_ok [OF assms(3) b(1)])
        have "fst ` set (zip ids vs) = set ids" using b(2) by (metis list.set_map map_fst_zip)
        then show "\<forall>i\<in>fst ` set (zip ids vs). 0 < sint i \<and> sint i \<le> sint (gen_Current g (ScopeKey p c))"
          using b(3) by (simp add: free_ids_def new_ids_def)
      qed
      show "given_ok g (logged_given cmd ids (snd x))"
        using b(3) unfolding Cmd_Bulk logged_given.simps by (intro give_ok assms(4)) (simp add: free_ids_def)
    qed
  next
    case (Cmd_Put p c i v)
    with assms(1) have b: "has_class p c (fst x)" "objects p c (fst x) i \<noteq> None" by simp_all
    note ns = has_class_no_sep [OF b(1)]
    have "objects_ok g ((fst x)(ObjectKey p c i \<mapsto> v))"
      using objects_ok_put [OF assms(3) b(1)] objects_okD(2) [OF assms(3) _ _ b(2)] ns by simp
    then show ?thesis using Cmd_Put b e assms(4) ns
      by (intro logs_asI [where subs = "[e]" and d' = "(fst x)(ObjectKey p c i \<mapsto> v)"])
        (simp_all add: flatten_single, simp_all add: has_class_def ClassKey_neq_ObjectKey)
  next
    case (Cmd_Delete p c i)
    with assms(1) have b: "has_class p c (fst x)" "objects p c (fst x) i \<noteq> None" by simp_all
    note ns = has_class_no_sep [OF b(1)]
    then have "objects_ok g ((fst x)(ObjectKey p c i := None))" using assms(3) by (simp add: objects_ok_delete)
    then show ?thesis using Cmd_Delete b e assms(4) ns
      by (intro logs_asI [where subs = "[e]" and d' = "(fst x)(ObjectKey p c i := None)"])
        (simp_all add: flatten_single, simp_all add: has_class_def ClassKey_neq_ObjectKey)
  qed (use assms(1) in simp_all)
qed

lemma writes_scope:
  "k \<in> writes cmd pc \<Longrightarrow> k = ClassKey (fst (cmd_scope cmd)) (snd (cmd_scope cmd)) \<and> class_cmd cmd \<or>
     (\<exists>i. k = ObjectKey (fst (cmd_scope cmd)) (snd (cmd_scope cmd)) i \<and>
       (create_cmd cmd \<and> i \<in> set (pc_ids pc) \<or> \<not> create_cmd cmd \<and> k \<in> reads cmd))"
  by (cases cmd) auto

lemma writes_class_reads: "k \<in> writes cmd pc \<Longrightarrow> class_cmd cmd \<Longrightarrow> k \<in> reads cmd"
  by (cases cmd) auto

text \<open>Two calls do not write the same key.\<close>

lemma writes_apart:
  assumes "calls_ok ev s x" "sy_calls s w = Some (cmd, pc)" "sy_calls s v = Some (cmd', pc')" "v \<noteq> w"
    "\<not> answered pc" "\<not> answered pc'" "no_sep (fst (cmd_scope cmd)) \<and> no_sep (snd (cmd_scope cmd))"
    "no_sep (fst (cmd_scope cmd')) \<and> no_sep (snd (cmd_scope cmd'))"
  shows "writes cmd pc \<inter> writes cmd' pc' = {}"
proof (rule ccontr)
  assume "\<not> ?thesis"
  then obtain k where k: "k \<in> writes cmd pc" "k \<in> writes cmd' pc'" by blast
  have 1: "k \<notin> reads cmd'"
    using apartD [OF calls_okD(1) [OF assms(1)] assms(2,3)] assms(4-6) k(1) by auto
  have 2: "k \<notin> reads cmd"
    using apartD [OF calls_okD(1) [OF assms(1)] assms(3,2)] assms(4-6) k(2) by auto
  from writes_scope [OF k(1)] writes_class_reads [OF k(1)] 2 obtain i where
    i: "k = ObjectKey (fst (cmd_scope cmd)) (snd (cmd_scope cmd)) i" "create_cmd cmd" "i \<in> set (pc_ids pc)" by blast
  from writes_scope [OF k(2)] writes_class_reads [OF k(2)] 1 obtain j where
    j: "k = ObjectKey (fst (cmd_scope cmd')) (snd (cmd_scope cmd')) j" "create_cmd cmd'" "j \<in> set (pc_ids pc')" by blast
  have "cmd_scope cmd' = cmd_scope cmd" "j = i"
    using i(1) j(1) assms(7,8) by (auto simp: ObjectKey_inject prod_eq_iff)
  with ids_apartD [OF calls_okD(2) [OF assms(1)] assms(2,3,4) i(2) j(2)] i(3) j(3) show False by auto
qed

lemma ready_scope: "ready_ok cmd x g ids \<Longrightarrow> no_sep (fst (cmd_scope cmd)) \<and> no_sep (snd (cmd_scope cmd))"
  by (cases cmd) (auto dest: has_class_no_sep validName_no_sep validProject_no_sep)

lemma logged_scope: "logged_ok cmd x \<Longrightarrow> no_sep (fst (cmd_scope cmd)) \<and> no_sep (snd (cmd_scope cmd))"
  by (cases cmd) (auto dest: has_class_no_sep)

lemma ready_not_busy:
  assumes "calls_ok ev s x" "sy_calls s w = Some (cmd, PcReady e)" "ready_ok cmd x g ids" "k \<in> writes cmd (PcReady e)"
  shows "\<not> busy (conc_of s log) k"
proof
  assume "busy (conc_of s log) k"
  then obtain v cmd' e' tx where v: "sy_calls s v = Some (cmd', PcLogged e' tx)" "k \<in> keys_of (e_Flatten e')"
    by (auto simp: busy_conc)
  from calls_okD(3) [OF assms(1) v(1)] have l: "logged_ok cmd' x" "k \<in> writes cmd' (PcLogged e' tx)" using v(2) by auto
  have "v \<noteq> w" using v(1) assms(2) by auto
  with writes_apart [OF assms(1,2) v(1)] ready_scope [OF assms(3)] logged_scope [OF l(1)] assms(4) l(2) show False by auto
qed

text \<open>What logging does to the other calls.\<close>

lemma log_frame:
  assumes "calls_ok ev s x" "sy_calls s w = Some (cmd, PcReady e)" "PcReady e = ready ev cmd ids"
    "ready_ok cmd x (en_idgen (sy_en s)) ids" "logs_as cmd ids e (en_idgen (sy_en s)) x"
    "sy_calls s v = Some (cmd', pc')" "v \<noteq> w" "en_overlay en = en_overlay (sy_en s)" "en_idgen en = en_idgen (sy_en s)"
  shows "call_ok ev (log_effect cmd ids e x) en cmd' pc'"
proof (cases "answered pc'")
  case False
  note ok = calls_okD(3) [OF assms(1,6)]
  let ?p = "fst (cmd_scope cmd)" and ?c = "snd (cmd_scope cmd)" and ?p' = "fst (cmd_scope cmd')" and ?c' = "snd (cmd_scope cmd')"
  have wr: "keys_of (e_Flatten e) = writes cmd (PcReady e)" using assms(5) by (simp add: logs_as_def)
  have other: "fst (log_effect cmd ids e x) k = fst x k" if "k \<notin> writes cmd (PcReady e)" for k
    using that by (simp add: log_effect_def entry_apply_def fold_sub_other wr)
  have rd: "writes cmd (PcReady e) \<inter> reads cmd' = {}"
    using apartD [OF calls_okD(1) [OF assms(1)] assms(2,6)] assms(7) False by simp
  note ns = ready_scope [OF assms(4)]
  show ?thesis
  proof (rule call_frame [OF ok])
    show "fst (log_effect cmd ids e x) k = fst x k" if "k \<in> reads cmd'" for k using other rd that by blast
    show "map_of (en_overlay en) k = map_of (en_overlay (sy_en s)) k" for k by (simp add: assms(8))
    show "ids_low (en_idgen (sy_en s)) cmd' pc' \<Longrightarrow> ids_low (en_idgen en) cmd' pc'" by (simp add: assms(9))
    show "given_kept x (log_effect cmd ids e x) cmd'"
      unfolding given_kept_def
    proof (intro impI)
      assume d: "drop_cmd cmd'" "logged_ok cmd' x"
      have "ScopeKey ?p' ?c' \<noteq> ScopeKey ?p ?c" if "create_cmd cmd"
      proof
        assume "ScopeKey ?p' ?c' = ScopeKey ?p ?c"
        then have "?p' = ?p" "?c' = ?c" using ScopeKey_split ns by blast+
        moreover have "has_class ?p ?c (fst x)" using that assms(4) by (cases cmd) simp_all
        moreover have "fst x (ClassKey ?p' ?c') = None" using d by (cases cmd') simp_all
        ultimately show False by (simp add: has_class_def)
      qed
      then show "snd (log_effect cmd ids e x) (ScopeKey ?p' ?c') \<subseteq> snd x (ScopeKey ?p' ?c')"
        by (cases cmd) (auto simp: log_effect_def give_def)
    qed
    assume cr: "create_cmd cmd'" "\<forall>e tx. pc' \<noteq> PcLogged e tx"
    have kept: "ids_kept x (en_idgen (sy_en s)) cmd' pc'" by (rule call_ids_kept [OF ok cr])
    have ns': "no_sep ?p' \<and> no_sep ?c'" if "pc_ids pc' \<noteq> []"
    proof (cases pc')
      case (PcReady e')
      with ok obtain ids' where "ready_ok cmd' x (en_idgen (sy_en s)) ids'" by auto
      then show ?thesis by (rule ready_scope)
    qed (use ok that cr(2) has_class_no_sep in auto)
    show "ids_kept (log_effect cmd ids e x) (en_idgen en) cmd' pc'"
      unfolding ids_kept_def
    proof (intro ballI conjI)
      fix i
      assume i: "i \<in> set (pc_ids pc')"
      then have n: "no_sep ?p' \<and> no_sep ?c'" using ns' by force
      from i kept have k: "objects ?p' ?c' (fst x) i = None" "i \<notin> snd x (ScopeKey ?p' ?c')"
        "sint i \<le> sint (gen_Current (en_idgen (sy_en s)) (ScopeKey ?p' ?c'))" by (simp_all add: ids_kept_def)
      have "ObjectKey ?p' ?c' i \<in> writes cmd' pc'" using i cr(1) by (cases cmd') auto
      then have "ObjectKey ?p' ?c' i \<notin> writes cmd (PcReady e)"
        using writes_apart [OF assms(1,2,6,7)] False ns n by auto
      then show "objects ?p' ?c' (fst (log_effect cmd ids e x)) i = None" using k(1) other by (simp add: objects_def)
      show "sint i \<le> sint (gen_Current (en_idgen en) (ScopeKey ?p' ?c'))" using k(3) by (simp add: assms(9))
      have "i \<notin> set ids" if "create_cmd cmd" "ScopeKey ?p' ?c' = ScopeKey ?p ?c"
      proof -
        have "cmd_scope cmd' = cmd_scope cmd" using ScopeKey_split [of ?p ?c ?p' ?c'] ns that(2) by (simp add: prod_eq_iff)
        from ids_apartD [OF calls_okD(2) [OF assms(1)] assms(2,6,7) that(1) cr(1) this] i
        have "i \<notin> set (pc_ids (PcReady e))" by blast
        then show ?thesis using ready_ids [OF that(1) assms(4,3)] by auto
      qed
      then show "i \<notin> snd (log_effect cmd ids e x) (ScopeKey ?p' ?c')"
        using k(2) by (cases cmd) (auto simp: log_effect_def give_def)
    qed
  qed
qed (cases pc'; simp)

lemma seq_Submit_fields:
  assumes "ev_ok ev" "en_open en" "seq_Submit ev p en = (en', r)"
  shows "en_overlay en' = en_overlay en" "en_idgen en' = en_idgen en" "en_classes en' = en_classes en" "en_snap en' = en_snap en"
  using assms(3) seq_Submit_ok [OF assms(1,2), of p] by (auto split: if_splits)

text \<open>The submission fails, in one of two ways.\<close>

lemma refused_step_inv:
  assumes "sys_inv ev d0 s" "ev_ok ev" "sy_calls s w = Some (cmd, PcReady e)" "tx_left (sy_en s)"
    "seq_Submit ev p (sy_en s) = (en, Inl err)" "apart ((sy_calls s)(w \<mapsto> (cmd, PcDone (Inl err))))"
  shows "sys_inv ev d0 (moved s w cmd (PcDone (Inl err)) en)"
proof -
  from assms(1) obtain log x U where inv: "conc_inv ev d0 (conc_of s log)" "x = (fold entry_apply log d0, U)"
    "shared_ok ev s x" "calls_ok ev s x" "traced ev d0 s x" by (elim sys_invE)
  have op: "en_open (sy_en s)" using engine_at_overlay [OF inv(1)] by simp
  note f = seq_Submit_fields [OF assms(2) op assms(5)]
  have err: "err = ErrTooLarge" using assms(5) seq_Submit_ok [OF assms(2) op, of p] by (auto split: if_splits)
  show ?thesis
  proof (rule sys_invI [OF _ inv(2)])
    have "conc_inv ev d0 ((conc_of s log)\<lparr>cn_en := en\<rparr>)"
      using refused_inv [OF inv(1) assms(2)] assms(4,5) by simp
    then show "conc_inv ev d0 (conc_of (moved s w cmd (PcDone (Inl err)) en) log)"
      using conc_moved_same [OF assms(3), of "PcDone (Inl err)" en log] by simp
    show "shared_ok ev (moved s w cmd (PcDone (Inl err)) en) x"
      using shared_moved [OF inv(3) assms(3), of "PcDone (Inl err)"]
      by (simp add: shared_ok_def classes_seen_def store_keys_ok_def f)
    show "calls_ok ev (moved s w cmd (PcDone (Inl err)) en) x"
    proof (rule calls_ok_moved [OF inv(4) assms(6)])
      show "ids_apart ((sy_calls s)(w \<mapsto> (cmd, PcDone (Inl err))))"
        by (rule ids_apart_moved [OF calls_okD(2) [OF inv(4)] assms(3)]) simp
      fix v cmd' pc''
      assume v: "call_ok ev x (sy_en s) cmd' pc''"
      show "call_ok ev x en cmd' pc''"
        using call_ids_kept [OF v] by (intro call_frame [OF v]) (simp_all add: f)
    qed simp
    show "traced ev d0 (moved s w cmd (PcDone (Inl err)) en) x"
      by (rule traced_effect [OF inv(5), where w = w and cmd = cmd and y = "(cmd, PcDone (Inl err))" and x' = x and r = "Inl err"])
        (simp_all add: assms(3) refused_def err)
  qed
qed

lemma marshal_fails_inv:
  assumes "sys_inv ev d0 s" "sy_calls s w = Some (cmd, PcReady e)" "cd_marshal (ev_codec ev) e = Inl err"
    "apart ((sy_calls s)(w \<mapsto> (cmd, PcDone (Inl err))))"
  shows "sys_inv ev d0 (moved s w cmd (PcDone (Inl err)) (sy_en s))"
proof -
  from assms(1) obtain log x U where inv: "conc_inv ev d0 (conc_of s log)" "x = (fold entry_apply log d0, U)"
    "shared_ok ev s x" "calls_ok ev s x" "traced ev d0 s x" by (elim sys_invE)
  have "refused ev (Inl err)" using assms(3) by (auto simp: refused_def)
  then have "traced ev d0 (moved s w cmd (PcDone (Inl err)) (sy_en s)) x"
    by (intro traced_effect [OF inv(5), where w = w and cmd = cmd and y = "(cmd, PcDone (Inl err))" and r = "Inl err"]) (simp_all add: assms(2))
  then show ?thesis by (intro quiet_inv [OF inv assms(2,4)]) simp_all
qed

lemma logged_step_inv:
  assumes "sys_inv ev d0 s" "ev_ok ev" "sy_calls s w = Some (cmd, PcReady e)" "call_room ev (sy_en s) cmd (PcReady e)"
    "cd_marshal (ev_codec ev) e = Inr p" "seq_Submit ev p (sy_en s) = (en, Inr tx)"
    "apart ((sy_calls s)(w \<mapsto> (cmd, PcLogged e tx)))"
  shows "sys_inv ev d0 (moved s w cmd (PcLogged e tx) en)"
proof -
  from assms(1) obtain log x U where inv: "conc_inv ev d0 (conc_of s log)" "x = (fold entry_apply log d0, U)"
    "shared_ok ev s x" "calls_ok ev s x" "traced ev d0 s x" by (elim sys_invE)
  have op: "en_open (sy_en s)" using engine_at_overlay [OF inv(1)] by simp
  note f = seq_Submit_fields [OF assms(2) op assms(6)]
  from calls_okD(3) [OF inv(4) assms(3)] obtain ids where
    ids: "PcReady e = ready ev cmd ids" "ready_ok cmd x (en_idgen (sy_en s)) ids" by auto
  have sh: "objects_ok (en_idgen (sy_en s)) (fst x)" "given_ok (en_idgen (sy_en s)) (snd x)" "classes_seen s (fst x)"
    using inv(3) by (simp_all add: shared_ok_def)
  note logs = ready_logs [OF ids(2,1) sh(1,2)]
  then have l: "keys_of (e_Flatten e) = writes cmd (PcReady e)" "\<forall>s\<in>set (e_Flatten e). sub_ok s"
    "call_spec cmd x (Inr (cmd_reply cmd e)) (log_effect cmd ids e x)" "logged_ok cmd (log_effect cmd ids e x)"
    "objects_ok (en_idgen (sy_en s)) (fst (log_effect cmd ids e x))" "given_ok (en_idgen (sy_en s)) (snd (log_effect cmd ids e x))"
    by (simp_all add: logs_as_def log_effect_def)
  have free: "writers_of (sy_calls s) w = None" by (simp add: writers_of_alt assms(3))
  have "can_log ev (conc_of s log) e"
    using assms(4) l(1,2) ready_not_busy [OF inv(4) assms(3) ids(2)] by (auto simp: can_log_def)
  from logged_inv [OF inv(1) assms(2) _ this assms(5)] free assms(6)
  have conc: "conc_inv ev d0 (conc_of (moved s w cmd (PcLogged e tx) en) (log @ [e]))"
    by (simp add: conc_of_def)
  let ?s = "moved s w cmd (PcLogged e tx) en"
  have x': "log_effect cmd ids e x = (fold entry_apply (log @ [e]) d0, logged_given cmd ids U)" by (simp add: log_effect_def inv(2))
  show ?thesis
  proof (rule sys_invI [OF conc x'])
    have "fst (log_effect cmd ids e x) (ClassKey p c) = fst x (ClassKey p c)"
      if "no_sep p" "no_sep c" "\<not> class_moving (sy_calls ?s) p c" for p c
    proof -
      have "ClassKey p c \<notin> writes cmd (PcReady e)"
      proof
        assume "ClassKey p c \<in> writes cmd (PcReady e)"
        with writes_scope [OF this] have "class_cmd cmd"
          "ClassKey p c = ClassKey (fst (cmd_scope cmd)) (snd (cmd_scope cmd))" by (auto simp: ClassKey_neq_ObjectKey)
        then have "class_cmd cmd" "cmd_scope cmd = (p, c)"
          using ready_scope [OF ids(2)] that(1,2) by (auto simp: ClassKey_inject prod_eq_iff)
        then have "class_moving (sy_calls ?s) p c" unfolding class_moving_alt by (intro exI [of _ w]) simp
        with that(3) show False by simp
      qed
      then show ?thesis by (simp add: log_effect_def entry_apply_def fold_sub_other l(1))
    qed
    moreover have "class_moving (sy_calls s) p c \<Longrightarrow> class_moving (sy_calls ?s) p c" for p c
      using class_moving_keep [of "sy_calls s" p c w cmd "PcReady e" "PcLogged e tx"] assms(3) by simp
    ultimately have "classes_seen ?s (fst (log_effect cmd ids e x))"
      using sh(3) unfolding classes_seen_def by (simp add: f) blast
    then show "shared_ok ev ?s (log_effect cmd ids e x)"
      using l(5,6) inv(3) by (simp add: shared_ok_def store_keys_ok_def f)
    show "calls_ok ev ?s (log_effect cmd ids e x)"
    proof (rule calls_ok_moved [OF inv(4) assms(7)])
      show "ids_apart ((sy_calls s)(w \<mapsto> (cmd, PcLogged e tx)))"
        by (rule ids_apart_moved [OF calls_okD(2) [OF inv(4)] assms(3)]) simp
      have "ids_low (en_idgen (sy_en s)) cmd (PcReady e)" by (rule call_ids_low [OF calls_okD(3) [OF inv(4) assms(3)]])
      then have "ids_low (en_idgen en) cmd (PcLogged e tx)" by (simp add: ids_low_def f)
      moreover have "writes cmd (PcLogged e tx) = writes cmd (PcReady e)" by (cases cmd) simp_all
      ultimately show "call_ok ev (log_effect cmd ids e x) en cmd (PcLogged e tx)" using l by simp
      show "call_ok ev (log_effect cmd ids e x) en cmd' pc''" if "v \<noteq> w" "sy_calls s v = Some (cmd', pc'')" for v cmd' pc''
        using log_frame [OF inv(4) assms(3) ids logs that(2,1)] f by simp
    qed
    show "traced ev d0 ?s (log_effect cmd ids e x)"
      by (rule traced_effect [OF inv(5), where w = w and cmd = cmd and y = "(cmd, PcLogged e tx)" and r = "Inr (cmd_reply cmd e)"])
        (simp_all add: assms(3) l(3))
  qed
qed

section \<open>After the log\<close>

lemma publish_all_keys:
  "\<forall>(k, v)\<in>set (en_overlay en). key_ok k \<Longrightarrow> \<forall>s\<in>set subs. sub_ok s \<Longrightarrow>
   \<forall>(k, v)\<in>set (en_overlay (publish_all subs tx en)). key_ok k"
proof (induction subs arbitrary: en)
  case (Cons s subs)
  have "set (AList.update k v ov) \<subseteq> insert (k, v) (set ov)" for k v and ov :: overlay
    by (induction ov) auto
  then have "\<forall>(k, v)\<in>set (en_overlay (publish s (deletes s) tx en)). key_ok k"
    using Cons.prems sub_ok_key [of s] by (fastforce simp: publish_def)
  with Cons show ?case by simp
qed simp

lemma published_next:
  assumes "logged_ok cmd x"
  shows "call_ok ev x en cmd (call_published cmd e)" "class_cmd cmd \<Longrightarrow> call_published cmd e = PcClasses"
    "phase_of (Some (cmd, call_published cmd e)) = Answering cmd (Inr (cmd_reply cmd e))"
    "logged_of (call_published cmd e) = None" "pc_ids (call_published cmd e) = []"
  using assms by (cases cmd; simp)+

lemma published_step_inv:
  assumes "sys_inv ev d0 s" "sy_calls s w = Some (cmd, PcLogged e tx)"
    "apart ((sy_calls s)(w \<mapsto> (cmd, call_published cmd e)))"
  shows "sys_inv ev d0 (moved s w cmd (call_published cmd e) (publish_all (e_Flatten e) tx (sy_en s)))"
proof -
  from assms(1) obtain log x U where inv: "conc_inv ev d0 (conc_of s log)" "x = (fold entry_apply log d0, U)"
    "shared_ok ev s x" "calls_ok ev s x" "traced ev d0 s x" by (elim sys_invE)
  let ?en = "publish_all (e_Flatten e) tx (sy_en s)" and ?pc = "call_published cmd e"
  let ?s = "moved s w cmd ?pc ?en"
  from calls_okD(3) [OF inv(4) assms(2)] have l: "logged_ok cmd x" "keys_of (e_Flatten e) = writes cmd (PcLogged e tx)"
    "\<forall>s\<in>set (e_Flatten e). sub_ok s" by simp_all
  note nx = published_next [OF l(1)]
  have wr: "cn_writers (conc_of s log) w = Some (e_Flatten e, tx)" by (simp add: writers_of_alt assms(2))
  show ?thesis
  proof (rule sys_invI [OF _ inv(2)])
    show "conc_inv ev d0 (conc_of ?s log)"
      using published_inv [OF inv(1) wr] by (simp add: conc_of_def nx(4))
    have "class_cmd cmd \<Longrightarrow> moving ?pc = moving (PcLogged e tx)" by (simp add: nx(2))
    moreover have "\<forall>(k, v)\<in>set (en_overlay ?en). key_ok k"
      using inv(3) l(3) publish_all_keys unfolding shared_ok_def store_keys_ok_def by blast
    ultimately show "shared_ok ev ?s x"
      using shared_moved [OF inv(3) assms(2), of ?pc] by (simp add: shared_ok_def classes_seen_def store_keys_ok_def)
    show "calls_ok ev ?s x"
    proof (rule calls_ok_moved [OF inv(4) assms(3)])
      show "ids_apart ((sy_calls s)(w \<mapsto> (cmd, ?pc)))"
        by (rule ids_apart_moved [OF calls_okD(2) [OF inv(4)] assms(2)]) (simp add: nx(5))
      show "call_ok ev x ?en cmd ?pc" by (rule nx(1))
      fix v cmd' pc''
      assume v: "v \<noteq> w" "sy_calls s v = Some (cmd', pc'')" "call_ok ev x (sy_en s) cmd' pc''"
      show "call_ok ev x ?en cmd' pc''"
      proof (cases "answered pc''")
        case False
        then have "writes cmd (PcLogged e tx) \<inter> reads cmd' = {}"
          using apartD [OF calls_okD(1) [OF inv(4)] assms(2) v(2)] v(1) by simp
        then have "map_of (en_overlay ?en) k = map_of (en_overlay (sy_en s)) k" if "k \<in> reads cmd'" for k
          using publish_all_other that l(2) by blast
        then show ?thesis using call_ids_kept [OF v(3)] by (intro call_frame [OF v(3)]) simp_all
      qed (cases pc''; simp)
    qed
    show "traced ev d0 ?s x" by (rule traced_same [OF inv(5)]) (simp_all add: assms(2) nx(3))
  qed
qed

lemma classes_step_inv:
  assumes "sys_inv ev d0 s" "sy_calls s w = Some (cmd, PcClasses)" "call_classes cmd (sy_en s) = (en, pc')"
    "apart ((sy_calls s)(w \<mapsto> (cmd, pc')))"
  shows "sys_inv ev d0 (moved s w cmd pc' en)"
proof -
  from assms(1) obtain log x U where inv: "conc_inv ev d0 (conc_of s log)" "x = (fold entry_apply log d0, U)"
    "shared_ok ev s x" "calls_ok ev s x" "traced ev d0 s x" by (elim sys_invE)
  obtain p c where sc: "cmd_scope cmd = (p, c)" by fastforce
  from calls_okD(3) [OF inv(4) assms(2)] have l: "class_cmd cmd" "logged_ok cmd x" by simp_all
  have ns: "no_sep p" "no_sep c" using logged_scope [OF l(2)] by (simp_all add: sc)
  from assms(3) l obtain cs where en: "en = (sy_en s)\<lparr>en_classes := cs\<rparr>"
    and cs: "if drop_cmd cmd then cs = removeAll (ScopeKey p c) (en_classes (sy_en s)) \<and> fst x (ClassKey p c) = None
      else cs = List.insert (ScopeKey p c) (en_classes (sy_en s)) \<and> fst x (ClassKey p c) \<noteq> None"
    using sc by (cases cmd) (auto simp: has_class_def)
  have pc: "logged_of pc' = None" "pc_ids pc' = []" "\<not> moving pc'" "call_ok ev x en cmd pc'"
    "phase_of (Some (cmd, pc')) = Answering cmd (Inr RUnit)"
    using assms(3) l by (cases cmd; auto)+
  have seen: "classes_seen s (fst x)" using inv(3) by (simp add: shared_ok_def)
  let ?s = "moved s w cmd pc' en"
  show ?thesis
  proof (rule sys_invI [OF _ inv(2)])
    show "conc_inv ev d0 (conc_of ?s log)"
      using inv(1) conc_moved_same [OF assms(2), of pc' en log] conc_inv_fields(1) [where s = "conc_of s log" and cs = cs]
      by (simp add: en pc(1))
    have moving: "class_moving (sy_calls s) p' c' \<Longrightarrow> class_moving (sy_calls ?s) p' c'" if "(p', c') \<noteq> (p, c)" for p' c'
      using class_moving_keep [of "sy_calls s" p' c' w cmd PcClasses pc'] assms(2) sc that by auto
    have "ScopeKey p' c' \<in> set cs \<longleftrightarrow> fst x (ClassKey p' c') \<noteq> None"
      if "no_sep p'" "no_sep c'" "\<not> class_moving (sy_calls ?s) p' c'" for p' c'
    proof (cases "(p', c') = (p, c)")
      case False
      then have "ScopeKey p' c' \<noteq> ScopeKey p c" using ScopeKey_inject [OF that(1) ns(1)] by auto
      then have "ScopeKey p' c' \<in> set cs \<longleftrightarrow> ScopeKey p' c' \<in> set (en_classes (sy_en s))" using cs by (auto split: if_splits)
      then show ?thesis using seen moving [OF False] that unfolding classes_seen_def by blast
    qed (use cs in \<open>auto split: if_splits\<close>)
    moreover have "distinct cs" "set cs \<subseteq> {ScopeKey p c |p c. no_sep p \<and> no_sep c}"
      using seen cs ns by (auto simp: classes_seen_def distinct_removeAll split: if_splits)
    ultimately have "classes_seen ?s (fst x)" by (simp add: classes_seen_def en)
    then show "shared_ok ev ?s x" using inv(3) by (simp add: shared_ok_def store_keys_ok_def en)
    show "calls_ok ev ?s x"
    proof (rule calls_ok_moved [OF inv(4) assms(4)])
      show "ids_apart ((sy_calls s)(w \<mapsto> (cmd, pc')))"
        by (rule ids_apart_moved [OF calls_okD(2) [OF inv(4)] assms(2)]) (simp add: pc(2))
      fix v cmd' pc''
      assume v: "call_ok ev x (sy_en s) cmd' pc''"
      show "call_ok ev x en cmd' pc''" using call_ids_kept [OF v] by (intro call_frame [OF v]) (simp_all add: en)
    qed (rule pc(4))
    show "traced ev d0 ?s x" by (rule traced_same [OF inv(5)]) (simp_all add: assms(2) pc(5))
  qed
qed

lemma drop_ids_inv:
  assumes "sys_inv ev d0 s" "sy_calls s w = Some (cmd, PcDropIds)" "call_step ev cmd PcDropIds (sy_en s) = (en, pc')"
    "apart ((sy_calls s)(w \<mapsto> (cmd, pc')))"
  shows "sys_inv ev d0 (moved s w cmd pc' en)"
proof -
  from assms(1) obtain log x U where inv: "conc_inv ev d0 (conc_of s log)" "x = (fold entry_apply log d0, U)"
    "shared_ok ev s x" "calls_ok ev s x" "traced ev d0 s x" by (elim sys_invE)
  obtain p c where sc: "cmd_scope cmd = (p, c)" by fastforce
  let ?g = "en_idgen (sy_en s)"
  define g where "g = gen_Drop ?g (ScopeKey p c)"
  have en: "en = (sy_en s)\<lparr>en_idgen := g\<rparr>" "pc' = PcDone (Inr RUnit)" using assms(3) by (auto simp: sc g_def)
  from calls_okD(3) [OF inv(4) assms(2)] have l: "drop_cmd cmd" "logged_ok cmd x" by simp_all
  then have n: "no_sep p" "no_sep c" "fst x (ClassKey p c) = None" "snd x (ScopeKey p c) = {}"
    using sc by (cases cmd; simp)+
  have cur: "gen_Current g cls = (if cls = ScopeKey p c then 0 else gen_Current ?g cls)" for cls
    by (simp add: g_def gen_Drop_def gen_Current_def)
  have sh: "objects_ok ?g (fst x)" "given_ok ?g (snd x)" using inv(3) by (simp_all add: shared_ok_def)
  have none: "objects p c (fst x) i = None" for i using objects_okD(2) [OF sh(1) n(1,2), of i] n(3) by (cases "objects p c (fst x) i") auto
  have obj: "objects_ok g (fst x)"
  proof (rule objects_okI)
    show "0 \<le> sint (gen_Current g cls)" for cls using objects_okD(1) [OF sh(1)] by (simp add: cur)
    fix p' c' i
    assume a: "no_sep p'" "no_sep c'" "objects p' c' (fst x) i \<noteq> None"
    then have "ScopeKey p' c' \<noteq> ScopeKey p c" using none n(1) by (auto simp: ScopeKey_inject)
    with objects_okD(2) [OF sh(1) a] show "fst x (ClassKey p' c') \<noteq> None \<and> 0 < sint i \<and> sint i \<le> sint (gen_Current g (ScopeKey p' c'))"
      by (simp add: cur)
  qed
  have giv: "given_ok g (snd x)" using sh(2) n(4) by (simp add: given_ok_def cur)
  let ?s = "moved s w cmd pc' en"
  show ?thesis
  proof (rule sys_invI [OF _ inv(2)])
    show "conc_inv ev d0 (conc_of ?s log)"
      using inv(1) conc_moved_same [OF assms(2), of pc' en log] conc_inv_fields(2) [where s = "conc_of s log" and g = g]
      by (simp add: en)
    show "shared_ok ev ?s x"
      using shared_moved [OF inv(3) assms(2), of pc'] obj giv by (simp add: shared_ok_def classes_seen_def store_keys_ok_def en)
    show "calls_ok ev ?s x"
    proof (rule calls_ok_moved [OF inv(4) assms(4)])
      show "ids_apart ((sy_calls s)(w \<mapsto> (cmd, pc')))"
        by (rule ids_apart_moved [OF calls_okD(2) [OF inv(4)] assms(2)]) (simp add: en)
      show "call_ok ev x en cmd pc'" by (simp add: en)
      fix v cmd' pc''
      assume v: "v \<noteq> w" "sy_calls s v = Some (cmd', pc'')" "call_ok ev x (sy_en s) cmd' pc''"
      have "ScopeKey (fst (cmd_scope cmd')) (snd (cmd_scope cmd')) \<noteq> ScopeKey p c" if "create_cmd cmd'" "\<not> answered pc''"
      proof
        assume "ScopeKey (fst (cmd_scope cmd')) (snd (cmd_scope cmd')) = ScopeKey p c"
        then have "fst (cmd_scope cmd') = p" "snd (cmd_scope cmd') = c" using ScopeKey_split n(1,2) by blast+
        then have "ClassKey p c \<in> reads cmd'" using that(1) by (cases cmd') simp_all
        moreover have "writes cmd PcDropIds = {ClassKey p c}" using l(1) sc by (cases cmd) simp_all
        ultimately show False
          using apartD [OF calls_okD(1) [OF inv(4)] assms(2) v(2)] v(1) that(2) by auto
      qed
      then have same: "gen_Current g (ScopeKey (fst (cmd_scope cmd')) (snd (cmd_scope cmd'))) =
          gen_Current ?g (ScopeKey (fst (cmd_scope cmd')) (snd (cmd_scope cmd')))" if "create_cmd cmd'" "\<not> answered pc''"
        using that by (simp add: cur)
      show "call_ok ev x en cmd' pc''"
      proof (cases "answered pc''")
        case False
        then show ?thesis using call_ids_kept [OF v(3)] same
          by (intro call_frame [OF v(3)]) (auto simp: en ids_kept_def ids_low_def)
      qed (cases pc''; simp)
    qed
    show "traced ev d0 ?s x" by (rule traced_same [OF inv(5)]) (simp_all add: assms(2) en)
  qed
qed

section \<open>Every step\<close>

lemma call_inv:
  assumes "sys_inv ev d0 s" "ev_ok ev" "sy_calls s w = Some (cmd, pc)" "call_room ev (sy_en s) cmd pc"
    "call_step ev cmd pc (sy_en s) = (en, pc')" "apart ((sy_calls s)(w \<mapsto> (cmd, pc')))"
  shows "sys_inv ev d0 (moved s w cmd pc' en)"
proof (cases "silent cmd pc")
  case True
  show ?thesis by (rule silent_inv [OF assms(1,3) True assms(5,6)])
next
  case False
  show ?thesis
  proof (cases pc)
    case (PcIds ids)
    then show ?thesis using next_id_inv [of ev d0 s w cmd ids en pc'] False assms by simp
  next
    case (PcReady e)
    show ?thesis
    proof (cases "cd_marshal (ev_codec ev) e")
      case (Inl err)
      with PcReady assms(5) have "en = sy_en s" "pc' = PcDone (Inl err)" by simp_all
      then show ?thesis using marshal_fails_inv [OF assms(1) _ Inl] PcReady assms(3,6) by blast
    next
      case (Inr p)
      obtain en1 r where sub: "seq_Submit ev p (sy_en s) = (en1, r)" by fastforce
      show ?thesis
      proof (cases r)
        case (Inl err)
        then show ?thesis
          using refused_step_inv [of ev d0 s w cmd e p en err] PcReady Inr sub assms by simp
      next
        case (Inr tx)
        then show ?thesis
          using logged_step_inv [of ev d0 s w cmd e p en tx] PcReady \<open>cd_marshal (ev_codec ev) e = Inr p\<close> sub assms by simp
      qed
    qed
  next
    case (PcLogged e tx)
    then show ?thesis using published_step_inv [of ev d0 s w cmd e tx] assms by simp
  next
    case PcClasses
    then show ?thesis using classes_step_inv [of ev d0 s w cmd en pc'] assms by simp
  next
    case PcDropIds
    then show ?thesis using drop_ids_inv [of ev d0 s w cmd en pc'] assms by blast
  next
    case (PcDone r)
    then have "moved s w cmd pc' en = s" using assms(3,5) by (simp add: fun_upd_idem)
    with assms(1) show ?thesis by simp
  qed (use False in simp_all)
qed

lemma ck_do_fields:
  assumes "ck_do ev (pc, en) = (pc', en')"
  shows "en_classes en' = en_classes en" "en_idgen en' = en_idgen en"
    "\<not> prunes pc \<Longrightarrow> en_overlay en' = en_overlay en" "set (en_overlay en') \<subseteq> set (en_overlay en)"
    "\<forall>g folded. pc' \<noteq> CkSwapped g folded \<Longrightarrow> en_snap en' = en_snap en"
  using assms
  by (cases pc; auto simp: ck_do_def prune_def prunes_def Let_def split: sum.splits prod.splits if_splits)+

lemma swapped_keys:
  assumes "conc_inv ev d0 s" "cn_ck s = CkSwapped g folded" "snap_Get (ev_fuel ev) (en_snap (cn_en s)) k = Inr (Some v)"
  shows "key_ok k"
proof -
  from assms(1,2) obtain st wl kvs where "engine_at ev (cn_en s) st wl kvs" "map_of kvs = map_of (ds_kvs st)"
    by (elim conc_invE) auto
  with assms(3) snap_holds_Get show ?thesis by (fastforce simp: engine_at_def ds_ok_def)
qed

lemma checkpoint_inv:
  assumes "sys_inv ev d0 s" "ev_ok ev" "ck_do ev (sy_ck s, sy_en s) = (pc, en)"
    "\<not> (prunes (sy_ck s) \<and> (\<exists>w cmd m. sy_calls s w = Some (cmd, PcMerge m)))"
  shows "sys_inv ev d0 (s\<lparr>sy_en := en, sy_ck := pc\<rparr>)"
proof -
  from assms(1) obtain log x U where inv: "conc_inv ev d0 (conc_of s log)" "x = (fold entry_apply log d0, U)"
    "shared_ok ev s x" "calls_ok ev s x" "traced ev d0 s x" by (elim sys_invE)
  let ?s = "s\<lparr>sy_en := en, sy_ck := pc\<rparr>"
  note f = ck_do_fields [OF assms(3)]
  have conc: "conc_inv ev d0 (conc_of ?s log)"
    using conc_inv_step [OF ck_moves inv(1) assms(2), of pc en] assms(3) by (simp add: conc_of_def)
  show ?thesis
  proof (rule sys_invI [OF conc inv(2)])
    have keys: "store_keys_ok ev (sy_en s)" using inv(3) by (simp add: shared_ok_def)
    have "key_ok k" if "snap_Get (ev_fuel ev) (en_snap en) k = Inr (Some v)" for k v
    proof (cases "\<exists>g folded. pc = CkSwapped g folded")
      case True
      then show ?thesis using swapped_keys [OF conc] that by auto
    next
      case False
      with f(5) keys that show ?thesis by (auto simp: store_keys_ok_def)
    qed
    then have "store_keys_ok ev en" using keys f(4) unfolding store_keys_ok_def by blast
    then show "shared_ok ev ?s x" using inv(3) by (simp add: shared_ok_def classes_seen_def f)
    have "call_ok ev x en cmd pc'" if c: "sy_calls s w = Some (cmd, pc')" for w cmd pc'
    proof (cases "prunes (sy_ck s)")
      case False
      then show ?thesis using call_ids_kept calls_okD(3) [OF inv(4) c] f
        by (intro call_frame [OF calls_okD(3) [OF inv(4) c]]) simp_all
    next
      case True
      then have "\<forall>m. pc' \<noteq> PcMerge m" using assms(4) c by blast
      moreover have "map_of (en_overlay en) k = None" if "map_of (en_overlay (sy_en s)) k = None" for k
        using that f(4) by (auto simp: map_of_eq_None_iff)
      ultimately show ?thesis using calls_okD(3) [OF inv(4) c] by (cases pc') (simp_all add: f)
    qed
    then show "calls_ok ev ?s x" using inv(4) by (simp add: calls_ok_def)
    show "traced ev d0 ?s x" by (rule traced_same [OF inv(5)]) simp_all
  qed
qed

lemma invoke_inv:
  assumes "sys_inv ev d0 s" "sy_calls s w = None" "cmd \<noteq> Cmd_Checkpoint" "apart ((sy_calls s)(w \<mapsto> (cmd, PcStart)))"
  shows "sys_inv ev d0 (s\<lparr>sy_calls := (sy_calls s)(w \<mapsto> (cmd, PcStart)), sy_hist := sy_hist s @ [Invoked w cmd]\<rparr>)"
    (is "sys_inv ev d0 ?s")
proof -
  from assms(1) obtain log x U where inv: "conc_inv ev d0 (conc_of s log)" "x = (fold entry_apply log d0, U)"
    "shared_ok ev s x" "calls_ok ev s x" "traced ev d0 s x" by (elim sys_invE)
  have w: "writers_of (sy_calls s) w = None" by (simp add: writers_of_alt assms(2))
  show ?thesis
  proof (rule sys_invI [OF _ inv(2)])
    have "(writers_of (sy_calls s))(w := None) = writers_of (sy_calls s)" using w by auto
    then show "conc_inv ev d0 (conc_of ?s log)" using inv(1) by (simp add: conc_of_def)
    have "class_moving (sy_calls ?s) p c = class_moving (sy_calls s) p c" for p c
      using class_moving_idle [of "sy_calls s" w "Some (cmd, PcStart)" p c] assms(2) by auto
    then show "shared_ok ev ?s x" using inv(3) by (simp add: shared_ok_def classes_seen_def)
    have "ids_apart ((sy_calls s)(w \<mapsto> (cmd, PcStart)))" by (rule ids_apartI [OF calls_okD(2) [OF inv(4)]]) simp
    then show "calls_ok ev ?s x" using inv(4) assms(3,4) by (auto simp: calls_ok_def)
    show "traced ev d0 ?s x" by (rule traced_invoke [OF inv(5) assms(2)])
  qed
qed

lemma return_inv:
  assumes "sys_inv ev d0 s" "sy_calls s w = Some (cmd, PcDone r)"
  shows "sys_inv ev d0 (s\<lparr>sy_calls := (sy_calls s)(w := None), sy_hist := sy_hist s @ [Returned w r]\<rparr>)"
    (is "sys_inv ev d0 ?s")
proof -
  from assms(1) obtain log x U where inv: "conc_inv ev d0 (conc_of s log)" "x = (fold entry_apply log d0, U)"
    "shared_ok ev s x" "calls_ok ev s x" "traced ev d0 s x" by (elim sys_invE)
  have "writers_of ((sy_calls s)(w := None)) = writers_of (sy_calls s)" by (rule ext) (simp add: writers_of_alt assms(2))
  then have conc: "conc_inv ev d0 (conc_of ?s log)" using inv(1) by (simp add: conc_of_def)
  show ?thesis
  proof (rule sys_invI [OF conc inv(2)])
    have "class_moving (sy_calls ?s) p c = class_moving (sy_calls s) p c" for p c
      using class_moving_idle [of "sy_calls s" w None p c] assms(2) by auto
    then show "shared_ok ev ?s x" using inv(3) by (simp add: shared_ok_def classes_seen_def)
    have "apart (sy_calls ?s)" using calls_okD(1) [OF inv(4)] unfolding apart_def by (simp split: if_split)
    moreover have "ids_apart (sy_calls ?s)" using calls_okD(2) [OF inv(4)] unfolding ids_apart_def by (simp split: if_split)
    ultimately show "calls_ok ev ?s x" using inv(4) by (auto simp: calls_ok_def)
    show "traced ev d0 ?s x" by (rule traced_return [OF inv(5) assms(2)])
  qed
qed

lemma sys_inv_step: "sys_step ev s s' \<Longrightarrow> sys_inv ev d0 s \<Longrightarrow> ev_ok ev \<Longrightarrow> sys_inv ev d0 s'"
  by (induction rule: sys_step.induct) (blast intro: invoke_inv call_inv return_inv checkpoint_inv)+

interpretation overlapping: step_invariant "sys_step ev" "\<lambda>s. sys_inv ev d0 s \<and> ev_ok ev"
  by unfold_locales (blast intro: sys_inv_step)

lemma sys_inv_steps: "(sys_step ev)\<^sup>*\<^sup>* s s' \<Longrightarrow> sys_inv ev d0 s \<Longrightarrow> ev_ok ev \<Longrightarrow> sys_inv ev d0 s'"
  using overlapping.steps_law by blast

section \<open>The start, and what a kill leaves\<close>

lemma sys_start_inv:
  assumes "represents ev en0 d0"
  shows "sys_inv ev d0 (sys_start en0)"
proof -
  from assms obtain st wl where st: "stores_st (ev_codec ev) (ev_fuel ev) en0 st wl" by (auto simp: represents_def stores_def)
  then have h: "snap_holds (ev_fuel ev) (en_snap en0) (ds_kvs st)" "\<forall>k. map_of (ds_kvs st) k \<noteq> None \<longrightarrow> key_ok k"
    "\<forall>(k, v)\<in>set (en_overlay en0). key_ok k" by (auto simp: stores_st_def ds_ok_def overlay_ok_def)
  have "conc_of (sys_start en0) [] = conc_start en0"
    by (simp add: conc_of_def sys_start_def conc_start_def writers_of_def fun_eq_iff)
  then have conc: "conc_inv ev d0 (conc_of (sys_start en0) [])" using start_inv [OF assms] by simp
  have keys: "store_keys_ok ev en0" using h snap_holds_Get [OF h(1)] by (simp add: store_keys_ok_def)
  have cls: "classes_seen (sys_start en0) d0"
    using representsD(2) [OF assms] classes_of_sub [of d0]
    by (simp add: classes_seen_def sys_start_def classes_ok_def in_classes_of)
  have "shared_ok ev (sys_start en0) (d0, \<lambda>_. {})"
    using keys cls representsD(3) [OF assms] by (simp add: shared_ok_def given_ok_def) (simp add: sys_start_def)
  moreover have "calls_ok ev (sys_start en0) (d0, \<lambda>_. {})" by (simp add: calls_ok_def apart_def ids_apart_def sys_start_def)
  moreover have "traced ev d0 (sys_start en0) (d0, \<lambda>_. {})"
    unfolding traced_def by (intro exI [of _ "[]"]) (simp add: sys_start_def)
  ultimately show ?thesis by (intro sys_invI [OF conc]) simp_all
qed

text \<open>A kill cuts the checkpoint's step short, or the record that a call is appending to the log.\<close>

definition killed :: "env \<Rightarrow> callers \<Rightarrow> fs \<Rightarrow> bool" where
  "killed ev s fs' \<longleftrightarrow> crashed (fst (snd (ck_step ev (sy_ck s) (sy_en s)))) (en_dir (sy_en s)) fs' \<or>
     (\<exists>tx p n. length p \<le> MaxRecordLen \<and> n < length (wal_record tx p) \<and>
        fs' = fs_put walName (fs_contents (en_dir (sy_en s)) walName @ take n (wal_record tx p)) (en_dir (sy_en s)))"

lemma torn_record_killed:
  assumes "conc_inv ev d0 s" "length p \<le> MaxRecordLen" "n < length (wal_record tx p)"
  shows "dir_db_of ds_ok (ev_codec ev) (ev_fuel ev)
    (fs_put walName (fs_contents (en_dir (cn_en s)) walName @ take n (wal_record tx p)) (en_dir (cn_en s)))
    (fold entry_apply (cn_log s) d0)"
proof -
  from assms(1) obtain st wl kvs where at: "engine_at ev (cn_en s) st wl kvs"
    and db: "ds_db st = fold entry_apply (cn_log s) d0" by (elim conc_invE)
  then have st: "dir_has (ev_codec ev) (ev_fuel ev) (en_dir (cn_en s)) st" "ds_ok st"
    "fs_get (en_dir (cn_en s)) walName = Some wl" "clean_log wl" by (simp_all add: engine_at_def)
  have log: "log_entries (ev_codec ev) (ds_mid st) wl (ds_active st) (ds_last st)"
    "db_ok (ev_fuel ev) (fold entry_apply (ds_active st) (ds_folded st))"
    using st(1,3) by (simp_all add: dir_has_def log_at_def ds_db_def)
  have "dir_has (ev_codec ev) (ev_fuel ev) (fs_put walName (wl @ take n (wal_record tx p)) (en_dir (cn_en s))) st"
    using dir_has_wal [OF st(1) log_entries_torn [OF log(1) st(4) assms(2,3)] log(2)] by simp
  with st(2,3) db show ?thesis by (auto simp: dir_db_of_def fs_contents_def)
qed

section \<open>Properties\<close>

text \<open>
  C5: overlapping calls are durably linearizable, where the code makes them so. Any number of goroutines
  call the engine, and the checkpoint runs, in the interleavings of their critical sections in which no
  call writes what an overlapping one reads, and the checkpoint does not prune the overlay while a query is
  between the snapshot it has scanned and the overlay. (The code excludes neither: in the other interleavings
  a query can miss objects, and calls like those of EngineRaces are not linearizable.) The invocations and the answers are those of
  the commands executed one after the other, each at a moment between its call and its return, with
  ids for new objects that were not given out before. The database that this sequence leaves is what the engine
  reads when no call is under way, and what it reads when it is opened again after a kill at any moment,
  also in the middle of a write to the log.
\<close>

theorem calls_linearizable:
  assumes "represents ev en0 d0" "ev_ok ev" "(sys_step ev)\<^sup>*\<^sup>* (sys_start en0) s"
  shows "\<exists>d. linearizes ev d0 (sy_hist s) d \<and>
    ((\<forall>w. sy_calls s w = None) \<longrightarrow> (\<forall>k. en_lookup ev (sy_en s) k = Inr (d k))) \<and>
    (\<forall>fs'. killed ev s fs' \<longrightarrow>
      (\<exists>steps en. en_Open ev fs' = (steps, Inr en) \<and> (\<forall>k. en_lookup ev en k = Inr (d k))))"
proof -
  from sys_inv_steps [OF assms(3) sys_start_inv [OF assms(1)] assms(2)] obtain log x U where
    inv: "conc_inv ev d0 (conc_of s log)" "x = (fold entry_apply log d0, U)" "traced ev d0 s x" by (elim sys_invE)
  let ?d = "fold entry_apply log d0"
  from inv(2,3) have lin: "linearizes ev d0 (sy_hist s) ?d" by (force simp: traced_def linearizes_def)
  have "en_lookup ev (sy_en s) k = Inr (?d k)" if "\<forall>w. sy_calls s w = None" for k
  proof -
    have idle: "\<not> busy (conc_of s log) k" using that by (simp add: busy_conc)
    show ?thesis
      using conc_read [OF inv(1) idle, unfolded conc_of_simps] by (auto simp: en_lookup_def split: option.split)
  qed
  moreover have "dir_db_of ds_ok (ev_codec ev) (ev_fuel ev) fs' ?d" if "killed ev s fs'" for fs'
    using that conc_killed [OF inv(1), of fs'] torn_record_killed [OF inv(1)] by (auto simp: killed_def)
  ultimately show ?thesis using lin open_reads by blast
qed

text \<open>An object is created while another worker asks for one that is not there.\<close>

abbreviation sample_new :: cmd where "sample_new \<equiv> Cmd_Create [] sample_class [3]"

abbreviation sample_read :: cmd where "sample_read \<equiv> Cmd_Get [] sample_class 2"

definition two_calls :: "engine \<Rightarrow> call_pc \<Rightarrow> call_pc \<Rightarrow> callers" where
  "two_calls en a b = \<lparr>sy_en = en, sy_ck = CkIdle, sy_calls = [0 \<mapsto> (sample_new, a), 1 \<mapsto> (sample_read, b)],
     sy_hist = [Invoked 0 sample_new, Invoked 1 sample_read]\<rparr>"

lemma sample_apart:
  assumes "2 \<notin> set (pc_ids a)"
  shows "apart [0 \<mapsto> (sample_new, a), 1 \<mapsto> (sample_read, b)]"
  using assms by (auto simp: apart_def ObjectKey_inject keySep_def ClassKey_neq_ObjectKey split: if_splits)

lemma sample_new_moves:
  assumes "call_step sample_env sample_new a en = (en', a')" "call_room sample_env en sample_new a" "2 \<notin> set (pc_ids a')"
  shows "sys_step sample_env (two_calls en a b) (two_calls en' a' b)"
proof -
  let ?s = "two_calls en a b"
  have up: "(sy_calls ?s)(0 \<mapsto> (sample_new, a')) = [0 \<mapsto> (sample_new, a'), 1 \<mapsto> (sample_read, b)]" by (auto simp: two_calls_def)
  have "sys_step sample_env ?s (?s\<lparr>sy_en := en', sy_calls := (sy_calls ?s)(0 \<mapsto> (sample_new, a'))\<rparr>)"
    by (rule move [where pc = a]) (use assms sample_apart [OF assms(3)] up in \<open>simp_all add: two_calls_def\<close>)
  then show ?thesis unfolding up by (simp add: two_calls_def)
qed

lemma sample_get_moves:
  assumes "call_step sample_env sample_read b en = (en, b')" "call_room sample_env en sample_read b" "2 \<notin> set (pc_ids a)"
  shows "sys_step sample_env (two_calls en a b) (two_calls en a b')"
proof -
  let ?s = "two_calls en a b"
  have up: "(sy_calls ?s)(1 \<mapsto> (sample_read, b')) = [0 \<mapsto> (sample_new, a), 1 \<mapsto> (sample_read, b')]" by (auto simp: two_calls_def)
  have "sys_step sample_env ?s (?s\<lparr>sy_en := en, sy_calls := (sy_calls ?s)(1 \<mapsto> (sample_read, b'))\<rparr>)"
    by (rule move [where pc = b]) (use assms sample_apart [OF assms(3)] up in \<open>simp_all add: two_calls_def\<close>)
  then show ?thesis unfolding up by (simp add: two_calls_def)
qed

lemma sample_get_runs:
  assumes "ClassExists en [] sample_class" "en_lookup sample_env en (ObjectKey [] sample_class 2) = Inr None" "2 \<notin> set (pc_ids a)"
  shows "(sys_step sample_env)\<^sup>*\<^sup>* (two_calls en a PcStart) (two_calls en a (PcDone (Inr (RObject None))))"
proof -
  have s1: "sys_step sample_env (two_calls en a PcStart) (two_calls en a PcOverlay)"
    by (rule sample_get_moves) (use assms in simp_all)
  have s2: "(sys_step sample_env)\<^sup>*\<^sup>* (two_calls en a PcOverlay) (two_calls en a (PcDone (Inr (RObject None))))"
  proof (cases "map_of (en_overlay en) (ObjectKey [] sample_class 2)")
    case None
    have "sys_step sample_env (two_calls en a PcOverlay) (two_calls en a PcSnapshot)"
      by (rule sample_get_moves) (use assms(3) None in simp_all)
    moreover have "sys_step sample_env (two_calls en a PcSnapshot) (two_calls en a (PcDone (Inr (RObject None))))"
      by (rule sample_get_moves) (use assms(2,3) None in \<open>simp_all add: en_lookup_def\<close>)
    ultimately show ?thesis by (meson converse_rtranclp_into_rtranclp r_into_rtranclp)
  next
    case (Some v)
    have "sys_step sample_env (two_calls en a PcOverlay) (two_calls en a (PcDone (Inr (RObject None))))"
      by (rule sample_get_moves) (use assms(2,3) Some in \<open>auto simp: en_lookup_def split: if_splits\<close>)
    then show ?thesis by simp
  qed
  from s1 s2 show ?thesis by (rule converse_rtranclp_into_rtranclp)
qed

theorem calls_linearizable_witness:
  "\<exists>en0 s d. (sys_step sample_env)\<^sup>*\<^sup>* (sys_start en0) s \<and>
     sy_hist s = [Invoked 0 sample_new, Invoked 1 sample_read, Returned 1 (Inr (RObject None)), Returned 0 (Inr (RId 1))] \<and>
     linearizes sample_env class_db (sy_hist s) d \<and>
     (\<forall>k. en_lookup sample_env (sy_en s) k = Inr (d k))"
proof -
  from sample_boot sample_create_class obtain en0 where at: "at en0 class_db 1 gen_New" by blast
  then have rep: "represents sample_env en0 class_db" and tx1: "en_nextTx en0 = 1" and gen: "en_idgen en0 = gen_New"
    by (simp_all add: at_def)
  have op: "en_open en0" using rep by (auto simp: represents_def stores_def stores_st_def)
  have cls: "ClassExists en0 [] sample_class" using ClassExists_iff [OF rep] by simp
  define en1 where "en1 = en0\<lparr>en_idgen := gen_New(ScopeKey [] sample_class \<mapsto> 1)\<rparr>"
  obtain en2 where sub: "seq_Submit sample_env [2] en1 = (en2, Inr 2)"
    using seq_Submit_ok [OF sample_env_ok, of en1 "[2]"] op by (auto simp: tx1 en1_def MaxRecordLen_def push_bit_eq_mult)
  let ?s = "sys_step sample_env"
  define s0 where "s0 = sys_start en0\<lparr>sy_calls := [0 \<mapsto> (sample_new, PcStart)], sy_hist := [Invoked 0 sample_new]\<rparr>"
  have c1: "?s (sys_start en0) s0"
    using invoke [of "sys_start en0" 0 sample_new sample_env] by (simp add: s0_def sys_start_def apart_def)
  have c2: "?s s0 (two_calls en0 PcStart PcStart)"
    using invoke [of s0 1 sample_read sample_env] sample_apart [of PcStart PcStart]
    by (simp add: s0_def two_calls_def sys_start_def)
  have c3: "?s (two_calls en0 PcStart PcStart) (two_calls en0 (PcIds []) PcStart)"
    by (rule sample_new_moves) (use cls in simp_all)
  have c4: "?s (two_calls en0 (PcIds []) PcStart) (two_calls en1 (PcIds [1]) PcStart)"
    by (rule sample_new_moves) (simp_all add: gen gen_Next_def en1_def)
  have c5: "?s\<^sup>*\<^sup>* (two_calls en1 (PcIds [1]) PcStart) (two_calls en1 (PcIds [1]) (PcDone (Inr (RObject None))))"
  proof (rule sample_get_runs)
    show "ClassExists en1 [] sample_class" using cls by (simp add: ClassExists_def en1_def)
    have "stores (ev_codec sample_env) (ev_fuel sample_env) en1 class_db" using representsD(1) [OF rep] by (simp add: en1_def)
    from lookup_law [OF this] show "en_lookup sample_env en1 (ObjectKey [] sample_class 2) = Inr None"
      using fun_cong [OF sample_objects(1), of 2] unfolding objects_def by simp
  qed simp
  have c6: "?s (two_calls en1 (PcIds [1]) b) (two_calls en1 (PcReady sample_entry) b)" for b
    by (rule sample_new_moves) (simp_all add: ready_def flatten_single, simp_all add: en1_def)
  have c7: "?s (two_calls en1 (PcReady sample_entry) b) (two_calls en2 (PcLogged sample_entry 2) b)" for b
  proof (rule sample_new_moves)
    show "call_step sample_env sample_new (PcReady sample_entry) en1 = (en2, PcLogged sample_entry 2)" using sub by simp
    have dir: "dir_db_of ds_ok (ev_codec sample_env) (ev_fuel sample_env) (en_dir en1) class_db"
      using represents_dir [OF rep] by (simp add: dir_represents_def en1_def)
    have "db_ok (ev_fuel sample_env) (entry_apply sample_entry d)"
      if "dir_db_of ds_ok (ev_codec sample_env) (ev_fuel sample_env) (en_dir en1) d" for d
      using dir_db_unique [OF that dir] by (simp add: sample_entry_apply)
    then show "call_room sample_env en1 sample_new (PcReady sample_entry)"
      by (simp add: tx_left_def tx1 en1_def)
  qed simp
  define en3 where "en3 = publish_all [sample_entry] 2 en2"
  have c8: "?s (two_calls en2 (PcLogged sample_entry 2) b) (two_calls en3 (PcDone (Inr (RId 1))) b)" for b
    by (rule sample_new_moves) (simp_all add: en3_def)
  note step = converse_rtranclp_into_rtranclp [where r = ?s]
  have run: "?s\<^sup>*\<^sup>* (sys_start en0) (two_calls en3 (PcDone (Inr (RId 1))) (PcDone (Inr (RObject None))))"
    by (rule step [OF c1], rule step [OF c2], rule step [OF c3], rule step [OF c4], rule rtranclp_trans [OF c5],
        rule step [OF c6], rule step [OF c7], rule step [OF c8], rule rtranclp.rtrancl_refl)
  let ?t = "two_calls en3 (PcDone (Inr (RId 1))) (PcDone (Inr (RObject None)))"
  define t1 where "t1 = ?t\<lparr>sy_calls := (sy_calls ?t)(1 := None), sy_hist := sy_hist ?t @ [Returned 1 (Inr (RObject None))]\<rparr>"
  define s where "s = t1\<lparr>sy_calls := (sy_calls t1)(0 := None), sy_hist := sy_hist t1 @ [Returned 0 (Inr (RId 1))]\<rparr>"
  have "?s ?t t1" unfolding t1_def by (rule return) (simp add: two_calls_def)
  moreover have "?s t1 s" unfolding s_def by (rule return) (simp add: two_calls_def t1_def)
  ultimately have r: "?s\<^sup>*\<^sup>* (sys_start en0) s" using run by simp
  have h: "\<forall>w. sy_calls s w = None" "sy_hist s = [Invoked 0 sample_new, Invoked 1 sample_read,
      Returned 1 (Inr (RObject None)), Returned 0 (Inr (RId 1))]"
    by (simp_all add: s_def t1_def two_calls_def)
  from calls_linearizable [OF rep sample_env_ok r] h(1) obtain d where
    "linearizes sample_env class_db (sy_hist s) d" "\<forall>k. en_lookup sample_env (sy_en s) k = Inr (d k)" by blast
  with r h(2) show ?thesis by blast
qed

end
