(* ===== verification/EngineRaces.thy ===== *)
theory EngineRaces
  imports EngineCalls
begin

text \<open>
  Calls that overlap although one writes what the other has read. The calls check their class, look up their
  object or scan their class in one critical section and write in a later one; nothing locks the class or
  the object in between. Each theorem runs one call up to a point, then another call as a whole or a
  checkpoint, then the rest of the first.
\<close>

section \<open>Writes that succeed\<close>

definition can_submit :: "env \<Rightarrow> WALEntry \<Rightarrow> bool" where
  "can_submit ev e \<longleftrightarrow> (\<exists>q. cd_marshal (ev_codec ev) (with_timestamp e (ev_now ev)) = Inr q \<and> length q \<le> MaxRecordLen)"

text \<open>What a submission leaves: the entry in the log, and in the overlay.\<close>

lemma submit_succeeds:
  assumes "ev_ok ev" "en_open en" "can_submit ev e"
  obtains fs where "submit ev e del en =
    (publish e del (en_nextTx en + 1) (en\<lparr>en_nextTx := en_nextTx en + 1, en_dir := fs\<rparr>), Inr (en_nextTx en + 1))"
  using assms by (auto simp: can_submit_def submit_def submit_log_def seq_Submit_ok)

lemma lookup_publish:
  "en_lookup ev (publish e del tx en) k =
     (if k = e_Key e then Inr (if del then None else Some (e_Data e)) else en_lookup ev en k)"
  by (simp add: en_lookup_def publish_def update_conv' split: option.split)

lemma lookup_fields [simp]:
  "en_lookup ev (en\<lparr>en_nextTx := t\<rparr>) k = en_lookup ev en k" "en_lookup ev (en\<lparr>en_dir := fs\<rparr>) k = en_lookup ev en k"
  "en_lookup ev (en\<lparr>en_classes := cs\<rparr>) k = en_lookup ev en k" "en_lookup ev (en\<lparr>en_idgen := g\<rparr>) k = en_lookup ev en k"
  by (simp_all add: en_lookup_def split: option.split)

lemma ClassExists_fields [simp]:
  "ClassExists (publish e del tx en) p c = ClassExists en p c"
  "ClassExists (en\<lparr>en_nextTx := t\<rparr>) p c = ClassExists en p c" "ClassExists (en\<lparr>en_dir := fs\<rparr>) p c = ClassExists en p c"
  "ClassExists (en\<lparr>en_idgen := g\<rparr>) p c = ClassExists en p c"
  by (simp_all add: ClassExists_def)

lemma sample_can_submit [simp]:
  "can_submit sample_env (object_entry OpPut [] sample_class 1 [4])" "can_submit sample_env (object_entry OpDelete [] sample_class 1 [])"
  "can_submit sample_env (class_entry OpDropClass [] sample_class)"
  by (simp_all add: can_submit_def MaxRecordLen_def push_bit_eq_mult)

section \<open>Properties\<close>

text \<open>
  C24: an object that was deleted can come back. \<^verbatim>\<open>PutObject\<close> looks the object up and writes it later; when a
  \<^verbatim>\<open>DeleteObject\<close> of the object runs in between, both calls succeed and the object is there afterwards.
  Neither order of the two calls allows that: after the put the deletion removes the object, and after
  the deletion the put answers that the object does not exist.
\<close>

theorem put_revives_deleted:
  assumes "represents ev en d" "ev_ok ev" "has_class p c d" "objects p c d i \<noteq> None"
    "can_submit ev (object_entry OpPut p c i v)" "can_submit ev (object_entry OpDelete p c i [])"
  shows "(\<exists>en1 en2 pc. (alone ev (Cmd_Put p c i v))\<^sup>*\<^sup>* (en, PcStart) (en, pc) \<and>
      exec ev (Cmd_Delete p c i) en = (en1, Inr RUnit) \<and>
      (alone ev (Cmd_Put p c i v))\<^sup>*\<^sup>* (en1, pc) (en2, PcDone (Inr RUnit)) \<and> GetObject ev en2 p c i = Inr (Some v)) \<and>
    \<not> (\<exists>d1 d2. spec (Cmd_Put p c i v) d (Inr RUnit) d1 \<and> spec (Cmd_Delete p c i) d1 (Inr RUnit) d2 \<and> objects p c d2 i \<noteq> None) \<and>
    \<not> (\<exists>d1 d2. spec (Cmd_Delete p c i) d (Inr RUnit) d1 \<and> spec (Cmd_Put p c i v) d1 (Inr RUnit) d2)"
proof (intro conjI)
  let ?put = "Cmd_Put p c i v" and ?pe = "object_entry OpPut p c i v" and ?de = "object_entry OpDelete p c i []"
  have cls: "ClassExists en p c" using ClassExists_iff [OF assms(1)] assms(3) by simp
  obtain u where found: "en_lookup ev en (ObjectKey p c i) = Inr (Some u)"
    using lookup_law [OF representsD(1) [OF assms(1)]] assms(4) by (auto simp: objects_def)
  have one: "(alone ev ?put)\<^sup>*\<^sup>* (en, PcStart) (en, ready ev ?put [])"
    using alone_lookup [of ev ?put en] cls found by (intro alone_step) simp
  from submit_succeeds [OF assms(2) represents_open [OF assms(1)] assms(6)] obtain fs where
    del: "submit ev ?de True en = (publish ?de True (en_nextTx en + 1) (en\<lparr>en_nextTx := en_nextTx en + 1, en_dir := fs\<rparr>),
      Inr (en_nextTx en + 1))" .
  define en1 where "en1 = publish ?de True (en_nextTx en + 1) (en\<lparr>en_nextTx := en_nextTx en + 1, en_dir := fs\<rparr>)"
  have two: "exec ev (Cmd_Delete p c i) en = (en1, Inr RUnit)" using cls found del by (simp add: DeleteObject_def en1_def)
  have "en_open en1" using represents_open [OF assms(1)] by (simp add: en1_def)
  from submit_succeeds [OF assms(2) this assms(5)] obtain fs' where
    put: "submit ev ?pe False en1 = (publish ?pe False (en_nextTx en1 + 1) (en1\<lparr>en_nextTx := en_nextTx en1 + 1, en_dir := fs'\<rparr>),
      Inr (en_nextTx en1 + 1))" .
  define en2 where "en2 = publish ?pe False (en_nextTx en1 + 1) (en1\<lparr>en_nextTx := en_nextTx en1 + 1, en_dir := fs'\<rparr>)"
  have three: "(alone ev ?put)\<^sup>*\<^sup>* (en1, ready ev ?put []) (en2, PcDone (Inr RUnit))"
    using alone_single [of ev ?put "[]" en1 en2 "Inr (en_nextTx en1 + 1)"] put by (simp add: en2_def)
  have "GetObject ev en2 p c i = Inr (Some v)"
    using cls by (simp add: GetObject_def en2_def en1_def lookup_publish) (simp add: e_Key_def op_defs object_entry_def)
  with one two three show "\<exists>en1 en2 pc. (alone ev ?put)\<^sup>*\<^sup>* (en, PcStart) (en, pc) \<and>
      exec ev (Cmd_Delete p c i) en = (en1, Inr RUnit) \<and>
      (alone ev ?put)\<^sup>*\<^sup>* (en1, pc) (en2, PcDone (Inr RUnit)) \<and> GetObject ev en2 p c i = Inr (Some v)" by blast
  show "\<not> (\<exists>d1 d2. spec ?put d (Inr RUnit) d1 \<and> spec (Cmd_Delete p c i) d1 (Inr RUnit) d2 \<and> objects p c d2 i \<noteq> None)"
    by (auto simp: objects_def split: if_splits)
  show "\<not> (\<exists>d1 d2. spec (Cmd_Delete p c i) d (Inr RUnit) d1 \<and> spec ?put d1 (Inr RUnit) d2)"
    by (auto simp: objects_def split: if_splits)
qed

theorem put_revives_deleted_witness:
  "\<exists>en en1 en2 pc. represents sample_env en (object_db [3]) \<and>
     (alone sample_env (Cmd_Put [] sample_class 1 [4]))\<^sup>*\<^sup>* (en, PcStart) (en, pc) \<and>
     exec sample_env (Cmd_Delete [] sample_class 1) en = (en1, Inr RUnit) \<and>
     (alone sample_env (Cmd_Put [] sample_class 1 [4]))\<^sup>*\<^sup>* (en1, pc) (en2, PcDone (Inr RUnit)) \<and>
     GetObject sample_env en2 [] sample_class 1 = Inr (Some [4])"
proof -
  from sample_object obtain en where en: "represents sample_env en (object_db [3])" by (auto simp: at_def)
  from put_revives_deleted [OF en sample_env_ok sample_has(2), of 1 "[4]"] en show ?thesis by auto
qed

text \<open>
  C23: a class that is not empty can be dropped. \<^verbatim>\<open>DropClass\<close> looks for objects first in the snapshot and then in
  the overlay; when a checkpoint ends in between and moves the objects from the one to the other, it
  finds none. The class is gone, its objects are not: they cannot be read through the engine while the key still
  holds them, and the id counter of the class has been forgotten, so that a class of the same name starts
  again at the ids they have.
\<close>

theorem drop_class_with_objects:
  assumes "represents ev en d" "ev_ok ev" "has_class p c d" "objects p c d i = Some v"
    "query_snapshot ev (en_snap en) p c = Inr []" "can_submit ev (class_entry OpDropClass p c)"
  shows "\<exists>en1 en2. (alone ev (Cmd_DropClass p c))\<^sup>*\<^sup>* (en, PcStart) (en, PcMerge []) \<and>
    Checkpoint ev en = (en1, Inr ()) \<and> represents ev en1 d \<and>
    (alone ev (Cmd_DropClass p c))\<^sup>*\<^sup>* (en1, PcMerge []) (en2, PcDone (Inr RUnit)) \<and>
    GetObject ev en2 p c i = Inl ErrNoClass \<and> en_lookup ev en2 (ObjectKey p c i) = Inr (Some v) \<and>
    gen_Current (en_idgen en2) (ScopeKey p c) = 0"
proof -
  let ?drop = "Cmd_DropClass p c" and ?e = "class_entry OpDropClass p c"
  have cls: "ClassExists en p c" using ClassExists_iff [OF assms(1)] assms(3) by simp
  have one: "(alone ev ?drop)\<^sup>*\<^sup>* (en, PcStart) (en, PcMerge [])"
    by (intro alone_step, simp add: cls, intro alone_step, simp add: cls, intro alone_step, simp add: assms(5))
  from Checkpoint_law [OF representsD(1) [OF assms(1)]] obtain en1 where
    ck: "Checkpoint ev en = (en1, Inr ())" "stores (ev_codec ev) (ev_fuel ev) en1 d" "en_overlay en1 = []"
      "en_classes en1 = en_classes en" "en_idgen en1 = en_idgen en" by blast
  then have rep: "represents ev en1 d" using representsD(2,3) [OF assms(1)] by (simp add: represents_def)
  from submit_succeeds [OF assms(2) represents_open [OF rep] assms(6)] obtain fs where
    s: "submit ev ?e True en1 = (publish ?e True (en_nextTx en1 + 1) (en1\<lparr>en_nextTx := en_nextTx en1 + 1, en_dir := fs\<rparr>),
      Inr (en_nextTx en1 + 1))" .
  define en3 where "en3 = publish ?e True (en_nextTx en1 + 1) (en1\<lparr>en_nextTx := en_nextTx en1 + 1, en_dir := fs\<rparr>)"
  define en2 where "en2 = en3\<lparr>en_classes := removeAll (ScopeKey p c) (en_classes en3),
    en_idgen := gen_Drop (en_idgen en3) (ScopeKey p c)\<rparr>"
  have two: "(alone ev ?drop)\<^sup>*\<^sup>* (en1, ready ev ?drop []) (en3, PcClasses)"
    using alone_single [of ev ?drop "[]" en1 en3 "Inr (en_nextTx en1 + 1)"] s by (simp add: en3_def)
  have three: "(alone ev ?drop)\<^sup>*\<^sup>* (en3, PcClasses) (en2, PcDone (Inr RUnit))"
    by (intro alone_step, simp, intro alone_step) (simp add: en2_def)
  have "(alone ev ?drop)\<^sup>*\<^sup>* (en1, PcMerge []) (en1, ready ev ?drop [])"
    by (intro alone_step) (simp add: ck(3) query_page_def paginate_def)
  with two three have rest: "(alone ev ?drop)\<^sup>*\<^sup>* (en1, PcMerge []) (en2, PcDone (Inr RUnit))" by (meson alone_trans)
  have "en_lookup ev en1 (ObjectKey p c i) = Inr (Some v)"
    using lookup_law [OF ck(2)] assms(4) by (simp add: objects_def)
  moreover have "e_Key ?e = ClassKey p c" by (simp add: e_Key_def class_entry_def op_defs)
  ultimately have "en_lookup ev en2 (ObjectKey p c i) = Inr (Some v)"
    by (simp add: en2_def en3_def lookup_publish ClassKey_neq_ObjectKey [symmetric])
  moreover have "GetObject ev en2 p c i = Inl ErrNoClass" by (simp add: GetObject_def ClassExists_def en2_def)
  moreover have "gen_Current (en_idgen en2) (ScopeKey p c) = 0" by (simp add: en2_def gen_Drop_def gen_Current_def)
  ultimately show ?thesis using one ck(1) rep rest by blast
qed

theorem drop_class_with_objects_witness:
  "\<exists>en en1 en2. represents sample_env en (object_db [3]) \<and>
     (alone sample_env (Cmd_DropClass [] sample_class))\<^sup>*\<^sup>* (en, PcStart) (en, PcMerge []) \<and>
     Checkpoint sample_env en = (en1, Inr ()) \<and>
     (alone sample_env (Cmd_DropClass [] sample_class))\<^sup>*\<^sup>* (en1, PcMerge []) (en2, PcDone (Inr RUnit)) \<and>
     en_lookup sample_env en2 (ObjectKey [] sample_class 1) = Inr (Some [3]) \<and>
     gen_Current (en_idgen en2) (ScopeKey [] sample_class) = 0"
proof -
  from sample_object obtain en where en: "represents sample_env en (object_db [3])" "snap_holds 9 (en_snap en) []"
    by (auto simp: at_def)
  have "query_snapshot sample_env (en_snap en) [] sample_class = Inr []"
    using snap_holds_Scan [OF en(2)] by (simp add: query_snapshot_def)
  from drop_class_with_objects [OF en(1) sample_env_ok sample_has(2), of 1 "[3]", OF _ this] en(1) show ?thesis by auto
qed

section \<open>An object for a class that is gone\<close>

text \<open>
  An object can be acknowledged that nobody can read. \<^verbatim>\<open>CreateObject\<close> looks for its class and logs the
  object later; when the class, which is empty, is dropped in between, both calls succeed, and the object is
  in the log under a class that is not there.
\<close>

theorem create_in_dropped_class:
  assumes "represents ev en d" "ev_ok ev" "has_class p c d" "objects p c d = Map.empty"
    "can_submit ev (class_entry OpDropClass p c)" "can_submit ev (object_entry OpPut p c 1 v)"
  shows "\<exists>en1 en2. (alone ev (Cmd_Create p c v))\<^sup>*\<^sup>* (en, PcStart) (en, PcIds []) \<and>
    exec ev (Cmd_DropClass p c) en = (en1, Inr RUnit) \<and>
    (alone ev (Cmd_Create p c v))\<^sup>*\<^sup>* (en1, PcIds []) (en2, PcDone (Inr (RId 1))) \<and>
    GetObject ev en2 p c 1 = Inl ErrNoClass \<and> en_lookup ev en2 (ObjectKey p c 1) = Inr (Some v)"
proof -
  let ?new = "Cmd_Create p c v" and ?d = "class_entry OpDropClass p c" and ?e = "object_entry OpPut p c 1 v"
  have cls: "ClassExists en p c" using ClassExists_iff [OF assms(1)] assms(3) by simp
  have one: "(alone ev ?new)\<^sup>*\<^sup>* (en, PcStart) (en, PcIds [])" by (intro alone_step) (simp add: cls)
  from ListObjects_law [OF assms(1,3), of 1 0] lists_one assms(4) have none: "ListObjects ev en p c 1 0 = Inr []" by auto
  from submit_succeeds [OF assms(2) represents_open [OF assms(1)] assms(5)] obtain fs where
    s: "submit ev ?d True en = (publish ?d True (en_nextTx en + 1) (en\<lparr>en_nextTx := en_nextTx en + 1, en_dir := fs\<rparr>),
      Inr (en_nextTx en + 1))" .
  define en0 where "en0 = publish ?d True (en_nextTx en + 1) (en\<lparr>en_nextTx := en_nextTx en + 1, en_dir := fs\<rparr>)"
  define en1 where "en1 = en0\<lparr>en_classes := removeAll (ScopeKey p c) (en_classes en0),
    en_idgen := gen_Drop (en_idgen en0) (ScopeKey p c)\<rparr>"
  have two: "exec ev (Cmd_DropClass p c) en = (en1, Inr RUnit)"
    using cls none s by (simp add: DropClass_def en1_def en0_def)
  define en3 where "en3 = en1\<lparr>en_idgen := snd (gen_Next (en_idgen en1) (ScopeKey p c))\<rparr>"
  have "fst (gen_Next (en_idgen en1) (ScopeKey p c)) = 1" by (simp add: en1_def gen_Next_def gen_Drop_def gen_Current_def)
  then have ids: "(alone ev ?new)\<^sup>*\<^sup>* (en1, PcIds []) (en3, ready ev ?new [1])"
    using alone_ids [of en1 p c 1 "[1]" _ ?new "[]"] by (simp add: en3_def case_prod_unfold)
  have "en_open en3" using represents_open [OF assms(1)] by (simp add: en3_def en1_def en0_def)
  from submit_succeeds [OF assms(2) this assms(6)] obtain fs' where
    put: "submit ev ?e False en3 = (publish ?e False (en_nextTx en3 + 1) (en3\<lparr>en_nextTx := en_nextTx en3 + 1, en_dir := fs'\<rparr>),
      Inr (en_nextTx en3 + 1))" .
  define en2 where "en2 = publish ?e False (en_nextTx en3 + 1) (en3\<lparr>en_nextTx := en_nextTx en3 + 1, en_dir := fs'\<rparr>)"
  have id: "e_ObjectID (object_entry OpPut p c j w) = j" for j w by (simp add: object_entry_def)
  have "(alone ev ?new)\<^sup>*\<^sup>* (en3, ready ev ?new [1]) (en2, PcDone (Inr (RId 1)))"
    using alone_single [of ev ?new "[1]" en3 en2 "Inr (en_nextTx en3 + 1)"] put by (simp add: en2_def id)
  with ids have three: "(alone ev ?new)\<^sup>*\<^sup>* (en1, PcIds []) (en2, PcDone (Inr (RId 1)))" by (rule alone_trans)
  have "GetObject ev en2 p c 1 = Inl ErrNoClass" by (simp add: GetObject_def ClassExists_def en2_def en3_def en1_def)
  moreover have "en_lookup ev en2 (ObjectKey p c 1) = Inr (Some v)"
    by (simp add: en2_def lookup_publish) (simp add: e_Key_def op_defs object_entry_def)
  ultimately show ?thesis using one two three by blast
qed

end
