(* ===== verification/Spec2Isabelle.thy ===== *)
theory Spec2Isabelle
  imports Config Oversize Apply HttpDoc Service Writer SequencerLive CheckpointLoop EngineLinSteps EngineRaces
begin

text \<open>
  ZadoDB: a verification of its storage engine, its server and the crash-safety it promises.

  \<^bold>\<open>The program.\<close> ZadoDB (Go) is an object database. A client speaks HTTP with the server
  (\<^verbatim>\<open>internal/server/http\<close>), whose handlers call the engine (\<^verbatim>\<open>internal/storage/engine.go\<close>). A write
  becomes a WAL entry (\<^verbatim>\<open>wal/record.go\<close>), which the sequencer (\<^verbatim>\<open>wal/sequencer.go\<close>) frames, appends and
  syncs before it answers; the engine then puts the value in its overlay. A read looks in the overlay and
  then in the active generation, a B+tree in a data file that is mapped read-only (\<^verbatim>\<open>mvcc\<close>, \<^verbatim>\<open>btree\<close>,
  \<^verbatim>\<open>page\<close>). A checkpoint (\<^verbatim>\<open>checkpoint\<close>) rotates the log, merges it with the active generation into a new
  data file, and publishes that by renaming the file \<^verbatim>\<open>CURRENT\<close> (\<^verbatim>\<open>layout\<close>). At boot, recovery
  (\<^verbatim>\<open>recovery\<close>) completes an interrupted checkpoint, cuts a torn tail off the log and replays the rest.
  \<^verbatim>\<open>cmd/zadodb\<close> and \<^verbatim>\<open>internal/server/daemon\<close> start and stop a server; \<^verbatim>\<open>internal/testutil/loadgen\<close> is the
  client of the resilience tests.

  \<^bold>\<open>Theories and the code they model\<close> (paths under \<^verbatim>\<open>src/internal/storage\<close> unless another is given):

  \<^item> \<^verbatim>\<open>Prelude\<close>: bytes, little-endian words, the errors as one datatype, \<open>'a res\<close> for a pair of a value and
    an error, byte windows, the locale \<open>step_invariant\<close> of what steps keep, and the collections \<open>byte_simps\<close> and \<open>fit_simps\<close>. \<^verbatim>\<open>Crc\<close>: CRC32C.
  \<^item> \<^verbatim>\<open>Page\<close>, \<^verbatim>\<open>PageStore\<close>, \<^verbatim>\<open>Pager\<close>: \<^verbatim>\<open>page/page.go\<close> and \<^verbatim>\<open>page/pager.go\<close>. A page is 4096 bytes;
    \<open>manager\<close> is the file and its number of pages. The locale \<open>page_store_laws\<close> is the interface
    \<^verbatim>\<open>PageStore\<close>; \<open>mgr\<close> interprets it on the manager.
  \<^item> \<^verbatim>\<open>Node\<close>, \<^verbatim>\<open>Codec\<close>, \<^verbatim>\<open>Overflow\<close>, \<^verbatim>\<open>TreeRead\<close>, \<^verbatim>\<open>Builder\<close>, \<^verbatim>\<open>TreeWrite\<close>, \<^verbatim>\<open>Oversize\<close>: \<^verbatim>\<open>btree/*.go\<close>:
    nodes and their encoding, overflow chains, lookup and scan, the bulk loader, the copy-on-write
    insertion and deletion, and what happens to a node that does not fit its page. \<^verbatim>\<open>Apply\<close>:
    \<^verbatim>\<open>apply/apply.go\<close>.
  \<^item> \<^verbatim>\<open>Entry\<close>, \<^verbatim>\<open>Wal\<close>, \<^verbatim>\<open>Sequencer\<close>: \<^verbatim>\<open>wal/*.go\<close>: entries and keys, the framing of the log, and the
    goroutine with its queue as a step relation \<open>seq_step\<close> of clients, goroutine and closer. \<^verbatim>\<open>Writer\<close>: the
    writer with the offset it counts itself, and the goroutine's batches and rotations on it. \<^verbatim>\<open>SequencerLive\<close>: that
    no call of \<^verbatim>\<open>Submit\<close> is stuck.
  \<^item> \<^verbatim>\<open>Layout\<close>: \<^verbatim>\<open>layout/layout.go\<close> and the directory; \<^verbatim>\<open>Idgen\<close>: \<^verbatim>\<open>idgen/idgen.go\<close>; \<^verbatim>\<open>Mvcc\<close>:
    \<^verbatim>\<open>mvcc/snapshot.go\<close>, the reads and the step relation \<open>mf_step\<close> of readers and the swapper.
  \<^item> \<^verbatim>\<open>Merge\<close>, \<^verbatim>\<open>Checkpoint\<close>: \<^verbatim>\<open>checkpoint/checkpoint.go\<close>; \<^verbatim>\<open>Recovery\<close>: \<^verbatim>\<open>recovery/recovery.go\<close>.
  \<^item> \<^verbatim>\<open>Engine\<close>: \<^verbatim>\<open>engine.go\<close>; the record \<open>engine\<close> holds the directory, the transaction counter, the snapshot,
    the overlay, the classes, the id counters and the active generation. \<^verbatim>\<open>EngineStore\<close> says what they stand for
    together, \<^verbatim>\<open>EngineQuery\<close> is about queries, \<^verbatim>\<open>EngineSpec\<close> the contract and its refinement,
    \<^verbatim>\<open>EngineCrash\<close> crashes, \<^verbatim>\<open>EngineProps\<close> and \<^verbatim>\<open>EngineHistory\<close> the properties, \<^verbatim>\<open>EngineApi\<close> the locale
    \<open>object_store\<close> that clients rely on, interpreted on the engine as \<open>zdb\<close>, \<^verbatim>\<open>EngineConc\<close> the engine with
    writers, readers and a checkpoint interleaved, and \<^verbatim>\<open>EngineSample\<close> a concrete run. \<^verbatim>\<open>CheckpointLoop\<close>: the
    runs \<open>loop_run\<close> of the goroutine that takes checkpoints, its ticks among the calls of the clients.
  \<^item> \<^verbatim>\<open>EngineCalls\<close>, \<^verbatim>\<open>EngineLin\<close>, \<^verbatim>\<open>EngineLinSteps\<close>, \<^verbatim>\<open>EngineRaces\<close>: the calls of \<^verbatim>\<open>engine.go\<close> that overlap. \<open>call_step\<close> cuts
    each function where another goroutine may run, \<open>call_pc\<close> says where a call is; the record \<open>callers\<close> holds the engine, the
    calls under way, the checkpoint and the history, and \<open>sys_step\<close> interleaves them; \<open>sys_inv\<close> is the
    invariant. \<^verbatim>\<open>EngineRaces\<close> has the overlaps that go wrong.
  \<^item> \<^verbatim>\<open>Filters\<close>, \<^verbatim>\<open>Http\<close>, \<^verbatim>\<open>HttpProps\<close>, \<^verbatim>\<open>HttpDoc\<close>: \<^verbatim>\<open>src/internal/server/http/*.go\<close>: the query filters, every handler,
    routing and panic recovery. \<open>serve\<close> routes as Go's \<^verbatim>\<open>ServeMux\<close> does: a path that is not clean is redirected, a
    wildcard takes one unescaped segment, what has no route is answered in plain text, and HEAD goes where
    GET goes, without a body. \<^verbatim>\<open>HttpDoc\<close> has the answers of \<^verbatim>\<open>docs/api/rest-api.md\<close>, line by line. \<^verbatim>\<open>Config\<close>: \<^verbatim>\<open>src/internal/server/config/config.go\<close>.
  \<^item> \<^verbatim>\<open>Loadgen\<close>: \<^verbatim>\<open>src/internal/testutil/loadgen/loadgen.go\<close> and the system its workers form with the server.
  \<^item> \<^verbatim>\<open>Service\<close>: \<^verbatim>\<open>src/cmd/zadodb/*.go\<close> and \<^verbatim>\<open>src/internal/server/daemon/*.go\<close>.

  A definition has the name of the Go function it translates, with a prefix where the name is not unique
  (\<open>page_\<close>, \<open>mgr_\<close>, \<open>tree_\<close>, \<open>btree_\<close>, \<open>wal_\<close>, \<open>gen_\<close>, \<open>snap_\<close>, \<open>mf_\<close>, \<open>en_\<close>, \<open>seq_\<close>); a loop has a name of
  its own. Machine integers are words: object and transaction ids are \<open>u64\<close>, read as \<open>int64\<close> through
  \<open>sint\<close> where the code compares them signed; durations are \<open>int\<close> with the wrap-around written out.

  \<^bold>\<open>Disk and crashes.\<close> The directory is a list of files. An operation that touches it is the list of its
  steps (\<open>fs_step\<close>: write, append, truncate, rename, create, remove) and its result. \<open>crashed steps fs fs'\<close>
  says that \<open>fs'\<close> is what a kill leaves: a prefix of the steps, with the next one torn, where a torn append
  leaves any prefix of the bytes, a torn write any contents, and a rename is atomic.

  \<^bold>\<open>What the lemmas show.\<close>

  \<^item> Files: encoders and decoders are inverse on what the code writes, any one-byte change of a page is
    detected, a log is read back as appended, and cut anywhere as its whole records.
  \<^item> Trees: \<open>tree_of\<close> says that the pages under a root hold a sorted list of pairs. Bulk loading, insertion and
    deletion establish it, lookup and scan answer from it, and the old root stays valid.
  \<^item> Directories: \<open>dir_has\<close> relates a directory to generation, base, retired and active log; \<open>dir_db\<close> is the map of
    keys to values it stands for. A checkpoint keeps it at every crash point (locale \<open>dir_invariant\<close>,
    interpreted for the plain directory and for the engine's), and recovery finds it.
  \<^item> Engine: \<open>represents ev en d\<close> says that overlay, snapshot, classes, counters and directory of an engine stand
    for the database \<open>d\<close>. Every command refines its specification \<open>spec\<close>; crashes at any step lose nothing
    that was answered; histories of commands, crashes and restarts keep what their answers say.
  \<^item> Concurrency: the sequencer acknowledges only what is in the log under a number of its own, whatever the
    interleaving; a group commit is the same writes one after the other; with writers, readers and the
    steps of a checkpoint interleaved, a read gives the last write to the key and a kill loses nothing that is
    logged (\<open>conc_inv\<close>); mapped snapshots are released.
  \<^item> Overlapping calls: uninterrupted, the steps of a call are the function of \<^verbatim>\<open>Engine\<close>. Any number of calls of which none
    writes what an overlapping one reads, interleaved with each other and with checkpoints (none of which prunes the overlay while a query is between its scan of the snapshot and the overlay), answer as the commands in
    some order in which each takes effect between its call and its return, and a kill at any moment keeps what has
    taken effect. The code enforces neither condition, and both are needed: a query misses objects, a put brings a
    deleted object back, a class with objects is dropped, an object is acknowledged in a class that is gone.
  \<^item> The checkpoint loop: from its start and among calls, it keeps the log below its threshold, and what is older than
    the interval out of the overlay.
  \<^item> Server: every request is answered as documented, requests that are refused change nothing, objects come back as sent, listings answer exactly the
    objects that satisfy every filter (when the stored objects decode to maps that are not nil), and filters are what their
    patterns say. What the load
    generator records as acknowledged is answered after any kill and restart; a stop loses nothing.
  \<^item> Failures: each group has lemmas on what the code does when the disk or a request is at fault, also where
    that is not what it means to do.

  \<^bold>\<open>Bounds and fuel.\<close> Recursion over pages takes fuel, and runs out with an error of its own
  (\<open>NoFuel\<close>), which no theorem excludes by hypothesis on the result: \<open>enough_fuel\<close> asks for more than the height
  of the tree and the chunks of a value, and under it the functions succeed. \<open>mgr_cap\<close>, \<open>2 ^ 51\<close> pages, keeps the file's
  size below \<open>2 ^ 63\<close>. \<open>maxKeyLen\<close>, 3543, is the longest key that fits a leaf with any inline value. Insertion is
  proved for entries of at most \<open>maxEntry\<close>, 112 bytes, for which halving a leaf by number always fits; for longer
  ones \<^verbatim>\<open>Oversize\<close> shows that it need not. \<open>has_room\<close> asks for a transaction number and ids left below the
  wrap-around, and that the database a command makes is within these bounds (\<open>db_ok\<close>).

  \<^bold>\<open>Parameters.\<close> The msgpack codec of entries, with the law that what it encodes it decodes; the JSON and
  msgpack codecs of objects, case folding, and floating-point formatting (\<open>lib\<close>); YAML; the operating system where the model
  asks for its answer: writes and syncs of a batch, the calls of a rotation, the service
  managers. Go's \<^verbatim>\<open>flag\<close>, \<^verbatim>\<open>strconv\<close>, \<^verbatim>\<open>strings\<close>, \<^verbatim>\<open>sort\<close>, the routing of \<^verbatim>\<open>net/http\<close> and the fragment of \<^verbatim>\<open>regexp\<close> that filters make
  are modelled.

  \<^bold>\<open>Not modelled.\<close> The sockets, timeouts and headers of \<^verbatim>\<open>net/http\<close>, request logging, printed messages, the
  process killer of the tests (its effect is a step of the sessions), times shown in statistics, and reordering
  of unsynced writes by the disk. HTTP handlers run one after the other, each as a whole, since every one makes at most one
  call of the engine; overlapping calls are modelled below them: of the sequencer in \<^verbatim>\<open>Sequencer\<close>, of the engine in
  \<^verbatim>\<open>EngineCalls\<close> to \<^verbatim>\<open>EngineRaces\<close>, of the mapped file in \<^verbatim>\<open>Mvcc\<close>. A submission to the sequencer is one step of a
  call there; what happens inside is in \<^verbatim>\<open>Sequencer\<close>. Two callers of \<^verbatim>\<open>Checkpoint\<close> wait for each other in the code,
  so that one is under way at a time. What goes wrong when two writes to one key overlap is also in \<^verbatim>\<open>EngineProps\<close>.
\<close>

end
